(* ===== verification/HL_Prelude.thy ===== *)
theory HL_Prelude
  imports Main "HOL-Library.Word" "HOL-Library.Signed_Division"
begin

text \<open>
  Shared vocabulary of the development: the machine integers of the C++ sources, the decimal
  digits and hexadecimal digits that the printers and parsers use, and the generic lemmas on
  lists, maps and words that the component theories rely on.

  \<^item> \<open>std::int64_t\<close> is an \<^typ>\<open>int\<close> kept in range by \<open>wrap64\<close>, the two's complement
    reduction of an arithmetic result; \<open>in_i64\<close> is the range itself. Division and remainder
    are the library's truncating \<open>sdiv\<close> and \<open>smod\<close>, as in C++.
  \<^item> \<open>std::uint8_t\<close>, \<open>uint32_t\<close>, \<open>uint64_t\<close> are words where bits matter (\<open>u8\<close>, \<open>u32\<close>,
    \<open>u64\<close>).
\<close>

named_theorems hl_arith \<open>arithmetic of wrapped 64-bit integers\<close>
named_theorems hl_inv \<open>operations that keep a component invariant\<close>

type_synonym u8 = "8 word"
type_synonym u16 = "16 word"
type_synonym u32 = "32 word"
type_synonym u64 = "64 word"

section \<open>64-bit signed arithmetic\<close>

definition in_i64 :: "int \<Rightarrow> bool" where
  "in_i64 x \<longleftrightarrow> - (2 ^ 63) \<le> x \<and> x < 2 ^ 63"

definition wrap64 :: "int \<Rightarrow> int" where
  "wrap64 x = (x + 2 ^ 63) mod 2 ^ 64 - 2 ^ 63"

text \<open>The narrowing conversion to a 32-bit \<open>int\<close>.\<close>

definition wrap32 :: "int \<Rightarrow> int" where
  "wrap32 x = (x + 2 ^ 31) mod 2 ^ 32 - 2 ^ 31"

lemma wrap64_id [hl_arith]: "in_i64 x \<Longrightarrow> wrap64 x = x"
  by (simp add: in_i64_def wrap64_def)

lemma wrap64_range [simp, intro]: "in_i64 (wrap64 x)"
proof -
  have "0 \<le> (x + 2 ^ 63) mod 2 ^ 64" and "(x + 2 ^ 63) mod 2 ^ 64 < (2 ^ 64 :: int)"
    by simp_all
  then show ?thesis by (simp add: in_i64_def wrap64_def)
qed

lemma wrap64_idem [simp]: "wrap64 (wrap64 x) = wrap64 x"
  by (simp add: wrap64_id)

lemma in_i64_0 [simp]: "in_i64 0"
  by (simp add: in_i64_def)

lemma in_i64_between:
  "in_i64 a \<Longrightarrow> in_i64 b \<Longrightarrow> a \<le> x \<Longrightarrow> x \<le> b \<Longrightarrow> in_i64 x"
  by (simp add: in_i64_def)

text \<open>Truncating division in terms of the library's flooring one.\<close>

lemma sdiv_nonneg: "0 \<le> (a::int) \<Longrightarrow> 0 < b \<Longrightarrow> a sdiv b = a div b"
  by (cases "a = 0") (simp_all add: signed_divide_int_def)

lemma smod_eq: "(a::int) smod b = a - b * (a sdiv b)"
  by (simp add: minus_mult_sdiv_eq_smod)

lemma sdiv_neg: "(a::int) < 0 \<Longrightarrow> 0 < b \<Longrightarrow> a sdiv b = - ((- a) div b)"
  by (simp add: signed_divide_int_def)

lemma abs_sdiv_le: "0 < (b::int) \<Longrightarrow> \<bar>a sdiv b\<bar> \<le> \<bar>a\<bar>"
proof (cases "0 \<le> a")
  case True
  moreover assume "0 < b"
  ultimately show ?thesis
    using zdiv_mono2[of a 1 b] by (simp add: sdiv_nonneg pos_imp_zdiv_nonneg_iff)
next
  case False
  moreover assume "0 < b"
  ultimately show ?thesis
    using zdiv_mono2[of "- a" 1 b]
    by (simp add: sdiv_neg pos_imp_zdiv_nonneg_iff)
qed

section \<open>Decimal digits\<close>

text \<open>
  The digit test of the sources is \<open>static_cast<unsigned>(*p - '0') <= 9\<close>: exactly the
  characters with codes 48 to 57.
\<close>

definition is_digit :: "char \<Rightarrow> bool" where
  "is_digit c \<longleftrightarrow> 48 \<le> (of_char c :: nat) \<and> (of_char c :: nat) \<le> 57"

definition digit_val :: "char \<Rightarrow> nat" where
  "digit_val c = of_char c - 48"

definition digit_char :: "nat \<Rightarrow> char" where
  "digit_char d = char_of (48 + d)"

lemma of_char_digit_char: "d < 10 \<Longrightarrow> of_char (digit_char d) = (48 + d :: nat)"
  by (simp add: digit_char_def)

lemma is_digit_digit_char [simp]: "d < 10 \<Longrightarrow> is_digit (digit_char d)"
  by (simp add: is_digit_def of_char_digit_char)

lemma digit_val_digit_char [simp]: "d < 10 \<Longrightarrow> digit_val (digit_char d) = d"
  by (simp add: digit_val_def of_char_digit_char)

lemma digit_val_less: "is_digit c \<Longrightarrow> digit_val c < 10"
  by (auto simp: is_digit_def digit_val_def)

lemma digit_char_digit_val: "is_digit c \<Longrightarrow> digit_char (digit_val c) = c"
  by (simp add: is_digit_def digit_val_def digit_char_def)

lemma not_is_digit_dot [simp]: "\<not> is_digit CHR ''.''"
  by (simp add: is_digit_def)

lemma not_is_digit_minus [simp]: "\<not> is_digit CHR ''-''"
  by (simp add: is_digit_def)

lemma not_is_digit_plus [simp]: "\<not> is_digit CHR ''+''"
  by (simp add: is_digit_def)

text \<open>The value of a digit string, most significant digit first.\<close>

definition digits_val :: "string \<Rightarrow> nat" where
  "digits_val s = foldl (\<lambda>m c. m * 10 + digit_val c) 0 s"

lemma foldl_digits:
  "foldl (\<lambda>m c. m * 10 + digit_val c) m s = m * 10 ^ length s + digits_val s"
proof (induction s arbitrary: m)
  case Nil
  then show ?case by (simp add: digits_val_def)
next
  case (Cons c s)
  show ?case
    using Cons[of "m * 10 + digit_val c"] Cons[of "digit_val c"]
    by (simp add: digits_val_def algebra_simps)
qed

lemma digits_val_Nil [simp]: "digits_val [] = 0"
  by (simp add: digits_val_def)

lemma digits_val_Cons: "digits_val (c # s) = digit_val c * 10 ^ length s + digits_val s"
  using foldl_digits[of "digit_val c" s] by (simp add: digits_val_def)

lemma digits_val_append: "digits_val (s @ t) = digits_val s * 10 ^ length t + digits_val t"
  by (induction s) (simp_all add: digits_val_Cons algebra_simps power_add)

lemma digits_val_snoc: "digits_val (s @ [c]) = digits_val s * 10 + digit_val c"
  by (simp add: digits_val_append digits_val_Cons)

lemma digits_val_less: "list_all is_digit s \<Longrightarrow> digits_val s < 10 ^ length s"
proof (induction s)
  case Nil
  then show ?case by simp
next
  case (Cons c s)
  then have d: "digit_val c \<le> 9" and v: "digits_val s < 10 ^ length s"
    using digit_val_less[of c] by simp_all
  from d have "digit_val c * 10 ^ length s \<le> 9 * 10 ^ length s"
    by (rule mult_le_mono1)
  with v have "digit_val c * 10 ^ length s + digits_val s < 10 * 10 ^ length s"
    by linarith
  then show ?case by (simp add: digits_val_Cons)
qed

section \<open>Lists\<close>

lemma takeWhile_append_stop:
  "list_all P xs \<Longrightarrow> ys = [] \<or> \<not> P (hd ys) \<Longrightarrow> takeWhile P (xs @ ys) = xs"
  by (induction xs) (auto simp: takeWhile_eq_Nil_iff)

lemma dropWhile_append_stop:
  "list_all P xs \<Longrightarrow> ys = [] \<or> \<not> P (hd ys) \<Longrightarrow> dropWhile P (xs @ ys) = ys"
  by (induction xs) (auto simp: dropWhile_eq_self_iff)

lemma list_all_takeWhile [simp]: "list_all P (takeWhile P xs)"
  by (induction xs) auto

end
