(* ===== verification/HL_Decimal.thy ===== *)
theory HL_Decimal
  imports HL_Prelude
begin

text \<open>
  \<open>hl::Decimal\<close> (\<open>include/hl/core/Decimal.h\<close>, \<open>src/core/Decimal.cpp\<close>): a signed 64-bit
  mantissa with eight implied decimals. The theory models the parser, the printer, the
  arithmetic with its 128-bit intermediates and saturation, and \<open>roundToQuantum\<close>. The two
  conversions from and to \<open>double\<close> are in \<open>HL_Double\<close>.
\<close>

section \<open>The type\<close>

datatype decimal = Decimal (raw: int)

instantiation decimal :: linorder
begin

definition less_eq_decimal :: "decimal \<Rightarrow> decimal \<Rightarrow> bool" where
  "less_eq_decimal a b \<longleftrightarrow> raw a \<le> raw b"

definition less_decimal :: "decimal \<Rightarrow> decimal \<Rightarrow> bool" where
  "less_decimal a b \<longleftrightarrow> raw a < raw b"

instance
  by standard (auto simp: less_eq_decimal_def less_decimal_def decimal.expand)

end

definition kDecimals :: nat where
  "kDecimals = 8"

definition kScale :: int where
  "kScale = 100000000"

definition kMaxRaw :: nat where
  "kMaxRaw = 9223372036854775807"

definition kMaxChars :: nat where
  "kMaxChars = 24"

text \<open>The representation invariant: the mantissa is an \<open>int64_t\<close>.\<close>

definition wf_decimal :: "decimal \<Rightarrow> bool" where
  "wf_decimal d \<longleftrightarrow> in_i64 (raw d)"

definition fromRaw :: "int \<Rightarrow> decimal" where
  "fromRaw r = Decimal r"

definition fromInt :: "int \<Rightarrow> decimal" where
  "fromInt units = Decimal (wrap64 (units * kScale))"

definition dec_zero :: decimal where
  "dec_zero = Decimal 0"

definition isZero :: "decimal \<Rightarrow> bool" where
  "isZero d \<longleftrightarrow> raw d = 0"

definition isNegative :: "decimal \<Rightarrow> bool" where
  "isNegative d \<longleftrightarrow> raw d < 0"

definition dec_max :: decimal where
  "dec_max = Decimal 9223372036854775807"

definition dec_min :: decimal where
  "dec_min = Decimal (- 9223372036854775807 - 1)"

definition isSaturated :: "decimal \<Rightarrow> bool" where
  "isSaturated d \<longleftrightarrow> raw d = raw dec_max \<or> raw d = raw dec_min"

definition dec_neg :: "decimal \<Rightarrow> decimal" where
  "dec_neg d = Decimal (wrap64 (- raw d))"

definition dec_add :: "decimal \<Rightarrow> decimal \<Rightarrow> decimal" where
  "dec_add a b = Decimal (wrap64 (raw a + raw b))"

definition dec_sub :: "decimal \<Rightarrow> decimal \<Rightarrow> decimal" where
  "dec_sub a b = Decimal (wrap64 (raw a - raw b))"

section \<open>Parsing\<close>

text \<open>
  The scanner's two loops. The mantissa is a \<open>uint64_t\<close>; the guard before each
  multiplication keeps it within \<open>kMaxRaw\<close>, so it never wraps and is a natural number here.
\<close>

fun scan_int :: "nat \<Rightarrow> bool \<Rightarrow> string \<Rightarrow> (nat \<times> bool \<times> string) option" where
  "scan_int mantissa anyDigit [] = Some (mantissa, anyDigit, [])"
| "scan_int mantissa anyDigit (c # p) =
     (if is_digit c then
        (if mantissa > (kMaxRaw - digit_val c) div 10 then None
         else scan_int (mantissa * 10 + digit_val c) True p)
      else Some (mantissa, anyDigit, c # p))"

fun scan_frac :: "nat \<Rightarrow> nat \<Rightarrow> bool \<Rightarrow> string \<Rightarrow> (nat \<times> nat \<times> bool \<times> string) option" where
  "scan_frac mantissa fracDigits anyDigit [] = Some (mantissa, fracDigits, anyDigit, [])"
| "scan_frac mantissa fracDigits anyDigit (c # p) =
     (if is_digit c then
        (if fracDigits < kDecimals then
           (if mantissa > (kMaxRaw - digit_val c) div 10 then None
            else scan_frac (mantissa * 10 + digit_val c) (fracDigits + 1) True p)
         else scan_frac mantissa fracDigits True p)
      else Some (mantissa, fracDigits, anyDigit, c # p))"

function pad_frac :: "nat \<Rightarrow> nat \<Rightarrow> nat option" where
  "pad_frac mantissa fracDigits =
     (if fracDigits < kDecimals then
        (if mantissa > kMaxRaw div 10 then None
         else pad_frac (mantissa * 10) (fracDigits + 1))
      else Some mantissa)"
  by pat_completeness auto
termination
  by (relation "measure (\<lambda>(m, f). kDecimals - f)") auto

declare pad_frac.simps [simp del]

definition parse_sign :: "string \<Rightarrow> bool \<times> string" where
  "parse_sign text =
     (case text of
        [] \<Rightarrow> (False, [])
      | c # p \<Rightarrow> if c = CHR ''-'' \<or> c = CHR ''+'' then (c = CHR ''-'', p) else (False, text))"

definition parse :: "string \<Rightarrow> decimal option" where
  "parse text =
     (if text = [] then None
      else let (negative, p) = parse_sign text in
        case scan_int 0 False p of
          None \<Rightarrow> None
        | Some (mantissa, anyDigit, p) \<Rightarrow>
            (case (if p \<noteq> [] \<and> hd p = CHR ''.'' then scan_frac mantissa 0 anyDigit (tl p)
                   else Some (mantissa, 0, anyDigit, p)) of
               None \<Rightarrow> None
             | Some (mantissa, fracDigits, anyDigit, p) \<Rightarrow>
                 if p \<noteq> [] \<or> \<not> anyDigit then None
                 else (case pad_frac mantissa fracDigits of
                         None \<Rightarrow> None
                       | Some m \<Rightarrow> Some (Decimal (if negative then - int m else int m)))))"

definition parseOrZero :: "string \<Rightarrow> decimal" where
  "parseOrZero text = (case parse text of Some d \<Rightarrow> d | None \<Rightarrow> dec_zero)"

section \<open>Printing\<close>

text \<open>
  \<open>toChars\<close> fills its buffer from the end, so a write \<open>buf[--pos] = c\<close> conses \<open>c\<close> to
  the text produced so far. The trimming loop runs only when \<open>fracPart\<close> is not zero, which
  its guard repeats.
\<close>

fun trim_zeros :: "nat \<Rightarrow> nat \<Rightarrow> nat \<times> nat" where
  "trim_zeros fracPart width =
     (if fracPart \<noteq> 0 \<and> fracPart mod 10 = 0 then trim_zeros (fracPart div 10) (width - 1)
      else (fracPart, width))"

declare trim_zeros.simps [simp del]

primrec emit_digits :: "nat \<Rightarrow> nat \<Rightarrow> string \<Rightarrow> string" where
  "emit_digits 0 v buf = buf"
| "emit_digits (Suc n) v buf = emit_digits n (v div 10) (digit_char (v mod 10) # buf)"

fun emit_int :: "nat \<Rightarrow> string \<Rightarrow> string" where
  "emit_int intPart buf =
     (if intPart div 10 \<noteq> 0 then emit_int (intPart div 10) (digit_char (intPart mod 10) # buf)
      else digit_char (intPart mod 10) # buf)"

declare emit_int.simps [simp del]

definition magnitude :: "decimal \<Rightarrow> nat" where
  "magnitude d = (if raw d < 0 then nat (- (raw d + 1)) + 1 else nat (raw d))"

definition toChars :: "decimal \<Rightarrow> string" where
  "toChars d =
     (let intPart = magnitude d div nat kScale;
          fracPart = magnitude d mod nat kScale;
          buf = (if fracPart \<noteq> 0 then
                   (let (f, width) = trim_zeros fracPart kDecimals in CHR ''.'' # emit_digits width f [])
                 else []);
          buf = emit_int intPart buf
      in if raw d < 0 then CHR ''-'' # buf else buf)"

definition appendTo :: "decimal \<Rightarrow> string \<Rightarrow> string" where
  "appendTo d out = out @ toChars d"

definition dec_toString :: "decimal \<Rightarrow> string" where
  "dec_toString d = appendTo d []"

section \<open>Saturating product and quotient\<close>

definition saturate :: "int \<Rightarrow> int" where
  "saturate value =
     (if value > raw dec_max then raw dec_max
      else if value < raw dec_min then raw dec_min
      else value)"

definition dec_mul :: "decimal \<Rightarrow> decimal \<Rightarrow> decimal" where
  "dec_mul a b = Decimal (saturate ((raw a * raw b) sdiv kScale))"

definition dec_div :: "decimal \<Rightarrow> decimal \<Rightarrow> decimal" where
  "dec_div a b =
     (if raw b = 0 then dec_zero else Decimal (saturate ((raw a * kScale) sdiv raw b)))"

section \<open>Rounding to a quantum\<close>

datatype rounding_mode = Down | Up | Nearest

definition roundToQuantum :: "decimal \<Rightarrow> int \<Rightarrow> rounding_mode \<Rightarrow> decimal" where
  "roundToQuantum value quantumRaw mode =
     (if quantumRaw \<le> 1 then value
      else let r = raw value;
               q0 = r sdiv quantumRaw;
               floorMultiple = (if r smod quantumRaw \<noteq> 0 \<and> r < 0 then q0 - 1 else q0);
               down = wrap64 (floorMultiple * quantumRaw)
           in if down = r then value
              else let up = wrap64 (down + quantumRaw)
                   in case mode of
                        Down \<Rightarrow> fromRaw down
                      | Up \<Rightarrow> fromRaw up
                      | Nearest \<Rightarrow>
                          (let distDown = wrap64 (r - down); distUp = wrap64 (up - r)
                           in if distDown = distUp then fromRaw (if r \<ge> 0 then up else down)
                              else fromRaw (if distDown < distUp then down else up)))"

section \<open>Specification of the literals\<close>

text \<open>The number a literal denotes: an integer part and at most eight fractional digits.\<close>

definition literal_raw :: "string \<Rightarrow> string \<Rightarrow> nat" where
  "literal_raw ip fp =
     digits_val ip * 10 ^ 8 + digits_val (take 8 fp) * 10 ^ (8 - length (take 8 fp))"

text \<open>The literals \<open>parse\<close> documents: an optional sign, digits, an optional point and digits.\<close>

definition is_literal :: "string \<Rightarrow> bool \<Rightarrow> string \<Rightarrow> string \<Rightarrow> bool" where
  "is_literal tx neg ip fp \<longleftrightarrow>
     list_all is_digit ip \<and> list_all is_digit fp \<and> (ip \<noteq> [] \<or> fp \<noteq> []) \<and>
     (\<exists>sg dot. tx = sg @ ip @ dot @ fp \<and>
        (sg = ''-'' \<and> neg \<or> sg \<in> {[], ''+''} \<and> \<not> neg) \<and>
        (dot = ''.'' \<or> dot = [] \<and> fp = []))"

section \<open>The scanner against its specification\<close>

lemma guard_iff: "d \<le> 9 \<Longrightarrow> (m > (kMaxRaw - d) div 10) = (m * 10 + d > kMaxRaw)"
proof -
  assume "d \<le> 9"
  have "(m \<le> (kMaxRaw - d) div 10) = (m * 10 \<le> kMaxRaw - d)"
    by (rule less_eq_div_iff_mult_less_eq) simp
  also have "\<dots> = (m * 10 + d \<le> kMaxRaw)"
    using \<open>d \<le> 9\<close> by (simp add: kMaxRaw_def le_diff_conv2)
  finally show ?thesis by (simp add: not_le[symmetric])
qed

lemma guard_pad_iff: "(m > kMaxRaw div 10) = (m * 10 > kMaxRaw)"
  using guard_iff[of 0 m] by simp

lemma shift_ge: "(m::nat) \<le> m * 10 ^ k + v"
proof -
  have "m * 1 \<le> m * 10 ^ k"
    by (rule mult_le_mono2) simp
  then show ?thesis by linarith
qed

lemma scan_int_eq:
  "m \<le> kMaxRaw \<Longrightarrow>
   scan_int m any p =
     (let ds = takeWhile is_digit p; v = m * 10 ^ length ds + digits_val ds
      in if v \<le> kMaxRaw then Some (v, any \<or> ds \<noteq> [], dropWhile is_digit p) else None)"
proof (induction m any p rule: scan_int.induct)
  case (2 m any c p)
  show ?case
  proof (cases "is_digit c")
    case dig: True
    then have d9: "digit_val c \<le> 9"
      using digit_val_less by fastforce
    show ?thesis
    proof (cases "m * 10 + digit_val c > kMaxRaw")
      case True
      then have "(m * 10 + digit_val c) * 10 ^ length (takeWhile is_digit p)
                   + digits_val (takeWhile is_digit p) > kMaxRaw"
        by (rule less_le_trans[OF _ shift_ge])
      with dig True d9 show ?thesis
        by (simp add: guard_iff digits_val_Cons Let_def algebra_simps)
    next
      case False
      with 2 dig d9 show ?thesis
        by (simp add: guard_iff digits_val_Cons Let_def algebra_simps)
    qed
  next
    case False
    with 2 show ?thesis by simp
  qed
qed simp

lemma scan_frac_eq:
  "m \<le> kMaxRaw \<Longrightarrow> f \<le> kDecimals \<Longrightarrow>
   scan_frac m f any p =
     (let ds = takeWhile is_digit p; used = take (kDecimals - f) ds;
          v = m * 10 ^ length used + digits_val used
      in if v \<le> kMaxRaw then Some (v, f + length used, any \<or> ds \<noteq> [], dropWhile is_digit p)
         else None)"
proof (induction m f any p rule: scan_frac.induct)
  case (2 m f any c p)
  show ?case
  proof (cases "is_digit c")
    case dig: True
    then have d9: "digit_val c \<le> 9"
      using digit_val_less by fastforce
    show ?thesis
    proof (cases "f < kDecimals")
      case f: True
      then obtain k where k: "kDecimals - f = Suc k" "kDecimals - Suc f = k"
        by (metis Suc_diff_Suc)
      show ?thesis
      proof (cases "m * 10 + digit_val c > kMaxRaw")
        case True
        let ?u = "take k (takeWhile is_digit p)"
        have "(m * 10 + digit_val c) * 10 ^ length ?u + digits_val ?u > kMaxRaw"
          using True by (rule less_le_trans[OF _ shift_ge])
        with dig f True d9 k show ?thesis
          by (simp add: guard_iff digits_val_Cons Let_def algebra_simps del: length_take)
      next
        case False
        with 2 dig f d9 k show ?thesis
          by (simp add: guard_iff digits_val_Cons Let_def algebra_simps del: length_take)
      qed
    next
      case False
      with 2 dig show ?thesis by (simp add: Let_def)
    qed
  next
    case False
    with 2 show ?thesis by simp
  qed
qed simp

lemma pad_frac_eq:
  "f \<le> kDecimals \<Longrightarrow>
   pad_frac m f = (if m * 10 ^ (kDecimals - f) \<le> kMaxRaw \<or> f = kDecimals
                   then Some (m * 10 ^ (kDecimals - f)) else None)"
proof (induction m f rule: pad_frac.induct)
  case (1 m f)
  show ?case
  proof (cases "f < kDecimals")
    case True
    then obtain k where k: "kDecimals - f = Suc k" "kDecimals - Suc f = k"
      by (metis Suc_diff_Suc)
    show ?thesis
    proof (cases "m * 10 > kMaxRaw")
      case big: True
      then have "m * 10 * 10 ^ k + 0 > kMaxRaw"
        by (rule less_le_trans[OF _ shift_ge])
      with True big k show ?thesis
        by (simp add: pad_frac.simps[of m f] guard_pad_iff algebra_simps)
    next
      case False
      with 1 True k show ?thesis
        by (cases "Suc f = kDecimals")
          (auto simp: pad_frac.simps[of m f] guard_pad_iff algebra_simps)
    qed
  next
    case False
    with 1(2) have "f = kDecimals" by simp
    then show ?thesis by (simp add: pad_frac.simps[of m])
  qed
qed

lemma scan_then_pad:
  assumes "digits_val ip \<le> kMaxRaw"
  shows "(let u = take 8 fp; v = digits_val ip * 10 ^ length u + digits_val u in
          if v \<le> kMaxRaw then pad_frac v (length u) else None)
       = (if literal_raw ip fp \<le> kMaxRaw then Some (literal_raw ip fp) else None)"
proof -
  define u where "u = take 8 fp"
  define v where "v = digits_val ip * 10 ^ length u + digits_val u"
  have len: "length u \<le> kDecimals"
    by (simp add: u_def kDecimals_def)
  have "v * 10 ^ (8 - length u) = digits_val ip * (10 ^ length u * 10 ^ (8 - length u))
          + digits_val u * 10 ^ (8 - length u)"
    by (simp add: v_def algebra_simps)
  also have "10 ^ length u * 10 ^ (8 - length u) = (10 ^ 8 :: nat)"
    using len by (simp add: kDecimals_def flip: power_add)
  finally have val: "v * 10 ^ (8 - length u) = literal_raw ip fp"
    by (simp add: literal_raw_def u_def)
  have "v \<le> literal_raw ip fp"
    using val by (metis One_nat_def Suc_leI mult.right_neutral mult_le_mono2 zero_less_numeral zero_less_power)
  moreover have "length u = 8 \<Longrightarrow> literal_raw ip fp = v"
    using val by simp
  ultimately show ?thesis
    using pad_frac_eq[OF len, of v] val
    by (auto simp: kDecimals_def Let_def simp flip: u_def v_def)
qed

lemma parse_sign_split:
  "tx \<noteq> [] \<Longrightarrow> parse_sign tx = (neg, p) \<Longrightarrow>
   \<exists>sg. tx = sg @ p \<and> (sg = ''-'' \<and> neg \<or> sg \<in> {[], ''+''} \<and> \<not> neg)"
  by (cases tx) (auto simp: parse_sign_def split: if_splits)

lemma parse_scanned:
  assumes "tx \<noteq> []" and "parse_sign tx = (neg, p)"
    and "ip = takeWhile is_digit p" and "r = dropWhile is_digit p"
    and "(fp, rest) = (if r \<noteq> [] \<and> hd r = CHR ''.''
                       then (takeWhile is_digit (tl r), dropWhile is_digit (tl r)) else ([], r))"
  shows "parse tx =
    (if rest \<noteq> [] \<or> ip = [] \<and> fp = [] \<or> literal_raw ip fp > kMaxRaw then None
     else Some (Decimal (if neg then - int (literal_raw ip fp) else int (literal_raw ip fp))))"
proof (cases "digits_val ip \<le> kMaxRaw")
  case ok: True
  have si: "scan_int 0 False p = Some (digits_val ip, ip \<noteq> [], r)"
    using ok assms(3,4) by (simp add: scan_int_eq Let_def)
  define u where "u = take 8 fp"
  define v where "v = digits_val ip * 10 ^ length u + digits_val u"
  have pad: "(if v \<le> kMaxRaw then pad_frac v (length u) else None)
     = (if literal_raw ip fp \<le> kMaxRaw then Some (literal_raw ip fp) else None)"
    using scan_then_pad[OF ok, of fp] by (simp only: u_def v_def Let_def)
  have sf: "(if r \<noteq> [] \<and> hd r = CHR ''.'' then scan_frac (digits_val ip) 0 (ip \<noteq> []) (tl r)
         else Some (digits_val ip, 0, ip \<noteq> [], r))
     = (if v \<le> kMaxRaw then Some (v, length u, ip \<noteq> [] \<or> fp \<noteq> [], rest) else None)"
    using ok assms(5)
    by (auto simp: scan_frac_eq kDecimals_def u_def v_def Let_def)
  show ?thesis
    using assms(1,2) si sf pad by (auto simp: parse_def split: option.splits if_splits)
next
  case False
  then have "literal_raw ip fp > kMaxRaw"
    using shift_ge[of "digits_val ip" 8] unfolding literal_raw_def by (metis less_le_trans not_le)
  moreover have "scan_int 0 False p = None"
    using False assms(3) by (simp add: scan_int_eq)
  ultimately show ?thesis
    using assms(1,2) by (simp add: parse_def)
qed

lemma parse_literal:
  assumes "is_literal tx neg ip fp"
  shows "parse tx =
    (if literal_raw ip fp \<le> kMaxRaw
     then Some (Decimal (if neg then - int (literal_raw ip fp) else int (literal_raw ip fp)))
     else None)"
proof -
  from assms obtain sg dot where tx: "tx = sg @ ip @ dot @ fp"
    and sg: "sg = ''-'' \<and> neg \<or> sg \<in> {[], ''+''} \<and> \<not> neg"
    and dot: "dot = ''.'' \<or> dot = [] \<and> fp = []"
    and dig: "list_all is_digit ip" "list_all is_digit fp" and ne: "ip \<noteq> [] \<or> fp \<noteq> []"
    by (auto simp: is_literal_def)
  have nonempty: "tx \<noteq> []" using tx ne dot by auto
  have first: "c \<noteq> CHR ''-'' \<and> c \<noteq> CHR ''+''" if "ip @ dot @ fp = c # cs" for c cs
    using that dot dig(1) ne by (cases ip) auto
  have sign: "parse_sign tx = (neg, ip @ dot @ fp)"
  proof (cases "ip @ dot @ fp")
    case Nil
    with ne show ?thesis by simp
  next
    case (Cons c cs)
    with first[OF Cons] sg show ?thesis by (auto simp: tx parse_sign_def)
  qed
  have stop: "dot @ fp = [] \<or> \<not> is_digit (hd (dot @ fp))"
    using dot by auto
  have "parse tx =
    (if [] \<noteq> ([]::string) \<or> ip = [] \<and> fp = [] \<or> literal_raw ip fp > kMaxRaw then None
     else Some (Decimal (if neg then - int (literal_raw ip fp) else int (literal_raw ip fp))))"
  proof (rule parse_scanned[OF nonempty sign])
    show "ip = takeWhile is_digit (ip @ dot @ fp)"
      using takeWhile_append_stop[OF dig(1) stop] by simp
    show "dot @ fp = dropWhile is_digit (ip @ dot @ fp)"
      using dropWhile_append_stop[OF dig(1) stop] by simp
    show "(fp, []) = (if dot @ fp \<noteq> [] \<and> hd (dot @ fp) = CHR ''.''
        then (takeWhile is_digit (tl (dot @ fp)), dropWhile is_digit (tl (dot @ fp)))
        else ([], dot @ fp))"
      using dot takeWhile_append_stop[OF dig(2), of "[]"] dropWhile_append_stop[OF dig(2), of "[]"]
      by (auto simp: eq_commute[of "[]"] eq_commute[of fp "takeWhile is_digit fp"])
  qed
  with ne show ?thesis by auto
qed

lemma parse_Some_literal:
  assumes "parse tx = Some d"
  obtains neg ip fp where "is_literal tx neg ip fp" and "literal_raw ip fp \<le> kMaxRaw"
    and "d = Decimal (if neg then - int (literal_raw ip fp) else int (literal_raw ip fp))"
proof -
  have nonempty: "tx \<noteq> []" using assms by (auto simp: parse_def)
  obtain neg p where sign: "parse_sign tx = (neg, p)" by fastforce
  define ip r where "ip = takeWhile is_digit p" and "r = dropWhile is_digit p"
  obtain fp rest where fr: "(fp, rest) = (if r \<noteq> [] \<and> hd r = CHR ''.''
        then (takeWhile is_digit (tl r), dropWhile is_digit (tl r)) else ([], r))"
    by (metis surj_pair)
  note eq = parse_scanned[OF nonempty sign ip_def r_def fr]
  from eq assms have rest: "rest = []" and ne: "ip \<noteq> [] \<or> fp \<noteq> []"
    and bound: "literal_raw ip fp \<le> kMaxRaw"
    and d: "d = Decimal (if neg then - int (literal_raw ip fp) else int (literal_raw ip fp))"
    by (auto split: if_splits)
  have p: "p = ip @ r" by (simp add: ip_def r_def)
  have r: "r = ''.'' @ fp \<or> r = [] \<and> fp = []"
  proof (cases r)
    case (Cons c cs)
    with fr rest have "c = CHR ''.''" and "fp = takeWhile is_digit cs" "dropWhile is_digit cs = []"
      using eq_commute[of "[]" "dropWhile is_digit cs"] by (simp_all del: dropWhile_eq_Nil_conv split: if_splits)
    moreover from this have "cs = fp"
      using takeWhile_dropWhile_id[of is_digit cs] by (metis append_Nil2)
    ultimately show ?thesis using Cons by simp
  qed (use fr in simp)
  have dig: "list_all is_digit ip" "list_all is_digit fp"
    using fr by (auto simp: ip_def split: if_splits)
  from parse_sign_split[OF nonempty sign] obtain sg where "tx = sg @ p"
    and "sg = ''-'' \<and> neg \<or> sg \<in> {[], ''+''} \<and> \<not> neg" by blast
  with p r dig ne have "is_literal tx neg ip fp"
    unfolding is_literal_def by (metis append.assoc append_Nil2)
  then show ?thesis using bound d that by blast
qed

section \<open>The printer\<close>

lemma emit_int_append: "emit_int n buf = emit_int n [] @ buf"
proof (induction n arbitrary: buf rule: less_induct)
  case (less n)
  show ?case
  proof (cases "n div 10 = 0")
    case False
    then have "n div 10 < n" by (cases n) auto
    from less[OF this, of "digit_char (n mod 10) # buf"] less[OF this, of "[digit_char (n mod 10)]"] False
    show ?thesis by (simp add: emit_int.simps[of n])
  qed (simp add: emit_int.simps[of n])
qed

lemma emit_int_rec:
  "n div 10 \<noteq> 0 \<Longrightarrow> emit_int n [] = emit_int (n div 10) [] @ [digit_char (n mod 10)]"
  using emit_int_append[of "n div 10" "[digit_char (n mod 10)]"] by (simp add: emit_int.simps[of n])

lemma emit_int_digits: "list_all is_digit (emit_int n [])"
proof (induction n rule: less_induct)
  case (less n)
  show ?case
  proof (cases "n div 10 = 0")
    case False
    then have "n div 10 < n" by (cases n) auto
    with less False show ?thesis by (simp add: emit_int_rec)
  qed (simp add: emit_int.simps[of n])
qed

lemma emit_int_val: "digits_val (emit_int n []) = n"
proof (induction n rule: less_induct)
  case (less n)
  show ?case
  proof (cases "n div 10 = 0")
    case False
    then have "n div 10 < n" by (cases n) auto
    with less False show ?thesis by (simp add: emit_int_rec digits_val_snoc)
  next
    case True
    then have "n mod 10 = n" by auto
    with True show ?thesis by (simp add: emit_int.simps[of n] digits_val_Cons)
  qed
qed

lemma emit_int_nonempty: "emit_int n [] \<noteq> []"
  by (cases "n div 10 = 0") (simp add: emit_int.simps[of n], simp add: emit_int_rec)

lemma emit_int_length: "n < 10 ^ k \<Longrightarrow> 0 < k \<Longrightarrow> length (emit_int n []) \<le> k"
proof (induction k arbitrary: n)
  case (Suc k)
  show ?case
  proof (cases "n div 10 = 0")
    case False
    then have "k \<noteq> 0" using Suc.prems by (cases k) auto
    moreover have "n div 10 < 10 ^ k" using Suc.prems by (simp add: less_mult_imp_div_less mult.commute)
    ultimately show ?thesis using Suc.IH False by (simp add: emit_int_rec)
  qed (simp add: emit_int.simps[of n])
qed simp

lemma emit_int_no_leading_zero:
  "n \<noteq> 0 \<Longrightarrow> hd (emit_int n []) \<noteq> CHR ''0''"
proof (induction n rule: less_induct)
  case (less n)
  show ?case
  proof (cases "n div 10 = 0")
    case False
    then have "n div 10 < n" by (cases n) auto
    with less False show ?thesis by (simp add: emit_int_rec emit_int_nonempty)
  next
    case True
    then have "n mod 10 = n" and "n < 10" by auto
    moreover have "digit_char n \<noteq> CHR ''0''"
    proof
      assume "digit_char n = CHR ''0''"
      then have "digit_val (digit_char n) = 0" by (simp add: digit_val_def)
      with \<open>n < 10\<close> less.prems show False by simp
    qed
    ultimately show ?thesis using True by (simp add: emit_int.simps[of n])
  qed
qed

lemma emit_digits_append: "emit_digits w v buf = emit_digits w v [] @ buf"
proof (induction w arbitrary: v buf)
  case (Suc w)
  show ?case
    using Suc[of "v div 10" "digit_char (v mod 10) # buf"] Suc[of "v div 10" "[digit_char (v mod 10)]"]
    by simp
qed simp

lemma emit_digits_Suc:
  "emit_digits (Suc w) v [] = emit_digits w (v div 10) [] @ [digit_char (v mod 10)]"
  using emit_digits_append[of w "v div 10" "[digit_char (v mod 10)]"] by simp

lemma emit_digits_length [simp]: "length (emit_digits w v buf) = w + length buf"
  by (induction w arbitrary: v buf) simp_all

lemma emit_digits_digits: "list_all is_digit (emit_digits w v [])"
  by (induction w arbitrary: v) (simp_all add: emit_digits_Suc del: emit_digits.simps(2))

lemma emit_digits_val: "v < 10 ^ w \<Longrightarrow> digits_val (emit_digits w v []) = v"
proof (induction w arbitrary: v)
  case (Suc w)
  then have "v div 10 < 10 ^ w" by (simp add: less_mult_imp_div_less mult.commute)
  from Suc.IH[OF this] show ?case
    by (simp add: emit_digits_Suc digits_val_snoc del: emit_digits.simps(2))
qed simp

lemma trim_zeros_spec:
  "trim_zeros f w = (f', w') \<Longrightarrow> f \<noteq> 0 \<Longrightarrow> f < 10 ^ w \<Longrightarrow>
   f = f' * 10 ^ (w - w') \<and> f' < 10 ^ w' \<and> f' mod 10 \<noteq> 0 \<and> w' \<le> w \<and> 0 < w'"
proof (induction f w rule: trim_zeros.induct)
  case (1 f w)
  show ?case
  proof (cases "f mod 10 = 0")
    case True
    then obtain g where g: "f = 10 * g" "g \<noteq> 0" using 1(3) by (metis mod_0_imp_dvd dvd_def mult_0_right)
    then obtain k where k: "w = Suc k" using 1(4) by (cases w) auto
    have "g = f' * 10 ^ (k - w') \<and> f' < 10 ^ w' \<and> f' mod 10 \<noteq> 0 \<and> w' \<le> k \<and> 0 < w'"
      using 1(1) 1(2) 1(4) g k by (simp add: trim_zeros.simps[of "10 * g"])
    then show ?thesis using g k by (simp add: Suc_diff_le)
  next
    case False
    with 1 show ?thesis
      by (cases w) (auto simp: trim_zeros.simps[of f])
  qed
qed

lemma magnitude_eq: "magnitude d = nat \<bar>raw d\<bar>"
  by (auto simp: magnitude_def nat_eq_iff2)

lemma raw_magnitude: "raw d = (if raw d < 0 then - int (magnitude d) else int (magnitude d))"
  by (auto simp: magnitude_eq)

lemma wf_magnitude: "wf_decimal d \<Longrightarrow> d \<noteq> dec_min \<Longrightarrow> magnitude d \<le> kMaxRaw"
  by (cases d) (auto simp: magnitude_eq wf_decimal_def in_i64_def dec_min_def kMaxRaw_def nat_le_iff)

lemma toChars_shape:
  obtains ip dot fp where
    "toChars d = (if raw d < 0 then ''-'' else []) @ ip @ dot @ fp"
    and "ip = emit_int (magnitude d div nat kScale) []"
    and "list_all is_digit fp" and "length fp \<le> 8"
    and "digits_val fp * 10 ^ (8 - length fp) = magnitude d mod nat kScale"
    and "dot = ''.'' \<and> fp \<noteq> [] \<and> last fp \<noteq> CHR ''0'' \<or> dot = [] \<and> fp = []"
proof -
  define f where "f = magnitude d mod nat kScale"
  define ip where "ip = emit_int (magnitude d div nat kScale) []"
  have ie: "emit_int (magnitude d div nat kScale) b = ip @ b" for b
    by (simp add: ip_def emit_int_append[of _ b])
  show ?thesis
  proof (cases "f = 0")
    case True
    then show ?thesis
      by (intro that[of ip "[]" "[]"])
        (simp_all add: toChars_def ie Let_def flip: f_def ip_def)
  next
    case False
    obtain g w where t: "trim_zeros f kDecimals = (g, w)" by fastforce
    from trim_zeros_spec[OF t False]
    have g: "f = g * 10 ^ (8 - w)" "g < 10 ^ w" "g mod 10 \<noteq> 0" "w \<le> 8" "0 < w"
      by (auto simp: f_def kDecimals_def kScale_def)
    define fp where "fp = emit_digits w g []"
    have "last fp = digit_char (g mod 10)"
      using g(5) by (cases w) (simp_all add: fp_def emit_digits_Suc del: emit_digits.simps(2))
    moreover have "digit_char (g mod 10) \<noteq> CHR ''0''"
    proof
      assume "digit_char (g mod 10) = CHR ''0''"
      then have "digit_val (digit_char (g mod 10)) = 0" by (simp add: digit_val_def)
      with g(3) show False by simp
    qed
    moreover have "fp \<noteq> []" using g(5) by (metis emit_digits_length fp_def length_0_conv list.size(3) add_0_right not_gr0)
    moreover have "digits_val fp * 10 ^ (8 - length fp) = f"
      using g by (simp add: fp_def emit_digits_val)
    moreover have "list_all is_digit fp" and "length fp \<le> 8"
      using g(4) by (simp_all add: fp_def emit_digits_digits)
    ultimately show ?thesis
      using t False
      by (intro that[of ip "''.''" fp])
        (simp_all add: toChars_def ie Let_def flip: f_def ip_def fp_def)
  qed
qed

lemma toChars_literal:
  obtains ip fp where "is_literal (toChars d) (raw d < 0) ip fp" and "literal_raw ip fp = magnitude d"
proof -
  obtain ip dot fp where sh: "toChars d = (if raw d < 0 then ''-'' else []) @ ip @ dot @ fp"
    "ip = emit_int (magnitude d div nat kScale) []" "list_all is_digit fp" "length fp \<le> 8"
    "digits_val fp * 10 ^ (8 - length fp) = magnitude d mod nat kScale"
    "dot = ''.'' \<and> fp \<noteq> [] \<and> last fp \<noteq> CHR ''0'' \<or> dot = [] \<and> fp = []"
    by (rule toChars_shape)
  have "is_literal (toChars d) (raw d < 0) ip fp"
    unfolding is_literal_def
  proof (intro conjI)
    show "list_all is_digit ip" "list_all is_digit fp" "ip \<noteq> [] \<or> fp \<noteq> []"
      using sh(3) by (simp_all only: sh(2) emit_int_digits emit_int_nonempty) simp
    show "\<exists>sg dot. toChars d = sg @ ip @ dot @ fp \<and>
        (sg = ''-'' \<and> raw d < 0 \<or> sg \<in> {[], ''+''} \<and> \<not> raw d < 0) \<and>
        (dot = ''.'' \<or> dot = [] \<and> fp = [])"
      by (rule exI[of _ "if raw d < 0 then ''-'' else []"], rule exI[of _ dot])
        (use sh(6) in \<open>auto simp: sh(1)\<close>)
  qed
  moreover have "literal_raw ip fp = magnitude d"
    using sh(4,5) by (simp add: literal_raw_def sh(2) emit_int_val kScale_def)
  ultimately show ?thesis by (rule that)
qed

section \<open>Arithmetic\<close>

lemma saturate_in_i64 [simp]: "in_i64 (saturate v)"
  by (simp add: saturate_def in_i64_def dec_max_def dec_min_def)

lemma saturate_id: "in_i64 v \<Longrightarrow> saturate v = v"
  by (simp add: saturate_def in_i64_def dec_max_def dec_min_def)

lemma saturate_nonneg: "0 \<le> v \<Longrightarrow> 0 \<le> saturate v"
  by (simp add: saturate_def dec_max_def dec_min_def)

lemma saturate_nonpos: "v \<le> 0 \<Longrightarrow> saturate v \<le> 0"
  by (simp add: saturate_def dec_max_def dec_min_def)

lemma saturate_outside: "\<not> in_i64 v \<Longrightarrow> isSaturated (Decimal (saturate v))"
  by (auto simp: saturate_def in_i64_def dec_max_def dec_min_def isSaturated_def)

lemma sdiv_sign: "0 < (b::int) \<Longrightarrow> (0 \<le> a \<longrightarrow> 0 \<le> a sdiv b) \<and> (a \<le> 0 \<longrightarrow> a sdiv b \<le> 0)"
  by (cases "a < 0") (simp_all add: sdiv_nonneg sdiv_neg pos_imp_zdiv_nonneg_iff)

lemma i64_product_fits: "in_i64 a \<Longrightarrow> in_i64 b \<Longrightarrow> \<bar>a * b\<bar> < 2 ^ 127"
proof -
  assume "in_i64 a" "in_i64 b"
  then have "\<bar>a\<bar> \<le> 2 ^ 63" "\<bar>b\<bar> \<le> 2 ^ 63" by (auto simp: in_i64_def)
  then have "\<bar>a\<bar> * \<bar>b\<bar> \<le> 2 ^ 63 * 2 ^ 63" by (intro mult_mono) auto
  then show ?thesis by (simp add: abs_mult)
qed

section \<open>Rounding\<close>

lemma floor_multiple:
  assumes "0 < (q::int)"
  shows "(if r smod q \<noteq> 0 \<and> r < 0 then r sdiv q - 1 else r sdiv q) = r div q"
proof (cases "r < 0")
  case True
  have d: "r sdiv q = - ((- r) div q)" using True assms by (rule sdiv_neg)
  have m: "r smod q = - ((- r) mod q)"
    unfolding smod_eq d by (simp add: minus_mult_div_eq_mod[symmetric])
  show ?thesis
    using True d m zdiv_zminus1_eq_if[of q "- r"] assms by auto
next
  case False
  then show ?thesis using assms by (simp add: sdiv_nonneg)
qed

lemma roundToQuantum_unfold:
  assumes "1 < q" and "in_i64 q" and "in_i64 (raw d div q * q)" and "in_i64 (raw d div q * q + q)"
  shows "roundToQuantum d q mode =
    (let r = raw d; down = r div q * q; up = down + q in
     if down = r then d
     else case mode of
            Down \<Rightarrow> Decimal down
          | Up \<Rightarrow> Decimal up
          | Nearest \<Rightarrow> Decimal (if r - down = up - r then (if r \<ge> 0 then up else down)
                                else if r - down < up - r then down else up))"
proof -
  define r where "r = raw d"
  define dn where "dn = r div q * q"
  have w: "wrap64 dn = dn" "wrap64 (dn + q) = dn + q"
    using assms(3,4) by (simp_all add: wrap64_id r_def dn_def)
  have bounds: "dn \<le> r" "r < dn + q"
    using assms(1) pos_mod_bound[of q r] pos_mod_sign[of q r]
    by (simp_all add: dn_def minus_mod_eq_div_mult[symmetric])
  then have dist: "wrap64 (r - dn) = r - dn" "wrap64 (dn + q - r) = dn + q - r"
    using assms(2) by (auto intro!: wrap64_id simp: in_i64_def)
  have fm: "(if r smod q \<noteq> 0 \<and> r < 0 then r sdiv q - 1 else r sdiv q) = r div q"
    by (rule floor_multiple) (use assms in simp)
  have "\<not> q \<le> 1" using assms(1) by simp
  then show ?thesis
    by (simp only: roundToQuantum_def Let_def fromRaw_def fm w dist if_False
        r_def[symmetric] dn_def[symmetric] split: rounding_mode.split if_split) simp
qed

text \<open>
  Rounding gives a multiple of the quantum: the largest one not above the value, the smallest one
  not below it, or one at least distance with ties away from zero.
\<close>

lemma roundToQuantum_spec:
  assumes "0 < q" and "in_i64 q" and "in_i64 (raw d div q * q)" and "in_i64 (raw d div q * q + q)"
  shows "q dvd raw (roundToQuantum d q mode) \<and>
    (mode = Down \<longrightarrow> raw (roundToQuantum d q mode) \<le> raw d \<and> raw d < raw (roundToQuantum d q mode) + q) \<and>
    (mode = Up \<longrightarrow> raw d \<le> raw (roundToQuantum d q mode) \<and> raw (roundToQuantum d q mode) - q < raw d) \<and>
    (mode = Nearest \<longrightarrow> 2 * \<bar>raw (roundToQuantum d q mode) - raw d\<bar> \<le> q \<and>
       (2 * \<bar>raw (roundToQuantum d q mode) - raw d\<bar> = q \<longrightarrow> \<bar>raw d\<bar> < \<bar>raw (roundToQuantum d q mode)\<bar>))"
proof (cases "q = 1")
  case True
  then show ?thesis by (simp add: roundToQuantum_def)
next
  case False
  define r where "r = raw d"
  define dn where "dn = r div q * q"
  have bounds: "dn \<le> r" "r < dn + q"
    using assms(1) pos_mod_bound[of q r] pos_mod_sign[of q r]
    by (simp_all add: dn_def minus_mod_eq_div_mult[symmetric])
  have dvd: "q dvd dn" "q dvd dn + q" by (simp_all add: dn_def)
  have "r div q \<le> - 1" if "r < 0"
  proof -
    from that assms(1) have "r div q < 0" by (simp add: pos_imp_zdiv_neg_iff)
    then show ?thesis by linarith
  qed
  then have "r < 0 \<Longrightarrow> r div q * q \<le> - 1 * q"
    using assms(1) by (intro mult_right_mono) simp_all
  then have sgn: "0 \<le> r \<Longrightarrow> 0 \<le> dn" "r < 0 \<Longrightarrow> dn + q \<le> 0"
    using assms(1) by (simp_all add: dn_def pos_imp_zdiv_nonneg_iff)
  have eq: "roundToQuantum d q mode =
    (if dn = r then d
     else case mode of Down \<Rightarrow> Decimal dn | Up \<Rightarrow> Decimal (dn + q)
       | Nearest \<Rightarrow> Decimal (if r - dn = dn + q - r then (if r \<ge> 0 then dn + q else dn)
                                else if r - dn < dn + q - r then dn else dn + q))"
  proof -
    have "1 < q" using False assms(1) by simp
    from roundToQuantum_unfold[OF this assms(2-4), of mode] show ?thesis
      by (simp only: Let_def r_def dn_def)
  qed
  show ?thesis
    unfolding eq using bounds dvd sgn
    by (cases mode) (auto simp flip: r_def)
qed

lemma toChars_length: "wf_decimal d \<Longrightarrow> length (toChars d) \<le> 21"
proof -
  assume wf: "wf_decimal d"
  obtain ip dot fp where sh: "toChars d = (if raw d < 0 then ''-'' else []) @ ip @ dot @ fp"
    "ip = emit_int (magnitude d div nat kScale) []" "length fp \<le> 8"
    "dot = ''.'' \<and> fp \<noteq> [] \<and> last fp \<noteq> CHR ''0'' \<or> dot = [] \<and> fp = []"
    by (rule toChars_shape)
  have "magnitude d \<le> 2 ^ 63"
    using wf by (auto simp: magnitude_eq wf_decimal_def in_i64_def nat_le_iff abs_le_iff)
  then have "magnitude d div nat kScale < 10 ^ 11"
    by (simp add: div_less_iff_less_mult kScale_def)
  then have "length ip \<le> 11" unfolding sh(2) by (rule emit_int_length) simp
  with sh show ?thesis by auto
qed

section \<open>Properties\<close>

text \<open>
  C29: \<open>Decimal::parse\<close> accepts exactly the decimal literals (an optional sign, digits, an
  optional point and digits, at least one digit in all) whose value, with the digits past the
  eighth fractional place cut off, fits the signed 64-bit mantissa, and returns that value.
\<close>

theorem parse_iff_literal:
  "parse s = Some d \<longleftrightarrow>
     (\<exists>neg ip fp. is_literal s neg ip fp \<and> literal_raw ip fp \<le> kMaxRaw \<and>
        d = Decimal (if neg then - int (literal_raw ip fp) else int (literal_raw ip fp)))"
proof
  assume "parse s = Some d"
  then show "\<exists>neg ip fp. is_literal s neg ip fp \<and> literal_raw ip fp \<le> kMaxRaw \<and>
        d = Decimal (if neg then - int (literal_raw ip fp) else int (literal_raw ip fp))"
    by (rule parse_Some_literal) blast
qed (auto simp: parse_literal)

lemma parse_printed:
  assumes "wf_decimal d" and "d \<noteq> dec_min"
  shows "parse (dec_toString d) = Some d"
proof -
  obtain ip fp where lit: "is_literal (toChars d) (raw d < 0) ip fp" and v: "literal_raw ip fp = magnitude d"
    by (rule toChars_literal)
  have "parse (toChars d) = Some (Decimal (if raw d < 0 then - int (magnitude d) else int (magnitude d)))"
    using parse_literal[OF lit] wf_magnitude[OF assms] by (simp add: v)
  then show ?thesis
    by (simp add: dec_toString_def appendTo_def flip: raw_magnitude)
qed

text \<open>
  C30: printing a decimal and parsing the text gives the decimal back, for every representable
  value except the most negative mantissa.
\<close>

theorem parse_toString:
  assumes "wf_decimal d" and "d \<noteq> dec_min"
  shows "parse (dec_toString d) = Some d"
  using assms by (rule parse_printed)

theorem parse_toString_witness:
  "wf_decimal (Decimal (- 7595101234500)) \<and> Decimal (- 7595101234500) \<noteq> dec_min \<and>
   parse (dec_toString (Decimal (- 7595101234500))) = Some (Decimal (- 7595101234500))"
  using parse_toString[of "Decimal (- 7595101234500)"]
  by (simp add: wf_decimal_def in_i64_def dec_min_def)

theorem toString_min_not_parsed: "parse (dec_toString dec_min) = None"
proof -
  obtain ip fp where lit: "is_literal (toChars dec_min) (raw dec_min < 0) ip fp"
    and v: "literal_raw ip fp = magnitude dec_min"
    by (rule toChars_literal)
  then show ?thesis
    using parse_literal[OF lit]
    by (simp add: v dec_toString_def appendTo_def magnitude_eq dec_min_def kMaxRaw_def)
qed

text \<open>
  The printed form of every representable decimal has at most 21 characters (sign, eleven
  integer digits, point, eight decimals), so \<open>toChars\<close> stays within its \<open>kMaxChars\<close> buffer.
\<close>

lemma toChars_fits_buffer: "wf_decimal d \<Longrightarrow> length (toChars d) \<le> 21 \<and> length (toChars d) \<le> kMaxChars"
  using toChars_length[of d] by (simp add: kMaxChars_def)

text \<open>
  A printed decimal with a point ends neither in a zero nor in the point: the canonical wire
  form that the signed bytes contain.
\<close>

lemma toChars_canonical:
  assumes "toChars d = s" and "CHR ''.'' \<in> set s"
  shows "last s \<noteq> CHR ''0'' \<and> last s \<noteq> CHR ''.''"
proof -
  obtain ip dot fp where sh: "toChars d = (if raw d < 0 then ''-'' else []) @ ip @ dot @ fp"
    "ip = emit_int (magnitude d div nat kScale) []" "list_all is_digit fp"
    "dot = ''.'' \<and> fp \<noteq> [] \<and> last fp \<noteq> CHR ''0'' \<or> dot = [] \<and> fp = []"
    by (rule toChars_shape)
  have "CHR ''.'' \<notin> set ip"
    using emit_int_digits[of "magnitude d div nat kScale"] not_is_digit_dot
    unfolding sh(2) list_all_iff by blast
  with sh(1,4) assms have "fp \<noteq> []" "last fp \<noteq> CHR ''0''" "last s = last fp"
    by (auto split: if_splits)
  moreover have "last fp \<noteq> CHR ''.''"
    using sh(3) \<open>fp \<noteq> []\<close> last_in_set not_is_digit_dot unfolding list_all_iff by metis
  ultimately show ?thesis by simp
qed

text \<open>
  C40: a product never wraps: its 128-bit intermediate is exact, the result is the truncated
  quotient when that is representable and a saturated limit otherwise, and its sign never flips.
\<close>

theorem dec_mul_saturates:
  assumes "wf_decimal a" and "wf_decimal b"
  shows "wf_decimal (dec_mul a b) \<and> \<bar>raw a * raw b\<bar> < 2 ^ 127 \<and>
    (in_i64 ((raw a * raw b) sdiv kScale) \<longrightarrow> raw (dec_mul a b) = (raw a * raw b) sdiv kScale) \<and>
    (\<not> in_i64 ((raw a * raw b) sdiv kScale) \<longrightarrow> isSaturated (dec_mul a b)) \<and>
    (0 \<le> raw a * raw b \<longrightarrow> 0 \<le> raw (dec_mul a b)) \<and>
    (raw a * raw b \<le> 0 \<longrightarrow> raw (dec_mul a b) \<le> 0)"
proof -
  have "0 < kScale" by (simp add: kScale_def)
  note s = sdiv_sign[OF this, of "raw a * raw b"]
  show ?thesis
    using assms s i64_product_fits[of "raw a" "raw b"]
    by (simp add: dec_mul_def wf_decimal_def saturate_id saturate_outside saturate_nonneg saturate_nonpos)
qed

theorem dec_mul_saturates_witness:
  "wf_decimal dec_max \<and> wf_decimal (Decimal 250000000) \<and> isSaturated (dec_mul dec_max (Decimal 250000000))"
  using dec_mul_saturates[of dec_max "Decimal 250000000"]
  by (simp add: wf_decimal_def in_i64_def dec_max_def kScale_def sdiv_nonneg)

text \<open>
  A quotient is total: zero for a zero divisor, otherwise the truncated quotient, saturated when
  it does not fit.
\<close>

lemma dec_div_total:
  assumes "wf_decimal a" and "wf_decimal b"
  shows "wf_decimal (dec_div a b) \<and> (isZero b \<longrightarrow> isZero (dec_div a b)) \<and>
    (\<not> isZero b \<longrightarrow> (in_i64 ((raw a * kScale) sdiv raw b) \<longrightarrow>
        raw (dec_div a b) = (raw a * kScale) sdiv raw b) \<and>
      (\<not> in_i64 ((raw a * kScale) sdiv raw b) \<longrightarrow> isSaturated (dec_div a b)))"
  using assms
  by (auto simp: dec_div_def wf_decimal_def isZero_def dec_zero_def saturate_id saturate_outside)

end
