(* ===== verification/HL_Types.thy ===== *)
theory HL_Types
  imports HL_Decimal
begin

text \<open>
  The core value types (\<open>include/hl/core/Types.h\<close>, \<open>include/hl/core/Hex.h\<close>,
  \<open>include/hl/core/Result.h\<close>, \<open>src/core/Hex.cpp\<close>): networks and their URLs, sides,
  time-in-force, addresses, client order ids, errors, and the hexadecimal codec they share.
  Bytes are \<open>u8\<close> words, a \<open>uint64_t\<close> half of a cloid is a \<open>u64\<close> word.
\<close>

unbundle bit_operations_syntax

section \<open>Enumerations, errors, results\<close>

datatype network = Mainnet | Testnet

definition restUrl :: "network \<Rightarrow> string" where
  "restUrl n = (if n = Mainnet then ''https://api.hyperliquid.xyz''
                else ''https://api.hyperliquid-testnet.xyz'')"

definition wsUrl :: "network \<Rightarrow> string" where
  "wsUrl n = (if n = Mainnet then ''wss://api.hyperliquid.xyz/ws''
              else ''wss://api.hyperliquid-testnet.xyz/ws'')"

datatype side = Buy | Sell

definition opposite :: "side \<Rightarrow> side" where
  "opposite s = (if s = Buy then Sell else Buy)"

definition side_toString :: "side \<Rightarrow> string" where
  "side_toString s = (if s = Buy then ''Buy'' else ''Sell'')"

datatype tif = Alo | Ioc | Gtc

fun tif_toString :: "tif \<Rightarrow> string" where
  "tif_toString Alo = ''Alo''"
| "tif_toString Ioc = ''Ioc''"
| "tif_toString Gtc = ''Gtc''"

text \<open>\<open>Error::Kind\<close>; \<open>NoError\<close> is its enumerator \<open>None\<close>.\<close>

datatype error_kind = NoError | Transport | Timeout | Http | Venue | Parse | ErrRejected

record error =
  err_kind :: error_kind
  httpStatus :: int
  message :: string

fun errkind_toString :: "error_kind \<Rightarrow> string" where
  "errkind_toString NoError = ''None''"
| "errkind_toString Transport = ''Transport''"
| "errkind_toString Timeout = ''Timeout''"
| "errkind_toString Http = ''Http''"
| "errkind_toString Venue = ''Venue''"
| "errkind_toString Parse = ''Parse''"
| "errkind_toString ErrRejected = ''Rejected''"

definition mk_error :: "error_kind \<Rightarrow> string \<Rightarrow> error" where
  "mk_error k m = \<lparr>err_kind = k, httpStatus = 0, message = m\<rparr>"

definition no_error :: error where
  "no_error = mk_error NoError []"

definition is_error :: "error \<Rightarrow> bool" where
  "is_error e \<longleftrightarrow> err_kind e \<noteq> NoError"

text \<open>\<open>Result<T>\<close>: a value or an error. \<open>Inl\<close> carries the error.\<close>

type_synonym 'a result = "error + 'a"

definition result_ok :: "'a result \<Rightarrow> bool" where
  "result_ok r \<longleftrightarrow> (case r of Inl _ \<Rightarrow> False | Inr _ \<Rightarrow> True)"

section \<open>Hexadecimal\<close>

definition kHexDigits :: string where
  "kHexDigits = ''0123456789abcdef''"

definition hex_digit :: "nat \<Rightarrow> char" where
  "hex_digit n = kHexDigits ! n"

definition hexNibble :: "char \<Rightarrow> int" where
  "hexNibble c =
     (let n = (of_char c :: int) in
      if 48 \<le> n \<and> n \<le> 57 then n - 48
      else if 97 \<le> n \<and> n \<le> 102 then n - 97 + 10
      else if 65 \<le> n \<and> n \<le> 70 then n - 65 + 10
      else - 1)"

definition stripHexPrefix :: "string \<Rightarrow> string" where
  "stripHexPrefix s =
     (if length s \<ge> 2 \<and> s ! 0 = CHR ''0'' \<and> (s ! 1 = CHR ''x'' \<or> s ! 1 = CHR ''X'')
      then drop 2 s else s)"

fun toHex :: "u8 list \<Rightarrow> string" where
  "toHex [] = []"
| "toHex (b # bs) = hex_digit (unat (drop_bit 4 b)) # hex_digit (unat (b AND 15)) # toHex bs"

text \<open>The decoding loop, one output byte per round.\<close>

fun hex_bytes :: "nat \<Rightarrow> string \<Rightarrow> u8 list option" where
  "hex_bytes 0 s = Some []"
| "hex_bytes (Suc n) (h # l # s) =
     (let hi = hexNibble h; lo = hexNibble l in
      if hi < 0 \<or> lo < 0 then None
      else map_option ((#) (push_bit 4 (word_of_int hi) OR word_of_int lo)) (hex_bytes n s))"
| "hex_bytes (Suc n) s = None"

definition fromHex :: "string \<Rightarrow> nat \<Rightarrow> u8 list option" where
  "fromHex hex outLen =
     (let hex = stripHexPrefix hex in
      if length hex \<noteq> outLen * 2 then None else hex_bytes outLen hex)"

section \<open>Addresses\<close>

type_synonym address = "u8 list"

definition parseAddress :: "string \<Rightarrow> address option" where
  "parseAddress hex = fromHex hex 20"

definition addr_toHex :: "address \<Rightarrow> string" where
  "addr_toHex a = ''0x'' @ toHex a"

section \<open>Market names\<close>

definition coin_char :: "char \<Rightarrow> bool" where
  "coin_char c \<longleftrightarrow>
     (let n = (of_char c :: nat) in
      65 \<le> n \<and> n \<le> 90 \<or> 97 \<le> n \<and> n \<le> 122 \<or> 48 \<le> n \<and> n \<le> 57 \<or> c = CHR ''/'' \<or>
      c = CHR ''@'' \<or> c = CHR ''-'' \<or> c = CHR ''_'' \<or> c = CHR ''.'' \<or> c = CHR '':'')"

definition isValidCoinName :: "string \<Rightarrow> bool" where
  "isValidCoinName coin \<longleftrightarrow> \<not> (coin = [] \<or> length coin > 64) \<and> list_all coin_char coin"

section \<open>Client order ids\<close>

datatype cloid = Cloid (high: u64) (low: u64)

definition cloid_fromU64 :: "u64 \<Rightarrow> cloid" where
  "cloid_fromU64 n = Cloid 0 n"

text \<open>\<open>CloidHash\<close> and the defaulted lexicographic order.\<close>

definition cloid_hash :: "cloid \<Rightarrow> u64" where
  "cloid_hash c = (low c * 0x9E3779B97F4A7C15) XOR high c"

instantiation cloid :: linorder
begin

definition less_eq_cloid :: "cloid \<Rightarrow> cloid \<Rightarrow> bool" where
  "less_eq_cloid a b \<longleftrightarrow> high a < high b \<or> high a = high b \<and> low a \<le> low b"

definition less_cloid :: "cloid \<Rightarrow> cloid \<Rightarrow> bool" where
  "less_cloid a b \<longleftrightarrow> high a < high b \<or> high a = high b \<and> low a < low b"

instance
  by standard (auto simp: less_eq_cloid_def less_cloid_def cloid.expand)

end

text \<open>
  The parser's loop over the 32 digits: digit \<open>i\<close> shifts the high half while \<open>i < 16\<close> and the
  low half afterwards.
\<close>

fun cloid_scan :: "nat \<Rightarrow> u64 \<Rightarrow> u64 \<Rightarrow> string \<Rightarrow> (u64 \<times> u64) option" where
  "cloid_scan i hi lo [] = Some (hi, lo)"
| "cloid_scan i hi lo (c # s) =
     (let n = hexNibble c in
      if n < 0 then None
      else if i < 16 then cloid_scan (i + 1) (push_bit 4 hi OR word_of_int n) lo s
      else cloid_scan (i + 1) hi (push_bit 4 lo OR word_of_int n) s)"

definition cloid_parse :: "string \<Rightarrow> cloid option" where
  "cloid_parse hex =
     (let hex = stripHexPrefix hex in
      if length hex \<noteq> 32 then None
      else map_option (\<lambda>(hi, lo). Cloid hi lo) (cloid_scan 0 0 0 hex))"

definition cloid_half :: "u64 \<Rightarrow> string" where
  "cloid_half w = map (\<lambda>i. hex_digit (unat (drop_bit (60 - 4 * i) w AND 15))) [0..<16]"

definition cloid_toString :: "cloid \<Rightarrow> string" where
  "cloid_toString c = ''0x'' @ cloid_half (high c) @ cloid_half (low c)"

section \<open>The nibble codec\<close>

lemma mask4: "(15 :: 'a::len word) = mask 4"
  by (simp add: mask_eq_exp_minus_1)

lemma nibbles_word: "push_bit 4 (drop_bit 4 w) OR (w AND 15) = (w :: 'a::len word)"
  by (rule bit_eqI) (auto simp: mask4 bit_simps)

lemma unat_and_15: "unat ((w :: 'a::len word) AND 15) < 16"
proof -
  have "unat (w AND 15) = take_bit 4 (unat w)"
    by (simp add: mask4 unsigned_take_bit_eq flip: take_bit_eq_mask)
  then show ?thesis using take_bit_nat_less_exp[of 4 "unat w"] by simp
qed

lemma unat_high_nibble: "unat (drop_bit 4 (b :: u8)) < 16"
proof -
  have "unat (drop_bit 4 b) = unat b div 2 ^ 4"
    by (simp only: unat_drop_bit_eq) (simp add: drop_bit_eq_div)
  moreover have "unat b < 2 ^ 8" using unsigned_less[of b] by simp
  ultimately show ?thesis by simp
qed

lemma nibble_step:
  "j < 16 \<Longrightarrow> push_bit 4 (drop_bit (64 - 4 * j) w) OR (drop_bit (60 - 4 * j) w AND 15)
      = drop_bit (60 - 4 * j) (w :: u64)"
proof -
  assume "j < 16"
  then have e: "64 - 4 * j = 4 + (60 - 4 * j)" by simp
  show ?thesis
    using nibbles_word[of "drop_bit (60 - 4 * j) w"] by (simp only: e drop_bit_drop_bit)
qed

lemma hexNibble_hex_digit [simp]: "n < 16 \<Longrightarrow> hexNibble (hex_digit n) = int n"
proof -
  have "\<forall>n\<in>set [0..<16]. hexNibble (hex_digit n) = int n"
    by (simp add: upt_conv_Cons hexNibble_def hex_digit_def kHexDigits_def)
  moreover assume "n < 16"
  ultimately show ?thesis by simp
qed

lemma hex_digit_not_x [simp]: "n < 16 \<Longrightarrow> hex_digit n \<noteq> CHR ''x'' \<and> hex_digit n \<noteq> CHR ''X''"
proof -
  have "\<forall>n\<in>set [0..<16]. hex_digit n \<noteq> CHR ''x'' \<and> hex_digit n \<noteq> CHR ''X''"
    by (simp add: upt_conv_Cons hex_digit_def kHexDigits_def)
  moreover assume "n < 16"
  ultimately show ?thesis by simp
qed

lemma hexNibble_range: "- 1 \<le> hexNibble c \<and> hexNibble c < 16"
  by (simp add: hexNibble_def Let_def)

lemma length_toHex [simp]: "length (toHex bs) = 2 * length bs"
  by (induction bs) simp_all

lemma hex_bytes_toHex: "hex_bytes (length bs) (toHex bs) = Some bs"
  by (induction bs) (simp_all add: unat_high_nibble unat_and_15 Let_def nibbles_word)

lemma strip_toHex: "stripHexPrefix (toHex bs) = toHex bs"
  by (cases bs) (simp_all add: stripHexPrefix_def unat_and_15)

lemma strip_prefix [simp]: "stripHexPrefix (CHR ''0'' # CHR ''x'' # s) = s"
  by (simp add: stripHexPrefix_def)

lemma hex_bytes_length: "hex_bytes n s = Some bs \<Longrightarrow> length bs = n"
  by (induction n s arbitrary: bs rule: hex_bytes.induct) (auto simp: Let_def split: if_splits)

section \<open>Cloids\<close>

lemma cloid_scan_high:
  "j \<le> 16 \<Longrightarrow>
   cloid_scan j (drop_bit (64 - 4 * j) w) lo
     (map (\<lambda>i. hex_digit (unat (drop_bit (60 - 4 * i) w AND 15))) [j..<16] @ rest)
   = cloid_scan 16 w lo rest"
proof (induction "16 - j" arbitrary: j)
  case 0
  then have "j = 16" by simp
  then show ?case by simp
next
  case (Suc k)
  then have j: "j < 16" by simp
  moreover have "64 - 4 * Suc j = 60 - 4 * j" by simp
  ultimately show ?case
    using Suc.hyps(1)[of "Suc j"] Suc.hyps(2)
    by (simp add: upt_conv_Cons unat_and_15 Let_def nibble_step)
qed

lemma cloid_scan_low:
  "j \<le> 16 \<Longrightarrow>
   cloid_scan (16 + j) hi (drop_bit (64 - 4 * j) w)
     (map (\<lambda>i. hex_digit (unat (drop_bit (60 - 4 * i) w AND 15))) [j..<16])
   = Some (hi, w)"
proof (induction "16 - j" arbitrary: j)
  case 0
  then have "j = 16" by simp
  then show ?case by simp
next
  case (Suc k)
  then have j: "j < 16" by simp
  moreover have "64 - 4 * Suc j = 60 - 4 * j" by simp
  ultimately show ?case
    using Suc.hyps(1)[of "Suc j"] Suc.hyps(2)
    by (simp add: upt_conv_Cons unat_and_15 Let_def nibble_step)
qed

lemma drop_bit_64 [simp]: "drop_bit 64 (w :: u64) = 0"
  by (rule bit_eqI) (simp add: bit_simps)

lemma length_cloid_half [simp]: "length (cloid_half w) = 16"
  by (simp add: cloid_half_def)

section \<open>Properties\<close>

text \<open>
  The wire form of a client order id parses back to the id, for every 128-bit id.
\<close>

lemma cloid_parse_toString: "cloid_parse (cloid_toString c) = Some c"
proof -
  have "cloid_scan 0 0 0 (cloid_half (high c) @ cloid_half (low c)) = Some (high c, low c)"
    using cloid_scan_high[of 0 "high c" 0 "cloid_half (low c)"] cloid_scan_low[of 0 "high c" "low c"]
    by (simp add: cloid_half_def)
  then show ?thesis by (simp add: cloid_parse_def cloid_toString_def)
qed

text \<open>
  The hexadecimal form of a 20-byte address parses back to the address.
\<close>

lemma parseAddress_toHex: "length a = 20 \<Longrightarrow> parseAddress (addr_toHex a) = Some a"
  using hex_bytes_toHex[of a] by (simp add: parseAddress_def addr_toHex_def fromHex_def)

lemma fromHex_exact_length: "fromHex s n = Some bs \<Longrightarrow> length bs = n \<and> length (stripHexPrefix s) = 2 * n"
  by (auto simp: fromHex_def Let_def hex_bytes_length split: if_splits)

text \<open>
  A market name that passes \<open>isValidCoinName\<close> contains no quote, no backslash and no
  control or non-ASCII character, so interpolating it between quotes keeps the JSON well formed.
\<close>

lemma valid_coin_is_json_safe:
  assumes "isValidCoinName coin" and "c \<in> set coin"
  shows "c \<noteq> CHR 0x22 \<and> c \<noteq> CHR 0x5C \<and> 32 \<le> (of_char c :: nat) \<and> (of_char c :: nat) < 127"
proof -
  have "coin_char c" using assms by (auto simp: isValidCoinName_def list_all_iff)
  then show ?thesis by (auto simp: coin_char_def Let_def)
qed

end
