(* ===== verification/HL_OrderBook.thy ===== *)
theory HL_OrderBook
  imports HL_Types
begin

text \<open>
  \<open>hl::OrderBook\<close> (\<open>include/hl/md/OrderBook.h\<close>, \<open>src/md/OrderBook.cpp\<close>) with the message
  types it consumes (\<open>include/hl/WsMessages.h\<close>). A side of the book is a fixed array of
  \<open>kMaxLevels\<close> entries and a count, as in the source; \<open>memmove\<close> and the compaction loop of
  \<open>dropCrossing\<close> work on the array. The visible levels are the prefix \<open>view\<close>, and the
  refinement lemmas show what each array operation does to it. \<open>spreadBps\<close> is floating point
  and is not modelled.
\<close>

section \<open>Messages and state\<close>

record bookLevel =
  px :: decimal
  sz :: decimal
  n_orders :: u32

record l2BookMsg =
  l2_coin :: string
  l2_timeMs :: int
  l2_bids :: "bookLevel list"
  l2_asks :: "bookLevel list"

record bboMsg =
  bbo_coin :: string
  bbo_timeMs :: int
  hasBid :: bool
  hasAsk :: bool
  bid :: bookLevel
  ask :: bookLevel

definition kMaxLevels :: nat where
  "kMaxLevels = 64"

record orderBook =
  book_coin :: string
  bidLevels :: "bookLevel list"
  askLevels :: "bookLevel list"
  bidCount :: nat
  askCount :: nat
  timeMs :: int
  snapshotTimeMs :: int
  updates :: u64

definition empty_level :: bookLevel where
  "empty_level = \<lparr>px = dec_zero, sz = dec_zero, n_orders = 0\<rparr>"

definition new_book :: "string \<Rightarrow> orderBook" where
  "new_book c = \<lparr>book_coin = c, bidLevels = replicate kMaxLevels empty_level,
     askLevels = replicate kMaxLevels empty_level, bidCount = 0, askCount = 0,
     timeMs = 0, snapshotTimeMs = 0, updates = 0\<rparr>"

definition bids :: "orderBook \<Rightarrow> bookLevel list" where
  "bids b = take (bidCount b) (bidLevels b)"

definition asks :: "orderBook \<Rightarrow> bookLevel list" where
  "asks b = take (askCount b) (askLevels b)"

definition book_side :: "orderBook \<Rightarrow> side \<Rightarrow> bookLevel list" where
  "book_side b s = (if s = Buy then bids b else asks b)"

section \<open>Array operations\<close>

text \<open>\<open>memmove\<close> inside one array: \<open>n\<close> entries from index \<open>src\<close> to index \<open>dst\<close>.\<close>

definition memmove :: "'a list \<Rightarrow> nat \<Rightarrow> nat \<Rightarrow> nat \<Rightarrow> 'a list" where
  "memmove a dst src n =
     map (\<lambda>i. if dst \<le> i \<and> i < dst + n then a ! (src + (i - dst)) else a ! i) [0..<length a]"

definition copyLevels :: "bookLevel list \<Rightarrow> bookLevel list \<Rightarrow> bookLevel list \<times> nat" where
  "copyLevels src dst = (let n = min (length src) kMaxLevels in (take n src @ drop n dst, n))"

definition better :: "bool \<Rightarrow> bookLevel \<Rightarrow> bookLevel \<Rightarrow> bool" where
  "better isBid l best \<longleftrightarrow> (if isBid then px l > px best else px l < px best)"

text \<open>The \<open>while\<close> loop that counts leading levels better than the new best.\<close>

function count_drop :: "bookLevel list \<Rightarrow> nat \<Rightarrow> bookLevel \<Rightarrow> bool \<Rightarrow> nat \<Rightarrow> nat" where
  "count_drop levels count best isBid drp =
     (if drp < count \<and> better isBid (levels ! drp) best
      then count_drop levels count best isBid (drp + 1) else drp)"
  by pat_completeness auto
termination
  by (relation "measure (\<lambda>(l, c, b, i, d). c - d)") auto

declare count_drop.simps [simp del]

definition overlayTop :: "bookLevel list \<Rightarrow> nat \<Rightarrow> bookLevel \<Rightarrow> bool \<Rightarrow> bookLevel list \<times> nat" where
  "overlayTop levels count best isBid =
     (let drp = count_drop levels count best isBid 0 in
      if drp < count \<and> px (levels ! drp) = px best then
        (let (levels, count) =
               (if drp \<noteq> 0 then (memmove levels 0 drp (count - drp), count - drp)
                else (levels, count))
         in (levels[0 := best], count))
      else
        (let (levels, count) =
               (if drp = 0 then
                  (let keep = min count (kMaxLevels - 1) in (memmove levels 1 0 keep, keep + 1))
                else if drp > 1 then
                  (memmove levels 1 drp (count - drp), count - (drp - 1))
                else (levels, count))
         in (levels[0 := best], count)))"

definition crosses :: "bool \<Rightarrow> decimal \<Rightarrow> bookLevel \<Rightarrow> bool" where
  "crosses isBid limit l \<longleftrightarrow> (if isBid then px l \<ge> limit else px l \<le> limit)"

function compact :: "bookLevel list \<Rightarrow> nat \<Rightarrow> decimal \<Rightarrow> bool \<Rightarrow> nat \<Rightarrow> nat \<Rightarrow> bookLevel list \<times> nat" where
  "compact levels count limit isBid i out =
     (if i < count then
        (if \<not> crosses isBid limit (levels ! i)
         then compact (levels[out := levels ! i]) count limit isBid (i + 1) (out + 1)
         else compact levels count limit isBid (i + 1) out)
      else (levels, out))"
  by pat_completeness auto
termination
  by (relation "measure (\<lambda>(l, c, m, b, i, out). c - i)") auto

declare compact.simps [simp del]

definition dropCrossing :: "bookLevel list \<Rightarrow> nat \<Rightarrow> decimal \<Rightarrow> bool \<Rightarrow> bookLevel list \<times> nat" where
  "dropCrossing levels count limit isBid = compact levels count limit isBid 0 0"

section \<open>Operations of the book\<close>

definition applySnapshot :: "orderBook \<Rightarrow> l2BookMsg \<Rightarrow> orderBook" where
  "applySnapshot b msg =
     (let (bl, bc) = copyLevels (l2_bids msg) (bidLevels b);
          (al, ac) = copyLevels (l2_asks msg) (askLevels b)
      in b\<lparr>bidLevels := bl, bidCount := bc, askLevels := al, askCount := ac,
           timeMs := l2_timeMs msg, snapshotTimeMs := l2_timeMs msg,
           updates := updates b + 1\<rparr>)"

definition applyBbo :: "orderBook \<Rightarrow> bboMsg \<Rightarrow> orderBook \<times> bool" where
  "applyBbo b msg =
     (if bbo_timeMs msg < snapshotTimeMs b then (b, False)
      else
        let (bl, bc) = (if hasBid msg then overlayTop (bidLevels b) (bidCount b) (bid msg) True
                        else (bidLevels b, 0));
            (al, ac) = (if hasAsk msg then overlayTop (askLevels b) (askCount b) (ask msg) False
                        else (askLevels b, 0));
            (bl, bc) = (if hasAsk msg then dropCrossing bl bc (px (ask msg)) True else (bl, bc));
            (al, ac) = (if hasBid msg then dropCrossing al ac (px (bid msg)) False else (al, ac))
        in (b\<lparr>bidLevels := bl, bidCount := bc, askLevels := al, askCount := ac,
              timeMs := bbo_timeMs msg, updates := updates b + 1\<rparr>, True))"

definition book_clear :: "orderBook \<Rightarrow> orderBook" where
  "book_clear b = b\<lparr>bidCount := 0, askCount := 0\<rparr>"

definition isValid :: "orderBook \<Rightarrow> bool" where
  "isValid b \<longleftrightarrow> bidCount b \<noteq> 0 \<and> askCount b \<noteq> 0 \<and> px (bidLevels b ! 0) < px (askLevels b ! 0)"

definition bestBid :: "orderBook \<Rightarrow> bookLevel option" where
  "bestBid b = (if bidCount b \<noteq> 0 then Some (bidLevels b ! 0) else None)"

definition bestAsk :: "orderBook \<Rightarrow> bookLevel option" where
  "bestAsk b = (if askCount b \<noteq> 0 then Some (askLevels b ! 0) else None)"

definition mid :: "orderBook \<Rightarrow> decimal" where
  "mid b = (if \<not> isValid b then dec_zero
            else fromRaw (wrap64 (raw (px (bidLevels b ! 0)) + raw (px (askLevels b ! 0))) sdiv 2))"

definition spread :: "orderBook \<Rightarrow> decimal" where
  "spread b = (if isValid b then dec_sub (px (askLevels b ! 0)) (px (bidLevels b ! 0)) else dec_zero)"

definition microprice :: "orderBook \<Rightarrow> decimal" where
  "microprice b =
     (if \<not> isValid b then dec_zero
      else let b0 = bidLevels b ! 0; a0 = askLevels b ! 0; totalSz = dec_add (sz b0) (sz a0)
           in if isZero totalSz then mid b
              else fromRaw (wrap64
                ((raw (px b0) * raw (sz a0) + raw (px a0) * raw (sz b0)) sdiv raw totalSz)))"

definition cumulativeSize :: "orderBook \<Rightarrow> side \<Rightarrow> nat \<Rightarrow> decimal" where
  "cumulativeSize b s levels =
     foldl (\<lambda>total l. dec_add total (sz l)) dec_zero (take levels (book_side b s))"

fun vwap_loop :: "bookLevel list \<Rightarrow> decimal \<Rightarrow> int \<Rightarrow> decimal \<Rightarrow> decimal option" where
  "vwap_loop [] remaining notional amount = None"
| "vwap_loop (l # lv) remaining notional amount =
     (let taken = min remaining (sz l);
          notional = notional + raw taken * raw (px l);
          remaining = dec_sub remaining taken
      in if isZero remaining then Some (fromRaw (wrap64 (notional sdiv raw amount)))
         else vwap_loop lv remaining notional amount)"

definition vwapForSize :: "orderBook \<Rightarrow> side \<Rightarrow> decimal \<Rightarrow> decimal option" where
  "vwapForSize b takerSide amount =
     (if raw amount \<le> 0 then None
      else vwap_loop (if takerSide = Buy then asks b else bids b) amount 0 amount)"

section \<open>Specification\<close>

text \<open>The invariant of the storage, and the ordering of the visible levels.\<close>

definition book_inv :: "orderBook \<Rightarrow> bool" where
  "book_inv b \<longleftrightarrow> length (bidLevels b) = kMaxLevels \<and> length (askLevels b) = kMaxLevels \<and>
     bidCount b \<le> kMaxLevels \<and> askCount b \<le> kMaxLevels"

definition best_first :: "bool \<Rightarrow> bookLevel list \<Rightarrow> bool" where
  "best_first isBid ls \<longleftrightarrow> sorted_wrt (\<lambda>a b. better isBid a b) ls"

definition book_sorted :: "orderBook \<Rightarrow> bool" where
  "book_sorted b \<longleftrightarrow> best_first True (bids b) \<and> best_first False (asks b)"

definition not_crossed :: "orderBook \<Rightarrow> bool" where
  "not_crossed b \<longleftrightarrow> (\<forall>x\<in>set (bids b). \<forall>y\<in>set (asks b). px x < px y)"

text \<open>What \<open>overlayTop\<close> does to the visible levels.\<close>

definition overlay_spec :: "bookLevel list \<Rightarrow> bookLevel \<Rightarrow> bool \<Rightarrow> bookLevel list" where
  "overlay_spec ls best isBid =
     (let rest = dropWhile (\<lambda>l. better isBid l best) ls in
      if rest \<noteq> [] \<and> px (hd rest) = px best then best # tl rest
      else take kMaxLevels (best # rest))"

section \<open>The array operations refine list operations\<close>

lemma length_memmove [simp]: "length (memmove a d s n) = length a"
  by (simp add: memmove_def)

lemma nth_memmove:
  "i < length a \<Longrightarrow>
   memmove a d s n ! i = (if d \<le> i \<and> i < d + n then a ! (s + (i - d)) else a ! i)"
  by (simp add: memmove_def)

lemma take_memmove_front:
  "d \<le> c \<Longrightarrow> c \<le> length a \<Longrightarrow> take (c - d) (memmove a 0 d (c - d)) = drop d (take c a)"
  by (rule nth_equalityI) (auto simp: nth_memmove)

lemma take_memmove_second:
  "1 \<le> d \<Longrightarrow> d \<le> c \<Longrightarrow> c \<le> length a \<Longrightarrow>
   take (c - (d - 1)) ((memmove a 1 d (c - d))[0 := x]) = x # drop d (take c a)"
  by (cases "length a") (auto intro!: nth_equalityI simp: nth_memmove nth_list_update nth_Cons split: nat.splits)

lemma take_memmove_shift:
  "k < length a \<Longrightarrow> take (k + 1) ((memmove a 1 0 k)[0 := x]) = x # take k a"
  by (cases "length a") (auto intro!: nth_equalityI simp: nth_memmove nth_list_update nth_Cons split: nat.splits)

lemma take_update_head: "1 \<le> c \<Longrightarrow> c \<le> length a \<Longrightarrow> take c (a[0 := x]) = x # drop 1 (take c a)"
  by (cases a; cases c) simp_all

lemma count_drop_eq:
  "d \<le> c \<Longrightarrow> c \<le> length ls \<Longrightarrow>
   count_drop ls c best isBid d = d + length (takeWhile (\<lambda>l. better isBid l best) (drop d (take c ls)))"
proof (induction ls c best isBid d rule: count_drop.induct)
  case (1 ls c best isBid d)
  show ?case
  proof (cases "d < c")
    case True
    then have "drop d (take c ls) = ls ! d # drop (Suc d) (take c ls)"
      using 1(3) by (metis Cons_nth_drop_Suc length_take min.absorb2 nth_take)
    with 1 True show ?thesis by (simp add: count_drop.simps[of ls c best isBid d])
  next
    case False
    with 1(2) have "d = c" by simp
    then show ?thesis by (simp add: count_drop.simps[of ls c best isBid c])
  qed
qed

lemma overlayTop_refines:
  assumes "length ls = kMaxLevels" and "c \<le> kMaxLevels" and "overlayTop ls c best isBid = (ls', c')"
  shows "length ls' = kMaxLevels \<and> c' \<le> kMaxLevels \<and>
         take c' ls' = overlay_spec (take c ls) best isBid"
proof -
  define d where "d = count_drop ls c best isBid 0"
  define v where "v = take c ls"
  define rest where "rest = dropWhile (\<lambda>l. better isBid l best) v"
  have d: "d = length (takeWhile (\<lambda>l. better isBid l best) v)"
    using count_drop_eq[of 0 c ls best isBid] assms(1,2) by (simp add: d_def v_def)
  have lv: "length v = c" using assms(1,2) by (simp add: v_def)
  have rest: "rest = drop d v" by (simp add: rest_def d dropWhile_eq_drop)
  have dc: "d \<le> c" using lv length_takeWhile_le[of _ v] by (simp add: d)
  have ne: "rest \<noteq> [] \<longleftrightarrow> d < c" using lv by (simp add: rest not_le)
  have hd: "d < c \<Longrightarrow> hd rest = ls ! d" using lv by (simp add: rest hd_drop_conv_nth v_def)
  show ?thesis
  proof (cases "d < c \<and> px (ls ! d) = px best")
    case True
    then have "best # drop (Suc d) v = overlay_spec v best isBid"
      using ne hd by (simp add: overlay_spec_def rest drop_Suc tl_drop flip: rest_def)
    moreover have "take (c - d) ((if d \<noteq> 0 then memmove ls 0 d (c - d) else ls)[0 := best])
        = best # drop (Suc d) v"
      using True assms(1,2) take_memmove_front[of d c ls]
      by (auto simp: take_update_head v_def)
    ultimately show ?thesis
      using True assms by (auto simp: overlayTop_def Let_def v_def simp flip: d_def split: if_splits)
  next
    case False
    then have sp: "overlay_spec v best isBid = take kMaxLevels (best # rest)"
      using ne hd by (auto simp: overlay_spec_def simp flip: rest_def)
    consider "d = 0" | "d = 1" | "d > 1" by linarith
    then show ?thesis
    proof cases
      case 1
      then have "take (min c (kMaxLevels - 1) + 1)
          ((memmove ls 1 0 (min c (kMaxLevels - 1)))[0 := best]) = overlay_spec v best isBid"
        using sp rest take_memmove_shift[of "min c (kMaxLevels - 1)" ls best] assms(1,2)
        by (simp add: v_def kMaxLevels_def min_def take_Cons')
      then show ?thesis
        using 1 False assms by (auto simp: overlayTop_def Let_def v_def kMaxLevels_def simp flip: d_def)
    next
      case 2
      then have "take c (ls[0 := best]) = overlay_spec v best isBid"
        using sp rest take_update_head[of c ls best] assms(1,2) dc lv
        by (simp add: v_def kMaxLevels_def)
      then show ?thesis
        using 2 False assms by (auto simp: overlayTop_def Let_def v_def simp flip: d_def)
    next
      case 3
      then have "take (c - (d - 1)) ((memmove ls 1 d (c - d))[0 := best]) = overlay_spec v best isBid"
        using sp rest take_memmove_second[of d c ls best] assms(1,2) dc lv
        by (simp add: v_def kMaxLevels_def)
      then show ?thesis
        using 3 False assms dc by (auto simp: overlayTop_def Let_def v_def simp flip: d_def)
    qed
  qed
qed

lemma compact_refines:
  "out \<le> i \<Longrightarrow> i \<le> c \<Longrightarrow> c \<le> length ls \<Longrightarrow> compact ls c limit isBid i out = (ls', c') \<Longrightarrow>
   length ls' = length ls \<and> c' \<le> c \<and>
   take c' ls' = take out ls @ filter (\<lambda>l. \<not> crosses isBid limit l) (drop i (take c ls))"
proof (induction ls c limit isBid i out rule: compact.induct)
  case (1 ls c limit isBid i out)
  show ?case
  proof (cases "i < c")
    case True
    then have dr: "drop i (take c ls) = ls ! i # drop (Suc i) (take c ls)"
      using 1(5) by (metis Cons_nth_drop_Suc length_take min.absorb2 nth_take)
    show ?thesis
    proof (cases "crosses isBid limit (ls ! i)")
      case cr: True
      then have "compact ls c limit isBid (i + 1) out = (ls', c')"
        using 1(6) True by (simp add: compact.simps[of ls c limit isBid i out])
      from 1(2)[OF True _ _ _ _ this] cr 1(3,5) True dr show ?thesis by simp
    next
      case cr: False
      let ?l = "ls[out := ls ! i]"
      have eq: "compact ?l c limit isBid (i + 1) (out + 1) = (ls', c')"
        using 1(6) True cr by (simp add: compact.simps[of ls c limit isBid i out])
      have "take (Suc out) ?l = take out ls @ [ls ! i]"
        using 1(3,5) True by (simp add: take_Suc_conv_app_nth)
      moreover have "drop (Suc i) (take c ?l) = drop (Suc i) (take c ls)"
        using 1(3) by (simp add: take_update_swap drop_update_cancel)
      ultimately show ?thesis
        using 1(1)[OF True cr _ _ _ eq] cr 1(3,5) True dr by simp
    qed
  next
    case False
    with 1(4) have "i = c" by simp
    with 1(3,5,6) show ?thesis by (auto simp: compact.simps[of ls c limit isBid c out])
  qed
qed

lemma dropCrossing_refines:
  "length ls = kMaxLevels \<Longrightarrow> c \<le> kMaxLevels \<Longrightarrow> dropCrossing ls c limit isBid = (ls', c') \<Longrightarrow>
   length ls' = kMaxLevels \<and> c' \<le> kMaxLevels \<and>
   take c' ls' = filter (\<lambda>l. \<not> crosses isBid limit l) (take c ls)"
  using compact_refines[of 0 0 c ls limit isBid ls' c'] by (simp add: dropCrossing_def)

lemma copyLevels_refines:
  "length dst = kMaxLevels \<Longrightarrow> copyLevels src dst = (ls', c') \<Longrightarrow>
   length ls' = kMaxLevels \<and> c' \<le> kMaxLevels \<and> take c' ls' = take kMaxLevels src"
  by (auto simp: copyLevels_def Let_def min_def)

section \<open>One side of the book as an interface\<close>

text \<open>
  What \<open>applyBbo\<close> relies on: a store of levels whose two operations act on the visible levels
  as the specification says and keep the storage invariant.
\<close>

locale side_store =
  fixes view :: "'s \<Rightarrow> bookLevel list"
    and inv :: "'s \<Rightarrow> bool"
    and overlay :: "'s \<Rightarrow> bookLevel \<Rightarrow> bool \<Rightarrow> 's"
    and drop_crossing :: "'s \<Rightarrow> decimal \<Rightarrow> bool \<Rightarrow> 's"
  assumes view_overlay: "inv s \<Longrightarrow> view (overlay s best isBid) = overlay_spec (view s) best isBid"
    and inv_overlay: "inv s \<Longrightarrow> inv (overlay s best isBid)"
    and view_drop: "inv s \<Longrightarrow>
      view (drop_crossing s limit isBid) = filter (\<lambda>l. \<not> crosses isBid limit l) (view s)"
    and inv_drop: "inv s \<Longrightarrow> inv (drop_crossing s limit isBid)"
begin

lemma overlay_spec_first:
  "overlay_spec ls best isBid = best # tl (overlay_spec ls best isBid)"
  by (auto simp: overlay_spec_def Let_def kMaxLevels_def)

lemma overlay_tail_subset:
  "set (tl (overlay_spec ls best isBid)) \<subseteq> set (dropWhile (\<lambda>l. better isBid l best) ls)"
  by (cases "dropWhile (\<lambda>l. better isBid l best) ls")
    (auto simp: overlay_spec_def Let_def kMaxLevels_def dest: in_set_takeD split: if_splits)

lemma not_better_after:
  assumes "best_first isBid ls" and "rest = dropWhile (\<lambda>l. better isBid l best) ls"
  shows "\<forall>l\<in>set rest. \<not> better isBid l best"
proof (cases rest)
  case (Cons h t)
  have "\<not> better isBid h best"
    using hd_dropWhile[of "\<lambda>l. better isBid l best" ls] Cons assms(2)
    by (metis list.distinct(1) list.sel(1))
  moreover have "best_first isBid rest"
    using assms sorted_wrt_drop by (simp add: best_first_def dropWhile_eq_drop)
  ultimately show ?thesis
    unfolding Cons by (auto simp: best_first_def better_def split: if_splits)
qed simp

lemma overlay_best:
  assumes "inv s" and "best_first isBid (view s)"
  shows "\<forall>l\<in>set (view (overlay s best isBid)). \<not> better isBid l best"
proof
  fix l assume l: "l \<in> set (view (overlay s best isBid))"
  define ov where "ov = overlay_spec (view s) best isBid"
  have "l \<in> set (best # tl ov)"
    using l view_overlay[OF assms(1), of best isBid] overlay_spec_first[of "view s" best isBid]
    by (simp only: ov_def)
  then have "l = best \<or> l \<in> set (tl (overlay_spec (view s) best isBid))"
    by (simp add: ov_def)
  then show "\<not> better isBid l best"
  proof
    assume "l = best"
    then show ?thesis by (simp add: better_def)
  next
    assume "l \<in> set (tl (overlay_spec (view s) best isBid))"
    then have "l \<in> set (dropWhile (\<lambda>l. better isBid l best) (view s))"
      using overlay_tail_subset by (rule subsetD[rotated])
    with not_better_after[OF assms(2) refl] show ?thesis by (rule bspec)
  qed
qed

lemma overlay_sorted:
  assumes "inv s" and "best_first isBid (view s)"
  shows "best_first isBid (view (overlay s best isBid))"
proof -
  define rest where "rest = dropWhile (\<lambda>l. better isBid l best) (view s)"
  have srt: "best_first isBid rest"
    using assms(2) sorted_wrt_drop by (simp add: best_first_def rest_def dropWhile_eq_drop)
  have nb: "\<forall>l\<in>set rest. \<not> better isBid l best"
    using not_better_after[OF assms(2) rest_def] .
  show ?thesis
  proof (cases "rest \<noteq> [] \<and> px (hd rest) = px best")
    case True
    then obtain h t where rest: "rest = h # t" by (cases rest) auto
    with True srt have "best_first isBid (best # t)"
      by (auto simp: best_first_def better_def)
    with True rest show ?thesis
      by (simp add: view_overlay[OF assms(1)] overlay_spec_def flip: rest_def)
  next
    case False
    have "\<forall>l\<in>set rest. better isBid best l"
    proof
      fix l assume l: "l \<in> set rest"
      then obtain h t where rest: "rest = h # t" by (cases rest) auto
      with False have "px h \<noteq> px best" by simp
      with nb rest have "better isBid best h" by (auto simp: better_def split: if_splits)
      with l srt rest show "better isBid best l" by (auto simp: best_first_def better_def split: if_splits)
    qed
    with srt have "best_first isBid (best # rest)" by (simp add: best_first_def)
    then have "best_first isBid (take kMaxLevels (best # rest))"
      unfolding best_first_def by (rule sorted_wrt_take)
    with False show ?thesis
      by (auto simp: view_overlay[OF assms(1)] overlay_spec_def simp flip: rest_def)
  qed
qed

lemma drop_sorted:
  "inv s \<Longrightarrow> best_first isBid (view s) \<Longrightarrow> best_first isBid (view (drop_crossing s limit d))"
  by (simp add: view_drop best_first_def sorted_wrt_filter)

lemma top_after_bbo:
  assumes "inv s" and "\<not> crosses isBid limit best"
  shows "\<exists>t. view (drop_crossing (overlay s best isBid) limit isBid) = best # t"
  using assms(2) overlay_spec_first[of "view s" best isBid]
  by (metis (lifting) assms(1) filter.simps(2) inv_overlay view_drop view_overlay)

lemma drop_members:
  "inv s \<Longrightarrow> l \<in> set (view (drop_crossing s limit isBid)) \<Longrightarrow> \<not> crosses isBid limit l \<and> l \<in> set (view s)"
  by (simp add: view_drop)

end

definition side_view :: "bookLevel list \<times> nat \<Rightarrow> bookLevel list" where
  "side_view s = take (snd s) (fst s)"

definition side_inv :: "bookLevel list \<times> nat \<Rightarrow> bool" where
  "side_inv s \<longleftrightarrow> length (fst s) = kMaxLevels \<and> snd s \<le> kMaxLevels"

interpretation arr: side_store side_view side_inv
  "\<lambda>s best isBid. overlayTop (fst s) (snd s) best isBid"
  "\<lambda>s limit isBid. dropCrossing (fst s) (snd s) limit isBid"
proof unfold_locales
  fix s best isBid limit
  assume inv: "side_inv s"
  obtain ls' c' where o: "overlayTop (fst s) (snd s) best isBid = (ls', c')" by fastforce
  obtain ls2 c2 where d: "dropCrossing (fst s) (snd s) limit isBid = (ls2, c2)" by fastforce
  from overlayTop_refines[OF _ _ o] inv
  show "side_view (overlayTop (fst s) (snd s) best isBid) = overlay_spec (side_view s) best isBid"
    and "side_inv (overlayTop (fst s) (snd s) best isBid)"
    by (auto simp: side_view_def side_inv_def o)
  from dropCrossing_refines[OF _ _ d] inv
  show "side_view (dropCrossing (fst s) (snd s) limit isBid)
      = filter (\<lambda>l. \<not> crosses isBid limit l) (side_view s)"
    and "side_inv (dropCrossing (fst s) (snd s) limit isBid)"
    by (auto simp: side_view_def side_inv_def d)
qed

section \<open>The book\<close>

definition bid_side :: "orderBook \<Rightarrow> bookLevel list \<times> nat" where
  "bid_side b = (bidLevels b, bidCount b)"

definition ask_side :: "orderBook \<Rightarrow> bookLevel list \<times> nat" where
  "ask_side b = (askLevels b, askCount b)"

lemma book_inv_sides: "book_inv b \<longleftrightarrow> side_inv (bid_side b) \<and> side_inv (ask_side b)"
  by (auto simp: book_inv_def side_inv_def bid_side_def ask_side_def)

lemma bids_view: "bids b = side_view (bid_side b)"
  by (simp add: bids_def side_view_def bid_side_def)

lemma asks_view: "asks b = side_view (ask_side b)"
  by (simp add: asks_def side_view_def ask_side_def)

definition bbo_bid_side :: "orderBook \<Rightarrow> bboMsg \<Rightarrow> bookLevel list \<times> nat" where
  "bbo_bid_side b msg =
     (let s = (if hasBid msg then overlayTop (bidLevels b) (bidCount b) (bid msg) True
               else (bidLevels b, 0))
      in if hasAsk msg then dropCrossing (fst s) (snd s) (px (ask msg)) True else s)"

definition bbo_ask_side :: "orderBook \<Rightarrow> bboMsg \<Rightarrow> bookLevel list \<times> nat" where
  "bbo_ask_side b msg =
     (let s = (if hasAsk msg then overlayTop (askLevels b) (askCount b) (ask msg) False
               else (askLevels b, 0))
      in if hasBid msg then dropCrossing (fst s) (snd s) (px (bid msg)) False else s)"

lemma applyBbo_sides:
  assumes "\<not> bbo_timeMs msg < snapshotTimeMs b"
  shows "snd (applyBbo b msg)"
    and "bid_side (fst (applyBbo b msg)) = bbo_bid_side b msg"
    and "ask_side (fst (applyBbo b msg)) = bbo_ask_side b msg"
    and "timeMs (fst (applyBbo b msg)) = bbo_timeMs msg"
    and "snapshotTimeMs (fst (applyBbo b msg)) = snapshotTimeMs b"
    and "updates (fst (applyBbo b msg)) = updates b + 1"
  using assms
  by (auto simp: applyBbo_def bid_side_def ask_side_def bbo_bid_side_def bbo_ask_side_def Let_def
      split: prod.splits)

lemma applyBbo_stale:
  "bbo_timeMs msg < snapshotTimeMs b \<Longrightarrow> applyBbo b msg = (b, False)"
  by (simp add: applyBbo_def)

lemma empty_side: "side_inv s \<Longrightarrow> side_inv (fst s, 0) \<and> side_view (fst s, 0) = []"
  by (simp add: side_inv_def side_view_def)

lemma bbo_bid_side_ok:
  assumes "side_inv (bid_side b)" and "best_first True (side_view (bid_side b))"
  shows "side_inv (bbo_bid_side b msg) \<and> best_first True (side_view (bbo_bid_side b msg)) \<and>
    (\<forall>l\<in>set (side_view (bbo_bid_side b msg)).
       hasBid msg \<and> \<not> better True l (bid msg) \<and> (hasAsk msg \<longrightarrow> px l < px (ask msg)))"
proof -
  define s where "s = (if hasBid msg then overlayTop (bidLevels b) (bidCount b) (bid msg) True
                       else (bidLevels b, 0))"
  have ov: "overlayTop (bidLevels b) (bidCount b) (bid msg) True
      = overlayTop (fst (bid_side b)) (snd (bid_side b)) (bid msg) True"
    by (simp add: bid_side_def)
  have e: "side_inv (bidLevels b, 0)" "side_view (bidLevels b, 0) = []"
    using empty_side[OF assms(1)] by (simp_all add: bid_side_def)
  have s: "side_inv s" "best_first True (side_view s)"
    "\<forall>l\<in>set (side_view s). hasBid msg \<and> \<not> better True l (bid msg)"
    using e arr.inv_overlay[OF assms(1)] arr.overlay_sorted[OF assms] arr.overlay_best[OF assms]
    by (auto simp: s_def ov best_first_def)
  show ?thesis
  proof (cases "hasAsk msg")
    case True
    then have "bbo_bid_side b msg = dropCrossing (fst s) (snd s) (px (ask msg)) True"
      by (simp add: bbo_bid_side_def flip: s_def)
    with s True arr.inv_drop[OF s(1)] arr.drop_sorted[OF s(1,2)] show ?thesis
      by (auto simp: crosses_def dest!: arr.drop_members[OF s(1)])
  next
    case False
    then have "bbo_bid_side b msg = s" by (simp add: bbo_bid_side_def flip: s_def)
    with s False show ?thesis by simp
  qed
qed

lemma bbo_ask_side_ok:
  assumes "side_inv (ask_side b)" and "best_first False (side_view (ask_side b))"
  shows "side_inv (bbo_ask_side b msg) \<and> best_first False (side_view (bbo_ask_side b msg)) \<and>
    (\<forall>l\<in>set (side_view (bbo_ask_side b msg)).
       hasAsk msg \<and> \<not> better False l (ask msg) \<and> (hasBid msg \<longrightarrow> px (bid msg) < px l))"
proof -
  define s where "s = (if hasAsk msg then overlayTop (askLevels b) (askCount b) (ask msg) False
                       else (askLevels b, 0))"
  have ov: "overlayTop (askLevels b) (askCount b) (ask msg) False
      = overlayTop (fst (ask_side b)) (snd (ask_side b)) (ask msg) False"
    by (simp add: ask_side_def)
  have e: "side_inv (askLevels b, 0)" "side_view (askLevels b, 0) = []"
    using empty_side[OF assms(1)] by (simp_all add: ask_side_def)
  have s: "side_inv s" "best_first False (side_view s)"
    "\<forall>l\<in>set (side_view s). hasAsk msg \<and> \<not> better False l (ask msg)"
    using e arr.inv_overlay[OF assms(1)] arr.overlay_sorted[OF assms] arr.overlay_best[OF assms]
    by (auto simp: s_def ov best_first_def)
  show ?thesis
  proof (cases "hasBid msg")
    case True
    then have "bbo_ask_side b msg = dropCrossing (fst s) (snd s) (px (bid msg)) False"
      by (simp add: bbo_ask_side_def flip: s_def)
    with s True arr.inv_drop[OF s(1)] arr.drop_sorted[OF s(1,2)] show ?thesis
      by (auto simp: crosses_def dest!: arr.drop_members[OF s(1)])
  next
    case False
    then have "bbo_ask_side b msg = s" by (simp add: bbo_ask_side_def flip: s_def)
    with s False show ?thesis by simp
  qed
qed

section \<open>Runs of the book\<close>

text \<open>
  What the venue promises about a snapshot: both sides best first, and not crossed. A run applies
  any sequence of snapshots, best-bid/offer updates and clears to a new book.
\<close>

definition snapshot_ok :: "l2BookMsg \<Rightarrow> bool" where
  "snapshot_ok msg \<longleftrightarrow> best_first True (l2_bids msg) \<and> best_first False (l2_asks msg) \<and>
     (\<forall>x\<in>set (l2_bids msg). \<forall>y\<in>set (l2_asks msg). px x < px y)"

inductive book_run :: "string \<Rightarrow> orderBook \<Rightarrow> bool" for c where
  start: "book_run c (new_book c)"
| snapshot: "book_run c b \<Longrightarrow> snapshot_ok msg \<Longrightarrow> book_run c (applySnapshot b msg)"
| bbo: "book_run c b \<Longrightarrow> book_run c (fst (applyBbo b msg))"
| clear: "book_run c b \<Longrightarrow> book_run c (book_clear b)"

lemma applySnapshot_sides:
  assumes "book_inv b"
  shows "book_inv (applySnapshot b msg)"
    and "bids (applySnapshot b msg) = take kMaxLevels (l2_bids msg)"
    and "asks (applySnapshot b msg) = take kMaxLevels (l2_asks msg)"
  using assms by (auto simp: applySnapshot_def copyLevels_def Let_def book_inv_def bids_def asks_def min_def)

lemma applyBbo_keeps:
  assumes "book_inv b" and "book_sorted b" and "not_crossed b"
  shows "book_inv (fst (applyBbo b msg)) \<and> book_sorted (fst (applyBbo b msg)) \<and>
         not_crossed (fst (applyBbo b msg))"
proof (cases "bbo_timeMs msg < snapshotTimeMs b")
  case True
  then show ?thesis using assms by (simp add: applyBbo_stale)
next
  case False
  have "side_inv (bid_side b)" "best_first True (side_view (bid_side b))"
    "side_inv (ask_side b)" "best_first False (side_view (ask_side b))"
    using assms(1,2) by (simp_all add: book_inv_sides book_sorted_def bids_view asks_view)
  note B = bbo_bid_side_ok[OF this(1,2), of msg] and A = bbo_ask_side_ok[OF this(3,4), of msg]
  have "px x < px y" if "x \<in> set (side_view (bbo_bid_side b msg))"
    "y \<in> set (side_view (bbo_ask_side b msg))" for x y
    using B A that by (fastforce simp: better_def)
  with B A show ?thesis
    by (simp add: book_inv_sides book_sorted_def not_crossed_def bids_view asks_view
        applyBbo_sides[OF False])
qed

lemma book_run_inv:
  "book_run c b \<Longrightarrow> book_inv b \<and> book_sorted b \<and> not_crossed b"
proof (induction rule: book_run.induct)
  case start
  show ?case
    by (simp add: new_book_def book_inv_def book_sorted_def not_crossed_def bids_def asks_def best_first_def)
next
  case (snapshot b msg)
  then show ?case
    by (auto simp: applySnapshot_sides book_sorted_def not_crossed_def snapshot_ok_def best_first_def
        sorted_wrt_take dest: in_set_takeD)
next
  case (bbo b msg)
  then show ?case by (simp add: applyBbo_keeps)
next
  case (clear b)
  then show ?case
    by (simp add: book_clear_def book_inv_def book_sorted_def not_crossed_def bids_def asks_def best_first_def)
qed

lemma nth0_take: "take c ls = x # t \<Longrightarrow> c \<noteq> 0 \<and> ls ! 0 = x"
  by (cases ls; cases c) simp_all

lemma stale_bbo_ignored:
  "bbo_timeMs msg < snapshotTimeMs b \<longleftrightarrow> \<not> snd (applyBbo b msg)"
  using applyBbo_sides(1)[of msg b] by (auto simp: applyBbo_stale)

section \<open>Prices derived from the book\<close>

lemma mid_between:
  assumes "isValid b" and "0 < raw (px (bidLevels b ! 0))"
    and "in_i64 (raw (px (bidLevels b ! 0)) + raw (px (askLevels b ! 0)))"
  shows "px (bidLevels b ! 0) \<le> mid b \<and> mid b < px (askLevels b ! 0)"
  using assms
  by (auto simp: mid_def isValid_def fromRaw_def wrap64_id sdiv_nonneg less_decimal_def less_eq_decimal_def)

lemma weighted_mean_bounds:
  assumes "(lo::int) * t \<le> m" and "m \<le> hi * t" and "0 < t"
  shows "lo \<le> m div t \<and> m div t \<le> hi"
  using zdiv_mono1[OF assms(1,3)] zdiv_mono1[OF assms(2,3)] assms(3) by simp

lemma vwap_loop_Some:
  assumes "vwap_loop lv r N amt = Some p" and "0 \<le> raw r" and "in_i64 (raw r)"
    and "\<forall>l\<in>set lv. 0 \<le> raw (sz l) \<and> lo \<le> raw (px l) \<and> raw (px l) \<le> hi"
  shows "\<exists>M. p = Decimal (wrap64 (M sdiv raw amt)) \<and> N + lo * raw r \<le> M \<and> M \<le> N + hi * raw r"
  using assms
proof (induction lv r N amt rule: vwap_loop.induct)
  case (2 l lv r N amt)
  define t where "t = min (raw r) (raw (sz l))"
  have t: "raw (min r (sz l)) = t"
    by (simp add: t_def min_def less_eq_decimal_def)
  have tb: "0 \<le> t" "t \<le> raw r" using 2(3,5) by (auto simp: t_def)
  have sub: "raw (dec_sub r (min r (sz l))) = raw r - t"
    using tb 2(4) by (simp add: dec_sub_def t wrap64_id in_i64_def)
  have lohi: "lo * t \<le> t * raw (px l)" "t * raw (px l) \<le> hi * t"
    using 2(5) tb(1) mult_right_mono[of lo "raw (px l)" t] mult_right_mono[of "raw (px l)" hi t]
    by (simp_all add: mult.commute)
  show ?case
  proof (cases "isZero (dec_sub r (min r (sz l)))")
    case True
    then have "raw r = t" by (simp add: isZero_def sub)
    then show ?thesis
      using 2(2) True lohi by (auto simp: t fromRaw_def)
  next
    case False
    have "vwap_loop lv (dec_sub r (min r (sz l))) (N + t * raw (px l)) amt = Some p"
      using 2(2) False by (simp add: t)
    from 2(1)[OF refl refl refl False, unfolded t, OF this] obtain M where
      "p = Decimal (wrap64 (M sdiv raw amt))"
      "N + t * raw (px l) + lo * (raw r - t) \<le> M" "M \<le> N + t * raw (px l) + hi * (raw r - t)"
      using 2(4,5) tb by (auto simp: sub in_i64_def)
    then show ?thesis using lohi by (auto intro!: exI[of _ M] simp: algebra_simps)
  qed
qed simp

lemma vwap_loop_returns:
  assumes "\<forall>l\<in>set lv. 0 \<le> raw (sz l)" and "0 < raw r" and "in_i64 (raw r)"
  shows "(\<exists>p. vwap_loop lv r N amt = Some p) \<longleftrightarrow> raw r \<le> (\<Sum>l\<leftarrow>lv. raw (sz l))"
  using assms
proof (induction lv r N amt rule: vwap_loop.induct)
  case (2 l lv r N amt)
  define t where "t = min (raw r) (raw (sz l))"
  have t: "raw (min r (sz l)) = t"
    by (simp add: t_def min_def less_eq_decimal_def)
  have tb: "0 \<le> t" "t \<le> raw r" using 2(2,3) by (auto simp: t_def)
  have sub: "raw (dec_sub r (min r (sz l))) = raw r - t"
    using tb 2(4) by (simp add: dec_sub_def t wrap64_id in_i64_def)
  have rest: "0 \<le> (\<Sum>l\<leftarrow>lv. raw (sz l))"
    using 2(2) by (intro sum_list_nonneg) auto
  show ?case
  proof (cases "isZero (dec_sub r (min r (sz l)))")
    case True
    then have "raw r \<le> raw (sz l)" by (auto simp: isZero_def sub t_def)
    with True rest show ?thesis by simp
  next
    case False
    then have ne: "raw r > raw (sz l)" "t = raw (sz l)" by (auto simp: isZero_def sub t_def)
    from 2(1)[OF refl refl refl False] 2(2,4) ne have
      "(\<exists>p. vwap_loop lv (dec_sub r (min r (sz l))) (N + raw (min r (sz l)) * raw (px l)) amt = Some p)
        \<longleftrightarrow> raw r - t \<le> (\<Sum>l\<leftarrow>lv. raw (sz l))"
      using tb by (auto simp: sub in_i64_def)
    with False ne show ?thesis by (auto simp: Let_def)
  qed
qed simp

section \<open>A concrete book\<close>

definition ex_level :: "int \<Rightarrow> int \<Rightarrow> bookLevel" where
  "ex_level p s = \<lparr>px = Decimal p, sz = Decimal s, n_orders = 1\<rparr>"

definition ex_snapshot :: l2BookMsg where
  "ex_snapshot = \<lparr>l2_coin = ''BTC'', l2_timeMs = 10, l2_bids = [ex_level 100 5, ex_level 99 4],
     l2_asks = [ex_level 102 3, ex_level 105 2]\<rparr>"

definition ex_bbo :: bboMsg where
  "ex_bbo = \<lparr>bbo_coin = ''BTC'', bbo_timeMs = 11, hasBid = True, hasAsk = True,
     bid = ex_level 103 7, ask = ex_level 105 1\<rparr>"

definition ex_book :: orderBook where
  "ex_book = (new_book ''BTC'')\<lparr>bidLevels := ex_level 100 5 # ex_level 99 4 # replicate 62 empty_level,
     askLevels := ex_level 102 3 # ex_level 105 2 # replicate 62 empty_level,
     bidCount := 2, askCount := 2, timeMs := 10, snapshotTimeMs := 10\<rparr>"

lemmas ex_defs = ex_level_def ex_snapshot_def ex_bbo_def ex_book_def new_book_def

section \<open>Properties\<close>

text \<open>
  C20: a best-bid/offer update that is not older than the last snapshot rewrites the visible
  levels exactly as documented: the levels the new best moved through go, the best level is
  inserted or resized, levels of the other side that would cross are removed, and a side without a
  best price is emptied. The array code (\<open>memmove\<close>, in-place compaction, capacity 64) refines this
  list-level specification.
\<close>

theorem applyBbo_refines:
  assumes "book_inv b" and "snapshotTimeMs b \<le> bbo_timeMs msg"
  shows "bids (fst (applyBbo b msg)) =
      (if hasBid msg
       then filter (\<lambda>l. hasAsk msg \<longrightarrow> px l < px (ask msg)) (overlay_spec (bids b) (bid msg) True)
       else []) \<and>
    asks (fst (applyBbo b msg)) =
      (if hasAsk msg
       then filter (\<lambda>l. hasBid msg \<longrightarrow> px (bid msg) < px l) (overlay_spec (asks b) (ask msg) False)
       else [])"
proof -
  have t: "\<not> bbo_timeMs msg < snapshotTimeMs b" using assms(2) by simp
  have inv: "side_inv (bid_side b)" "side_inv (ask_side b)"
    using assms(1) by (simp_all add: book_inv_sides)
  have e: "side_inv (bidLevels b, 0)" "side_inv (askLevels b, 0)"
    "side_view (bidLevels b, 0) = []" "side_view (askLevels b, 0) = []"
    using empty_side[OF inv(1)] empty_side[OF inv(2)] by (simp_all add: bid_side_def ask_side_def)
  have "side_view (bbo_bid_side b msg) =
      (if hasBid msg
       then filter (\<lambda>l. hasAsk msg \<longrightarrow> px l < px (ask msg))
              (overlay_spec (side_view (bid_side b)) (bid msg) True) else [])"
    using arr.view_overlay[OF inv(1), of "bid msg" True] arr.inv_overlay[OF inv(1), of "bid msg" True]
      arr.view_drop[of _ "px (ask msg)" True] arr.view_drop[OF e(1)] e(3)
    by (simp add: bbo_bid_side_def Let_def crosses_def bid_side_def not_le)
  moreover have "side_view (bbo_ask_side b msg) =
      (if hasAsk msg
       then filter (\<lambda>l. hasBid msg \<longrightarrow> px (bid msg) < px l)
              (overlay_spec (side_view (ask_side b)) (ask msg) False) else [])"
    using arr.view_overlay[OF inv(2), of "ask msg" False] arr.inv_overlay[OF inv(2), of "ask msg" False]
      arr.view_drop[of _ "px (bid msg)" False] arr.view_drop[OF e(2)] e(4)
    by (simp add: bbo_ask_side_def Let_def crosses_def ask_side_def not_le)
  ultimately show ?thesis
    by (simp only: bids_view asks_view applyBbo_sides[OF t])
qed

theorem applyBbo_refines_witness:
  "book_inv ex_book \<and> snapshotTimeMs ex_book \<le> bbo_timeMs ex_bbo \<and>
   map (raw \<circ> px) (bids (fst (applyBbo ex_book ex_bbo))) = [103, 100, 99] \<and>
   map (raw \<circ> px) (asks (fst (applyBbo ex_book ex_bbo))) = [105]"
proof -
  have inv: "book_inv ex_book" and t: "snapshotTimeMs ex_book \<le> bbo_timeMs ex_bbo"
    by (simp_all add: ex_defs book_inv_def kMaxLevels_def)
  from applyBbo_refines[OF inv t] inv t show ?thesis
    by (simp add: ex_defs overlay_spec_def better_def bids_def asks_def kMaxLevels_def
        less_decimal_def)
qed

text \<open>
  C1: in every run of snapshots (best first and not crossed, as the venue sends them), best-bid/offer
  updates of any content, even crossed or locked ones, and clears, both sides stay strictly best
  first, no bid reaches any ask, and the capacity is respected.
\<close>

theorem book_never_crossed:
  assumes "book_run c b"
  shows "book_sorted b \<and> not_crossed b \<and> length (bids b) \<le> kMaxLevels \<and> length (asks b) \<le> kMaxLevels"
  using book_run_inv[OF assms] by (auto simp: book_inv_def bids_def asks_def)

theorem book_never_crossed_witness:
  "book_run ''BTC'' (fst (applyBbo (applySnapshot (new_book ''BTC'') ex_snapshot) ex_bbo)) \<and>
   not_crossed (fst (applyBbo (applySnapshot (new_book ''BTC'') ex_snapshot) ex_bbo))"
proof -
  have "snapshot_ok ex_snapshot"
    by (simp add: ex_defs snapshot_ok_def best_first_def better_def less_decimal_def)
  then have r: "book_run ''BTC'' (fst (applyBbo (applySnapshot (new_book ''BTC'') ex_snapshot) ex_bbo))"
    by (intro book_run.intros)
  show ?thesis using book_never_crossed[OF r] r by simp
qed

text \<open>
  After a fresh update with both sides and bid below ask, the book is valid and its top of
  book is exactly the update, whatever the deeper levels were.
\<close>

lemma applyBbo_fresh_top:
  assumes "book_inv b" and "snapshotTimeMs b \<le> bbo_timeMs msg" and "hasBid msg" and "hasAsk msg"
    and "px (bid msg) < px (ask msg)"
  shows "snd (applyBbo b msg) \<and> isValid (fst (applyBbo b msg)) \<and>
    bestBid (fst (applyBbo b msg)) = Some (bid msg) \<and> bestAsk (fst (applyBbo b msg)) = Some (ask msg)"
proof -
  have t: "\<not> bbo_timeMs msg < snapshotTimeMs b" using assms(2) by simp
  have inv: "side_inv (bid_side b)" "side_inv (ask_side b)"
    using assms(1) by (simp_all add: book_inv_sides)
  let ?b = "fst (applyBbo b msg)"
  have "\<not> crosses True (px (ask msg)) (bid msg)" using assms(5) by (simp add: crosses_def)
  from arr.top_after_bbo[OF inv(1) this]
  obtain bt where "side_view (bbo_bid_side b msg) = bid msg # bt"
    using assms(3,4) by (auto simp: bbo_bid_side_def bid_side_def Let_def)
  then have "side_view (bid_side ?b) = bid msg # bt"
    by (simp only: applyBbo_sides[OF t])
  then have B: "bidCount ?b \<noteq> 0 \<and> bidLevels ?b ! 0 = bid msg"
    by (simp add: side_view_def bid_side_def nth0_take)
  have "\<not> crosses False (px (bid msg)) (ask msg)" using assms(5) by (simp add: crosses_def)
  from arr.top_after_bbo[OF inv(2) this]
  obtain at where "side_view (bbo_ask_side b msg) = ask msg # at"
    using assms(3,4) by (auto simp: bbo_ask_side_def ask_side_def Let_def)
  then have "side_view (ask_side ?b) = ask msg # at"
    by (simp only: applyBbo_sides[OF t])
  then have A: "askCount ?b \<noteq> 0 \<and> askLevels ?b ! 0 = ask msg"
    by (simp add: side_view_def ask_side_def nth0_take)
  show ?thesis
    using A B assms(5) applyBbo_sides(1)[OF t] by (simp add: isValid_def bestBid_def bestAsk_def)
qed

text \<open>
  The size-weighted mid price of a valid book with positive prices and sizes lies between the
  best bid and the best ask.
\<close>

lemma microprice_between:
  assumes "isValid b" and "b0 = bidLevels b ! 0" and "a0 = askLevels b ! 0"
    and "0 < raw (px b0)" and "0 < raw (sz b0)" and "0 < raw (sz a0)"
    and "in_i64 (raw (px a0))" and "in_i64 (raw (sz b0) + raw (sz a0))"
  shows "px b0 \<le> microprice b \<and> microprice b \<le> px a0"
proof -
  define t where "t = raw (sz b0) + raw (sz a0)"
  define m where "m = raw (px b0) * raw (sz a0) + raw (px a0) * raw (sz b0)"
  have lt: "raw (px b0) < raw (px a0)"
    using assms(1-3) by (simp add: isValid_def less_decimal_def)
  have "raw (px b0) * t \<le> m"
    using mult_right_mono[of "raw (px b0)" "raw (px a0)" "raw (sz b0)"] lt assms(5)
    by (simp add: t_def m_def algebra_simps)
  moreover have "m \<le> raw (px a0) * t"
    using mult_right_mono[of "raw (px b0)" "raw (px a0)" "raw (sz a0)"] lt assms(6)
    by (simp add: t_def m_def algebra_simps)
  moreover have t: "0 < t" using assms(5,6) by (simp add: t_def)
  ultimately have bounds: "raw (px b0) \<le> m div t" "m div t \<le> raw (px a0)"
    using weighted_mean_bounds by blast+
  have "0 \<le> m" using assms(4-6) lt by (simp add: m_def)
  then have "m sdiv t = m div t" using t by (rule sdiv_nonneg)
  moreover have "in_i64 (m div t)"
    using bounds assms(4,7) by (auto simp: in_i64_def)
  ultimately show ?thesis
    using assms(1,8) t bounds
    by (simp add: microprice_def Let_def dec_add_def isZero_def wrap64_id fromRaw_def less_eq_decimal_def
        flip: assms(2,3) m_def t_def)
qed

text \<open>
  A volume-weighted price is returned exactly when the size is positive and covered by the
  visible depth, and it lies within the prices of the levels consumed.
\<close>

lemma vwap_within_depth:
  assumes "lv = (if s = Buy then asks b else bids b)" and "in_i64 (raw amt)"
    and "\<forall>l\<in>set lv. 0 \<le> raw (sz l) \<and> 0 \<le> lo \<and> lo \<le> raw (px l) \<and> raw (px l) \<le> hi \<and> in_i64 hi"
  shows "((\<exists>p. vwapForSize b s amt = Some p) \<longleftrightarrow> 0 < raw amt \<and> raw amt \<le> (\<Sum>l\<leftarrow>lv. raw (sz l))) \<and>
    (\<forall>p. vwapForSize b s amt = Some p \<longrightarrow> lo \<le> raw p \<and> raw p \<le> hi)"
proof (cases "0 < raw amt")
  case True
  have eq: "vwapForSize b s amt = vwap_loop lv amt 0 amt"
    using True assms(1) by (simp add: vwapForSize_def)
  have "lo \<le> raw p \<and> raw p \<le> hi" if p: "vwap_loop lv amt 0 amt = Some p" for p
  proof -
    obtain l where l: "l \<in> set lv" using p by (cases lv) auto
    with assms(3) have lh: "0 \<le> lo" "lo \<le> hi" "in_i64 hi" by fastforce+
    obtain M where M: "p = Decimal (wrap64 (M sdiv raw amt))" "lo * raw amt \<le> M" "M \<le> hi * raw amt"
      using vwap_loop_Some[OF p, of lo hi] True assms(2,3) by auto
    have "0 \<le> M" using M(2) lh(1) True by (meson mult_nonneg_nonneg order_trans less_imp_le)
    with weighted_mean_bounds[OF M(2,3) True] lh show ?thesis
      using True by (simp add: M(1) sdiv_nonneg wrap64_id in_i64_def)
  qed
  then show ?thesis
    using vwap_loop_returns[of lv amt 0 amt] True assms(2,3) by (simp add: eq)
qed (simp add: vwapForSize_def)

end
