(* ===== verification/HL_Json.thy ===== *)
theory HL_Json
  imports HL_Types
begin

text \<open>
  \<open>hl::json::Value\<close> and \<open>Document\<close> (\<open>src/json/Json.h\<close>): total accessors over a JSON document.
  The text-to-document step is simdjson, which is not part of the sources: a caller takes it as
  a parameter \<open>parse_json :: string \<Rightarrow> json option\<close>, and the minifier behind \<open>dump\<close> as a
  parameter \<open>minify :: json \<Rightarrow> string\<close>.

  A number is an integer in the \<open>int64_t\<close> range (\<open>JInt\<close>), an integer above it
  (\<open>JUint\<close>) or a floating-point number (\<open>JReal\<close>). The last two carry the observations
  the accessors make of them: the value converted to \<open>int64_t\<close> and the result of
  \<open>Decimal::fromDouble\<close>. A \<open>Value\<close> is a \<open>json option\<close>, \<open>None\<close> when absent.
\<close>

datatype json =
    JNull
  | JBool bool
  | JInt int
  | JUint nat decimal
  | JReal int decimal
  | JString string
  | JArray "json list"
  | JObject "(string \<times> json) list"

type_synonym "value" = "json option"

definition present :: "value \<Rightarrow> bool" where
  "present v \<longleftrightarrow> v \<noteq> None"

definition isNull :: "value \<Rightarrow> bool" where
  "isNull v \<longleftrightarrow> v = Some JNull"

definition isObject :: "value \<Rightarrow> bool" where
  "isObject v = (case v of Some (JObject _) \<Rightarrow> True | _ \<Rightarrow> False)"

definition isArray :: "value \<Rightarrow> bool" where
  "isArray v = (case v of Some (JArray _) \<Rightarrow> True | _ \<Rightarrow> False)"

definition isString :: "value \<Rightarrow> bool" where
  "isString v = (case v of Some (JString _) \<Rightarrow> True | _ \<Rightarrow> False)"

text \<open>\<open>at_key\<close> returns the first entry with the key.\<close>

definition jfield :: "value \<Rightarrow> string \<Rightarrow> value" where
  "jfield v key = (case v of Some (JObject kvs) \<Rightarrow> map_of kvs key | _ \<Rightarrow> None)"

definition asString :: "value \<Rightarrow> string" where
  "asString v = (case v of Some (JString s) \<Rightarrow> s | _ \<Rightarrow> [])"

definition asInt :: "value \<Rightarrow> int" where
  "asInt v = (case v of
     Some (JInt i) \<Rightarrow> i
   | Some (JUint n _) \<Rightarrow> wrap64 (int n)
   | Some (JReal t _) \<Rightarrow> t
   | _ \<Rightarrow> 0)"

definition asUint :: "value \<Rightarrow> u64" where
  "asUint v = (case v of
     Some (JUint n _) \<Rightarrow> word_of_nat n
   | _ \<Rightarrow> word_of_int (asInt v))"

definition asBool :: "value \<Rightarrow> bool" where
  "asBool v = (case v of Some (JBool b) \<Rightarrow> b | _ \<Rightarrow> False)"

definition asDecimal :: "value \<Rightarrow> decimal" where
  "asDecimal v = (case v of
     Some (JString s) \<Rightarrow> parseOrZero s
   | Some (JInt i) \<Rightarrow> fromInt i
   | Some (JUint _ d) \<Rightarrow> d
   | Some (JReal _ d) \<Rightarrow> d
   | _ \<Rightarrow> dec_zero)"

definition jdump :: "(json \<Rightarrow> string) \<Rightarrow> value \<Rightarrow> string" where
  "jdump minify v = (case v of Some j \<Rightarrow> minify j | None \<Rightarrow> [])"

definition jarray :: "value \<Rightarrow> value list" where
  "jarray v = (case v of Some (JArray xs) \<Rightarrow> map Some xs | _ \<Rightarrow> [])"

lemma jfield_absent [simp]: "jfield None key = None"
  by (simp add: jfield_def)

lemma absent_defaults [simp]:
  "asString None = []" "asInt None = 0" "asUint None = 0" "\<not> asBool None" "asDecimal None = dec_zero"
  "jarray None = []" "jdump m None = []" "\<not> isArray None" "\<not> isString None" "\<not> isObject None"
  by (simp_all add: asString_def asInt_def asUint_def asBool_def asDecimal_def jarray_def jdump_def
      isArray_def isString_def isObject_def)

lemma jarray_Array [simp]: "jarray (Some (JArray xs)) = map Some xs"
  by (simp add: jarray_def)

end
