(* ===== verification/HL_Response.thy ===== *)
theory HL_Response
  imports HL_Json
begin

text \<open>
  The venue's answers: \<open>hl::parseExchangeResponse\<close> (\<open>include/hl/om/ExchangeResponse.h\<close>,
  \<open>src/om/ExchangeResponse.cpp\<close>), the order-status names of \<open>WsMessageParser.cpp\<close>, and the
  structures of the private stream (\<open>include/hl/WsMessages.h\<close>, \<open>include/hl/om/Types.h\<close>) that the
  order manager consumes.
\<close>

section \<open>Action responses\<close>

datatype status_kind = Resting | StFilled | WaitingForFill | WaitingForTrigger | Success | StError

record actionStatus =
  st_kind :: status_kind
  st_oid :: u64
  st_cloid :: "cloid option"
  st_totalSz :: decimal
  st_avgPx :: decimal
  st_error :: string

record exchangeResponse =
  resp_type :: string
  statuses :: "actionStatus list"

definition default_status :: actionStatus where
  "default_status = \<lparr>st_kind = StError, st_oid = 0, st_cloid = None, st_totalSz = dec_zero,
     st_avgPx = dec_zero, st_error = []\<rparr>"

definition readCloid :: "value \<Rightarrow> actionStatus \<Rightarrow> actionStatus" where
  "readCloid v st = (if isString (jfield v ''cloid'')
     then st\<lparr>st_cloid := cloid_parse (asString (jfield v ''cloid''))\<rparr> else st)"

definition error_text :: "(json \<Rightarrow> string) \<Rightarrow> value \<Rightarrow> string" where
  "error_text minify err = (if isString err then asString err else jdump minify err)"

definition parse_single_status :: "(json \<Rightarrow> string) \<Rightarrow> value \<Rightarrow> actionStatus" where
  "parse_single_status minify single =
     (if isString single then
        let txt = asString single in
        if txt = ''success'' then default_status\<lparr>st_kind := Success\<rparr>
        else default_status\<lparr>st_kind := StError, st_error := txt\<rparr>
      else if present (jfield single ''error'') then
        default_status\<lparr>st_kind := StError, st_error := error_text minify (jfield single ''error'')\<rparr>
      else default_status\<lparr>st_kind := Success, st_error := jdump minify single\<rparr>)"

definition parse_status :: "(json \<Rightarrow> string) \<Rightarrow> value \<Rightarrow> actionStatus" where
  "parse_status minify item =
     (if isString item then
        let s = asString item in
        if s = ''success'' then default_status\<lparr>st_kind := Success\<rparr>
        else if s = ''waitingForFill'' then default_status\<lparr>st_kind := WaitingForFill\<rparr>
        else if s = ''waitingForTrigger'' then default_status\<lparr>st_kind := WaitingForTrigger\<rparr>
        else default_status\<lparr>st_kind := StError, st_error := s\<rparr>
      else if isObject (jfield item ''resting'') then
        let resting = jfield item ''resting'' in
        readCloid resting (default_status\<lparr>st_kind := Resting, st_oid := asUint (jfield resting ''oid'')\<rparr>)
      else if isObject (jfield item ''filled'') then
        let filled = jfield item ''filled'' in
        readCloid filled (default_status\<lparr>st_kind := StFilled, st_oid := asUint (jfield filled ''oid''),
          st_totalSz := asDecimal (jfield filled ''totalSz''), st_avgPx := asDecimal (jfield filled ''avgPx'')\<rparr>)
      else if present (jfield item ''error'') then
        default_status\<lparr>st_kind := StError, st_error := error_text minify (jfield item ''error'')\<rparr>
      else default_status\<lparr>st_kind := StError, st_error := ''unrecognised status: '' @ jdump minify item\<rparr>)"

definition parseExchangeResponse ::
  "(string \<Rightarrow> json option) \<Rightarrow> (json \<Rightarrow> string) \<Rightarrow> string \<Rightarrow> exchangeResponse result" where
  "parseExchangeResponse parse_json minify body =
     (case parse_json body of
        None \<Rightarrow> Inl (mk_error Parse (''exchange response is not valid JSON: '' @ take 200 body))
      | Some doc \<Rightarrow>
          let root = Some doc;
              status = asString (jfield root ''status'');
              response = jfield root ''response'' in
          if status \<noteq> ''ok'' then
            Inl (mk_error Venue (if isString response then asString response else jdump minify root))
          else
            let out = \<lparr>resp_type = asString (jfield response ''type''), statuses = []\<rparr>;
                data = jfield response ''data'' in
            if \<not> isArray (jfield data ''statuses'') \<and> present (jfield data ''status'')
            then Inr (out\<lparr>statuses := [parse_single_status minify (jfield data ''status'')]\<rparr>)
            else Inr (out\<lparr>statuses := map (parse_status minify) (jarray (jfield data ''statuses''))\<rparr>))"

section \<open>Messages of the private stream\<close>

datatype orderUpdateStatus = UOpen | UFilled | UCanceled | UTriggered | URejected | UUnknown

definition ends_with :: "string \<Rightarrow> string \<Rightarrow> bool" where
  "ends_with s t \<longleftrightarrow> drop (length s - length t) s = t"

definition parseOrderUpdateStatus :: "string \<Rightarrow> orderUpdateStatus" where
  "parseOrderUpdateStatus s =
     (if s = ''open'' then UOpen
      else if s = ''filled'' then UFilled
      else if s = ''triggered'' then UTriggered
      else if s = ''canceled'' \<or> s = ''scheduledCancel'' \<or> (length s > 8 \<and> ends_with s ''Canceled'') then UCanceled
      else if s = ''rejected'' \<or> (length s > 8 \<and> ends_with s ''Rejected'') then URejected
      else UUnknown)"

fun updateStatus_toString :: "orderUpdateStatus \<Rightarrow> string" where
  "updateStatus_toString UOpen = ''Open''"
| "updateStatus_toString UFilled = ''Filled''"
| "updateStatus_toString UCanceled = ''Canceled''"
| "updateStatus_toString UTriggered = ''Triggered''"
| "updateStatus_toString URejected = ''Rejected''"
| "updateStatus_toString UUnknown = ''Unknown''"

record orderUpdateMsg =
  u_coin :: string
  u_side :: side
  u_limitPx :: decimal
  u_sz :: decimal
  u_origSz :: decimal
  u_oid :: u64
  u_timestampMs :: int
  u_cloid :: "cloid option"
  u_status :: orderUpdateStatus
  u_statusText :: string
  u_statusTimestampMs :: int

record fillMsg =
  f_coin :: string
  f_px :: decimal
  f_sz :: decimal
  f_side :: side
  f_timeMs :: int
  f_startPosition :: decimal
  f_dir :: string
  f_closedPnl :: decimal
  f_hash :: string
  f_oid :: u64
  f_crossed :: bool
  f_fee :: decimal
  f_feeToken :: string
  f_tid :: u64
  f_cloid :: "cloid option"

record userFillsMsg =
  uf_isSnapshot :: bool
  uf_user :: string
  uf_fills :: "fillMsg list"

text \<open>\<open>Fill\<close> is the owning copy of \<open>FillMsg\<close>; \<open>Fill::from\<close> copies every field.\<close>

definition endPosition :: "fillMsg \<Rightarrow> decimal" where
  "endPosition f = (if f_side f = Buy then dec_add (f_startPosition f) (f_sz f)
     else dec_sub (f_startPosition f) (f_sz f))"

record openOrder =
  oo_coin :: string
  oo_side :: side
  oo_limitPx :: decimal
  oo_sz :: decimal
  oo_origSz :: decimal
  oo_oid :: u64
  oo_timestampMs :: int
  oo_cloid :: "cloid option"
  oo_reduceOnly :: bool
  oo_isTrigger :: bool
  oo_triggerPx :: decimal
  oo_orderType :: string
  oo_tif :: string

record orderStatusInfo =
  osi_found :: bool
  osi_order :: openOrder
  osi_status :: orderUpdateStatus
  osi_statusText :: string
  osi_statusTimestampMs :: int

datatype postType = PostAction | PostInfo | PostError

record postResponseMsg =
  pr_id :: u64
  pr_type :: postType
  pr_payload :: string

record rateLimitStatus =
  cumVlm :: decimal
  requestsUsed :: u64
  requestsCap :: u64

definition rl_remaining :: "rateLimitStatus \<Rightarrow> u64" where
  "rl_remaining r = (if requestsCap r > requestsUsed r then requestsCap r - requestsUsed r else 0)"

definition ex_response :: json where
  "ex_response = JObject [(''status'', JString ''ok''), (''response'',
     JObject [(''data'', JObject [(''statuses'', JArray [JString ''success'', JNull])])])]"

section \<open>Reading a status\<close>

lemma st_cloid_readCloid [simp]:
  "st_kind (readCloid v st) = st_kind st" "st_oid (readCloid v st) = st_oid st"
  "st_totalSz (readCloid v st) = st_totalSz st" "st_avgPx (readCloid v st) = st_avgPx st"
  "st_error (readCloid v st) = st_error st"
  by (simp_all add: readCloid_def)

lemma default_status_kind [simp]: "st_kind default_status = StError" "st_oid default_status = 0"
  by (simp_all add: default_status_def)

lemma parse_status_reading:
  "st_kind (parse_status minify (Some j)) = Success \<longleftrightarrow> j = JString ''success''"
  "st_kind (parse_status minify (Some j)) = StFilled \<longrightarrow> isObject (jfield (Some j) ''filled'') \<and>
     st_oid (parse_status minify (Some j)) = asUint (jfield (jfield (Some j) ''filled'') ''oid'')"
  "st_kind (parse_status minify (Some j)) = Resting \<longrightarrow> isObject (jfield (Some j) ''resting'') \<and>
     st_oid (parse_status minify (Some j)) = asUint (jfield (jfield (Some j) ''resting'') ''oid'')"
proof -
  have "j = JString s \<longleftrightarrow> isString (Some j) \<and> asString (Some j) = s" for s
    by (cases j) (auto simp: isString_def asString_def)
  then show "st_kind (parse_status minify (Some j)) = Success \<longleftrightarrow> j = JString ''success''"
    by (simp add: parse_status_def Let_def)
qed (simp_all add: parse_status_def Let_def)

section \<open>Properties\<close>

text \<open>
  An ok response with a status list yields one entry per item, in order; an entry is a success
  exactly when the venue's item is that word, and Filled or Resting only when the item says so, with
  the order id it names, so an item the parser does not know is never read as an acceptance.
\<close>

lemma parseExchangeResponse_faithful:
  assumes "parse_json body = Some doc" and "asString (jfield (Some doc) ''status'') = ''ok''"
    and "jfield (jfield (jfield (Some doc) ''response'') ''data'') ''statuses'' = Some (JArray items)"
  shows "\<exists>r. parseExchangeResponse parse_json minify body = Inr r \<and> length (statuses r) = length items \<and>
    (\<forall>i < length items.
       (st_kind (statuses r ! i) = Success \<longleftrightarrow> items ! i = JString ''success'') \<and>
       (st_kind (statuses r ! i) = StFilled \<longrightarrow> isObject (jfield (Some (items ! i)) ''filled'') \<and>
          st_oid (statuses r ! i) = asUint (jfield (jfield (Some (items ! i)) ''filled'') ''oid'')) \<and>
       (st_kind (statuses r ! i) = Resting \<longrightarrow> isObject (jfield (Some (items ! i)) ''resting'') \<and>
          st_oid (statuses r ! i) = asUint (jfield (jfield (Some (items ! i)) ''resting'') ''oid'')))"
proof -
  define out where "out = \<lparr>resp_type = asString (jfield (jfield (Some doc) ''response'') ''type''),
    statuses = map (parse_status minify) (map Some items)\<rparr>"
  have "parseExchangeResponse parse_json minify body = Inr out"
    using assms by (simp add: parseExchangeResponse_def out_def isArray_def Let_def)
  moreover have "length (statuses out) = length items" by (simp add: out_def)
  moreover have "statuses out ! i = parse_status minify (Some (items ! i))" if "i < length items" for i
    using that by (simp add: out_def)
  ultimately show ?thesis using parse_status_reading[of minify] by (intro exI[of _ out]) simp
qed

end
