(* ===== verification/HL_MsgPack.thy ===== *)
theory HL_MsgPack
  imports HL_Types
begin

text \<open>
  \<open>hl::MsgPackWriter\<close> (\<open>include/hl/om/MsgPack.h\<close>): the writer whose bytes are hashed and signed.
  A writer is its buffer, each operation appends to it. The specification is a type of values and a
  decoder for them written from the MessagePack format; the properties are that the decoder
  reads back what the writer wrote, and that no other encoding of an integer is shorter.
\<close>

section \<open>The writer\<close>

type_synonym writer = "u8 list"

definition new_writer :: writer where
  "new_writer = []"

definition put :: "u8 \<Rightarrow> writer \<Rightarrow> writer" where
  "put b w = w @ [b]"

text \<open>\<open>be<T>\<close> for a \<open>T\<close> of \<open>k\<close> bytes: the loop counts the byte position down.\<close>

fun be :: "nat \<Rightarrow> nat \<Rightarrow> writer \<Rightarrow> writer" where
  "be 0 v w = w"
| "be (Suc i) v w = be i v (put (word_of_nat (v div 2 ^ (8 * i))) w)"

definition collectionHeader :: "nat \<Rightarrow> u8 \<Rightarrow> u8 \<Rightarrow> u8 \<Rightarrow> writer \<Rightarrow> writer" where
  "collectionHeader n fix16 p16 p32 w =
     (if n < 16 then put (or fix16 (word_of_nat n)) w
      else if n \<le> 0xFFFF then be 2 (n mod 2 ^ 16) (put p16 w)
      else be 4 (n mod 2 ^ 32) (put p32 w))"

definition mapHeader :: "nat \<Rightarrow> writer \<Rightarrow> writer" where
  "mapHeader n w = collectionHeader n 0x80 0xde 0xdf w"

definition arrayHeader :: "nat \<Rightarrow> writer \<Rightarrow> writer" where
  "arrayHeader n w = collectionHeader n 0x90 0xdc 0xdd w"

definition byte_of_char :: "char \<Rightarrow> u8" where
  "byte_of_char c = word_of_nat (of_char c)"

definition mp_str :: "string \<Rightarrow> writer \<Rightarrow> writer" where
  "mp_str s w =
     (let len = length s;
          w = (if len < 32 then put (or 0xa0 (word_of_nat len)) w
               else if len \<le> 0xFF then put (word_of_nat len) (put 0xd9 w)
               else if len \<le> 0xFFFF then be 2 (len mod 2 ^ 16) (put 0xda w)
               else be 4 (len mod 2 ^ 32) (put 0xdb w))
      in w @ map byte_of_char s)"

definition mp_boolean :: "bool \<Rightarrow> writer \<Rightarrow> writer" where
  "mp_boolean b w = put (if b then 0xc3 else 0xc2) w"

definition mp_nil :: "writer \<Rightarrow> writer" where
  "mp_nil w = put 0xc0 w"

definition mp_uint :: "nat \<Rightarrow> writer \<Rightarrow> writer" where
  "mp_uint v w =
     (if v < 0x80 then put (word_of_nat v) w
      else if v \<le> 0xFF then put (word_of_nat v) (put 0xcc w)
      else if v \<le> 0xFFFF then be 2 (v mod 2 ^ 16) (put 0xcd w)
      else if v \<le> 0xFFFFFFFF then be 4 (v mod 2 ^ 32) (put 0xce w)
      else be 8 v (put 0xcf w))"

definition mp_sint :: "int \<Rightarrow> writer \<Rightarrow> writer" where
  "mp_sint v w =
     (if v \<ge> 0 then mp_uint (nat v) w
      else if v \<ge> - 32 then put (word_of_int v) w
      else if v \<ge> - 128 then put (word_of_int v) (put 0xd0 w)
      else if v \<ge> - 32768 then be 2 (nat (v mod 2 ^ 16)) (put 0xd1 w)
      else if v \<ge> - 2147483648 then be 4 (nat (v mod 2 ^ 32)) (put 0xd2 w)
      else be 8 (nat (v mod 2 ^ 64)) (put 0xd3 w))"

section \<open>Values and the decoder of the format\<close>

datatype mp =
    MNil
  | MBool bool
  | MInt int
  | MStr string
  | MArr "mp list"
  | MMap "(string \<times> mp) list"

definition be_value :: "u8 list \<Rightarrow> nat" where
  "be_value bs = foldl (\<lambda>a b. a * 256 + unat b) 0 bs"

definition signed_value :: "nat \<Rightarrow> nat \<Rightarrow> int" where
  "signed_value bits v = (if v < 2 ^ (bits - 1) then int v else int v - 2 ^ bits)"

definition take_bytes :: "nat \<Rightarrow> u8 list \<Rightarrow> (u8 list \<times> u8 list) option" where
  "take_bytes k bs = (if length bs < k then None else Some (take k bs, drop k bs))"

definition char_of_byte :: "u8 \<Rightarrow> char" where
  "char_of_byte b = char_of (unat b)"

definition dec_str :: "nat \<Rightarrow> u8 list \<Rightarrow> (string \<times> u8 list) option" where
  "dec_str k bs = map_option (\<lambda>(s, r). (map char_of_byte s, r)) (take_bytes k bs)"

definition dec_sized :: "nat \<Rightarrow> u8 list \<Rightarrow> (nat \<times> u8 list) option" where
  "dec_sized k bs = map_option (\<lambda>(s, r). (be_value s, r)) (take_bytes k bs)"

text \<open>The header of a value: a scalar, or the length of what follows.\<close>

datatype header = HScalar mp | HStr nat | HArr nat | HMap nat

definition dec_header :: "u8 list \<Rightarrow> (header \<times> u8 list) option" where
  "dec_header bs = (case bs of [] \<Rightarrow> None | b # r \<Rightarrow>
     let t = unat b; sized = (\<lambda>k h. map_option (\<lambda>(v, r). (h v, r)) (dec_sized k r)) in
     if t < 0x80 then Some (HScalar (MInt (int t)), r)
     else if t < 0x90 then Some (HMap (t - 0x80), r)
     else if t < 0xa0 then Some (HArr (t - 0x90), r)
     else if t < 0xc0 then Some (HStr (t - 0xa0), r)
     else if t = 0xc0 then Some (HScalar MNil, r)
     else if t = 0xc2 then Some (HScalar (MBool False), r)
     else if t = 0xc3 then Some (HScalar (MBool True), r)
     else if t = 0xcc then sized 1 (\<lambda>v. HScalar (MInt (int v)))
     else if t = 0xcd then sized 2 (\<lambda>v. HScalar (MInt (int v)))
     else if t = 0xce then sized 4 (\<lambda>v. HScalar (MInt (int v)))
     else if t = 0xcf then sized 8 (\<lambda>v. HScalar (MInt (int v)))
     else if t = 0xd0 then sized 1 (\<lambda>v. HScalar (MInt (signed_value 8 v)))
     else if t = 0xd1 then sized 2 (\<lambda>v. HScalar (MInt (signed_value 16 v)))
     else if t = 0xd2 then sized 4 (\<lambda>v. HScalar (MInt (signed_value 32 v)))
     else if t = 0xd3 then sized 8 (\<lambda>v. HScalar (MInt (signed_value 64 v)))
     else if t = 0xd9 then sized 1 HStr
     else if t = 0xda then sized 2 HStr
     else if t = 0xdb then sized 4 HStr
     else if t = 0xdc then sized 2 HArr
     else if t = 0xdd then sized 4 HArr
     else if t = 0xde then sized 2 HMap
     else if t = 0xdf then sized 4 HMap
     else if 0xe0 \<le> t then Some (HScalar (MInt (int t - 256)), r)
     else None)"

fun dec_many :: "(u8 list \<Rightarrow> ('a \<times> u8 list) option) \<Rightarrow> nat \<Rightarrow> u8 list \<Rightarrow> ('a list \<times> u8 list) option" where
  "dec_many d 0 bs = Some ([], bs)"
| "dec_many d (Suc k) bs =
     (case d bs of None \<Rightarrow> None
      | Some (x, r) \<Rightarrow> map_option (\<lambda>(xs, r). (x # xs, r)) (dec_many d k r))"

definition dec_key :: "u8 list \<Rightarrow> (string \<times> u8 list) option" where
  "dec_key bs = (case dec_header bs of Some (HStr k, r) \<Rightarrow> dec_str k r | _ \<Rightarrow> None)"

definition dec_entry ::
  "(u8 list \<Rightarrow> (mp \<times> u8 list) option) \<Rightarrow> u8 list \<Rightarrow> ((string \<times> mp) \<times> u8 list) option" where
  "dec_entry d bs = (case dec_key bs of None \<Rightarrow> None
     | Some (k, r) \<Rightarrow> map_option (\<lambda>(v, r). ((k, v), r)) (d r))"

text \<open>The fuel bounds the nesting depth.\<close>

fun mp_decode :: "nat \<Rightarrow> u8 list \<Rightarrow> (mp \<times> u8 list) option" where
  "mp_decode 0 bs = None"
| "mp_decode (Suc n) bs =
     (case dec_header bs of
        None \<Rightarrow> None
      | Some (HScalar m, r) \<Rightarrow> Some (m, r)
      | Some (HStr k, r) \<Rightarrow> map_option (\<lambda>(s, r). (MStr s, r)) (dec_str k r)
      | Some (HArr k, r) \<Rightarrow> map_option (\<lambda>(xs, r). (MArr xs, r)) (dec_many (mp_decode n) k r)
      | Some (HMap k, r) \<Rightarrow> map_option (\<lambda>(es, r). (MMap es, r)) (dec_many (dec_entry (mp_decode n)) k r))"

text \<open>Writing a value with the operations of the writer, and what a writer can represent.\<close>

fun mp_write :: "mp \<Rightarrow> writer \<Rightarrow> writer" where
  "mp_write MNil w = mp_nil w"
| "mp_write (MBool b) w = mp_boolean b w"
| "mp_write (MInt i) w = mp_sint i w"
| "mp_write (MStr s) w = mp_str s w"
| "mp_write (MArr xs) w = fold mp_write xs (arrayHeader (length xs) w)"
| "mp_write (MMap es) w = fold (\<lambda>(k, v) w. mp_write v (mp_str k w)) es (mapHeader (length es) w)"

fun mp_ok :: "mp \<Rightarrow> bool" where
  "mp_ok (MInt i) \<longleftrightarrow> - (2 ^ 63) \<le> i \<and> i < 2 ^ 64"
| "mp_ok (MStr s) \<longleftrightarrow> length s < 2 ^ 32"
| "mp_ok (MArr xs) \<longleftrightarrow> length xs < 2 ^ 32 \<and> (\<forall>x \<in> set xs. mp_ok x)"
| "mp_ok (MMap es) \<longleftrightarrow> length es < 2 ^ 32 \<and> (\<forall>e \<in> set es. length (fst e) < 2 ^ 32 \<and> mp_ok (snd e))"
| "mp_ok _ \<longleftrightarrow> True"

fun mp_depth :: "mp \<Rightarrow> nat" where
  "mp_depth (MArr xs) = Suc (foldr max (map mp_depth xs) 0)"
| "mp_depth (MMap es) = Suc (foldr max (map (\<lambda>e. mp_depth (snd e)) es) 0)"
| "mp_depth _ = 1"

section \<open>The operations append\<close>

lemma be_append: "be k v w = w @ be k v []"
proof (induction k arbitrary: w)
  case (Suc k)
  show ?case using Suc[of "put _ w"] Suc[of "put _ []"] by (simp add: put_def)
qed simp

lemma be_Suc: "be (Suc k) v [] = word_of_nat (v div 2 ^ (8 * k)) # be k v []"
  by (simp add: put_def be_append[of k v "[_]"])

lemma length_be [simp]: "length (be k v []) = k"
  by (induction k) (simp_all add: be_Suc del: be.simps(2))

lemma collectionHeader_append: "collectionHeader n a b c w = w @ collectionHeader n a b c []"
  by (simp add: collectionHeader_def put_def be_append[of _ _ "_ @ _"] be_append[of _ _ "[_]"])

lemma header_append: "mapHeader n w = w @ mapHeader n []" "arrayHeader n w = w @ arrayHeader n []"
  unfolding mapHeader_def arrayHeader_def by (rule collectionHeader_append)+

lemma mp_str_append: "mp_str s w = w @ mp_str s []"
  by (simp add: mp_str_def Let_def put_def be_append[of _ _ "_ @ _"] be_append[of _ _ "[_]"])

lemma mp_uint_append: "mp_uint v w = w @ mp_uint v []"
  by (simp add: mp_uint_def put_def be_append[of _ _ "_ @ _"] be_append[of _ _ "[_]"])

lemma mp_sint_append: "mp_sint v w = w @ mp_sint v []"
  using mp_uint_append[of _ w]
  by (simp add: mp_sint_def put_def be_append[of _ _ "_ @ _"] be_append[of _ _ "[_]"])

lemma fold_append:
  assumes "\<And>x w. x \<in> set xs \<Longrightarrow> f x w = w @ f x []"
  shows "fold f xs w = w @ concat (map (\<lambda>x. f x []) xs)"
  using assms
proof (induction xs arbitrary: w)
  case (Cons x xs)
  have "fold f xs (f x w) = f x w @ concat (map (\<lambda>x. f x []) xs)"
    by (rule Cons.IH) (rule Cons.prems, simp)
  moreover have "f x w = w @ f x []" by (rule Cons.prems) simp
  ultimately show ?case by (simp only: fold_Cons o_apply list.map concat.simps append_assoc)
qed simp

lemma entry_append:
  assumes "\<And>w. mp_write (snd e) w = w @ mp_write (snd e) []"
  shows "(\<lambda>(k, v) w. mp_write v (mp_str k w)) e w = w @ (\<lambda>(k, v) w. mp_write v (mp_str k w)) e []"
proof (cases e)
  case (Pair k v)
  then show ?thesis
    using assms[of "mp_str k w"] assms[of "mp_str k []"] mp_str_append[of k w] by simp
qed

lemma mp_write_append: "mp_write m w = w @ mp_write m []"
proof (induction m arbitrary: w)
  case (MArr xs)
  show ?case
    by (simp add: fold_append[of xs mp_write, OF MArr] header_append(2)[of _ w])
next
  case (MMap es)
  have f: "(\<lambda>(k, v) w. mp_write v (mp_str k w)) e w = w @ (\<lambda>(k, v) w. mp_write v (mp_str k w)) e []"
    if "e \<in> set es" for e w
    by (rule entry_append) (rule MMap[OF that], cases e, simp)
  have F: "fold (\<lambda>(k, v) w. mp_write v (mp_str k w)) es u =
      u @ concat (map (\<lambda>e. (\<lambda>(k, v) w. mp_write v (mp_str k w)) e []) es)" for u
    by (rule fold_append) (rule f)
  show ?case
    unfolding mp_write.simps F header_append(1)[of _ w]
    by simp
qed (simp_all add: mp_nil_def mp_boolean_def put_def, (rule mp_sint_append mp_str_append)+)

lemma mp_write_array:
  "mp_write (MArr xs) [] = arrayHeader (length xs) [] @ concat (map (\<lambda>x. mp_write x []) xs)"
  unfolding mp_write.simps by (rule fold_append) (rule mp_write_append)

lemma mp_write_map:
  "mp_write (MMap es) [] =
     mapHeader (length es) [] @ concat (map (\<lambda>e. (\<lambda>(k, v) w. mp_write v (mp_str k w)) e []) es)"
  unfolding mp_write.simps by (rule fold_append) (rule entry_append, rule mp_write_append)

lemmas mp_appends = header_append mp_str_append mp_uint_append mp_sint_append mp_write_append

section \<open>Reading back\<close>

lemma be_value_Cons: "be_value (b # bs) = unat b * 256 ^ length bs + be_value bs"
proof -
  have "foldl (\<lambda>a b. a * 256 + unat b) a bs = a * 256 ^ length bs + foldl (\<lambda>a b. a * 256 + unat b) 0 bs"
    for a :: nat and bs :: "u8 list"
  proof (induction bs arbitrary: a)
    case (Cons c bs)
    show ?case using Cons[of "a * 256 + unat c"] Cons[of "unat c"] by (simp add: algebra_simps)
  qed simp
  from this[of "unat b" bs] show ?thesis by (simp add: be_value_def)
qed

lemma be_value_be: "be_value (be k v []) = v mod 256 ^ k"
proof (induction k)
  case 0
  show ?case by (simp add: be_value_def)
next
  case (Suc k)
  have "(2::nat) ^ (8 * k) = 256 ^ k" by (simp add: power_mult)
  then show ?case
    using mod_mult2_eq[of v "256 ^ k" 256] Suc
    by (simp add: be_Suc be_value_Cons unat_of_nat mult.commute del: be.simps(2))
qed

lemma dec_sized_be [simp]: "dec_sized k (be k v [] @ r) = Some (v mod 256 ^ k, r)"
  by (simp add: dec_sized_def take_bytes_def be_value_be)

lemma dec_sized_1 [simp]: "dec_sized (Suc 0) (b # r) = Some (unat b, r)"
  by (simp add: dec_sized_def take_bytes_def be_value_def)

lemma tag_bits:
  "n < 16 \<Longrightarrow> unat (or 0x80 (word_of_nat n) :: u8) = 0x80 + n"
  "n < 16 \<Longrightarrow> unat (or 0x90 (word_of_nat n) :: u8) = 0x90 + n"
  "n < 32 \<Longrightarrow> unat (or 0xa0 (word_of_nat n) :: u8) = 0xa0 + n"
proof -
  have "\<forall>n \<in> set [0..<16]. unat (or 0x80 (word_of_nat n) :: u8) = 0x80 + n \<and>
      unat (or 0x90 (word_of_nat n) :: u8) = 0x90 + n"
    by (simp add: upt_conv_Cons)
  then show "n < 16 \<Longrightarrow> unat (or 0x80 (word_of_nat n) :: u8) = 0x80 + n"
    "n < 16 \<Longrightarrow> unat (or 0x90 (word_of_nat n) :: u8) = 0x90 + n" by auto
  have "\<forall>n \<in> set [0..<32]. unat (or 0xa0 (word_of_nat n) :: u8) = 0xa0 + n"
    by (simp add: upt_conv_Cons)
  then show "n < 32 \<Longrightarrow> unat (or 0xa0 (word_of_nat n) :: u8) = 0xa0 + n" by auto
qed

lemma dec_header_map: "n < 2 ^ 32 \<Longrightarrow> dec_header (mapHeader n [] @ r) = Some (HMap n, r)"
  by (auto simp: mapHeader_def collectionHeader_def put_def be_append[of _ _ "[_]"] dec_header_def
      tag_bits Let_def)

lemma dec_header_array: "n < 2 ^ 32 \<Longrightarrow> dec_header (arrayHeader n [] @ r) = Some (HArr n, r)"
  by (auto simp: arrayHeader_def collectionHeader_def put_def be_append[of _ _ "[_]"] dec_header_def
      tag_bits Let_def)

lemma dec_header_uint: "v < 2 ^ 64 \<Longrightarrow> dec_header (mp_uint v [] @ r) = Some (HScalar (MInt (int v)), r)"
  by (auto simp: mp_uint_def put_def be_append[of _ _ "[_]"] dec_header_def Let_def unat_of_nat)

lemma mod_neg_once: "- m \<le> v \<Longrightarrow> v < 0 \<Longrightarrow> v mod m = v + (m::int)"
  using mod_pos_pos_trivial[of "v + m" m] by simp

lemma signed_value_mod:
  "0 < bits \<Longrightarrow> - (2 ^ (bits - 1)) \<le> v \<Longrightarrow> v < 0 \<Longrightarrow> signed_value bits (nat (v mod 2 ^ bits)) = v"
proof -
  assume a: "0 < bits" "- (2 ^ (bits - 1)) \<le> v" "v < 0"
  have p: "(2::int) ^ bits = 2 * 2 ^ (bits - 1)" using a(1) by (simp flip: power_Suc)
  have "v mod 2 ^ bits = v + 2 ^ bits" using a p by (intro mod_neg_once) auto
  moreover have "\<not> nat (v + 2 ^ bits) < 2 ^ (bits - 1)" using a p by (auto simp: nat_less_iff)
  ultimately show ?thesis using a p by (simp add: signed_value_def)
qed

lemma dec_header_sint:
  assumes "- (2 ^ 63) \<le> v" and "v < 2 ^ 64"
  shows "dec_header (mp_sint v [] @ r) = Some (HScalar (MInt v), r)"
proof -
  have u: "unat (word_of_int v :: u8) = nat (v mod 2 ^ 8)"
    by (simp add: unsigned_of_int take_bit_eq_mod)
  consider "v \<ge> 0" | "v < 0" "v \<ge> - 32" | "v < - 32" "v \<ge> - 128" | "v < - 128" "v \<ge> - 32768"
    | "v < - 32768" "v \<ge> - 2147483648" | "v < - 2147483648" by linarith
  then show ?thesis
  proof cases
    case 1
    then show ?thesis
      using dec_header_uint[of "nat v" r] assms(2) by (simp add: mp_sint_def nat_less_iff)
  next
    case 2
    then have "unat (word_of_int v :: u8) = nat (v + 256)" by (simp add: u mod_neg_once)
    with 2 show ?thesis by (simp add: mp_sint_def put_def dec_header_def Let_def)
  next
    case 3
    then show ?thesis using signed_value_mod[of 8 v] u
      by (simp add: mp_sint_def put_def dec_header_def Let_def)
  next
    case 4
    then show ?thesis using signed_value_mod[of 16 v]
      by (simp add: mp_sint_def put_def be_append[of _ _ "[_]"] dec_header_def Let_def)
  next
    case 5
    then show ?thesis using signed_value_mod[of 32 v]
      by (simp add: mp_sint_def put_def be_append[of _ _ "[_]"] dec_header_def Let_def)
  next
    case 6
    then show ?thesis using signed_value_mod[of 64 v] assms(1)
      by (simp add: mp_sint_def put_def be_append[of _ _ "[_]"] dec_header_def Let_def)
  qed
qed

lemma char_byte [simp]: "char_of_byte (byte_of_char c) = c"
  by (simp add: char_of_byte_def byte_of_char_def unat_of_nat)

lemma dec_str_map: "dec_str (length s) (map byte_of_char s @ r) = Some (s, r)"
  by (simp add: dec_str_def take_bytes_def o_def)

lemma dec_header_str:
  "length s < 2 ^ 32 \<Longrightarrow> dec_header (mp_str s [] @ r) = Some (HStr (length s), map byte_of_char s @ r)"
  by (auto simp: mp_str_def put_def be_append[of _ _ "[_]"] dec_header_def tag_bits Let_def unat_of_nat)

lemma dec_key_str: "length s < 2 ^ 32 \<Longrightarrow> dec_key (mp_str s [] @ r) = Some (s, r)"
  by (simp add: dec_key_def dec_header_str dec_str_map)

lemma dec_many_concat:
  "(\<And>x r. x \<in> set xs \<Longrightarrow> d (e x @ r) = Some (x, r)) \<Longrightarrow>
   dec_many d (length xs) (concat (map e xs) @ r) = Some (xs, r)"
  by (induction xs) simp_all

lemma depth_elem: "x \<in> set xs \<Longrightarrow> f x \<le> foldr max (map f xs) (0::nat)"
  by (induction xs) auto

lemma mp_decode_write:
  "mp_ok m \<Longrightarrow> mp_depth m \<le> n \<Longrightarrow> mp_decode n (mp_write m [] @ r) = Some (m, r)"
proof (induction m arbitrary: n r)
  case (MArr xs)
  then obtain k where n: "n = Suc k" by (cases n) auto
  have "mp_decode k (mp_write x [] @ r) = Some (x, r)" if "x \<in> set xs" for x r
    using MArr.prems that depth_elem[of x xs mp_depth] by (intro MArr.IH) (auto simp: n)
  from dec_many_concat[of xs "mp_decode k", OF this] show ?case
    using MArr.prems by (simp add: n mp_write_array dec_header_array del: mp_write.simps)
next
  case (MMap es)
  then obtain k where n: "n = Suc k" by (cases n) auto
  let ?f = "\<lambda>(k, v) w. mp_write v (mp_str k w)"
  have "dec_entry (mp_decode k) (?f e [] @ r) = Some (e, r)" if e: "e \<in> set es" for e r
  proof -
    obtain s v where sv: "e = (s, v)" by (cases e)
    have "mp_decode k (mp_write v [] @ r) = Some (v, r)"
      using MMap.prems e sv depth_elem[of e es "\<lambda>e. mp_depth (snd e)"]
      by (intro MMap.IH[of e]) (auto simp: n)
    moreover have "length s < 2 ^ 32" using MMap.prems(1) e sv by auto
    ultimately show ?thesis
      by (simp add: sv dec_entry_def mp_write_append[of v "mp_str _ _"] dec_key_str)
  qed
  from dec_many_concat[of es _ "\<lambda>e. ?f e []", OF this] show ?case
    using MMap.prems by (simp add: n mp_write_map dec_header_map del: mp_write.simps)
next
  case (MInt i)
  then obtain k where "n = Suc k" by (cases n) auto
  with MInt show ?case by (simp add: dec_header_sint)
next
  case (MStr s)
  then obtain k where "n = Suc k" by (cases n) auto
  with MStr show ?case by (simp add: dec_header_str dec_str_map)
next
  case MNil
  then obtain k where "n = Suc k" by (cases n) auto
  then show ?case by (simp add: mp_nil_def put_def dec_header_def)
next
  case (MBool b)
  then obtain k where "n = Suc k" by (cases n) auto
  then show ?case by (simp add: mp_boolean_def put_def dec_header_def)
qed

lemma length_mp_sint:
  "length (mp_sint v []) =
     (if - 32 \<le> v \<and> v < 2 ^ 7 then 1 else if - (2 ^ 7) \<le> v \<and> v < 2 ^ 8 then 2
      else if - (2 ^ 15) \<le> v \<and> v < 2 ^ 16 then 3 else if - (2 ^ 31) \<le> v \<and> v < 2 ^ 32 then 5 else 9)"
  by (simp add: mp_sint_def mp_uint_def put_def be_append[of _ _ "[_]"] nat_less_iff nat_le_iff)

lemma be_value_bound: "be_value bs < 256 ^ length bs"
proof (induction bs)
  case (Cons b bs)
  have "unat b < 256" using unsigned_less[of b, where ?'a = nat] by simp
  then have "unat b * 256 ^ length bs \<le> 255 * 256 ^ length bs" by (intro mult_right_mono) simp_all
  with Cons have "unat b * 256 ^ length bs + be_value bs < 256 * 256 ^ length bs" by linarith
  then show ?case by (simp add: be_value_Cons)
qed (simp add: be_value_def)

lemma dec_sized_SomeD: "dec_sized k bs = Some (v, []) \<Longrightarrow> length bs = k \<and> v < 256 ^ k"
  using be_value_bound[of bs] by (auto simp: dec_sized_def take_bytes_def split: if_splits)

lemma signed_value_bounds:
  "0 < bits \<Longrightarrow> v < 2 ^ bits \<Longrightarrow> - (2 ^ (bits - 1)) \<le> signed_value bits v \<and> signed_value bits v < 2 ^ (bits - 1)"
proof -
  assume a: "0 < bits" "v < 2 ^ bits"
  have p: "(2::int) ^ bits = 2 * 2 ^ (bits - 1)" using a(1) by (simp flip: power_Suc)
  have "int v < 2 ^ bits" using a(2) by (metis of_nat_less_iff of_nat_numeral of_nat_power)
  moreover have "v < 2 ^ (bits - 1) \<longleftrightarrow> int v < 2 ^ (bits - 1)"
    by (metis of_nat_less_iff of_nat_numeral of_nat_power)
  ultimately show ?thesis using p by (auto simp: signed_value_def)
qed

lemma sized_int_bounds:
  assumes "dec_sized k r = Some (x, [])" and "v = int x \<or> v = signed_value (8 * k) x" and "0 < k"
  shows "length r = k \<and> - (2 ^ (8 * k - 1)) \<le> v \<and> v < 2 ^ (8 * k)"
proof -
  have x: "length r = k" "x < 2 ^ (8 * k)"
    using dec_sized_SomeD[OF assms(1)] by (simp_all add: power_mult)
  have "int x < 2 ^ (8 * k)" using x(2) by (metis of_nat_less_iff of_nat_numeral of_nat_power)
  moreover have "(2::int) ^ (8 * k - 1) \<le> 2 ^ (8 * k)" by (rule power_increasing) simp_all
  moreover have "- (2 ^ (8 * k - 1)) \<le> int x" by (rule order_trans[of _ 0]) simp_all
  moreover have "- (2 ^ (8 * k - 1)) \<le> signed_value (8 * k) x \<and> signed_value (8 * k) x < 2 ^ (8 * k - 1)"
    using signed_value_bounds[of "8 * k" x] x(2) assms(3) by simp
  ultimately show ?thesis using assms(2) x(1) by (elim disjE) linarith+
qed

section \<open>Properties\<close>

text \<open>
  C28: a decoder of the MessagePack format reads back every value the writer can represent and leaves
  what follows it, so two values never share their signed bytes.
\<close>

theorem msgpack_roundtrip:
  "mp_ok m \<Longrightarrow> mp_decode (mp_depth m) (mp_write m [] @ r) = Some (m, r)"
  by (rule mp_decode_write) simp_all

theorem msgpack_roundtrip_witness:
  "mp_ok (MMap [(''type'', MStr ''noop''), (''n'', MInt (- 40000))]) \<and>
   mp_decode (Suc (Suc 0)) (mp_write (MMap [(''type'', MStr ''noop''), (''n'', MInt (- 40000))]) []) =
     Some (MMap [(''type'', MStr ''noop''), (''n'', MInt (- 40000))], [])"
  using msgpack_roundtrip[of "MMap [(''type'', MStr ''noop''), (''n'', MInt (- 40000))]" "[]"]
  by (simp del: mp_write.simps mp_decode.simps)

text \<open>
  The writer chooses the smallest encoding of an integer: no byte string that decodes to the same
  integer is shorter.
\<close>

lemma mp_sint_minimal:
  assumes "dec_header bs = Some (HScalar (MInt v), [])"
  shows "length (mp_sint v []) \<le> length bs"
proof -
  obtain b r where bs: "bs = b # r" using assms by (cases bs) (auto simp: dec_header_def)
  define t where "t = unat b"
  have t: "t < 256" using unsigned_less[of b, where ?'a = nat] by (simp add: t_def)
  have "(r = [] \<and> - 32 \<le> v \<and> v < 2 ^ 7) \<or>
    (\<exists>x. dec_sized 1 r = Some (x, []) \<and> (v = int x \<or> v = signed_value 8 x)) \<or>
    (\<exists>x. dec_sized 2 r = Some (x, []) \<and> (v = int x \<or> v = signed_value 16 x)) \<or>
    (\<exists>x. dec_sized 4 r = Some (x, []) \<and> (v = int x \<or> v = signed_value 32 x)) \<or>
    (\<exists>x. dec_sized 8 r = Some (x, []))"
    using assms t unfolding bs dec_header_def list.case t_def[symmetric] Let_def
    by (auto split: if_splits)
  then consider "r = []" "- 32 \<le> v" "v < 2 ^ 7"
    | "length r = 1" "- (2 ^ 7) \<le> v" "v < 2 ^ 8"
    | "length r = 2" "- (2 ^ 15) \<le> v" "v < 2 ^ 16"
    | "length r = 4" "- (2 ^ 31) \<le> v" "v < 2 ^ 32"
    | "length r = 8"
    using sized_int_bounds[of 1 r _ v] sized_int_bounds[of 2 r _ v] sized_int_bounds[of 4 r _ v]
      dec_sized_SomeD[of 8 r] by auto
  then show ?thesis by cases (simp_all add: length_mp_sint bs)
qed

end
