(* ===== verification/HL_Actions.thy ===== *)
theory HL_Actions
  imports HL_MsgPack
begin

text \<open>
  \<open>include/hl/om/Actions.h\<close> and \<open>src/om/Actions.cpp\<close>: the builders of the venue's actions, each in
  its two encodings (the signed MessagePack bytes and the transmitted JSON text), the nonce
  source and the request builder. The signer is a parameter \<open>sign\<close> of the request builder.

  The specification is one value (type \<open>mp\<close>) per action, and a reader for JSON texts without
  escapes; the properties state that both encodings of an action denote that one value.
\<close>

section \<open>Wire structures\<close>

datatype trigger_kind = TakeProfit | StopLoss

record triggerSpec =
  triggerPx :: decimal
  isMarket :: bool
  trigger_kind_of :: trigger_kind

record orderWire =
  ow_asset :: u32
  ow_isBuy :: bool
  ow_px :: decimal
  ow_sz :: decimal
  ow_reduceOnly :: bool
  ow_tif :: tif
  ow_trigger :: "triggerSpec option"
  ow_cloid :: "cloid option"

datatype grouping = Na | NormalTpsl | PositionTpsl

text \<open>\<open>OrderGrouping\<close> is a variant of a grouping and a priority rate.\<close>

datatype order_grouping = GroupingOf grouping | PriorityRate u32

record builderFee =
  builder_address :: address
  feeTenthsOfBps :: u32

record cancelWire =
  cw_asset :: u32
  cw_oid :: u64

record cancelByCloidWire =
  cc_asset :: u32
  cc_cloid :: cloid

record modifyWire =
  mw_target :: "u64 + cloid"
  mw_order :: orderWire

record encodedAction =
  msgpack :: "u8 list"
  ejson :: string

section \<open>Text helpers\<close>

text \<open>\<open>std::to_chars\<close> of an unsigned integer: its decimal digits without leading zeros.\<close>

definition to_chars :: "nat \<Rightarrow> string" where
  "to_chars v = emit_int v []"

definition appendUint :: "string \<Rightarrow> nat \<Rightarrow> string" where
  "appendUint s v = s @ to_chars v"

definition appendBool :: "string \<Rightarrow> bool \<Rightarrow> string" where
  "appendBool s b = s @ (if b then ''true'' else ''false'')"

definition packDecimal :: "decimal \<Rightarrow> writer \<Rightarrow> writer" where
  "packDecimal d w = mp_str (toChars d) w"

fun appendHex32 :: "string \<Rightarrow> u8 list \<Rightarrow> string" where
  "appendHex32 s [] = s"
| "appendHex32 s (b # h) =
     appendHex32 (s @ [kHexDigits ! unat (drop_bit 4 b), kHexDigits ! unat (and b 0x0F)]) h"

definition appendAddress :: "string \<Rightarrow> address \<Rightarrow> string" where
  "appendAddress s a = s @ ''\"'' @ addr_toHex a @ ''\"''"

definition tpslWire :: "trigger_kind \<Rightarrow> string" where
  "tpslWire k = (if k = TakeProfit then ''tp'' else ''sl'')"

definition groupingWire :: "grouping \<Rightarrow> string" where
  "groupingWire g = (case g of Na \<Rightarrow> ''na'' | NormalTpsl \<Rightarrow> ''normalTpsl'' | PositionTpsl \<Rightarrow> ''positionTpsl'')"

section \<open>One order in both encodings\<close>

definition packOrder :: "orderWire \<Rightarrow> writer \<Rightarrow> writer" where
  "packOrder o' w =
     (let w = mapHeader (if ow_cloid o' \<noteq> None then 7 else 6) w;
          w = mp_uint (unat (ow_asset o')) (mp_str ''a'' w);
          w = mp_boolean (ow_isBuy o') (mp_str ''b'' w);
          w = packDecimal (ow_px o') (mp_str ''p'' w);
          w = packDecimal (ow_sz o') (mp_str ''s'' w);
          w = mp_boolean (ow_reduceOnly o') (mp_str ''r'' w);
          w = mapHeader 1 (mp_str ''t'' w);
          w = (case ow_trigger o' of
                 Some t \<Rightarrow>
                   (let w = mapHeader 3 (mp_str ''trigger'' w);
                        w = mp_boolean (isMarket t) (mp_str ''isMarket'' w);
                        w = packDecimal (triggerPx t) (mp_str ''triggerPx'' w)
                    in mp_str (tpslWire (trigger_kind_of t)) (mp_str ''tpsl'' w))
               | None \<Rightarrow> mp_str (tif_toString (ow_tif o')) (mp_str ''tif'' (mapHeader 1 (mp_str ''limit'' w))))
      in case ow_cloid o' of
           Some c \<Rightarrow> mp_str (cloid_toString c) (mp_str ''c'' w)
         | None \<Rightarrow> w)"

definition jsonOrder :: "string \<Rightarrow> orderWire \<Rightarrow> string" where
  "jsonOrder j o' =
     (let j = appendUint (j @ ''{\"a\":'') (unat (ow_asset o'));
          j = appendBool (j @ '',\"b\":'') (ow_isBuy o');
          j = appendTo (ow_px o') (j @ '',\"p\":\"'');
          j = appendTo (ow_sz o') (j @ ''\",\"s\":\"'');
          j = appendBool (j @ ''\",\"r\":'') (ow_reduceOnly o');
          j = (case ow_trigger o' of
                 Some t \<Rightarrow>
                   (let j = appendBool (j @ '',\"t\":{\"trigger\":{\"isMarket\":'') (isMarket t);
                        j = appendTo (triggerPx t) (j @ '',\"triggerPx\":\"'')
                    in j @ ''\",\"tpsl\":\"'' @ tpslWire (trigger_kind_of t) @ ''\"}}'')
               | None \<Rightarrow> j @ '',\"t\":{\"limit\":{\"tif\":\"'' @ tif_toString (ow_tif o') @ ''\"}}'');
          j = (case ow_cloid o' of
                 Some c \<Rightarrow> j @ '',\"c\":\"'' @ cloid_toString c @ ''\"''
               | None \<Rightarrow> j)
      in j @ ''}'')"

section \<open>The action builders\<close>

fun jsonOrders :: "nat \<Rightarrow> orderWire list \<Rightarrow> string \<Rightarrow> string" where
  "jsonOrders i [] j = j"
| "jsonOrders i (x # xs) j = jsonOrders (i + 1) xs (jsonOrder (if i \<noteq> 0 then j @ '','' else j) x)"

definition act_order :: "orderWire list \<Rightarrow> order_grouping \<Rightarrow> builderFee option \<Rightarrow> encodedAction" where
  "act_order orders grouping builder =
     (let w = mapHeader (if builder \<noteq> None then 4 else 3) new_writer;
          w = mp_str ''order'' (mp_str ''type'' w);
          w = fold packOrder orders (arrayHeader (length orders) (mp_str ''orders'' w));
          w = mp_str ''grouping'' w;
          w = (case grouping of
                 PriorityRate rate \<Rightarrow> mp_uint (unat rate) (mp_str ''p'' (mapHeader 1 w))
               | GroupingOf g \<Rightarrow> mp_str (groupingWire g) w);
          w = (case builder of
                 Some b \<Rightarrow>
                   (let w = mapHeader 2 (mp_str ''builder'' w);
                        w = mp_str (addr_toHex (builder_address b)) (mp_str ''b'' w)
                    in mp_uint (unat (feeTenthsOfBps b)) (mp_str ''f'' w))
               | None \<Rightarrow> w);
          j = jsonOrders 0 orders ''{\"type\":\"order\",\"orders\":['' @ ''],\"grouping\":'';
          j = (case grouping of
                 PriorityRate rate \<Rightarrow> appendUint (j @ ''{\"p\":'') (unat rate) @ ''}''
               | GroupingOf g \<Rightarrow> j @ ''\"'' @ groupingWire g @ ''\"'');
          j = (case builder of
                 Some b \<Rightarrow>
                   appendUint (appendAddress (j @ '',\"builder\":{\"b\":'') (builder_address b) @ '',\"f\":'')
                     (unat (feeTenthsOfBps b)) @ ''}''
               | None \<Rightarrow> j)
      in \<lparr>msgpack = w, ejson = j @ ''}''\<rparr>)"

fun cancel_loop :: "nat \<Rightarrow> cancelWire list \<Rightarrow> writer \<times> string \<Rightarrow> writer \<times> string" where
  "cancel_loop i [] wj = wj"
| "cancel_loop i (c # cs) (w, j) =
     (let w = mp_uint (unat (cw_asset c)) (mp_str ''a'' (mapHeader 2 w));
          w = mp_uint (unat (cw_oid c)) (mp_str ''o'' w);
          j = (if i \<noteq> 0 then j @ '','' else j);
          j = appendUint (j @ ''{\"a\":'') (unat (cw_asset c));
          j = appendUint (j @ '',\"o\":'') (unat (cw_oid c)) @ ''}''
      in cancel_loop (i + 1) cs (w, j))"

definition act_cancel :: "cancelWire list \<Rightarrow> bool \<Rightarrow> encodedAction" where
  "act_cancel cancels fast =
     (let w = mapHeader (if fast then 3 else 2) new_writer;
          w = mp_str ''cancels'' (mp_str ''cancel'' (mp_str ''type'' w));
          (w, j) = cancel_loop 0 cancels
            (arrayHeader (length cancels) w, ''{\"type\":\"cancel\",\"cancels\":['');
          j = j @ '']'';
          (w, j) = (if fast then (mp_boolean True (mp_str ''f'' w), j @ '',\"f\":true'') else (w, j))
      in \<lparr>msgpack = w, ejson = j @ ''}''\<rparr>)"

fun cancelByCloid_loop :: "nat \<Rightarrow> cancelByCloidWire list \<Rightarrow> writer \<times> string \<Rightarrow> writer \<times> string" where
  "cancelByCloid_loop i [] wj = wj"
| "cancelByCloid_loop i (c # cs) (w, j) =
     (let cl = cloid_toString (cc_cloid c);
          w = mp_uint (unat (cc_asset c)) (mp_str ''asset'' (mapHeader 2 w));
          w = mp_str cl (mp_str ''cloid'' w);
          j = (if i \<noteq> 0 then j @ '','' else j);
          j = appendUint (j @ ''{\"asset\":'') (unat (cc_asset c)) @ '',\"cloid\":\"'' @ cl @ ''\"}''
      in cancelByCloid_loop (i + 1) cs (w, j))"

definition act_cancelByCloid :: "cancelByCloidWire list \<Rightarrow> bool \<Rightarrow> encodedAction" where
  "act_cancelByCloid cancels fast =
     (let w = mapHeader (if fast then 3 else 2) new_writer;
          w = mp_str ''cancels'' (mp_str ''cancelByCloid'' (mp_str ''type'' w));
          (w, j) = cancelByCloid_loop 0 cancels
            (arrayHeader (length cancels) w, ''{\"type\":\"cancelByCloid\",\"cancels\":['');
          j = j @ '']'';
          (w, j) = (if fast then (mp_boolean True (mp_str ''f'' w), j @ '',\"f\":true'') else (w, j))
      in \<lparr>msgpack = w, ejson = j @ ''}''\<rparr>)"

fun batchModify_loop :: "nat \<Rightarrow> modifyWire list \<Rightarrow> writer \<times> string \<Rightarrow> writer \<times> string" where
  "batchModify_loop i [] wj = wj"
| "batchModify_loop i (m # ms) (w, j) =
     (let w = mp_str ''oid'' (mapHeader 2 w);
          j = (if i \<noteq> 0 then j @ '','' else j) @ ''{\"oid\":'';
          (w, j) = (case mw_target m of
                      Inl oid \<Rightarrow> (mp_uint (unat oid) w, appendUint j (unat oid))
                    | Inr c \<Rightarrow> (mp_str (cloid_toString c) w, j @ ''\"'' @ cloid_toString c @ ''\"''));
          w = packOrder (mw_order m) (mp_str ''order'' w);
          j = jsonOrder (j @ '',\"order\":'') (mw_order m) @ ''}''
      in batchModify_loop (i + 1) ms (w, j))"

definition act_batchModify :: "modifyWire list \<Rightarrow> encodedAction" where
  "act_batchModify modifies =
     (let w = mp_str ''batchModify'' (mp_str ''type'' (mapHeader 2 new_writer));
          w = arrayHeader (length modifies) (mp_str ''modifies'' w);
          (w, j) = batchModify_loop 0 modifies (w, ''{\"type\":\"batchModify\",\"modifies\":['')
      in \<lparr>msgpack = w, ejson = j @ '']}''\<rparr>)"

definition act_scheduleCancel :: "u64 option \<Rightarrow> encodedAction" where
  "act_scheduleCancel time_ms =
     (let w = mp_str ''scheduleCancel'' (mp_str ''type'' (mapHeader (if time_ms \<noteq> None then 2 else 1) new_writer));
          j = ''{\"type\":\"scheduleCancel\"'';
          (w, j) = (case time_ms of
                      Some t \<Rightarrow> (mp_uint (unat t) (mp_str ''time'' w), appendUint (j @ '',\"time\":'') (unat t))
                    | None \<Rightarrow> (w, j))
      in \<lparr>msgpack = w, ejson = j @ ''}''\<rparr>)"

definition act_updateLeverage :: "u32 \<Rightarrow> bool \<Rightarrow> u32 \<Rightarrow> encodedAction" where
  "act_updateLeverage ast isCross leverage =
     (let w = mp_str ''updateLeverage'' (mp_str ''type'' (mapHeader 4 new_writer));
          w = mp_uint (unat ast) (mp_str ''asset'' w);
          w = mp_boolean isCross (mp_str ''isCross'' w);
          w = mp_uint (unat leverage) (mp_str ''leverage'' w);
          j = appendUint ''{\"type\":\"updateLeverage\",\"asset\":'' (unat ast);
          j = appendBool (j @ '',\"isCross\":'') isCross;
          j = appendUint (j @ '',\"leverage\":'') (unat leverage)
      in \<lparr>msgpack = w, ejson = j @ ''}''\<rparr>)"

definition act_updateIsolatedMargin :: "u32 \<Rightarrow> decimal \<Rightarrow> encodedAction result" where
  "act_updateIsolatedMargin ast usdc =
     (if raw usdc smod 100 \<noteq> 0
      then Inl (mk_error ErrRejected
             (''updateIsolatedMargin: '' @ dec_toString usdc @ '' is finer than 1e-6 USDC''))
      else
        let micro = raw usdc sdiv 100;
            w = mp_str ''updateIsolatedMargin'' (mp_str ''type'' (mapHeader 4 new_writer));
            w = mp_uint (unat ast) (mp_str ''asset'' w);
            w = mp_boolean True (mp_str ''isBuy'' w);
            w = mp_sint micro (mp_str ''ntli'' w);
            j = appendUint ''{\"type\":\"updateIsolatedMargin\",\"asset\":'' (unat ast);
            j = j @ '',\"isBuy\":true,\"ntli\":'';
            j = (if micro < 0 then appendUint (j @ ''-'') (nat (- (micro + 1)) + 1)
                 else appendUint j (nat micro))
        in Inr \<lparr>msgpack = w, ejson = j @ ''}''\<rparr>)"

definition act_noop :: encodedAction where
  "act_noop = \<lparr>msgpack = mp_str ''noop'' (mp_str ''type'' (mapHeader 1 new_writer)),
     ejson = ''{\"type\":\"noop\"}''\<rparr>"

definition act_reserveRequestWeight :: "u64 \<Rightarrow> encodedAction" where
  "act_reserveRequestWeight weight =
     (let w = mp_str ''reserveRequestWeight'' (mp_str ''type'' (mapHeader 2 new_writer));
          w = mp_uint (unat weight) (mp_str ''weight'' w);
          j = appendUint ''{\"type\":\"reserveRequestWeight\",\"weight\":'' (unat weight)
      in \<lparr>msgpack = w, ejson = j @ ''}''\<rparr>)"

section \<open>Nonces\<close>

text \<open>One round of \<open>NonceGenerator::next\<close>: the candidate for the last value loaded.\<close>

definition nonce_candidate :: "u64 \<Rightarrow> u64 \<Rightarrow> u64" where
  "nonce_candidate now prev = (if now > prev then now else prev + 1)"

section \<open>Signed requests\<close>

record signature =
  sig_r :: "u8 list"
  sig_s :: "u8 list"
  sig_v :: u8

type_synonym l1_signer = "u8 list \<Rightarrow> address option \<Rightarrow> u64 \<Rightarrow> u64 option \<Rightarrow> bool \<Rightarrow> signature"

record requestBuilder =
  signer :: l1_signer
  isMainnet :: bool
  vault :: "address option"

definition appendPayload :: "requestBuilder \<Rightarrow> string \<Rightarrow> encodedAction \<Rightarrow> u64 \<Rightarrow> u64 option \<Rightarrow> string" where
  "appendPayload rb body action nonce expiresAfter =
     (let sig = signer rb (msgpack action) (vault rb) nonce expiresAfter (isMainnet rb);
          body = body @ ''{\"action\":'' @ ejson action @ '',\"nonce\":'';
          body = appendUint body (unat nonce) @ '',\"signature\":{\"r\":\"0x'';
          body = appendHex32 body (sig_r sig) @ ''\",\"s\":\"0x'';
          body = appendHex32 body (sig_s sig) @ ''\",\"v\":'';
          body = appendUint body (unat (sig_v sig)) @ ''},\"vaultAddress\":'';
          body = (case vault rb of
                    Some a \<Rightarrow> body @ ''\"'' @ addr_toHex a @ ''\"''
                  | None \<Rightarrow> body @ ''null'');
          body = (case expiresAfter of
                    Some e \<Rightarrow> appendUint (body @ '',\"expiresAfter\":'') (unat e)
                  | None \<Rightarrow> body)
      in body @ ''}'')"

definition payload :: "requestBuilder \<Rightarrow> encodedAction \<Rightarrow> u64 \<Rightarrow> u64 option \<Rightarrow> string" where
  "payload rb action nonce expiresAfter = appendPayload rb [] action nonce expiresAfter"

definition wsPostAction :: "requestBuilder \<Rightarrow> u64 \<Rightarrow> encodedAction \<Rightarrow> u64 \<Rightarrow> u64 option \<Rightarrow> string" where
  "wsPostAction rb requestId action nonce expiresAfter =
     (let frame = appendUint ''{\"method\":\"post\",\"id\":'' (unat requestId) @
                    '',\"request\":{\"type\":\"action\",\"payload\":''
      in appendPayload rb frame action nonce expiresAfter @ ''}}'')"

definition wsPost :: "u64 \<Rightarrow> string \<Rightarrow> string" where
  "wsPost requestId payloadJson =
     appendUint ''{\"method\":\"post\",\"id\":'' (unat requestId) @
       '',\"request\":{\"type\":\"action\",\"payload\":'' @ payloadJson @ ''}}''"

definition wsInfo :: "u64 \<Rightarrow> string \<Rightarrow> string" where
  "wsInfo requestId infoJson =
     appendUint ''{\"method\":\"post\",\"id\":'' (unat requestId) @
       '',\"request\":{\"type\":\"info\",\"payload\":'' @ infoJson @ ''}}''"

section \<open>Specification: one value per action\<close>

definition decimal_tree :: "decimal \<Rightarrow> mp" where
  "decimal_tree d = MStr (toChars d)"

definition nat_tree :: "'a::len word \<Rightarrow> mp" where
  "nat_tree v = MInt (uint v)"

definition type_tree :: "orderWire \<Rightarrow> mp" where
  "type_tree o' = (case ow_trigger o' of
     Some t \<Rightarrow> MMap [(''trigger'', MMap [(''isMarket'', MBool (isMarket t)),
        (''triggerPx'', decimal_tree (triggerPx t)), (''tpsl'', MStr (tpslWire (trigger_kind_of t)))])]
   | None \<Rightarrow> MMap [(''limit'', MMap [(''tif'', MStr (tif_toString (ow_tif o')))])])"

definition order_tree :: "orderWire \<Rightarrow> mp" where
  "order_tree o' = MMap (
     [(''a'', nat_tree (ow_asset o')), (''b'', MBool (ow_isBuy o')), (''p'', decimal_tree (ow_px o')),
      (''s'', decimal_tree (ow_sz o')), (''r'', MBool (ow_reduceOnly o')), (''t'', type_tree o')] @
     (case ow_cloid o' of Some c \<Rightarrow> [(''c'', MStr (cloid_toString c))] | None \<Rightarrow> []))"

datatype action =
    Order "orderWire list" order_grouping "builderFee option"
  | Cancel "cancelWire list" bool
  | CancelByCloid "cancelByCloidWire list" bool
  | BatchModify "modifyWire list"
  | ScheduleCancel "u64 option"
  | UpdateLeverage u32 bool u32
  | UpdateIsolatedMargin u32 decimal
  | Noop
  | ReserveRequestWeight u64

definition cancel_tree :: "cancelWire \<Rightarrow> mp" where
  "cancel_tree c = MMap [(''a'', nat_tree (cw_asset c)), (''o'', nat_tree (cw_oid c))]"

definition cancelByCloid_tree :: "cancelByCloidWire \<Rightarrow> mp" where
  "cancelByCloid_tree c = MMap [(''asset'', nat_tree (cc_asset c)), (''cloid'', MStr (cloid_toString (cc_cloid c)))]"

definition modify_tree :: "modifyWire \<Rightarrow> mp" where
  "modify_tree m = MMap [
     (''oid'', case mw_target m of Inl oid \<Rightarrow> nat_tree oid | Inr c \<Rightarrow> MStr (cloid_toString c)),
     (''order'', order_tree (mw_order m))]"

definition grouping_tree :: "order_grouping \<Rightarrow> mp" where
  "grouping_tree g = (case g of
     PriorityRate rate \<Rightarrow> MMap [(''p'', nat_tree rate)] | GroupingOf g \<Rightarrow> MStr (groupingWire g))"

definition fast_entry :: "bool \<Rightarrow> (string \<times> mp) list" where
  "fast_entry fast = (if fast then [(''f'', MBool True)] else [])"

fun action_tree :: "action \<Rightarrow> mp" where
  "action_tree (Order orders g builder) = MMap (
     [(''type'', MStr ''order''), (''orders'', MArr (map order_tree orders)), (''grouping'', grouping_tree g)] @
     (case builder of
        Some b \<Rightarrow> [(''builder'', MMap [(''b'', MStr (addr_toHex (builder_address b))),
                     (''f'', nat_tree (feeTenthsOfBps b))])]
      | None \<Rightarrow> []))"
| "action_tree (Cancel cs fast) =
     MMap ([(''type'', MStr ''cancel''), (''cancels'', MArr (map cancel_tree cs))] @ fast_entry fast)"
| "action_tree (CancelByCloid cs fast) =
     MMap ([(''type'', MStr ''cancelByCloid''), (''cancels'', MArr (map cancelByCloid_tree cs))] @ fast_entry fast)"
| "action_tree (BatchModify ms) =
     MMap [(''type'', MStr ''batchModify''), (''modifies'', MArr (map modify_tree ms))]"
| "action_tree (ScheduleCancel t) = MMap ((''type'', MStr ''scheduleCancel'') #
     (case t of Some t \<Rightarrow> [(''time'', nat_tree t)] | None \<Rightarrow> []))"
| "action_tree (UpdateLeverage ast isCross leverage) = MMap [(''type'', MStr ''updateLeverage''),
     (''asset'', nat_tree ast), (''isCross'', MBool isCross), (''leverage'', nat_tree leverage)]"
| "action_tree (UpdateIsolatedMargin ast usdc) = MMap [(''type'', MStr ''updateIsolatedMargin''),
     (''asset'', nat_tree ast), (''isBuy'', MBool True), (''ntli'', MInt (raw usdc div 100))]"
| "action_tree Noop = MMap [(''type'', MStr ''noop'')]"
| "action_tree (ReserveRequestWeight weight) =
     MMap [(''type'', MStr ''reserveRequestWeight''), (''weight'', nat_tree weight)]"

fun build :: "action \<Rightarrow> encodedAction result" where
  "build (Order orders g builder) = Inr (act_order orders g builder)"
| "build (Cancel cs fast) = Inr (act_cancel cs fast)"
| "build (CancelByCloid cs fast) = Inr (act_cancelByCloid cs fast)"
| "build (BatchModify ms) = Inr (act_batchModify ms)"
| "build (ScheduleCancel t) = Inr (act_scheduleCancel t)"
| "build (UpdateLeverage ast isCross leverage) = Inr (act_updateLeverage ast isCross leverage)"
| "build (UpdateIsolatedMargin ast usdc) = act_updateIsolatedMargin ast usdc"
| "build Noop = Inr act_noop"
| "build (ReserveRequestWeight weight) = Inr (act_reserveRequestWeight weight)"

section \<open>Specification: JSON texts of values\<close>

fun commas :: "string list \<Rightarrow> string" where
  "commas [] = []"
| "commas [x] = x"
| "commas (x # xs) = x @ '','' @ commas xs"

definition int_text :: "int \<Rightarrow> string" where
  "int_text i = (if i < 0 then ''-'' @ to_chars (nat (- i)) else to_chars (nat i))"

fun json_text :: "mp \<Rightarrow> string" where
  "json_text MNil = ''null''"
| "json_text (MBool b) = (if b then ''true'' else ''false'')"
| "json_text (MInt i) = int_text i"
| "json_text (MStr s) = ''\"'' @ s @ ''\"''"
| "json_text (MArr xs) = ''['' @ commas (map json_text xs) @ '']''"
| "json_text (MMap es) = ''{'' @ commas (map (\<lambda>(k, v). ''\"'' @ k @ ''\":'' @ json_text v) es) @ ''}''"

section \<open>Each builder encodes the value of its action\<close>

definition encoded :: "mp \<Rightarrow> encodedAction" where
  "encoded t = \<lparr>msgpack = mp_write t [], ejson = json_text t\<rparr>"

lemma mp_write_nat [simp]: "mp_write (nat_tree v) w = mp_uint (unat v) w"
  by (simp add: nat_tree_def mp_sint_def)

lemma mp_write_decimal [simp]: "mp_write (decimal_tree d) w = packDecimal d w"
  by (simp add: decimal_tree_def packDecimal_def)

lemma json_nat [simp]: "json_text (nat_tree v) = to_chars (unat v)"
  by (simp add: nat_tree_def int_text_def)

lemma json_decimal [simp]: "json_text (decimal_tree d) = ''\"'' @ toChars d @ ''\"''"
  by (simp add: decimal_tree_def)

lemmas text_ops = appendUint_def appendBool_def appendTo_def appendAddress_def new_writer_def Let_def eval_nat_numeral

lemma commas_Cons: "commas (x # xs) = x @ (if xs = [] then [] else '','' @ commas xs)"
  by (cases xs) simp_all

lemma packOrder_eq: "packOrder o' w = mp_write (order_tree o') w"
  by (simp add: packOrder_def order_tree_def type_tree_def Let_def eval_nat_numeral split: option.split)

lemma jsonOrder_eq: "jsonOrder j o' = j @ json_text (order_tree o')"
  by (simp add: jsonOrder_def order_tree_def type_tree_def text_ops split: option.split)

text \<open>The text the loops append for the elements from index \<open>i\<close> on.\<close>

definition sep_commas :: "nat \<Rightarrow> string list \<Rightarrow> string" where
  "sep_commas i xs = (if i \<noteq> 0 \<and> xs \<noteq> [] then '','' else []) @ commas xs"

lemma sep_commas_Nil [simp]: "sep_commas i [] = []"
  by (simp add: sep_commas_def)

lemma sep_commas_Cons: "sep_commas i (x # xs) = (if i \<noteq> 0 then '','' else []) @ x @ sep_commas (Suc i) xs"
  by (simp add: sep_commas_def commas_Cons)

lemma sep_commas_0 [simp]: "sep_commas 0 xs = commas xs"
  by (simp add: sep_commas_def)

lemma jsonOrders_eq: "jsonOrders i xs j = j @ sep_commas i (map (\<lambda>x. json_text (order_tree x)) xs)"
  by (induction xs arbitrary: i j) (simp_all add: jsonOrder_eq sep_commas_Cons)

lemma cancel_loop_eq:
  "cancel_loop i cs (w, j) =
     (fold (\<lambda>c. mp_write (cancel_tree c)) cs w, j @ sep_commas i (map (\<lambda>c. json_text (cancel_tree c)) cs))"
  by (induction cs arbitrary: i w j) (simp_all add: cancel_tree_def sep_commas_Cons text_ops)

lemma cancelByCloid_loop_eq:
  "cancelByCloid_loop i cs (w, j) =
     (fold (\<lambda>c. mp_write (cancelByCloid_tree c)) cs w,
      j @ sep_commas i (map (\<lambda>c. json_text (cancelByCloid_tree c)) cs))"
  by (induction cs arbitrary: i w j) (simp_all add: cancelByCloid_tree_def sep_commas_Cons text_ops)

lemma batchModify_loop_eq:
  "batchModify_loop i ms (w, j) =
     (fold (\<lambda>m. mp_write (modify_tree m)) ms w, j @ sep_commas i (map (\<lambda>m. json_text (modify_tree m)) ms))"
proof (induction ms arbitrary: i w j)
  case (Cons m ms)
  show ?case
    by (cases "mw_target m")
      (simp_all add: Cons modify_tree_def sep_commas_Cons text_ops packOrder_eq jsonOrder_eq)
qed simp

lemma fold_trees: "fold mp_write (map f xs) = fold (\<lambda>x. mp_write (f x)) xs"
  by (simp add: fold_map o_def)

lemma act_order_eq: "act_order orders g b = encoded (action_tree (Order orders g b))"
  by (cases g; cases b)
    (simp_all add: act_order_def encoded_def text_ops packOrder_eq[abs_def] jsonOrders_eq
      fold_trees grouping_tree_def o_def)

lemma act_cancel_eq: "act_cancel cs fast = encoded (action_tree (Cancel cs fast))"
  by (simp add: act_cancel_def encoded_def text_ops cancel_loop_eq fold_trees fast_entry_def o_def)

lemma act_cancelByCloid_eq: "act_cancelByCloid cs fast = encoded (action_tree (CancelByCloid cs fast))"
  by (simp add: act_cancelByCloid_def encoded_def text_ops cancelByCloid_loop_eq fold_trees fast_entry_def o_def)

lemma act_batchModify_eq: "act_batchModify ms = encoded (action_tree (BatchModify ms))"
  by (simp add: act_batchModify_def encoded_def text_ops batchModify_loop_eq fold_trees o_def)

lemma mult_sdiv_cancel: "(100::int) * k sdiv 100 = k"
  by (cases "0 \<le> k") (simp_all add: sdiv_nonneg sdiv_neg)

lemma smod_0_iff: "(r::int) smod 100 = 0 \<longleftrightarrow> 100 dvd r"
  by (metis dvd_def eq_iff_diff_eq_0 mult.commute mult_sdiv_cancel smod_eq)

lemma act_updateIsolatedMargin_ok:
  "act_updateIsolatedMargin ast (Decimal (100 * m)) =
     Inr (encoded (action_tree (UpdateIsolatedMargin ast (Decimal (100 * m)))))"
proof (cases "m < 0")
  case True
  define k where "k = nat (- m - 1)"
  have k: "m = - 1 - int k" using True by (simp add: k_def)
  have "nat (- (m + 1)) = k" "nat (- m) = Suc k" by (simp_all add: k nat_add_distrib)
  moreover have "(100 * m) smod 100 = 0" by (simp add: smod_0_iff)
  ultimately show ?thesis using True
    unfolding act_updateIsolatedMargin_def decimal.sel mult_sdiv_cancel Let_def
    by (simp add: encoded_def text_ops int_text_def)
next
  case False
  moreover have "(100 * m) smod 100 = 0" by (simp add: smod_0_iff)
  ultimately show ?thesis
    by (simp add: act_updateIsolatedMargin_def encoded_def text_ops int_text_def mult_sdiv_cancel)
qed

lemma act_updateIsolatedMargin_eq:
  "act_updateIsolatedMargin ast usdc =
     (if 100 dvd raw usdc then Inr (encoded (action_tree (UpdateIsolatedMargin ast usdc)))
      else Inl (mk_error ErrRejected
             (''updateIsolatedMargin: '' @ dec_toString usdc @ '' is finer than 1e-6 USDC'')))"
proof (cases "100 dvd raw usdc")
  case True
  then obtain m where "usdc = Decimal (100 * m)" by (cases usdc) auto
  with True show ?thesis by (simp only: act_updateIsolatedMargin_ok if_True decimal.sel)
next
  case False
  then show ?thesis by (simp add: act_updateIsolatedMargin_def smod_0_iff)
qed

lemma build_eq:
  "build a = (case a of
     UpdateIsolatedMargin ast usdc \<Rightarrow> act_updateIsolatedMargin ast usdc
   | _ \<Rightarrow> Inr (encoded (action_tree a)))"
  by (cases a)
    (simp_all add: act_order_eq act_cancel_eq act_cancelByCloid_eq act_batchModify_eq del: action_tree.simps,
     auto simp: act_scheduleCancel_def act_updateLeverage_def act_noop_def act_reserveRequestWeight_def
       encoded_def text_ops split: option.split)

section \<open>Reading JSON texts\<close>

text \<open>A reader for JSON texts whose strings hold no escapes. The fuel bounds the nesting depth.\<close>

fun jr_many :: "nat \<Rightarrow> (string \<Rightarrow> ('a \<times> string) option) \<Rightarrow> char \<Rightarrow> string \<Rightarrow> ('a list \<times> string) option" where
  "jr_many 0 d c s = None"
| "jr_many (Suc k) d c s =
     (case d s of
        Some (x, h # t) \<Rightarrow>
          if h = c then Some ([x], t)
          else if h = CHR '','' then map_option (\<lambda>(xs, r). (x # xs, r)) (jr_many k d c t) else None
      | _ \<Rightarrow> None)"

definition jr_list :: "(string \<Rightarrow> ('a \<times> string) option) \<Rightarrow> char \<Rightarrow> string \<Rightarrow> ('a list \<times> string) option" where
  "jr_list d c s = (if take 1 s = [c] then Some ([], drop 1 s) else jr_many (length s) d c s)"

definition jr_string :: "string \<Rightarrow> (string \<times> string) option" where
  "jr_string s = (case dropWhile (\<lambda>c. c \<noteq> CHR 0x22) s of
     [] \<Rightarrow> None | _ # r \<Rightarrow> Some (takeWhile (\<lambda>c. c \<noteq> CHR 0x22) s, r))"

definition jr_number :: "string \<Rightarrow> (nat \<times> string) option" where
  "jr_number s = (if takeWhile is_digit s = [] then None
     else Some (digits_val (takeWhile is_digit s), dropWhile is_digit s))"

definition jr_entry :: "(string \<Rightarrow> (mp \<times> string) option) \<Rightarrow> string \<Rightarrow> ((string \<times> mp) \<times> string) option" where
  "jr_entry d s = (case s of [] \<Rightarrow> None | h # t \<Rightarrow>
     if h \<noteq> CHR 0x22 then None
     else case jr_string t of
       Some (k, h # t) \<Rightarrow> if h = CHR '':'' then map_option (\<lambda>(v, r). ((k, v), r)) (d t) else None
     | _ \<Rightarrow> None)"

fun jr_value :: "nat \<Rightarrow> string \<Rightarrow> (mp \<times> string) option" where
  "jr_value 0 s = None"
| "jr_value (Suc n) s = (case s of [] \<Rightarrow> None | h # t \<Rightarrow>
     if h = CHR ''['' then map_option (\<lambda>(xs, r). (MArr xs, r)) (jr_list (jr_value n) (CHR '']'') t)
     else if h = CHR ''{'' then map_option (\<lambda>(es, r). (MMap es, r)) (jr_list (jr_entry (jr_value n)) (CHR ''}'') t)
     else if h = CHR 0x22 then map_option (\<lambda>(x, r). (MStr x, r)) (jr_string t)
     else if h = CHR ''-'' then map_option (\<lambda>(v, r). (MInt (- int v), r)) (jr_number t)
     else if is_digit h then map_option (\<lambda>(v, r). (MInt (int v), r)) (jr_number s)
     else if take 3 t = ''ull'' \<and> h = CHR ''n'' then Some (MNil, drop 3 t)
     else if take 3 t = ''rue'' \<and> h = CHR ''t'' then Some (MBool True, drop 3 t)
     else if take 4 t = ''alse'' \<and> h = CHR ''f'' then Some (MBool False, drop 4 t)
     else None)"

definition no_quote :: "string \<Rightarrow> bool" where
  "no_quote s \<longleftrightarrow> CHR 0x22 \<notin> set s"

fun mp_plain :: "mp \<Rightarrow> bool" where
  "mp_plain (MStr s) \<longleftrightarrow> no_quote s"
| "mp_plain (MArr xs) \<longleftrightarrow> (\<forall>x \<in> set xs. mp_plain x)"
| "mp_plain (MMap es) \<longleftrightarrow> (\<forall>e \<in> set es. no_quote (fst e) \<and> mp_plain (snd e))"
| "mp_plain _ \<longleftrightarrow> True"

text \<open>What may follow a value: a number must end there.\<close>

definition stops :: "string \<Rightarrow> bool" where
  "stops r \<longleftrightarrow> (case r of [] \<Rightarrow> True | c # _ \<Rightarrow> \<not> is_digit c)"

lemma stops_simps [simp]: "stops []" "stops (c # r) \<longleftrightarrow> \<not> is_digit c"
  by (simp_all add: stops_def)

lemma jr_string_read: "no_quote s \<Longrightarrow> jr_string (s @ CHR 0x22 # r) = Some (s, r)"
proof -
  assume "no_quote s"
  then have "\<forall>c \<in> set s. c \<noteq> CHR 0x22" by (auto simp: no_quote_def)
  then have "dropWhile (\<lambda>c. c \<noteq> CHR 0x22) (s @ CHR 0x22 # r) = CHR 0x22 # r"
    "takeWhile (\<lambda>c. c \<noteq> CHR 0x22) (s @ CHR 0x22 # r) = s"
    by (simp_all add: dropWhile_append2 takeWhile_append2)
  then show ?thesis by (simp add: jr_string_def)
qed

lemma jr_number_read: "stops r \<Longrightarrow> jr_number (to_chars v @ r) = Some (v, r)"
proof -
  assume r: "stops r"
  have d: "\<forall>c \<in> set (to_chars v). is_digit c"
    using emit_int_digits[of v] by (simp add: to_chars_def list_all_iff)
  then have "takeWhile is_digit (to_chars v @ r) = to_chars v" "dropWhile is_digit (to_chars v @ r) = r"
    using r by (auto simp: stops_def takeWhile_append2 dropWhile_append2 split: list.splits)
  then show ?thesis
    using emit_int_nonempty[of v] by (simp add: jr_number_def to_chars_def emit_int_val)
qed

lemma to_chars_head: obtains c cs where "to_chars v = c # cs" and "is_digit c"
  using emit_int_nonempty[of v] emit_int_digits[of v]
  by (cases "to_chars v") (auto simp: to_chars_def)

lemma jr_many_read:
  assumes "\<And>x r. x \<in> set xs \<Longrightarrow> stops r \<Longrightarrow> d (f x @ r) = Some (x, r)"
    and "xs \<noteq> []" and "length xs \<le> k" and "\<not> is_digit c" and "c \<noteq> CHR '',''"
  shows "jr_many k d c (commas (map f xs) @ c # r) = Some (xs, r)"
  using assms
proof (induction xs arbitrary: k)
  case (Cons x xs)
  from Cons.prems obtain j where k: "k = Suc j" by (cases k) auto
  show ?case
  proof (cases "xs = []")
    case True
    then show ?thesis using Cons.prems(1)[of x "c # r"] Cons.prems(4) by (simp add: k)
  next
    case False
    have "jr_many j d c (commas (map f xs) @ c # r) = Some (xs, r)"
      using Cons.prems False by (intro Cons.IH) (auto simp: k)
    moreover have "d (f x @ CHR '','' # commas (map f xs) @ c # r) =
        Some (x, CHR '','' # commas (map f xs) @ c # r)"
      using Cons.prems(1)[of x] by (simp add: is_digit_def)
    ultimately show ?thesis using False Cons.prems(5) by (simp add: k commas_Cons)
  qed
qed simp

lemma length_commas: "(\<And>x. x \<in> set xs \<Longrightarrow> f x \<noteq> []) \<Longrightarrow> length xs \<le> length (commas (map f xs))"
proof (induction xs)
  case (Cons x xs)
  then have "1 \<le> length (f x)" using not_less_eq_eq by (metis One_nat_def length_greater_0_conv less_eq_Suc_le list.set_intros(1))
  with Cons show ?case by (auto simp: commas_Cons)
qed simp

lemma jr_list_read:
  assumes "\<And>x r. x \<in> set xs \<Longrightarrow> stops r \<Longrightarrow> d (f x @ r) = Some (x, r)"
    and "\<And>x. x \<in> set xs \<Longrightarrow> f x \<noteq> [] \<and> hd (f x) \<noteq> c" and "\<not> is_digit c" and "c \<noteq> CHR '',''"
  shows "jr_list d c (commas (map f xs) @ c # r) = Some (xs, r)"
proof (cases xs)
  case Nil
  then show ?thesis by (simp add: jr_list_def)
next
  case (Cons y ys)
  with assms(2)[of y] obtain h t where "f y = h # t" "h \<noteq> c" by (cases "f y") auto
  then have "take 1 (commas (map f xs) @ c # r) \<noteq> [c]" by (simp add: Cons commas_Cons)
  moreover have "length xs \<le> length (commas (map f xs) @ c # r)"
    using length_commas[of xs f] assms(2) by auto
  ultimately show ?thesis
    using jr_many_read[of xs d f "length (commas (map f xs) @ c # r)" c r] assms Cons
    by (simp add: jr_list_def del: map_eq_Cons_conv)
qed

lemma json_text_head:
  obtains c cs where "json_text m = c # cs" and "c \<noteq> CHR '']''" and "c \<noteq> CHR ''}''"
proof (cases m)
  case (MInt i)
  obtain c cs where "to_chars (nat i) = c # cs" "is_digit c" by (rule to_chars_head)
  moreover from this(2) have "c \<noteq> CHR '']''" "c \<noteq> CHR ''}''" by (auto simp: is_digit_def)
  ultimately show ?thesis using that by (cases "i < 0") (auto simp: MInt int_text_def)
next
  case (MBool b)
  then show ?thesis using that by (cases b) auto
qed (use that in auto)

definition entry_text :: "string \<times> mp \<Rightarrow> string" where
  "entry_text e = ''\"'' @ fst e @ ''\":'' @ json_text (snd e)"

lemma json_text_map: "json_text (MMap es) = ''{'' @ commas (map entry_text es) @ ''}''"
proof -
  have "(\<lambda>(k, v). ''\"'' @ k @ ''\":'' @ json_text v) = entry_text"
    by (rule ext) (simp add: entry_text_def case_prod_beta)
  then show ?thesis by simp
qed

lemma jr_value_read:
  "mp_plain m \<Longrightarrow> mp_depth m \<le> n \<Longrightarrow> stops r \<Longrightarrow> jr_value n (json_text m @ r) = Some (m, r)"
proof (induction m arbitrary: n r)
  case (MArr xs)
  then obtain k where n: "n = Suc k" by (cases n) auto
  have "jr_value k (json_text x @ r) = Some (x, r)" if "x \<in> set xs" "stops r" for x r
    using MArr.prems that depth_elem[of x xs mp_depth] by (intro MArr.IH) (auto simp: n)
  moreover have "json_text x \<noteq> [] \<and> hd (json_text x) \<noteq> CHR '']''" for x by (rule json_text_head[of x]) auto
  ultimately show ?case
    using jr_list_read[of xs "jr_value k" json_text "CHR '']''" r] by (simp add: n is_digit_def)
next
  case (MMap es)
  then obtain k where n: "n = Suc k" by (cases n) auto
  have "jr_entry (jr_value k) (entry_text e @ r) = Some (e, r)" if e: "e \<in> set es" "stops r" for e r
  proof -
    have "jr_value k (json_text (snd e) @ r) = Some (snd e, r)"
      using MMap.prems e depth_elem[of e es "\<lambda>e. mp_depth (snd e)"]
      by (intro MMap.IH[of e]) (auto simp: n snds.simps)
    moreover have "no_quote (fst e)" using MMap.prems(1) e by auto
    ultimately show ?thesis by (simp add: jr_entry_def entry_text_def jr_string_read)
  qed
  moreover have "entry_text e \<noteq> [] \<and> hd (entry_text e) \<noteq> CHR ''}''" for e by (simp add: entry_text_def)
  ultimately show ?case
    using jr_list_read[of es "jr_entry (jr_value k)" entry_text "CHR ''}''" r]
    by (simp add: n is_digit_def json_text_map del: json_text.simps)
next
  case (MInt i)
  then obtain k where n: "n = Suc k" by (cases n) auto
  show ?case
  proof (cases "i < 0")
    case True
    then show ?thesis using jr_number_read[OF MInt.prems(3)] by (simp add: n int_text_def is_digit_def)
  next
    case False
    obtain c cs where "to_chars (nat i) = c # cs" "is_digit c" by (rule to_chars_head)
    with False show ?thesis using jr_number_read[OF MInt.prems(3), of "nat i"]
      by (auto simp: n int_text_def is_digit_def)
  qed
next
  case (MStr s)
  then obtain k where "n = Suc k" by (cases n) auto
  with MStr show ?case by (simp add: jr_string_read)
next
  case MNil
  then obtain k where "n = Suc k" by (cases n) auto
  then show ?case by (simp add: is_digit_def)
next
  case (MBool b)
  then obtain k where "n = Suc k" by (cases n) auto
  then show ?case by (simp add: is_digit_def)
qed

section \<open>The actions the client can state\<close>

definition order_ok :: "orderWire \<Rightarrow> bool" where
  "order_ok o' \<longleftrightarrow> wf_decimal (ow_px o') \<and> wf_decimal (ow_sz o') \<and>
     (case ow_trigger o' of Some t \<Rightarrow> wf_decimal (triggerPx t) | None \<Rightarrow> True)"

fun action_ok :: "action \<Rightarrow> bool" where
  "action_ok (Order orders g b) \<longleftrightarrow> length orders < 2 ^ 32 \<and> (\<forall>x \<in> set orders. order_ok x) \<and>
     (case b of Some f \<Rightarrow> length (builder_address f) = 20 | None \<Rightarrow> True)"
| "action_ok (Cancel cs fast) \<longleftrightarrow> length cs < 2 ^ 32"
| "action_ok (CancelByCloid cs fast) \<longleftrightarrow> length cs < 2 ^ 32"
| "action_ok (BatchModify ms) \<longleftrightarrow> length ms < 2 ^ 32 \<and> (\<forall>m \<in> set ms. order_ok (mw_order m))"
| "action_ok (UpdateIsolatedMargin ast usdc) \<longleftrightarrow> wf_decimal usdc \<and> 100 dvd raw usdc"
| "action_ok _ \<longleftrightarrow> True"

lemma toChars_plain: "no_quote (toChars d)"
proof -
  obtain ip dot fp where sh: "toChars d = (if raw d < 0 then ''-'' else []) @ ip @ dot @ fp"
    "ip = emit_int (magnitude d div nat kScale) []" "list_all is_digit fp"
    "dot = ''.'' \<and> fp \<noteq> [] \<and> last fp \<noteq> CHR ''0'' \<or> dot = [] \<and> fp = []"
    by (rule toChars_shape)
  have q: "list_all is_digit s \<Longrightarrow> CHR 0x22 \<notin> set s" for s
    by (auto simp: list_all_iff is_digit_def)
  show ?thesis using q[OF sh(3)] q[OF emit_int_digits[of "magnitude d div nat kScale"]] sh(4)
    by (auto simp: no_quote_def sh(1,2))
qed

lemma decimal_leaf: "wf_decimal d \<Longrightarrow> mp_ok (decimal_tree d) \<and> mp_plain (decimal_tree d)"
  using toChars_length[of d] toChars_plain[of d] by (simp add: decimal_tree_def)

lemma nat_leaf [simp]: "mp_ok (nat_tree (v::u32))" "mp_ok (nat_tree (u::u64))" "mp_plain (nat_tree w)"
  using unsigned_less[of v, where ?'a = int] unsigned_less[of u, where ?'a = int]
  by (simp_all add: nat_tree_def order_trans[of _ 0])

lemma hex_digit_plain [simp]: "n < 16 \<Longrightarrow> hex_digit n \<noteq> CHR 0x22"
proof -
  have "\<forall>n\<in>set [0..<16]. hex_digit n \<noteq> CHR 0x22"
    by (simp add: upt_conv_Cons hex_digit_def kHexDigits_def)
  moreover assume "n < 16"
  ultimately show ?thesis by simp
qed

lemma hex_strings: "no_quote (addr_toHex a)" "no_quote (cloid_toString c)"
    "length (addr_toHex a) = 2 + 2 * length a" "length (cloid_toString c) = 34"
proof -
  have "CHR 0x22 \<notin> set (toHex a)"
    by (induction a)
      (simp_all add: hex_digit_plain[OF unat_high_nibble, THEN not_sym] hex_digit_plain[OF unat_and_15, THEN not_sym])
  then show "no_quote (addr_toHex a)" by (simp add: no_quote_def addr_toHex_def)
  have "CHR 0x22 \<notin> set (cloid_half w)" for w
    by (auto simp: cloid_half_def image_iff dest: hex_digit_plain[OF unat_and_15, THEN notE, OF sym])
  then show "no_quote (cloid_toString c)" by (simp add: no_quote_def cloid_toString_def)
  show "length (addr_toHex a) = 2 + 2 * length a" "length (cloid_toString c) = 34"
    by (simp_all add: addr_toHex_def cloid_toString_def cloid_half_def)
qed

definition leaf_ok :: "mp \<Rightarrow> nat \<Rightarrow> bool" where
  "leaf_ok t n \<longleftrightarrow> mp_ok t \<and> mp_plain t \<and> mp_depth t \<le> n"

lemma depth_le: "foldr max (map f xs) (0::nat) \<le> n \<longleftrightarrow> (\<forall>x \<in> set xs. f x \<le> n)"
  by (induction xs) auto

lemma leaf_ok_simps [simp]:
  "leaf_ok (MBool b) (Suc n)" "leaf_ok (nat_tree (v::u32)) (Suc n)" "leaf_ok (nat_tree (u::u64)) (Suc n)"
  "leaf_ok (MStr s) (Suc n) \<longleftrightarrow> no_quote s \<and> length s < 2 ^ 32"
  "leaf_ok (MArr xs) (Suc n) \<longleftrightarrow> length xs < 2 ^ 32 \<and> (\<forall>x \<in> set xs. leaf_ok x n)"
  "leaf_ok (MMap es) (Suc n) \<longleftrightarrow> length es < 2 ^ 32 \<and>
     (\<forall>e \<in> set es. no_quote (fst e) \<and> length (fst e) < 2 ^ 32 \<and> leaf_ok (snd e) n)"
  "wf_decimal d \<Longrightarrow> leaf_ok (decimal_tree d) (Suc n)"
  using decimal_leaf[of d] nat_leaf(1)[of v] nat_leaf(2)[of u]
  by (auto simp: leaf_ok_def depth_le nat_tree_def decimal_tree_def)

lemma order_tree_ok: "order_ok o' \<Longrightarrow> leaf_ok (order_tree o') (Suc (Suc (Suc (Suc n))))"
  by (cases "ow_trigger o'"; cases "ow_cloid o'"; cases "ow_tif o'")
    (simp_all add: order_tree_def type_tree_def order_ok_def no_quote_def[of "_ # _"] tpslWire_def hex_strings)

lemma action_tree_ok:
  "action_ok a \<Longrightarrow> leaf_ok (action_tree a) (Suc (Suc (Suc (Suc (Suc (Suc (Suc 0)))))))"
proof (cases a)
  case (Order orders g b)
  assume "action_ok a"
  then show ?thesis
    by (cases g; cases b; cases "case g of GroupingOf h \<Rightarrow> h | _ \<Rightarrow> Na")
      (simp_all add: Order order_tree_ok grouping_tree_def groupingWire_def hex_strings no_quote_def[of "_ # _"])
next
  case (UpdateIsolatedMargin ast usdc)
  assume "action_ok a"
  then have "- (2 ^ 63) \<le> raw usdc div 100" "raw usdc div 100 < 2 ^ 64"
    using UpdateIsolatedMargin by (auto simp: wf_decimal_def in_i64_def)
  then show ?thesis by (simp add: UpdateIsolatedMargin no_quote_def[of "_ # _"]) (simp add: leaf_ok_def)
next
  case (BatchModify ms)
  assume "action_ok a"
  then show ?thesis
    by (auto simp add: BatchModify modify_tree_def order_tree_ok hex_strings no_quote_def[of "_ # _"] split: sum.split)
qed (auto simp: no_quote_def[of "_ # _"] fast_entry_def cancel_tree_def cancelByCloid_tree_def hex_strings
  split: option.splits)

lemma appendPayload_append: "appendPayload rb body a n e = body @ appendPayload rb [] a n e"
proof -
  have h: "appendHex32 s bs = s @ appendHex32 [] bs" for s bs
  proof (induction bs arbitrary: s)
    case (Cons b bs)
    show ?case using Cons[of "s @ _"] Cons[of "[_, _]"] by simp
  qed simp
  show ?thesis
    by (simp add: appendPayload_def appendUint_def Let_def h[of "_ @ _"] h[of "_ # _"] split: option.split)
qed

section \<open>Concurrent calls of the nonce source\<close>

text \<open>
  Threads run \<open>next\<close> concurrently: a call reads its clock and loads the last value; a
  compare-exchange that finds the value it loaded stores and returns the candidate, any other
  (also a spurious failure) reloads. Clock readings are below \<open>B\<close>.
\<close>

datatype nonce_thread = Idle | Loaded u64 u64 | Returned u64

record nonce_state =
  last_nonce :: u64
  threads :: "nat \<Rightarrow> nonce_thread"
  issued :: "u64 list"

definition nonce_init :: nonce_state where
  "nonce_init = \<lparr>last_nonce = 0, threads = (\<lambda>_. Idle), issued = []\<rparr>"

inductive nonce_reach :: "nat \<Rightarrow> nonce_state \<Rightarrow> bool" for B where
  init: "nonce_reach B nonce_init"
| load: "nonce_reach B s \<Longrightarrow> threads s t = Idle \<Longrightarrow> unat now < B \<Longrightarrow>
    nonce_reach B (s\<lparr>threads := (threads s)(t := Loaded now (last_nonce s))\<rparr>)"
| cas_ok: "nonce_reach B s \<Longrightarrow> threads s t = Loaded now (last_nonce s) \<Longrightarrow> c = nonce_candidate now (last_nonce s) \<Longrightarrow>
    nonce_reach B (s\<lparr>last_nonce := c, threads := (threads s)(t := Returned c), issued := issued s @ [c]\<rparr>)"
| cas_fail: "nonce_reach B s \<Longrightarrow> threads s t = Loaded now prev \<Longrightarrow>
    nonce_reach B (s\<lparr>threads := (threads s)(t := Loaded now (last_nonce s))\<rparr>)"
| again: "nonce_reach B s \<Longrightarrow> threads s t = Returned c \<Longrightarrow>
    nonce_reach B (s\<lparr>threads := (threads s)(t := Idle)\<rparr>)"

definition nonce_inv :: "nat \<Rightarrow> nonce_state \<Rightarrow> bool" where
  "nonce_inv B s \<longleftrightarrow>
     (\<forall>t now prev. threads s t = Loaded now prev \<longrightarrow> unat now < B) \<and>
     (B + length (issued s) < 2 ^ 64 \<longrightarrow>
        unat (last_nonce s) \<le> B + length (issued s) \<and>
        (\<forall>n \<in> set (issued s). n \<le> last_nonce s) \<and> sorted_wrt (<) (issued s))"

lemma nonce_candidate_less:
  fixes prev :: u64
  assumes "unat prev + 1 < 2 ^ 64"
  shows "prev < nonce_candidate now prev"
    and "unat now < B \<Longrightarrow> unat prev \<le> B + k \<Longrightarrow> unat (nonce_candidate now prev) \<le> B + Suc k"
proof -
  have s: "unat (prev + 1) = unat prev + 1" using assms by (simp add: unat_word_ariths)
  then show "prev < nonce_candidate now prev" by (simp add: nonce_candidate_def word_less_nat_alt)
  show "unat now < B \<Longrightarrow> unat prev \<le> B + k \<Longrightarrow> unat (nonce_candidate now prev) \<le> B + Suc k"
    using s by (simp add: nonce_candidate_def)
qed

lemma nonce_reach_inv: "nonce_reach B s \<Longrightarrow> nonce_inv B s"
proof (induction rule: nonce_reach.induct)
  case (cas_ok s t now c)
  have now: "unat now < B" using cas_ok by (auto simp: nonce_inv_def)
  show ?case
  proof (cases "B + length (issued s) + 1 < 2 ^ 64")
    case True
    with cas_ok.IH have I: "unat (last_nonce s) \<le> B + length (issued s)"
      "\<forall>n \<in> set (issued s). n \<le> last_nonce s" "sorted_wrt (<) (issued s)"
      by (auto simp: nonce_inv_def)
    have "unat (last_nonce s) + 1 < 2 ^ 64" using I(1) True by simp
    note c = nonce_candidate_less(1)[OF this, of now] nonce_candidate_less(2)[OF this now I(1)]
    show ?thesis using cas_ok I c
      by (auto simp: nonce_inv_def sorted_wrt_append intro: less_imp_le order.strict_trans1 split: if_splits)
  next
    case False
    then show ?thesis using cas_ok by (auto simp: nonce_inv_def split: if_splits)
  qed
qed (auto simp: nonce_inv_def nonce_init_def split: if_splits)

section \<open>Properties\<close>

text \<open>
  C6: both encodings of every action denote the same value: decoding the signed MessagePack bytes and
  reading the transmitted JSON text give the same tree, with the keys in the venue's order.
\<close>

theorem action_encodings_agree:
  assumes "action_ok a"
  shows "\<exists>e. build a = Inr e \<and> mp_decode 7 (msgpack e) = Some (action_tree a, []) \<and>
    jr_value 7 (ejson e) = Some (action_tree a, [])"
proof -
  have seven: "(7::nat) = Suc (Suc (Suc (Suc (Suc (Suc (Suc 0))))))" by simp
  have ok: "mp_ok (action_tree a)" "mp_plain (action_tree a)" "mp_depth (action_tree a) \<le> 7"
    using action_tree_ok[OF assms] unfolding seven by (simp_all only: leaf_ok_def)
  have "build a = Inr (encoded (action_tree a))"
    using assms by (cases a) (simp_all add: build_eq act_updateIsolatedMargin_eq del: build.simps action_tree.simps)
  then show ?thesis
    using mp_decode_write[OF ok(1,3), of "[]"] jr_value_read[OF ok(2,3), of "[]"]
    by (simp add: encoded_def del: action_tree.simps)
qed

theorem action_encodings_agree_witness:
  "action_ok (Cancel [\<lparr>cw_asset = 3, cw_oid = 77\<rparr>] True) \<and>
   (\<exists>e. build (Cancel [\<lparr>cw_asset = 3, cw_oid = 77\<rparr>] True) = Inr e \<and>
     jr_value 7 (ejson e) = Some (action_tree (Cancel [\<lparr>cw_asset = 3, cw_oid = 77\<rparr>] True), []))"
  using action_encodings_agree[of "Cancel [\<lparr>cw_asset = 3, cw_oid = 77\<rparr>] True"]
  by (auto simp del: build.simps action_tree.simps)

text \<open>
  An isolated-margin update is refused exactly for amounts finer than a micro-USDC, with an error
  that names the amount, and never rounds.
\<close>

lemma updateIsolatedMargin_rejects_dust:
  "build (UpdateIsolatedMargin ast usdc) = Inl e \<longleftrightarrow>
     \<not> 100 dvd raw usdc \<and> e = mk_error ErrRejected
       (''updateIsolatedMargin: '' @ dec_toString usdc @ '' is finer than 1e-6 USDC'')"
  by (auto simp: act_updateIsolatedMargin_eq simp del: action_tree.simps)

text \<open>
  The one-pass post frame of the order-entry path is the frame built from the separately built
  payload, byte for byte.
\<close>

lemma wsPostAction_is_wsPost:
  "wsPostAction rb i a n e = wsPost i (payload rb a n e)"
  using appendPayload_append[of rb "appendUint ''{\"method\":\"post\",\"id\":'' (unat i) @ _"]
  by (simp add: wsPostAction_def wsPost_def payload_def Let_def)

text \<open>
  C32: in every interleaving of concurrent calls, with spurious compare-exchange failures and clocks
  that run backwards, the nonces returned are strictly increasing in the order they are issued, as
  long as clock readings and the number of calls stay in range.
\<close>

theorem nonces_strictly_increase:
  "nonce_reach B s \<Longrightarrow> B + length (issued s) < 2 ^ 64 \<Longrightarrow> sorted_wrt (<) (issued s)"
  using nonce_reach_inv[of B s] by (simp add: nonce_inv_def)

theorem nonces_strictly_increase_witness:
  "\<exists>s. nonce_reach 1000 s \<and> issued s = [500, 501] \<and> sorted_wrt (<) (issued s)"
proof -
  define s0 where "s0 = nonce_init\<lparr>threads := (threads nonce_init)(0 := Loaded 500 (last_nonce nonce_init))\<rparr>"
  define s1 where "s1 = s0\<lparr>threads := (threads s0)(1 := Loaded 400 (last_nonce s0))\<rparr>"
  define s2 where "s2 = s1\<lparr>last_nonce := 500, threads := (threads s1)(0 := Returned 500), issued := issued s1 @ [500]\<rparr>"
  define s3 where "s3 = s2\<lparr>threads := (threads s2)(1 := Loaded 400 (last_nonce s2))\<rparr>"
  define s4 where "s4 = s3\<lparr>last_nonce := 501, threads := (threads s3)(1 := Returned 501), issued := issued s3 @ [501]\<rparr>"
  note d = s0_def s1_def s2_def s3_def s4_def nonce_init_def nonce_candidate_def
  have "nonce_reach 1000 s0" unfolding s0_def by (rule nonce_reach.load[OF nonce_reach.init]) (simp_all add: d)
  then have "nonce_reach 1000 s1" unfolding s1_def by (rule nonce_reach.load) (simp_all add: d)
  then have "nonce_reach 1000 s2" unfolding s2_def by (rule nonce_reach.cas_ok[where now = 500]) (simp_all add: d)
  then have "nonce_reach 1000 s3" unfolding s3_def by (rule nonce_reach.cas_fail[where now = 400 and prev = 0]) (simp_all add: d)
  then have r: "nonce_reach 1000 s4" unfolding s4_def by (rule nonce_reach.cas_ok[where now = 400]) (simp_all add: d)
  moreover have i: "issued s4 = [500, 501]" by (simp add: d)
  ultimately show ?thesis using nonces_strictly_increase[OF r] by (auto simp: i)
qed

end
