(* ===== verification/HL_Orders.thy ===== *)
theory HL_Orders
  imports HL_Response HL_Actions
begin

text \<open>
  One tracked order of \<open>hl::ExchangeClient\<close> (\<open>include/hl/om/ExchangeClient.h\<close>: \<open>Order\<close>,
  \<open>Tracked\<close>; \<open>src/om/ExchangeClient.cpp\<close>: \<open>applyVenueStatus\<close>, \<open>recomputeFills\<close>, \<open>setOid\<close>,
  \<open>applyAck\<close>, \<open>seedFilled\<close>): the order's state machine and its fill accounting. \<open>setOid\<close> also
  changes the client's index from exchange ids to client ids, which is passed along.
\<close>

section \<open>Orders\<close>

datatype orderState = PendingNew | Open | PartiallyFilled | Filled | Canceled | Rejected

fun orderState_toString :: "orderState \<Rightarrow> string" where
  "orderState_toString PendingNew = ''PendingNew''"
| "orderState_toString Open = ''Open''"
| "orderState_toString PartiallyFilled = ''PartiallyFilled''"
| "orderState_toString Filled = ''Filled''"
| "orderState_toString Canceled = ''Canceled''"
| "orderState_toString Rejected = ''Rejected''"

definition isTerminal :: "orderState \<Rightarrow> bool" where
  "isTerminal s \<longleftrightarrow> s = Filled \<or> s = Canceled \<or> s = Rejected"

record order =
  o_cloid :: cloid
  o_oid :: u64
  o_coin :: string
  o_asset :: u32
  o_side :: side
  o_px :: decimal
  o_origSz :: decimal
  o_filledSz :: decimal
  o_avgFillPx :: decimal
  o_tif :: tif
  o_reduceOnly :: bool
  o_isTrigger :: bool
  o_trigger :: "triggerSpec option"
  o_state :: orderState
  o_cancelPending :: bool
  o_modifyPending :: bool
  o_external :: bool
  o_lastError :: string
  o_createdMs :: int
  o_updatedMs :: int

definition default_order :: order where
  "default_order = \<lparr>o_cloid = Cloid 0 0, o_oid = 0, o_coin = [], o_asset = 0, o_side = Buy,
     o_px = dec_zero, o_origSz = dec_zero, o_filledSz = dec_zero, o_avgFillPx = dec_zero, o_tif = Gtc,
     o_reduceOnly = False, o_isTrigger = False, o_trigger = None, o_state = PendingNew,
     o_cancelPending = False, o_modifyPending = False, o_external = False, o_lastError = [],
     o_createdMs = 0, o_updatedMs = 0\<rparr>"

definition isLive :: "order \<Rightarrow> bool" where
  "isLive o' \<longleftrightarrow> \<not> isTerminal (o_state o')"

definition remainingSz :: "order \<Rightarrow> decimal" where
  "remainingSz o' = dec_sub (o_origSz o') (o_filledSz o')"

record emitted =
  e_state :: orderState
  e_oid :: u64
  e_px :: decimal
  e_origSz :: decimal
  e_filledSz :: decimal
  e_avgFillPx :: decimal
  e_cancelPending :: bool
  e_modifyPending :: bool
  e_everEmitted :: bool
  e_lastError :: string

definition default_emitted :: emitted where
  "default_emitted = \<lparr>e_state = PendingNew, e_oid = 0, e_px = dec_zero, e_origSz = dec_zero,
     e_filledSz = dec_zero, e_avgFillPx = dec_zero, e_cancelPending = False, e_modifyPending = False,
     e_everEmitted = False, e_lastError = []\<rparr>"

text \<open>\<open>fillNotional\<close> is an \<open>Int128\<close>: a sum of products of two 64-bit mantissas.\<close>

record tracked =
  t_order :: order
  fillSum :: decimal
  fillNotional :: int
  ackFilledSz :: decimal
  ackAvgPx :: decimal
  retiredOids :: "u64 list"
  canceledDuringModify :: bool
  notFoundProbes :: nat
  t_emitted :: emitted

definition default_tracked :: tracked where
  "default_tracked = \<lparr>t_order = default_order, fillSum = dec_zero, fillNotional = 0,
     ackFilledSz = dec_zero, ackAvgPx = dec_zero, retiredOids = [], canceledDuringModify = False,
     notFoundProbes = 0, t_emitted = default_emitted\<rparr>"

definition mod_order :: "(order \<Rightarrow> order) \<Rightarrow> tracked \<Rightarrow> tracked" where
  "mod_order f t = t\<lparr>t_order := f (t_order t)\<rparr>"

definition retireOid :: "u64 \<Rightarrow> tracked \<Rightarrow> tracked" where
  "retireOid oid t =
     (let r = retiredOids t @ [oid]
      in t\<lparr>retiredOids := (if length r > 4 then tl r else r)\<rparr>)"

section \<open>Fill accounting\<close>

definition dec_max2 :: "decimal \<Rightarrow> decimal \<Rightarrow> decimal" where
  "dec_max2 a b = (if a < b then b else a)"

definition recomputeFills :: "tracked \<Rightarrow> tracked" where
  "recomputeFills t = mod_order (\<lambda>o'. o'\<lparr>
     o_filledSz := dec_max2 (fillSum t) (ackFilledSz t),
     o_avgFillPx := (if \<not> isZero (fillSum t) then fromRaw (wrap64 (fillNotional t sdiv raw (fillSum t)))
                     else ackAvgPx t)\<rparr>) t"

type_synonym oid_index = "u64 \<rightharpoonup> cloid"

definition setOid :: "u64 \<Rightarrow> tracked \<Rightarrow> oid_index \<Rightarrow> tracked \<times> oid_index" where
  "setOid oid t ix =
     (if oid = 0 \<or> o_oid (t_order t) = oid then (t, ix)
      else
        let (t, ix) =
              (if o_oid (t_order t) \<noteq> 0
               then (mod_order (\<lambda>o'. o'\<lparr>o_filledSz := dec_zero, o_avgFillPx := dec_zero\<rparr>)
                       (t\<lparr>fillSum := dec_zero, fillNotional := 0, ackFilledSz := dec_zero, ackAvgPx := dec_zero\<rparr>),
                     ix(o_oid (t_order t) := None))
               else (t, ix));
            t = mod_order (\<lambda>o'. o'\<lparr>o_oid := oid\<rparr>) t
        in (t, ix(oid \<mapsto> o_cloid (t_order t))))"

definition seedFilled :: "openOrder \<Rightarrow> tracked \<Rightarrow> tracked" where
  "seedFilled open t =
     (let filled = dec_sub (oo_origSz open) (oo_sz open) in
      if isZero filled \<or> raw filled < 0 then t
      else recomputeFills (t\<lparr>fillSum := filled, fillNotional := raw (oo_limitPx open) * raw filled,
             ackFilledSz := filled\<rparr>))"

section \<open>Acknowledgements and venue statuses\<close>

definition set_state :: "orderState \<Rightarrow> tracked \<Rightarrow> tracked" where
  "set_state s = mod_order (\<lambda>o'. o'\<lparr>o_state := s\<rparr>)"

definition set_error :: "string \<Rightarrow> tracked \<Rightarrow> tracked" where
  "set_error e = mod_order (\<lambda>o'. o'\<lparr>o_lastError := e\<rparr>)"

definition state_of :: "tracked \<Rightarrow> orderState" where
  "state_of t = o_state (t_order t)"

definition open_state :: "tracked \<Rightarrow> orderState" where
  "open_state t = (if isZero (o_filledSz (t_order t)) then Open else PartiallyFilled)"

definition applyAck :: "actionStatus \<Rightarrow> tracked \<Rightarrow> oid_index \<Rightarrow> tracked \<times> oid_index" where
  "applyAck st t ix = (case st_kind st of
     Resting \<Rightarrow>
       (let (t, ix) = setOid (st_oid st) t ix
        in (if state_of t = PendingNew then set_state (open_state t) t else t, ix))
   | StFilled \<Rightarrow>
       (let (t, ix) = setOid (st_oid st) t ix;
            t = recomputeFills (t\<lparr>ackFilledSz := st_totalSz st, ackAvgPx := st_avgPx st\<rparr>)
        in (set_state Filled t, ix))
   | WaitingForFill \<Rightarrow> (if state_of t = PendingNew then set_state Open t else t, ix)
   | WaitingForTrigger \<Rightarrow> (if state_of t = PendingNew then set_state Open t else t, ix)
   | Success \<Rightarrow> (if state_of t = PendingNew then set_state Open t else t, ix)
   | StError \<Rightarrow>
       (let t = set_error (st_error st) t
        in (if state_of t = PendingNew then set_state Rejected t else t, ix)))"

definition clear_cancelPending :: "tracked \<Rightarrow> tracked" where
  "clear_cancelPending = mod_order (\<lambda>o'. o'\<lparr>o_cancelPending := False\<rparr>)"

definition applyVenueStatus ::
  "orderUpdateStatus \<Rightarrow> string \<Rightarrow> decimal \<Rightarrow> decimal \<Rightarrow> tracked \<Rightarrow> tracked" where
  "applyVenueStatus status statusText limitPx origSz t =
     (if isTerminal (state_of t) \<and> status \<noteq> UFilled then clear_cancelPending t
      else
        let opened =
              (let t = (if \<not> isZero limitPx then mod_order (\<lambda>o'. o'\<lparr>o_px := limitPx\<rparr>) t else t);
                   t = (if \<not> isZero origSz then mod_order (\<lambda>o'. o'\<lparr>o_origSz := origSz\<rparr>) t else t)
               in if state_of t = PendingNew \<or> state_of t = Open then set_state (open_state t) t else t)
        in case status of
             UOpen \<Rightarrow> opened
           | UTriggered \<Rightarrow> opened
           | UFilled \<Rightarrow>
               (let t = (if ackFilledSz t < o_origSz (t_order t) then t\<lparr>ackFilledSz := o_origSz (t_order t)\<rparr> else t)
                in clear_cancelPending (set_state Filled (recomputeFills t)))
           | UCanceled \<Rightarrow>
               (let t = clear_cancelPending (set_state Canceled t)
                in if statusText \<noteq> ''canceled'' then set_error statusText t else t)
           | URejected \<Rightarrow> set_error statusText (set_state Rejected t)
           | UUnknown \<Rightarrow> set_error statusText t)"

text \<open>The snapshot of what a listener sees.\<close>

definition observe :: "order \<Rightarrow> emitted" where
  "observe o' = \<lparr>e_state = o_state o', e_oid = o_oid o', e_px = o_px o', e_origSz = o_origSz o',
     e_filledSz = o_filledSz o', e_avgFillPx = o_avgFillPx o', e_cancelPending = o_cancelPending o',
     e_modifyPending = o_modifyPending o', e_everEmitted = True, e_lastError = o_lastError o'\<rparr>"

end
