(* ===== verification/HL_Assets.thy ===== *)
theory HL_Assets
  imports HL_Json
begin

text \<open>
  \<open>hl::AssetInfo\<close> and \<open>hl::AssetRegistry\<close> (\<open>include/hl/om/AssetRegistry.h\<close>,
  \<open>src/om/AssetRegistry.cpp\<close>): the venue's price and size rounding rules, and the table of
  tradable assets with its two loaders from venue metadata.
\<close>

section \<open>Assets and their rounding rules\<close>

datatype asset_kind = Perp | Spot

record assetInfo =
  name :: string
  asset :: u32
  kind :: asset_kind
  szDecimals :: int
  baseToken :: string
  maxLeverage :: u32
  onlyIsolated :: bool
  isDelisted :: bool

definition default_asset :: assetInfo where
  "default_asset = \<lparr>name = [], asset = 0, kind = Perp, szDecimals = 0, baseToken = [],
     maxLeverage = 0, onlyIsolated = False, isDelisted = False\<rparr>"

definition maxPriceDecimals :: "assetInfo \<Rightarrow> int" where
  "maxPriceDecimals a = (if kind a = Perp then 6 else 8) - szDecimals a"

definition kPow10 :: "int list" where
  "kPow10 =
    [1, 10, 100, 1000, 10000, 100000, 1000000, 10000000, 100000000, 1000000000,
     10000000000, 100000000000, 1000000000000, 10000000000000, 100000000000000,
     1000000000000000, 10000000000000000, 100000000000000000, 1000000000000000000]"

function digitCount_loop :: "nat \<Rightarrow> nat \<Rightarrow> nat" where
  "digitCount_loop v n = (if n < 19 \<and> int v \<ge> kPow10 ! n then digitCount_loop v (n + 1) else n)"
  by pat_completeness auto
termination
  by (relation "measure (\<lambda>(v, n). 19 - n)") auto

declare digitCount_loop.simps [simp del]

definition digitCount :: "nat \<Rightarrow> nat" where
  "digitCount v = digitCount_loop v 1"

text \<open>\<open>mag\<close> is the \<open>uint64_t\<close> conversion of the (wrapping) absolute value.\<close>

definition px_magnitude :: "decimal \<Rightarrow> nat" where
  "px_magnitude p = (if raw p < 0 then nat (wrap64 (- raw p) mod 2 ^ 64) else nat (raw p))"

definition px_quantum :: "assetInfo \<Rightarrow> decimal \<Rightarrow> int" where
  "px_quantum a p =
     (let msdExponent = int (digitCount (px_magnitude p)) - 1 - int kDecimals;
          decimalsBySigFigs = 4 - msdExponent;
          decimalsBySigFigs = (if decimalsBySigFigs < 0 then 0 else decimalsBySigFigs);
          decimals = min decimalsBySigFigs (max 0 (maxPriceDecimals a));
          decimals = min decimals (int kDecimals)
      in kPow10 ! nat (int kDecimals - decimals))"

definition roundPx :: "assetInfo \<Rightarrow> decimal \<Rightarrow> rounding_mode \<Rightarrow> decimal" where
  "roundPx a p mode = (if isZero p then p else roundToQuantum p (px_quantum a p) mode)"

definition sz_quantum :: "assetInfo \<Rightarrow> int" where
  "sz_quantum a =
     (let decimals = (if szDecimals a < 0 then 0 else if int kDecimals < szDecimals a then int kDecimals
                      else szDecimals a)
      in kPow10 ! nat (int kDecimals - decimals))"

definition roundSz :: "assetInfo \<Rightarrow> decimal \<Rightarrow> rounding_mode \<Rightarrow> decimal" where
  "roundSz a s mode =
     (if mode = Down \<and> isNegative s then dec_neg (roundToQuantum (dec_neg s) (sz_quantum a) Down)
      else roundToQuantum s (sz_quantum a) mode)"

definition isValidPx :: "assetInfo \<Rightarrow> decimal \<Rightarrow> bool" where
  "isValidPx a p \<longleftrightarrow> roundPx a p Down = p"

definition isValidSz :: "assetInfo \<Rightarrow> decimal \<Rightarrow> bool" where
  "isValidSz a s \<longleftrightarrow> roundSz a s Down = s"

section \<open>The registry\<close>

type_synonym registry = "assetInfo list"

fun reg_find :: "registry \<Rightarrow> string \<Rightarrow> assetInfo option" where
  "reg_find [] nm = None"
| "reg_find (a # r) nm = (if name a = nm then Some a else reg_find r nm)"

fun reg_findByAsset :: "registry \<Rightarrow> u32 \<Rightarrow> assetInfo option" where
  "reg_findByAsset [] i = None"
| "reg_findByAsset (a # r) i = (if asset a = i then Some a else reg_findByAsset r i)"

fun reg_add :: "registry \<Rightarrow> assetInfo \<Rightarrow> registry" where
  "reg_add [] info = [info]"
| "reg_add (a # r) info = (if name a = name info then info # r else a # reg_add r info)"

section \<open>Loading the perp universe\<close>

definition perp_of_json :: "u32 \<Rightarrow> value \<Rightarrow> assetInfo" where
  "perp_of_json index item =
     default_asset\<lparr>kind := Perp, asset := index,
       name := asString (jfield item ''name''),
       szDecimals := wrap32 (asInt (jfield item ''szDecimals'')),
       maxLeverage := word_of_int (asInt (jfield item ''maxLeverage'')),
       onlyIsolated := asBool (jfield item ''onlyIsolated''),
       isDelisted := asBool (jfield item ''isDelisted'')\<rparr>"

fun perp_loop :: "registry \<Rightarrow> u32 \<Rightarrow> nat \<Rightarrow> value list \<Rightarrow> registry \<times> nat" where
  "perp_loop assets index added [] = (assets, added)"
| "perp_loop assets index added (item # items) =
     (let info = perp_of_json index item in
      if name info \<noteq> [] then perp_loop (assets @ [info]) (index + 1) (added + 1) items
      else perp_loop assets (index + 1) added items)"

definition loadPerpMeta :: "(string \<Rightarrow> json option) \<Rightarrow> registry \<Rightarrow> string \<Rightarrow> registry \<times> nat result" where
  "loadPerpMeta parse_json assets txt =
     (case parse_json txt of
        None \<Rightarrow> (assets, Inl (mk_error Parse ''meta: invalid JSON''))
      | Some doc \<Rightarrow>
          let universe = jfield (Some doc) ''universe'' in
          if \<not> isArray universe then (assets, Inl (mk_error Parse ''meta: missing universe''))
          else let (assets, added) =
                 perp_loop (filter (\<lambda>a. kind a \<noteq> Perp) assets) 0 0 (jarray universe)
               in (assets, Inr added))"

section \<open>Loading the spot universe\<close>

text \<open>
  The token table grows to the largest index seen. \<open>idx\<close> is the \<open>size_t\<close> conversion of the
  token's index: \<open>resize(idx + 1)\<close> wraps to an empty table for the largest index, and the write
  that follows is out of bounds; any other index beyond what the allocator grants (\<open>cap\<close>
  elements) throws. Both are \<open>None\<close> here.
\<close>

definition size_of_int :: "int \<Rightarrow> nat" where
  "size_of_int i = nat (i mod 2 ^ 64)"

definition grow :: "nat \<Rightarrow> 'a \<Rightarrow> 'a list \<Rightarrow> 'a list" where
  "grow n x xs = (if length xs < n then xs @ replicate (n - length xs) x else xs)"

fun token_loop :: "nat \<Rightarrow> (int \<times> string) list \<Rightarrow> value list \<Rightarrow> (int \<times> string) list option" where
  "token_loop cap table [] = Some table"
| "token_loop cap table (t # ts) =
     (let idx = size_of_int (asInt (jfield t ''index'')) in
      if idx \<ge> cap then None
      else token_loop cap ((grow (idx + 1) (0, []) table)
             [idx := (wrap32 (asInt (jfield t ''szDecimals'')), asString (jfield t ''name''))]) ts)"

definition spot_of_json :: "(int \<times> string) list \<Rightarrow> value \<Rightarrow> assetInfo" where
  "spot_of_json table pair =
     (let info = default_asset\<lparr>kind := Spot, name := asString (jfield pair ''name''),
            asset := 10000 + word_of_int (asInt (jfield pair ''index''))\<rparr>
      in case jarray (jfield pair ''tokens'') of
           [] \<Rightarrow> info
         | t # _ \<Rightarrow>
             (let base = size_of_int (asInt t) in
              info\<lparr>szDecimals := (if base < length table then fst (table ! base) else 0),
                   baseToken := (if base < length table then snd (table ! base) else [])\<rparr>))"

fun spot_loop :: "(int \<times> string) list \<Rightarrow> registry \<Rightarrow> nat \<Rightarrow> value list \<Rightarrow> registry \<times> nat" where
  "spot_loop table assets added [] = (assets, added)"
| "spot_loop table assets added (pair # pairs) =
     (let info = spot_of_json table pair in
      if name info \<noteq> [] then spot_loop table (assets @ [info]) (added + 1) pairs
      else spot_loop table assets added pairs)"

definition loadSpotMeta ::
  "(string \<Rightarrow> json option) \<Rightarrow> nat \<Rightarrow> registry \<Rightarrow> string \<Rightarrow> (registry \<times> nat result) option" where
  "loadSpotMeta parse_json cap assets txt =
     (case parse_json txt of
        None \<Rightarrow> Some (assets, Inl (mk_error Parse ''spotMeta: invalid JSON''))
      | Some doc \<Rightarrow>
          let tokens = jfield (Some doc) ''tokens''; universe = jfield (Some doc) ''universe'' in
          if \<not> isArray tokens \<or> \<not> isArray universe
          then Some (assets, Inl (mk_error Parse ''spotMeta: missing tokens/universe''))
          else (case token_loop cap [] (jarray tokens) of
                  None \<Rightarrow> None
                | Some table \<Rightarrow>
                    let (assets, added) =
                      spot_loop table (filter (\<lambda>a. kind a \<noteq> Spot) assets) 0 (jarray universe)
                    in Some (assets, Inr added)))"

section \<open>Specification of the venue's price rule\<close>

text \<open>
  A price has at most five significant figures, unless it is an integer, and at most
  \<open>maxPriceDecimals\<close> decimals (clamped to the eight a mantissa holds).
\<close>

definition price_decimals :: "assetInfo \<Rightarrow> nat" where
  "price_decimals a = min 8 (nat (maxPriceDecimals a))"

definition five_sig_figs :: "int \<Rightarrow> bool" where
  "five_sig_figs r \<longleftrightarrow> r = 0 \<or> (\<exists>n. \<bar>r\<bar> < 10 ^ n \<and> 10 ^ (n - 5) dvd r)"

definition venue_price_ok :: "assetInfo \<Rightarrow> int \<Rightarrow> bool" where
  "venue_price_ok a r \<longleftrightarrow> 10 ^ (8 - price_decimals a) dvd r \<and> (10 ^ 8 dvd r \<or> five_sig_figs r)"

section \<open>The quantum of a price\<close>

lemma kPow10_nth: "i < 19 \<Longrightarrow> kPow10 ! i = 10 ^ i"
proof -
  have "\<forall>i\<in>set [0..<19]. kPow10 ! i = 10 ^ i"
    by (simp add: upt_conv_Cons kPow10_def)
  moreover assume "i < 19"
  ultimately show ?thesis by simp
qed

lemma digitCount_loop_spec:
  "1 \<le> n \<Longrightarrow> n \<le> 19 \<Longrightarrow> 10 ^ (n - 1) \<le> v \<Longrightarrow> d = digitCount_loop v n \<Longrightarrow>
   n \<le> d \<and> d \<le> 19 \<and> 10 ^ (d - 1) \<le> v \<and> (d = 19 \<or> v < 10 ^ d)"
proof (induction v n rule: digitCount_loop.induct)
  case (1 v n)
  have cmp: "n < 19 \<Longrightarrow> (int v \<ge> kPow10 ! n) = (10 ^ n \<le> v)"
    by (simp add: kPow10_nth flip: of_nat_power_le_of_nat_cancel_iff)
  show ?case
  proof (cases "n < 19 \<and> 10 ^ n \<le> v")
    case True
    then have "d = digitCount_loop v (n + 1)"
      using 1(5) cmp by (simp add: digitCount_loop.simps[of v n])
    from 1(1)[OF _ _ _ _ this] True cmp show ?thesis by auto
  next
    case False
    then have "d = n"
      using 1(5) cmp by (auto simp: digitCount_loop.simps[of v n])
    with False 1(3,4) show ?thesis by auto
  qed
qed

lemma digitCount_spec:
  assumes "0 < v" and "v < 10 ^ 19"
  shows "1 \<le> digitCount v \<and> digitCount v \<le> 19 \<and> 10 ^ (digitCount v - 1) \<le> v \<and> v < 10 ^ digitCount v"
  using digitCount_loop_spec[of 1 v "digitCount v"] assms by (auto simp: digitCount_def)

lemma px_magnitude_eq: "wf_decimal p \<Longrightarrow> px_magnitude p = nat \<bar>raw p\<bar>"
proof (cases "raw p = - (2 ^ 63)")
  case False
  moreover assume "wf_decimal p"
  ultimately show ?thesis
    by (auto simp: px_magnitude_def wf_decimal_def in_i64_def wrap64_id)
qed (simp add: px_magnitude_def wrap64_def)

definition px_exponent :: "assetInfo \<Rightarrow> nat \<Rightarrow> nat" where
  "px_exponent a n = max (8 - price_decimals a) (min 8 (n - 5))"

lemma px_quantum_eq:
  assumes "wf_decimal p" and "raw p \<noteq> 0"
  obtains n where "px_quantum a p = 10 ^ px_exponent a n" and "1 \<le> n"
    and "10 ^ (n - 1) \<le> \<bar>raw p\<bar>" and "\<bar>raw p\<bar> < 10 ^ n"
proof -
  define v where "v = nat \<bar>raw p\<bar>"
  have "\<bar>raw p\<bar> < 10 ^ 19" using assms(1) by (auto simp: wf_decimal_def in_i64_def)
  then have v: "0 < v" "v < 10 ^ 19" using assms(2) by (auto simp: v_def nat_less_iff)
  define n where "n = digitCount v"
  have n: "1 \<le> n" "n \<le> 19" "10 ^ (n - 1) \<le> v" "v < 10 ^ n"
    using digitCount_spec[OF v] by (simp_all add: n_def)
  define m where "m = maxPriceDecimals a"
  have idx: "nat (8 - min (min (if 4 - (int n - 1 - 8) < 0 then 0 else 4 - (int n - 1 - 8)) (max 0 m)) 8)
      = px_exponent a n"
    using n(1) by (auto simp: px_exponent_def price_decimals_def min_def max_def simp flip: m_def)
  have "px_exponent a n < 19" by (auto simp: px_exponent_def min_def)
  then have "px_quantum a p = 10 ^ px_exponent a n"
    using idx px_magnitude_eq[OF assms(1)]
    unfolding px_quantum_def Let_def kDecimals_def m_def[symmetric]
    by (simp only: v_def[symmetric] n_def[symmetric] of_nat_numeral kPow10_nth)
  moreover have "10 ^ (n - 1) \<le> \<bar>raw p\<bar>" "\<bar>raw p\<bar> < 10 ^ n"
    using n(3,4) by (simp_all add: v_def nat_less_iff le_nat_iff flip: of_nat_power_le_of_nat_cancel_iff)
  ultimately show ?thesis using n(1) that by blast
qed

lemma roundToQuantum_Down_fix:
  assumes "wf_decimal p" and "0 < q" and "q < 2 ^ 64"
  shows "roundToQuantum p q Down = p \<longleftrightarrow> q dvd raw p"
proof (cases "q = 1")
  case True
  then show ?thesis by (simp add: roundToQuantum_def)
next
  case False
  define r where "r = raw p"
  have mod: "0 \<le> r mod q" "r mod q < q" using assms(2) by simp_all
  have down: "r div q * q = r - r mod q" by (simp add: minus_mod_eq_div_mult)
  have fm: "(if r smod q \<noteq> 0 \<and> r < 0 then r sdiv q - 1 else r sdiv q) = r div q"
    using assms(2) by (rule floor_multiple)
  have "wrap64 (r - r mod q) = r \<longleftrightarrow> r mod q = 0"
  proof
    assume "wrap64 (r - r mod q) = r"
    then have "(r - r mod q + 2 ^ 63) mod 2 ^ 64 = r + 2 ^ 63" by (simp add: wrap64_def)
    then have "2 ^ 64 dvd (r - r mod q + 2 ^ 63) - (r + 2 ^ 63)"
      by (metis mod_mod_trivial mod_eq_dvd_iff)
    then have "2 ^ 64 dvd r mod q" by simp
    with mod assms(3) show "r mod q = 0"
      by (meson le_less less_trans not_le zdvd_imp_le)
  next
    assume "r mod q = 0"
    then show "wrap64 (r - r mod q) = r"
      using assms(1) by (simp add: wrap64_id wf_decimal_def r_def)
  qed
  moreover have "\<not> q \<le> 1" using False assms(2) by simp
  then have "roundToQuantum p q Down =
      (if wrap64 (r - r mod q) = r then p else Decimal (wrap64 (r - r mod q)))"
    by (simp only: roundToQuantum_def Let_def fromRaw_def r_def[symmetric] fm down if_False
        rounding_mode.case)
  ultimately show ?thesis
    by (cases p) (auto simp: r_def dvd_eq_mod_eq_0)
qed

lemma pow10_dvd_max: "(10::int) ^ max a b dvd r \<longleftrightarrow> 10 ^ a dvd r \<and> 10 ^ b dvd r"
  by (metis dvd_trans le_imp_power_dvd max.cobounded1 max.cobounded2 max_def)

lemma pow10_dvd_min: "(10::int) ^ min a b dvd r \<longleftrightarrow> 10 ^ a dvd r \<or> 10 ^ b dvd r"
  by (metis dvd_trans le_imp_power_dvd min.cobounded1 min.cobounded2 min_def)

lemma five_sig_figs_digits:
  assumes "r \<noteq> 0" and "1 \<le> n" and "10 ^ (n - 1) \<le> \<bar>r\<bar>" and "\<bar>r\<bar> < 10 ^ n"
  shows "five_sig_figs r \<longleftrightarrow> 10 ^ (n - 5) dvd r"
proof
  assume "five_sig_figs r"
  then obtain m where m: "\<bar>r\<bar> < 10 ^ m" "10 ^ (m - 5) dvd r"
    using assms(1) by (auto simp: five_sig_figs_def)
  have "(10::int) ^ (n - 1) < 10 ^ m" using assms(3) m(1) by linarith
  then have "n - 1 < m" by (rule power_less_imp_less_exp[rotated]) simp
  then have "n - 5 \<le> m - 5" using assms(2) by simp
  then have "(10::int) ^ (n - 5) dvd 10 ^ (m - 5)" by (rule le_imp_power_dvd)
  then show "10 ^ (n - 5) dvd r" using m(2) by (rule dvd_trans)
qed (use assms(4) in \<open>auto simp: five_sig_figs_def\<close>)

lemma venue_price_ok_exponent:
  assumes "r \<noteq> 0" and "1 \<le> n" and "10 ^ (n - 1) \<le> \<bar>r\<bar>" and "\<bar>r\<bar> < 10 ^ n"
  shows "venue_price_ok a r \<longleftrightarrow> 10 ^ px_exponent a n dvd r"
  by (simp add: venue_price_ok_def px_exponent_def pow10_dvd_max pow10_dvd_min five_sig_figs_digits[OF assms])

lemma px_exponent_less: "(10::int) ^ px_exponent a n < 2 ^ 64" "px_exponent a n \<le> 8"
proof -
  show le: "px_exponent a n \<le> 8" by (simp add: px_exponent_def)
  have "(10::int) ^ px_exponent a n \<le> 10 ^ 8" using le by (rule power_increasing) simp
  then show "(10::int) ^ px_exponent a n < 2 ^ 64" by simp
qed

lemma isValidPx_venue:
  assumes "wf_decimal p"
  shows "isValidPx a p \<longleftrightarrow> venue_price_ok a (raw p)"
proof (cases "raw p = 0")
  case True
  then show ?thesis by (simp add: isValidPx_def roundPx_def isZero_def venue_price_ok_def)
next
  case False
  from px_quantum_eq[OF assms False] obtain n where n: "px_quantum a p = 10 ^ px_exponent a n"
    "1 \<le> n" "10 ^ (n - 1) \<le> \<bar>raw p\<bar>" "\<bar>raw p\<bar> < 10 ^ n" .
  have "isValidPx a p \<longleftrightarrow> 10 ^ px_exponent a n dvd raw p"
    using False roundToQuantum_Down_fix[OF assms _ px_exponent_less(1)]
    by (simp add: isValidPx_def roundPx_def isZero_def n(1))
  then show ?thesis using venue_price_ok_exponent[OF False n(2-4)] by simp
qed

lemma multiple_near:
  assumes "(q::int) dvd r'" and "q dvd B" and "\<bar>r' - r\<bar> < q" and "\<bar>r\<bar> < B"
  shows "\<bar>r'\<bar> \<le> B"
proof (rule ccontr)
  assume "\<not> \<bar>r'\<bar> \<le> B"
  then consider "B < r'" | "r' < - B" by linarith
  then show False
  proof cases
    case 1
    have "q dvd r' - B" using assms(1,2) by (rule dvd_diff)
    then have "q \<le> r' - B" using 1 by (intro zdvd_imp_le) simp_all
    then show False using assms(3,4) by linarith
  next
    case 2
    have "q dvd - B - r'" using assms(1,2) by simp
    then have "q \<le> - B - r'" using 2 by (intro zdvd_imp_le) simp_all
    then show False using assms(3,4) by linarith
  qed
qed

lemma rounded_price_ok:
  assumes "\<bar>r\<bar> < 10 ^ n" and "q = 10 ^ px_exponent a n" and "q dvd r'" and "\<bar>r' - r\<bar> < q"
  shows "venue_price_ok a r'"
proof -
  define e where "e = px_exponent a n"
  define m where "m = max n e"
  have "q dvd 10 ^ m" by (simp add: assms(2) m_def e_def le_imp_power_dvd)
  moreover have "\<bar>r\<bar> < 10 ^ m"
    using power_increasing[of n m "10::int"] by (intro less_le_trans[OF assms(1)]) (simp add: m_def)
  ultimately have bound: "\<bar>r'\<bar> \<le> 10 ^ m" using multiple_near assms(3,4) by blast
  have A: "10 ^ (8 - price_decimals a) dvd r'" and B: "10 ^ 8 dvd r' \<or> 10 ^ (n - 5) dvd r'"
    using assms(2,3) by (simp_all add: px_exponent_def pow10_dvd_max pow10_dvd_min)
  have "10 ^ 8 dvd r' \<or> five_sig_figs r'"
  proof (cases "\<bar>r'\<bar> = 10 ^ m")
    case True
    have "(10::int) ^ (Suc m - 5) dvd 10 ^ m" by (rule le_imp_power_dvd) simp
    then have "10 ^ (Suc m - 5) dvd r'" by (metis True dvd_abs_iff)
    moreover have "\<bar>r'\<bar> < 10 ^ Suc m" using True by simp
    ultimately show ?thesis unfolding five_sig_figs_def by blast
  next
    case False
    with bound have less: "\<bar>r'\<bar> < 10 ^ m" by simp
    show ?thesis
    proof (cases "e \<le> n")
      case True
      then show ?thesis using less B by (auto simp: m_def five_sig_figs_def)
    next
      case False
      then have "\<bar>r'\<bar> < q" using less assms(2) by (simp add: m_def e_def)
      then have "r' = 0" using assms(3) by (metis abs_of_pos dvd_abs_iff not_le zdvd_imp_le zero_less_abs_iff)
      then show ?thesis by simp
    qed
  qed
  with A show ?thesis by (simp add: venue_price_ok_def)
qed

section \<open>Sizes\<close>

definition sz_step :: "assetInfo \<Rightarrow> int" where
  "sz_step a = 10 ^ (8 - min 8 (nat (szDecimals a)))"

lemma sz_quantum_eq: "sz_quantum a = sz_step a"
proof -
  have idx: "nat (8 - (if szDecimals a < 0 then 0 else if 8 < szDecimals a then 8 else szDecimals a))
    = 8 - min 8 (nat (szDecimals a))" by auto
  show ?thesis
    unfolding sz_quantum_def Let_def kDecimals_def of_nat_numeral idx sz_step_def
    by (rule kPow10_nth) simp
qed

lemma sz_step_bounds: "0 < sz_step a" "sz_step a \<le> 10 ^ 8"
  using power_increasing[of "8 - min 8 (nat (szDecimals a))" 8 "10::int"] by (simp_all add: sz_step_def)

lemma raw_dec_neg: "\<bar>raw s\<bar> \<le> 2 ^ 63 - 1 \<Longrightarrow> raw (dec_neg s) = - raw s"
  unfolding dec_neg_def by (subst wrap64_id) (auto simp: in_i64_def)

lemma dec_neg_neg: "wf_decimal s \<Longrightarrow> dec_neg (dec_neg s) = s"
  by (cases "raw s = - (2 ^ 63)")
    (auto simp: dec_neg_def wf_decimal_def in_i64_def wrap64_id wrap64_def decimal.expand)

lemma roundToQuantum_wf: "wf_decimal d \<Longrightarrow> wf_decimal (roundToQuantum d q mode)"
  by (auto simp: roundToQuantum_def Let_def wf_decimal_def fromRaw_def split: rounding_mode.split)

lemma isValidSz_step:
  assumes "\<bar>raw s\<bar> \<le> 2 ^ 63 - 1"
  shows "isValidSz a s \<longleftrightarrow> sz_step a dvd raw s"
proof -
  note neg = raw_dec_neg[OF assms]
  have wf: "wf_decimal s" "wf_decimal (dec_neg s)"
    using assms by (auto simp: wf_decimal_def in_i64_def neg)
  have q: "0 < sz_step a" "sz_step a < 2 ^ 64" using sz_step_bounds[of a] by simp_all
  note fx = roundToQuantum_Down_fix[OF wf(1) q] roundToQuantum_Down_fix[OF wf(2) q]
  have "dec_neg (roundToQuantum (dec_neg s) (sz_step a) Down) = s
      \<longleftrightarrow> roundToQuantum (dec_neg s) (sz_step a) Down = dec_neg s"
    using dec_neg_neg[OF wf(1)] dec_neg_neg[OF roundToQuantum_wf[OF wf(2)]] by metis
  then show ?thesis using fx by (simp add: isValidSz_def roundSz_def sz_quantum_eq neg)
qed

lemma round_neighbours:
  assumes "\<bar>r\<bar> \<le> 2 ^ 63 - 1 - 10 ^ 8" and "0 < q" and "q \<le> 10 ^ 8"
  shows "in_i64 q" "in_i64 (r div q * q)" "in_i64 (r div q * q + q)"
proof -
  have "r div q * q \<le> r" "r < r div q * q + q"
    using assms(2) pos_mod_bound[of q r] pos_mod_sign[of q r]
    by (simp_all add: minus_mod_eq_div_mult[symmetric])
  then show "in_i64 q" "in_i64 (r div q * q)" "in_i64 (r div q * q + q)"
    using assms by (auto simp: in_i64_def abs_le_iff)
qed

lemma roundToQuantum_near:
  assumes "\<bar>raw d\<bar> \<le> 2 ^ 63 - 1 - 10 ^ 8" and "0 < q" and "q \<le> 10 ^ 8"
  shows "\<bar>raw (roundToQuantum d q mode) - raw d\<bar> < q"
    and "\<bar>raw (roundToQuantum d q mode)\<bar> \<le> 2 ^ 63 - 1"
    and "q dvd raw (roundToQuantum d q mode)"
proof -
  note spec = roundToQuantum_spec[OF assms(2) round_neighbours[OF assms], of mode]
  show near: "\<bar>raw (roundToQuantum d q mode) - raw d\<bar> < q"
    using spec assms(2) by (cases mode) auto
  then show "\<bar>raw (roundToQuantum d q mode)\<bar> \<le> 2 ^ 63 - 1"
    using assms(1,3) by (auto simp: abs_le_iff abs_less_iff)
  show "q dvd raw (roundToQuantum d q mode)" using spec by blast
qed

lemma roundToQuantum_toward_zero:
  assumes "\<bar>raw d\<bar> \<le> 2 ^ 63 - 1 - 10 ^ 8" and "0 < q" and "q \<le> 10 ^ 8" and "0 \<le> raw d"
  shows "0 \<le> raw (roundToQuantum d q Down)" and "raw (roundToQuantum d q Down) \<le> raw d"
proof -
  let ?t = "raw (roundToQuantum d q Down)"
  have b: "?t \<le> raw d" "raw d < ?t + q" "q dvd ?t"
    using roundToQuantum_spec[OF assms(2) round_neighbours[OF assms(1-3)], of Down] by simp_all
  then have "- ?t < q" using assms(4) by linarith
  with b(3) show "0 \<le> ?t" by (metis dvd_minus_iff linorder_not_le neg_0_less_iff_less zdvd_not_zless)
  show "?t \<le> raw d" by (rule b(1))
qed

section \<open>The table of assets\<close>

text \<open>What a client of a keyed table relies on: a store is seen by the lookup of its key only.\<close>

locale keyed_table =
  fixes lookup :: "'t \<Rightarrow> 'k \<Rightarrow> 'v option" and store :: "'t \<Rightarrow> 'v \<Rightarrow> 't" and key :: "'v \<Rightarrow> 'k"
    and valid :: "'t \<Rightarrow> bool"
  assumes lookup_store: "lookup (store t v) k = (if k = key v then Some v else lookup t k)"
    and lookup_key: "lookup t k = Some v \<Longrightarrow> key v = k"
    and valid_store: "valid t \<Longrightarrow> valid (store t v)"
begin

lemma lookup_refines_map: "lookup (store t v) = (lookup t)(key v \<mapsto> v)"
  by (rule ext) (simp add: lookup_store)

lemma lookup_stores:
  "lookup (fold (\<lambda>v t. store t v) vs t) k =
     (case List.find (\<lambda>v. key v = k) (rev vs) of Some v \<Rightarrow> Some v | None \<Rightarrow> lookup t k)"
proof (induction vs rule: rev_induct)
  case (snoc v vs)
  then show ?case by (auto simp: lookup_store)
qed simp

lemma valid_stores: "valid t \<Longrightarrow> valid (fold (\<lambda>v t. store t v) vs t)"
  by (induction vs arbitrary: t) (simp_all add: valid_store)

end

lemma reg_find_add: "reg_find (reg_add r i) nm = (if nm = name i then Some i else reg_find r nm)"
  by (induction r) auto

lemma reg_find_name: "reg_find r nm = Some a \<Longrightarrow> a \<in> set r \<and> name a = nm"
  by (induction r) (auto split: if_splits)

lemma reg_find_None: "reg_find r nm = None \<longleftrightarrow> nm \<notin> name ` set r"
  by (induction r) auto

lemma reg_find_append:
  "reg_find (r @ r') nm = (case reg_find r nm of None \<Rightarrow> reg_find r' nm | Some a \<Rightarrow> Some a)"
  by (induction r) auto

lemma reg_findByAsset_Some: "reg_findByAsset r i = Some a \<Longrightarrow> a \<in> set r \<and> asset a = i"
  by (induction r) (auto split: if_splits)

lemma names_reg_add: "set (map name (reg_add r i)) = insert (name i) (set (map name r))"
  by (induction r) auto

definition reg_distinct :: "registry \<Rightarrow> bool" where
  "reg_distinct r \<longleftrightarrow> distinct (map name r)"

lemma reg_distinct_add: "reg_distinct r \<Longrightarrow> reg_distinct (reg_add r i)"
proof (induction r)
  case (Cons a r)
  then show ?case using names_reg_add[of r i] by (auto simp: reg_distinct_def)
qed (simp add: reg_distinct_def)

interpretation assets: keyed_table reg_find reg_add name reg_distinct
  by unfold_locales (auto simp: reg_find_add reg_distinct_add dest: reg_find_name)

section \<open>Loaded universes\<close>

definition perp_entries :: "value list \<Rightarrow> u32 \<Rightarrow> registry" where
  "perp_entries items index =
     filter (\<lambda>a. name a \<noteq> []) (map (\<lambda>i. perp_of_json (index + of_nat i) (items ! i)) [0..<length items])"

lemma perp_entries_Cons:
  "perp_entries (item # items) index =
     (if name (perp_of_json index item) \<noteq> [] then [perp_of_json index item] else []) @ perp_entries items (index + 1)"
  by (simp add: perp_entries_def map_upt_Suc add.assoc del: upt_Suc)

lemma perp_loop_eq:
  "perp_loop assets index added items =
     (assets @ perp_entries items index, added + length (perp_entries items index))"
proof (induction items arbitrary: assets index added)
  case Nil
  show ?case by (simp add: perp_entries_def)
next
  case (Cons item items)
  then show ?case by (simp add: perp_entries_Cons Let_def)
qed

lemma loadPerpMeta_ok:
  assumes "parse_json txt = Some doc" and "jfield (Some doc) ''universe'' = Some (JArray items)"
  shows "loadPerpMeta parse_json assets txt =
    (filter (\<lambda>a. kind a \<noteq> Perp) assets @ perp_entries (map Some items) 0,
     Inr (length (perp_entries (map Some items) 0)))"
  using assms by (simp add: loadPerpMeta_def perp_loop_eq isArray_def)

lemma loadPerpMeta_error_keeps:
  "snd (loadPerpMeta parse_json assets txt) = Inl e \<Longrightarrow>
   fst (loadPerpMeta parse_json assets txt) = assets \<and> err_kind e = Parse"
  by (auto simp: loadPerpMeta_def Let_def mk_error_def split: option.splits if_splits prod.splits)

definition tok_at :: "(int \<times> string) list \<Rightarrow> nat \<Rightarrow> int \<times> string" where
  "tok_at table k = (if k < length table then table ! k else (0, []))"

definition token_index :: "value \<Rightarrow> nat" where
  "token_index t = size_of_int (asInt (jfield t ''index''))"

lemma tok_at_update:
  "tok_at ((grow (Suc i) (0, []) table)[i := x]) k = (if k = i then x else tok_at table k)"
  by (auto simp: tok_at_def grow_def nth_append nth_list_update)

lemma token_loop_total:
  "\<forall>t \<in> set ts. token_index t < cap \<Longrightarrow> \<exists>table. token_loop cap table0 ts = Some table"
  by (induction ts arbitrary: table0) (auto simp: token_index_def Let_def not_le)

lemma token_loop_keeps:
  "token_loop cap table0 ts = Some table \<Longrightarrow> \<forall>t \<in> set ts. token_index t \<noteq> k \<Longrightarrow>
   tok_at table k = tok_at table0 k"
proof (induction ts arbitrary: table0)
  case (Cons t ts)
  then show ?case
    by (auto simp: token_index_def Let_def tok_at_update split: if_splits)
qed simp

lemma token_loop_append:
  "token_loop cap table0 (ts @ us) = Option.bind (token_loop cap table0 ts) (\<lambda>table. token_loop cap table us)"
  by (induction ts arbitrary: table0) (simp_all add: Let_def)

lemma token_loop_lookup:
  assumes "token_loop cap table0 (ts @ t # us) = Some table"
    and "\<forall>u \<in> set us. token_index u \<noteq> token_index t"
  shows "tok_at table (token_index t) =
    (wrap32 (asInt (jfield t ''szDecimals'')), asString (jfield t ''name''))"
proof -
  obtain t1 where "token_loop cap t1 (t # us) = Some table"
    using assms(1) by (auto simp: token_loop_append bind_eq_Some_conv)
  then have "token_loop cap ((grow (Suc (token_index t)) (0, []) t1)
      [token_index t := (wrap32 (asInt (jfield t ''szDecimals'')), asString (jfield t ''name''))]) us = Some table"
    by (simp add: token_index_def Let_def split: if_splits)
  from token_loop_keeps[OF this assms(2)] show ?thesis by (simp add: tok_at_update)
qed

lemma token_index_negative:
  "t \<in> set ts \<Longrightarrow> asInt (jfield t ''index'') = - 1 \<Longrightarrow> cap < 2 ^ 64 \<Longrightarrow> token_loop cap table0 ts = None"
  by (induction ts arbitrary: table0) (auto simp: Let_def size_of_int_def)

lemma spot_of_json_fields:
  "name (spot_of_json table pair) = asString (jfield pair ''name'')"
  "kind (spot_of_json table pair) = Spot"
  "asset (spot_of_json table pair) = 10000 + word_of_int (asInt (jfield pair ''index''))"
  "jarray (jfield pair ''tokens'') = b # bs \<Longrightarrow>
   szDecimals (spot_of_json table pair) = fst (tok_at table (size_of_int (asInt b))) \<and>
   baseToken (spot_of_json table pair) = snd (tok_at table (size_of_int (asInt b)))"
  by (auto simp: spot_of_json_def Let_def tok_at_def split: list.split)

lemma spot_loop_eq:
  "spot_loop table assets added pairs =
     (let new = filter (\<lambda>a. name a \<noteq> []) (map (spot_of_json table) pairs) in (assets @ new, added + length new))"
  by (induction pairs arbitrary: assets added) (simp_all add: Let_def)

lemma reg_find_spot:
  assumes "\<forall>p \<in> set ps. asString (jfield p ''name'') \<noteq> nm" and "asString (jfield pr ''name'') = nm" and "nm \<noteq> []"
  shows "reg_find (filter (\<lambda>a. name a \<noteq> []) (map (spot_of_json table) (ps @ pr # qs))) nm
     = Some (spot_of_json table pr)"
proof -
  have "reg_find (filter (\<lambda>a. name a \<noteq> []) (map (spot_of_json table) ps)) nm = None"
    using assms(1) by (auto simp: reg_find_None spot_of_json_fields)
  then show ?thesis using assms(2,3) by (simp add: reg_find_append spot_of_json_fields)
qed

theorem loadSpotMeta_negative_index:
  assumes "parse_json txt = Some doc"
    and "jfield (Some doc) ''tokens'' = Some (JArray ts)" and "isArray (jfield (Some doc) ''universe'')"
    and "t \<in> set ts" and "asInt (jfield (Some t) ''index'') = - 1" and "cap < 2 ^ 64"
  shows "loadSpotMeta parse_json cap assets txt = None"
  using assms token_index_negative[of "Some t" "map Some ts" cap "[]"]
  by (simp add: loadSpotMeta_def isArray_def)

definition ex_universe :: json where
  "ex_universe = JObject [(''universe'', JArray [JObject [(''name'', JString ''BTC''), (''szDecimals'', JInt 5)],
     JObject [(''name'', JString ''ETH''), (''szDecimals'', JInt 4)]])]"

definition ex_spot :: json where
  "ex_spot = JObject [
     (''tokens'', JArray [JObject [(''name'', JString ''USDC''), (''szDecimals'', JInt 8), (''index'', JInt 0)],
                          JObject [(''name'', JString ''PURR''), (''szDecimals'', JInt 0), (''index'', JInt 1)]]),
     (''universe'', JArray [JObject [(''name'', JString ''PURR/USDC''), (''tokens'', JArray [JInt 1, JInt 0]), (''index'', JInt 0)]])]"

section \<open>Properties\<close>

text \<open>
  C31: the price check accepts exactly the prices the venue documents: at most \<open>maxPriceDecimals\<close>
  decimals and, unless the price is an integer, at most five significant figures.
\<close>

theorem isValidPx_iff_venue_rule:
  assumes "wf_decimal p"
  shows "isValidPx a p \<longleftrightarrow> venue_price_ok a (raw p)"
  using assms by (rule isValidPx_venue)

theorem isValidPx_iff_venue_rule_witness: 
  "wf_decimal (Decimal 123450000) \<and> isValidPx default_asset (Decimal 123450000) = venue_price_ok default_asset 123450000"
  using isValidPx_iff_venue_rule[of "Decimal 123450000" default_asset] by (simp add: wf_decimal_def in_i64_def)

text \<open>
  Rounding a price of either sign gives a price the venue accepts, in every mode, also when it
  carries into a new leading digit; Down never raises and Up never lowers the price.
\<close>

lemma roundPx_valid:
  assumes "\<bar>raw p\<bar> \<le> 2 ^ 63 - 1 - 10 ^ 8"
  shows "venue_price_ok a (raw (roundPx a p mode)) \<and>
    (mode = Down \<longrightarrow> roundPx a p mode \<le> p) \<and> (mode = Up \<longrightarrow> p \<le> roundPx a p mode)"
proof (cases "raw p = 0")
  case True
  then show ?thesis by (simp add: roundPx_def isZero_def venue_price_ok_def)
next
  case False
  have wf: "wf_decimal p" using assms by (auto simp: wf_decimal_def in_i64_def)
  from px_quantum_eq[OF wf False] obtain n where n: "px_quantum a p = 10 ^ px_exponent a n"
    "1 \<le> n" "10 ^ (n - 1) \<le> \<bar>raw p\<bar>" "\<bar>raw p\<bar> < 10 ^ n" .
  define q where "q = (10::int) ^ px_exponent a n"
  have q: "0 < q" "q \<le> 10 ^ 8"
    using power_increasing[OF px_exponent_less(2)[of a n], of "10::int"] by (simp_all add: q_def)
  define r' where "r' = roundToQuantum p q mode"
  have eq: "roundPx a p mode = r'" using False by (simp add: roundPx_def isZero_def n(1) r'_def q_def)
  note spec = roundToQuantum_spec[OF q(1) round_neighbours[OF assms q], of mode, folded r'_def]
  have near: "\<bar>raw r' - raw p\<bar> < q" using spec q(1) by (cases mode) auto
  have "venue_price_ok a (raw r')"
    by (rule rounded_price_ok[OF n(4) q_def _ near]) (use spec in blast)
  then show ?thesis using spec unfolding eq by (auto simp: less_eq_decimal_def)
qed

text \<open>
  Rounding a size gives a multiple of the asset's size step, less than one step away, which the
  size check accepts; Down is toward zero for sizes of either sign.
\<close>

lemma roundSz_valid:
  assumes "\<bar>raw s\<bar> \<le> 2 ^ 63 - 1 - 10 ^ 8"
  shows "sz_step a dvd raw (roundSz a s mode) \<and> isValidSz a (roundSz a s mode) \<and>
    \<bar>raw (roundSz a s mode) - raw s\<bar> < sz_step a \<and>
    (mode = Down \<longrightarrow> \<bar>raw (roundSz a s mode)\<bar> \<le> \<bar>raw s\<bar>)"
proof (cases "mode = Down \<and> isNegative s")
  case True
  have n: "raw (dec_neg s) = - raw s" by (rule raw_dec_neg) (use assms in simp)
  have b: "\<bar>raw (dec_neg s)\<bar> \<le> 2 ^ 63 - 1 - 10 ^ 8" using assms by (simp add: n)
  let ?t = "roundToQuantum (dec_neg s) (sz_step a) Down"
  note near = roundToQuantum_near[OF b sz_step_bounds, of a Down]
  have "raw (dec_neg ?t) = - raw ?t" using near(2) by (rule raw_dec_neg)
  moreover have "0 \<le> raw (dec_neg s)" using True n by (simp add: isNegative_def)
  note roundToQuantum_toward_zero[OF b sz_step_bounds this, of a]
  ultimately show ?thesis using True near n
    by (simp add: roundSz_def sz_quantum_eq isValidSz_step isNegative_def)
next
  case False
  note near = roundToQuantum_near[OF assms sz_step_bounds, of a mode]
  have "mode = Down \<Longrightarrow> \<bar>raw (roundToQuantum s (sz_step a) mode)\<bar> \<le> \<bar>raw s\<bar>"
    using False roundToQuantum_toward_zero[OF assms sz_step_bounds, of a] by (simp add: isNegative_def)
  with False near show ?thesis by (auto simp: roundSz_def sz_quantum_eq isValidSz_step)
qed

text \<open>
  A registry filled by \<open>add\<close> behaves as a map from names: \<open>find\<close> returns the last entry added under
  a name, and no name occurs twice.
\<close>

lemma reg_add_refines_map:
  "reg_find (fold (\<lambda>a r. reg_add r a) infos []) nm = map_of (map (\<lambda>a. (name a, a)) (rev infos)) nm \<and>
   reg_distinct (fold (\<lambda>a r. reg_add r a) infos [])"
proof -
  have "List.find (\<lambda>v. name v = nm) xs = map_of (map (\<lambda>a. (name a, a)) xs) nm" for xs :: registry
    by (induction xs) auto
  then show ?thesis
    using assets.valid_stores[of "[]" infos] by (auto simp: assets.lookup_stores reg_distinct_def split: option.split)
qed

text \<open>
  After a successful load of the perp universe, the entry found under a name carries the position
  of its first occurrence in the universe as its asset id and the size decimals of that item, also
  when unnamed items precede it.
\<close>

lemma loadPerpMeta_lookup:
  assumes "parse_json txt = Some doc" and "jfield (Some doc) ''universe'' = Some (JArray items)"
    and "length items \<le> 2 ^ 32" and "i < length items"
    and "nm = asString (jfield (Some (items ! i)) ''name'')" and "nm \<noteq> []"
    and "\<forall>j < i. asString (jfield (Some (items ! j)) ''name'') \<noteq> nm"
    and "\<forall>a \<in> set assets. kind a \<noteq> Perp \<longrightarrow> name a \<noteq> nm"
  shows "\<exists>a. reg_find (fst (loadPerpMeta parse_json assets txt)) nm = Some a \<and>
    unat (asset a) = i \<and> kind a = Perp \<and>
    szDecimals a = wrap32 (asInt (jfield (Some (items ! i)) ''szDecimals''))"
proof -
  let ?g = "\<lambda>k. perp_of_json (of_nat k) (map Some items ! k)"
  have nm: "name (perp_of_json n v) = asString (jfield v ''name'')" for n v by (simp add: perp_of_json_def)
  have "reg_find (filter (\<lambda>a. kind a \<noteq> Perp) assets) nm = None"
    using assms(8) by (auto simp: reg_find_None)
  moreover have "reg_find (perp_entries (map Some items) 0) nm = Some (?g i)"
  proof -
    have "[0..<length items] = [0..<i] @ i # [Suc i..<length items]"
      using assms(4) by (metis less_imp_le_nat upt_add_eq_append upt_conv_Cons le_add_diff_inverse zero_le)
    moreover have "reg_find (filter (\<lambda>a. name a \<noteq> []) (map ?g [0..<i])) nm = None"
      using assms(4,7) by (auto simp: reg_find_None nm)
    ultimately show ?thesis
      using assms(4,5,6) by (simp add: perp_entries_def reg_find_append nm)
  qed
  ultimately have f: "reg_find (fst (loadPerpMeta parse_json assets txt)) nm = Some (?g i)"
    by (simp add: loadPerpMeta_ok[of parse_json, OF assms(1,2)] reg_find_append)
  have "unat (of_nat i :: u32) = i" using assms(3,4) by (simp add: unat_of_nat)
  then show ?thesis using f assms(4) by (simp add: perp_of_json_def)
qed

text \<open>
  A load of the spot universe whose token indices fit the allocation succeeds, and the entry
  found under a pair's name has asset id 10000 plus the pair's index, and the size decimals and the
  name of the pair's base token.
\<close>

lemma loadSpotMeta_lookup:
  assumes "parse_json txt = Some doc"
    and "jfield (Some doc) ''tokens'' = Some (JArray (ts @ t # us))"
    and "jfield (Some doc) ''universe'' = Some (JArray (ps @ pr # qs))"
    and "\<forall>x \<in> set (ts @ t # us). token_index (Some x) < cap"
    and "\<forall>u \<in> set us. token_index (Some u) \<noteq> token_index (Some t)"
    and "jarray (jfield (Some pr) ''tokens'') = b # bs" and "size_of_int (asInt b) = token_index (Some t)"
    and "nm = asString (jfield (Some pr) ''name'')" and "nm \<noteq> []"
    and "\<forall>p \<in> set ps. asString (jfield (Some p) ''name'') \<noteq> nm"
    and "\<forall>a \<in> set assets. kind a \<noteq> Spot \<longrightarrow> name a \<noteq> nm"
  shows "\<exists>assets' added a. loadSpotMeta parse_json cap assets txt = Some (assets', Inr added) \<and>
    reg_find assets' nm = Some a \<and> kind a = Spot \<and>
    asset a = 10000 + word_of_int (asInt (jfield (Some pr) ''index'')) \<and>
    szDecimals a = wrap32 (asInt (jfield (Some t) ''szDecimals'')) \<and>
    baseToken a = asString (jfield (Some t) ''name'')"
proof -
  obtain table where table: "token_loop cap [] (map Some ts @ Some t # map Some us) = Some table"
    using token_loop_total[of "map Some (ts @ t # us)" cap "[]"] assms(4) by auto
  let ?new = "filter (\<lambda>a. name a \<noteq> []) (map (spot_of_json table) (map Some ps @ Some pr # map Some qs))"
  have load: "loadSpotMeta parse_json cap assets txt =
      Some (filter (\<lambda>a. kind a \<noteq> Spot) assets @ ?new, Inr (length ?new))"
    using assms(1-3) table by (simp add: loadSpotMeta_def spot_loop_eq isArray_def Let_def)
  have "reg_find (filter (\<lambda>a. kind a \<noteq> Spot) assets) nm = None"
    using assms(11) by (auto simp: reg_find_None)
  moreover have "reg_find ?new nm = Some (spot_of_json table (Some pr))"
    by (rule reg_find_spot) (use assms(8-10) in auto)
  ultimately have found: "reg_find (filter (\<lambda>a. kind a \<noteq> Spot) assets @ ?new) nm = Some (spot_of_json table (Some pr))"
    by (simp only: reg_find_append option.case)
  have "tok_at table (size_of_int (asInt b)) =
      (wrap32 (asInt (jfield (Some t) ''szDecimals'')), asString (jfield (Some t) ''name''))"
    unfolding assms(7) by (rule token_loop_lookup[OF table]) (use assms(5) in auto)
  with load found show ?thesis using spot_of_json_fields(4)[OF assms(6), of table]
    by (intro exI conjI) (assumption | simp add: spot_of_json_fields)+
qed

end
