(* ===== verification/HL_Double.thy ===== *)
theory HL_Double
  imports HL_Decimal Complex_Main "HOL-Library.Log_Nat"
begin

text \<open>
  Arithmetic of \<open>double\<close>: IEEE 754 binary64, rounding to nearest with ties to even. A double is its value, a rational; the result of
  an operation is the exact result, rounded to 53 significant bits (fewer below \<open>2 ^ -1022\<close>). Infinities and NaN have no value here:
  the conversions below start from decimals, which are below \<open>2 ^ 37\<close>, or from 64-bit counters, and never divide by zero.
  On it rest the conversions of \<open>hl::Decimal\<close> (\<open>src/core/Decimal.cpp\<close>, \<open>include/hl/core/Decimal.h\<close>).
\<close>

section \<open>Rounding\<close>

type_synonym double = rat

text \<open>The exponent of the leading bit of a positive number.\<close>

definition ilog2 :: "rat \<Rightarrow> int" where
  "ilog2 x = (let (a, b) = quotient_of x; k = bitlen a - bitlen b in if 2 powi k \<le> x then k else k - 1)"

definition round_even :: "rat \<Rightarrow> int" where
  "round_even q = (let f = \<lfloor>q\<rfloor>; d = q - of_int f in if d < 1 / 2 \<or> d = 1 / 2 \<and> even f then f else f + 1)"

text \<open>The distance between neighbouring doubles at \<open>x\<close>, and the double that is nearest to \<open>x\<close>.\<close>

definition ulp :: "rat \<Rightarrow> rat" where
  "ulp x = 2 powi (max (ilog2 \<bar>x\<bar> - 52) (- 1074))"

definition rnd :: "rat \<Rightarrow> double" where
  "rnd x = (if x = 0 then 0 else of_int (round_even (x / ulp x)) * ulp x)"

lemma ilog2_bounds:
  assumes "0 < x"
  shows "2 powi (ilog2 x) \<le> x" and "x < 2 powi (ilog2 x + 1)"
proof -
  obtain a b where q: "quotient_of x = (a, b)" by fastforce
  have x: "x = of_int a / of_int b" and b: "0 < b" using quotient_of_div[OF q] quotient_of_denom_pos[OF q] .
  have a: "0 < a" using assms b unfolding x by (simp add: zero_less_divide_iff)
  have pw: "2 powi (bitlen n - 1) \<le> (of_int n :: rat)" "(of_int n :: rat) < 2 powi bitlen n" if "0 < n" for n
  proof -
    have l: "1 \<le> bitlen n" using that bitlen_eq_zero_iff[of n] bitlen_nonneg[of n] by linarith
    have "of_int (2 ^ nat (bitlen n - 1)) \<le> (of_int n :: rat)" "(of_int n :: rat) < of_int (2 ^ nat (bitlen n))"
      using bitlen_bounds[OF that] by (simp_all only: of_int_le_iff of_int_less_iff)
    then show "2 powi (bitlen n - 1) \<le> (of_int n :: rat)" "(of_int n :: rat) < 2 powi bitlen n"
      using l by (simp_all add: power_int_def)
  qed
  let ?k = "bitlen a - bitlen b"
  have up: "x < 2 powi (?k + 1)"
  proof -
    have "x < 2 powi bitlen a / 2 powi (bitlen b - 1)"
      unfolding x using pw[OF a] pw[OF b] b by (intro frac_less) (use a in auto)
    then show ?thesis by (simp add: power_int_diff[symmetric] algebra_simps)
  qed
  have low: "2 powi (?k - 1) \<le> x"
  proof -
    have "2 powi (bitlen a - 1) / 2 powi bitlen b \<le> x"
      unfolding x using pw[OF a] pw[OF b] b by (intro frac_le) (use a in \<open>auto intro: less_imp_le\<close>)
    then show ?thesis by (simp add: power_int_diff[symmetric] algebra_simps)
  qed
  show "2 powi (ilog2 x) \<le> x" "x < 2 powi (ilog2 x + 1)" using up low by (auto simp: ilog2_def q Let_def)
qed

lemma ulp_pos [simp]: "0 < ulp x"
  by (simp add: ulp_def)

lemma round_even_near: "\<bar>of_int (round_even q) - q\<bar> \<le> 1 / 2"
proof -
  define f where "f = \<lfloor>q\<rfloor>"
  have "of_int f \<le> q" "q < of_int f + 1" unfolding f_def by linarith+
  then show ?thesis unfolding round_even_def Let_def f_def[symmetric] by (auto simp: abs_if)
qed

lemma round_even_int [simp]: "round_even (of_int n) = n"
  by (simp add: round_even_def)

lemma round_even_mono: "p \<le> q \<Longrightarrow> round_even p \<le> round_even q"
proof -
  assume le: "p \<le> q"
  show ?thesis
  proof (cases "\<lfloor>p\<rfloor> = \<lfloor>q\<rfloor>")
    case False
    then have "\<lfloor>p\<rfloor> + 1 \<le> \<lfloor>q\<rfloor>" using floor_mono[OF le] by linarith
    then show ?thesis by (auto simp: round_even_def Let_def)
  qed (use le in \<open>auto simp: round_even_def Let_def\<close>)
qed

lemma round_even_minus: "round_even (- q) = - round_even q"
proof (cases "q = of_int \<lfloor>q\<rfloor>")
  case True
  then show ?thesis by (metis of_int_minus round_even_int)
next
  case False
  then have "\<lfloor>- q\<rfloor> = - \<lfloor>q\<rfloor> - 1" by (metis (no_types, lifting) floor_unique of_int_minus add.inverse_inverse
        ceiling_def ceiling_altdef diff_0 diff_diff_eq2 minus_diff_eq uminus_add_conv_diff)
  then show ?thesis using False by (auto simp: round_even_def Let_def)
qed

lemma ulp_minus [simp]: "ulp (- x) = ulp x"
  by (simp add: ulp_def)

lemma rnd_minus: "rnd (- x) = - rnd x"
  by (simp add: rnd_def round_even_minus)

lemma rnd_zero [simp]: "rnd 0 = 0"
  by (simp add: rnd_def)

lemma powi2_mono: "a \<le> b \<Longrightarrow> (2 :: rat) powi a \<le> 2 powi b"
  by (rule power_int_increasing) simp_all

lemma powi2_less: "(2 :: rat) powi a < 2 powi b \<Longrightarrow> a < b"
  using powi2_mono[of b a] by linarith

lemma ilog2_mono: "0 < x \<Longrightarrow> x \<le> y \<Longrightarrow> ilog2 x \<le> ilog2 y"
  using powi2_less[of "ilog2 x" "ilog2 y + 1"] ilog2_bounds[of x] ilog2_bounds[of y] by linarith

lemma rnd_le_grid:
  assumes "0 < x" and "x \<le> of_int n * ulp x"
  shows "rnd x \<le> of_int n * ulp x"
proof -
  have "x / ulp x \<le> of_int n" using assms by (simp add: divide_le_eq)
  from round_even_mono[OF this] have "(of_int (round_even (x / ulp x)) :: rat) \<le> of_int n" by simp
  then show ?thesis using assms(1) by (simp add: rnd_def mult_right_mono less_imp_le)
qed

lemma rnd_ge_grid:
  assumes "0 < x" and "of_int n * ulp x \<le> x"
  shows "of_int n * ulp x \<le> rnd x"
proof -
  have "of_int n \<le> x / ulp x" using assms by (simp add: le_divide_eq)
  from round_even_mono[OF this] have "(of_int n :: rat) \<le> of_int (round_even (x / ulp x))" by simp
  then show ?thesis using assms(1) by (simp add: rnd_def mult_right_mono less_imp_le)
qed

text \<open>A power of two above the spacing is a multiple of it.\<close>

lemma powi_grid: "e \<le> k \<Longrightarrow> (2 :: rat) powi k = of_int (2 ^ nat (k - e)) * 2 powi e"
  by (simp add: power_int_add[symmetric] power_int_def[of 2 "k - e", symmetric] flip: power_int_of_nat)

lemma rnd_mono_pos:
  assumes "0 < x" and "x \<le> y"
  shows "rnd x \<le> rnd y"
proof (cases "ulp x = ulp y")
  case True
  have "round_even (x / ulp x) \<le> round_even (y / ulp x)" using assms by (intro round_even_mono divide_right_mono) (simp_all add: less_imp_le)
  then show ?thesis using assms True by (simp add: rnd_def mult_right_mono less_imp_le)
next
  case False
  let ?k = "ilog2 y" and ?e = "max (ilog2 x - 52) (- 1074)"
  have y: "0 < y" using assms by linarith
  have k: "ilog2 x \<le> ?k" by (rule ilog2_mono[OF assms])
  have ux: "ulp x = 2 powi ?e" and uy: "ulp y = 2 powi (max (?k - 52) (- 1074))" using assms y by (simp_all add: ulp_def)
  have "ilog2 x \<noteq> ?k" using False by (auto simp: ux uy)
  moreover have "\<not> (ilog2 x - 52 \<le> - 1074 \<and> ?k - 52 \<le> - 1074)" using False by (auto simp: ux uy max_def)
  ultimately have up: "?e < ?k - 52" "ulp y = 2 powi (?k - 52)" using k by (auto simp: uy max_def)
  have "x \<le> 2 powi ?k"
    using ilog2_bounds(2)[OF assms(1)] powi2_mono[of "ilog2 x + 1" ?k] up(1) k by (auto simp: max_def split: if_splits)
  then have "rnd x \<le> 2 powi ?k"
    using rnd_le_grid[OF assms(1), of "2 ^ nat (?k - ?e)"] powi_grid[of ?e ?k] up(1) by (simp add: ux)
  moreover have "2 powi ?k \<le> rnd y"
    using rnd_ge_grid[OF y, of "2 ^ nat (?k - (?k - 52))"] powi_grid[of "?k - 52" ?k] ilog2_bounds(1)[OF y] by (simp add: up(2))
  ultimately show ?thesis by linarith
qed

lemma rnd_nonneg: "0 \<le> x \<Longrightarrow> 0 \<le> rnd x"
  using rnd_ge_grid[of x 0] by (cases "x = 0") auto

lemma rnd_mono: "x \<le> y \<Longrightarrow> rnd x \<le> rnd y"
proof -
  assume le: "x \<le> y"
  consider "0 < x" | "y < 0" | "x \<le> 0" "0 \<le> y" by linarith
  then show ?thesis
  proof cases
    case 2
    then show ?thesis using rnd_mono_pos[of "- y" "- x"] le by (simp add: rnd_minus)
  next
    case 3
    then show ?thesis using rnd_nonneg[of "- x"] rnd_nonneg[of y] by (simp add: rnd_minus)
  qed (use rnd_mono_pos le in blast)
qed

lemma rnd_near: "\<bar>rnd x - x\<bar> \<le> ulp x / 2"
proof (cases "x = 0")
  case False
  have "rnd x - x = (of_int (round_even (x / ulp x)) - x / ulp x) * ulp x"
    using False ulp_pos[of x] by (simp add: rnd_def algebra_simps less_imp_neq[symmetric])
  then have "\<bar>rnd x - x\<bar> = \<bar>of_int (round_even (x / ulp x)) - x / ulp x\<bar> * ulp x"
    by (simp add: abs_mult less_imp_le)
  also have "\<dots> \<le> 1 / 2 * ulp x" using round_even_near by (intro mult_right_mono) (simp_all add: less_imp_le)
  finally show ?thesis by simp
qed (simp add: less_imp_le)

text \<open>The relative error, away from zero.\<close>

lemma rnd_error:
  assumes "2 powi (- 1022) \<le> \<bar>x\<bar>"
  shows "\<bar>rnd x - x\<bar> \<le> \<bar>x\<bar> / 2 ^ 53"
proof -
  have x: "0 < \<bar>x\<bar>" using assms zero_less_power_int[of "2 :: rat" "- 1022"] by linarith
  note b = ilog2_bounds[OF x]
  have "(2 :: rat) powi (- 1022) < 2 powi (ilog2 \<bar>x\<bar> + 1)" using assms b(2) by (rule le_less_trans)
  from powi2_less[OF this] have "- 1074 \<le> ilog2 \<bar>x\<bar> - 52" by linarith
  then have "ulp x = 2 powi (ilog2 \<bar>x\<bar> - 52)" by (simp only: ulp_def max.absorb1)
  also have "\<dots> = 2 powi ilog2 \<bar>x\<bar> / 2 ^ 52" by (simp add: power_int_diff)
  also have "\<dots> \<le> \<bar>x\<bar> / 2 ^ 52" using b(1) by (intro divide_right_mono) simp_all
  finally show ?thesis using rnd_near[of x] by simp
qed

lemma rnd_grid: "x = of_int n * ulp x \<Longrightarrow> rnd x = x"
  by (metis (no_types, lifting) less_irrefl nonzero_eq_divide_eq rnd_def round_even_int ulp_pos)

lemma rnd_int:
  assumes "\<bar>n\<bar> < 2 ^ 53"
  shows "rnd (of_int n) = of_int n"
proof (cases "n = 0")
  case False
  have x: "0 < \<bar>of_int n :: rat\<bar>" and ge: "1 \<le> \<bar>of_int n :: rat\<bar>" using False by simp_all
  note b = ilog2_bounds[OF x]
  have "(2 :: rat) powi 0 < 2 powi (ilog2 \<bar>of_int n\<bar> + 1)" using b(2) ge by simp
  from powi2_less[OF this] have k0: "0 \<le> ilog2 \<bar>of_int n :: rat\<bar>" by linarith
  have "\<bar>of_int n :: rat\<bar> < 2 ^ 53" using assms by (metis of_int_abs of_int_less_iff of_int_numeral of_int_power)
  then have "(2 :: rat) powi ilog2 \<bar>of_int n\<bar> < 2 powi 53" using b(1) by simp
  from powi2_less[OF this] have k: "ilog2 \<bar>of_int n :: rat\<bar> - 52 \<le> 0" by linarith
  have u: "ulp (of_int n) = 2 powi (ilog2 \<bar>of_int n :: rat\<bar> - 52)" using k0 by (simp add: ulp_def max_def)
  have "(of_int n :: rat) = of_int (n * 2 ^ nat (0 - (ilog2 \<bar>of_int n :: rat\<bar> - 52))) * ulp (of_int n)"
    using powi_grid[OF k] by (simp add: u mult.assoc)
  then show ?thesis by (rule rnd_grid)
qed simp

section \<open>Operations and conversions\<close>

definition dadd :: "double \<Rightarrow> double \<Rightarrow> double" where
  "dadd x y = rnd (x + y)"

definition dsub :: "double \<Rightarrow> double \<Rightarrow> double" where
  "dsub x y = rnd (x - y)"

definition dmul :: "double \<Rightarrow> double \<Rightarrow> double" where
  "dmul x y = rnd (x * y)"

definition ddiv :: "double \<Rightarrow> double \<Rightarrow> double" where
  "ddiv x y = rnd (x / y)"

text \<open>The conversion of an integer.\<close>

definition of_integer :: "int \<Rightarrow> double" where
  "of_integer n = rnd (of_int n)"

text \<open>\<open>std::llround\<close>: half away from zero; \<open>None\<close> outside the range of \<open>long long\<close>, where the result is unspecified.\<close>

definition llround :: "double \<Rightarrow> int option" where
  "llround x = (let n = (if 0 \<le> x then \<lfloor>x + 1 / 2\<rfloor> else - \<lfloor>1 / 2 - x\<rfloor>) in if in_i64 n then Some n else None)"

definition toDouble :: "decimal \<Rightarrow> double" where
  "toDouble d = ddiv (of_integer (raw d)) (of_integer kScale)"

definition fromDouble :: "double \<Rightarrow> decimal option" where
  "fromDouble x = map_option fromRaw (llround (dmul x (of_integer kScale)))"

lemma llround_near:
  assumes "\<bar>x - of_int n\<bar> < 1 / 2" and "in_i64 n"
  shows "llround x = Some n"
proof -
  have "\<lfloor>x + 1 / 2\<rfloor> = n" using assms(1) by (intro floor_unique) (simp_all add: abs_if split: if_splits)
  moreover have "\<lfloor>1 / 2 - x\<rfloor> = - n" using assms(1) by (intro floor_unique) (simp_all add: abs_if split: if_splits)
  ultimately show ?thesis using assms(2) by (simp add: llround_def)
qed

lemma scale_exact [simp]: "of_integer kScale = 100000000"
  using rnd_int[of kScale] by (simp add: of_integer_def kScale_def)

lemma small_powi: "(2 :: rat) powi (- 1022) \<le> 1 / 100000000"
proof -
  have "(2 :: rat) powi (- 1022) \<le> 2 powi (- 27)" by (rule powi2_mono) simp
  also have "\<dots> \<le> 1 / 100000000" by (simp add: power_int_minus)
  finally show ?thesis .
qed

text \<open>Two roundings of a number below \<open>2 ^ 51\<close> stay within half a unit of it.\<close>

lemma two_roundings:
  assumes "1 \<le> \<bar>n\<bar>" and "\<bar>n\<bar> < 2 ^ 51"
  shows "\<bar>rnd (rnd (of_int n / 100000000) * 100000000) - of_int n\<bar> < 1 / 2"
proof -
  define N where "N = \<bar>of_int n :: rat\<bar>"
  have N: "1 \<le> N" "N \<le> 2 ^ 51 - 1"
  proof -
    have "(of_int 1 :: rat) \<le> of_int \<bar>n\<bar>" "(of_int \<bar>n\<bar> :: rat) \<le> of_int (2 ^ 51 - 1)" using assms unfolding of_int_le_iff by simp_all
    then show "1 \<le> N" "N \<le> 2 ^ 51 - 1" unfolding N_def by simp_all
  qed
  define x where "x = (of_int n :: rat) / 100000000"
  define y where "y = rnd x * 100000000"
  have ax: "\<bar>x\<bar> = N / 100000000" by (simp add: x_def N_def)
  have "2 powi (- 1022) \<le> \<bar>x\<bar>" using small_powi N(1) unfolding ax by linarith
  from rnd_error[OF this] have "\<bar>rnd x - x\<bar> * 100000000 \<le> N / 2 ^ 53" unfolding ax by simp
  then have e1: "\<bar>y - of_int n\<bar> \<le> N / 2 ^ 53" by (simp add: y_def x_def abs_if algebra_simps split: if_splits)
  have ay: "N - N / 2 ^ 53 \<le> \<bar>y\<bar>" "\<bar>y\<bar> \<le> N + N / 2 ^ 53" using e1 unfolding N_def by linarith+
  have "2 powi (- 1022) \<le> \<bar>y\<bar>" using small_powi N(1) ay(1) by simp
  from rnd_error[OF this] have e2: "\<bar>rnd y - y\<bar> \<le> (N + N / 2 ^ 53) / 2 ^ 53" using ay(2) by (simp add: field_simps)
  have "N / 2 ^ 53 + (N + N / 2 ^ 53) / 2 ^ 53 < 1 / 2" using N by (simp add: field_simps)
  then show ?thesis using e1 e2 unfolding y_def x_def by linarith
qed

section \<open>Properties\<close>

text \<open>
  C33: a decimal of at most 22 million units survives the conversion to \<open>double\<close> and back, although both conversions round.
\<close>

theorem fromDouble_toDouble:
  assumes "\<bar>raw d\<bar> < 2 ^ 51"
  shows "fromDouble (toDouble d) = Some d"
proof (cases "raw d = 0")
  case True
  moreover have "llround 0 = Some 0" by (rule llround_near) (simp_all add: in_i64_def)
  ultimately show ?thesis by (cases d) (simp add: toDouble_def ddiv_def of_integer_def fromDouble_def dmul_def fromRaw_def)
next
  case False
  have "of_integer (raw d) = of_int (raw d)" using assms rnd_int[of "raw d"] by (simp add: of_integer_def)
  moreover have "in_i64 (raw d)" using assms by (simp add: in_i64_def abs_if split: if_splits)
  moreover have "1 \<le> \<bar>raw d\<bar>" using False by simp
  ultimately have "llround (dmul (toDouble d) (of_integer kScale)) = Some (raw d)"
    using llround_near[OF two_roundings[OF _ assms]] by (simp add: dmul_def toDouble_def ddiv_def)
  then show ?thesis by (cases d) (simp add: fromDouble_def fromRaw_def)
qed

theorem fromDouble_toDouble_witness: "fromDouble (toDouble (Decimal (- 7595101234567))) = Some (Decimal (- 7595101234567))"
  using fromDouble_toDouble[of "Decimal (- 7595101234567)"] by simp

end
