(* ===== verification/HL_ExchangeState.thy ===== *)
theory HL_ExchangeState
  imports HL_Orders HL_Assets HL_Double
begin

text \<open>
  The state of \<open>hl::ExchangeClient\<close> (\<open>include/hl/om/ExchangeClient.h\<close>) and its bookkeeping
  (\<open>src/om/ExchangeClient.cpp\<close>, \<open>track\<close>, \<open>find\<close>, \<open>emit\<close>, \<open>countRateLimitUnits\<close>, \ldots).

  \<^item> A method is a function from a state to a state; what it does outside the client (listener calls,
    frames, HTTP posts, info queries, timers) is appended to the log \<open>out\<close>. A closure passed to an
    info query or a timer is a constructor that names it, and its body is a definition of its own
    which the environment applies when the answer arrives.
  \<^item> What the client reads from its environment is in the state: the clock, whether the session is
    open and whether a send succeeds, and the measured durations. Each may change between any two
    calls.
  \<^item> A pointer into the order table is the key it was found under. The order in which an
    \<open>unordered_map\<close> is walked is an argument \<open>iter\<close> of the operations that walk one.
  \<^item> What \<open>session_.send\<close> does is read from the environment: what it returns (\<open>send_ok\<close>), and whether the session ends
    inside the call (\<open>send_breaks\<close>), which runs \<open>onSessionClosed\<close> there.
  \<^item> A listener that calls back into the client while it is being notified is not modelled: its
    calls come after the operation that notified it.
\<close>


section \<open>Answers to info queries\<close>

record position =
  p_coin :: string
  p_szi :: decimal
  p_entryPx :: decimal
  p_positionValue :: decimal
  p_unrealizedPnl :: decimal
  p_returnOnEquity :: decimal
  p_liquidationPx :: "decimal option"
  p_marginUsed :: decimal
  p_leverage :: u32
  p_isCross :: bool

record accountState =
  as_accountValue :: decimal
  as_totalNtlPos :: decimal
  as_totalRawUsd :: decimal
  as_totalMarginUsed :: decimal
  as_withdrawable :: decimal
  as_positions :: "position list"
  as_timeMs :: int

record spotBalance =
  sb_coin :: string
  sb_token :: u32
  sb_total :: decimal
  sb_hold :: decimal
  sb_entryNtl :: decimal

record userRole =
  role :: string
  master :: "address option"

definition isAgent :: "userRole \<Rightarrow> bool" where
  "isAgent r \<longleftrightarrow> role r = ''agent''"

section \<open>Configuration and counters\<close>

datatype actionTransport = WebSocketTransport | HttpTransport

record exchangeConfig =
  cfg_network :: network
  cfg_accountAddress :: string
  transport :: actionTransport
  requestTimeoutMs :: int
  loadSpotAssets :: bool
  subscribeUserEvents :: bool
  adoptExistingOrders :: bool
  cfg_builderFee :: "builderFee option"
  fastCancels :: bool
  actionExpiryMs :: int
  rateLimitRefreshMs :: int
  rateLimitWarnFraction :: double
  terminalOrderRetentionMs :: int

record latencyStats =
  lat_count :: u64
  lat_sumUs :: u64
  lat_minUs :: u32
  lat_maxUs :: u32
  lat_lastUs :: u32

definition no_latency :: latencyStats where
  "no_latency = \<lparr>lat_count = 0, lat_sumUs = 0, lat_minUs = 0, lat_maxUs = 0, lat_lastUs = 0\<rparr>"

definition lat_meanUs :: "latencyStats \<Rightarrow> u32" where
  "lat_meanUs l = (if lat_count l = 0 then 0 else ucast (lat_sumUs l div lat_count l))"

definition lat_add :: "u32 \<Rightarrow> latencyStats \<Rightarrow> latencyStats" where
  "lat_add us l = \<lparr>lat_count = lat_count l + 1, lat_sumUs = lat_sumUs l + ucast us,
     lat_minUs = (if lat_count l = 0 \<or> us < lat_minUs l then us else lat_minUs l),
     lat_maxUs = (if us > lat_maxUs l then us else lat_maxUs l), lat_lastUs = us\<rparr>"

text \<open>\<open>elapsedUs\<close> for a duration of \<open>us\<close> microseconds, clamped into 32 bits.\<close>

definition elapsedUs :: "int \<Rightarrow> u32" where
  "elapsedUs us = (if us < 0 then 0 else word_of_int (if us > 4294967295 then 4294967295 else us))"

record stats =
  actionsSent :: u64
  actionsViaHttp :: u64
  actionErrors :: u64
  timeouts :: u64
  n_fills :: u64
  reconciles :: u64
  rateLimitHits :: u64
  addressUnitsUsed :: u64
  buildAndSign :: latencyStats
  orderRoundTrip :: latencyStats
  cancelRoundTrip :: latencyStats
  modifyRoundTrip :: latencyStats
  otherRoundTrip :: latencyStats

definition no_stats :: stats where
  "no_stats = \<lparr>actionsSent = 0, actionsViaHttp = 0, actionErrors = 0, timeouts = 0, n_fills = 0,
     reconciles = 0, rateLimitHits = 0, addressUnitsUsed = 0, buildAndSign = no_latency,
     orderRoundTrip = no_latency, cancelRoundTrip = no_latency, modifyRoundTrip = no_latency,
     otherRoundTrip = no_latency\<rparr>"

section \<open>Requests in flight\<close>

datatype actionKind = KOrder | KCancel | KModify | KOther

text \<open>A user's callback is a number; \<open>None\<close> is the empty \<open>std::function\<close>.\<close>

type_synonym callback = "nat option"

record pendingAction =
  pa_kind :: actionKind
  pa_cloids :: "cloid list"
  modifyTargets :: "(decimal \<times> decimal) list"
  modifyTrigger :: "triggerSpec option"
  pa_callback :: callback
  pa_timer :: nat
  viaWebSocket :: bool
  pa_sent :: bool

definition default_pending :: pendingAction where
  "default_pending = \<lparr>pa_kind = KOther, pa_cloids = [], modifyTargets = [], modifyTrigger = None,
     pa_callback = None, pa_timer = 0, viaWebSocket = False, pa_sent = False\<rparr>"

record positionState =
  ps_size :: decimal
  lastFillMs :: int

section \<open>Effects\<close>

datatype timer_callback =
    TActionTimeout u64
  | TInfoTimeout u64
  | TBootstrap
  | TReconcile cloid
  | TNotFound cloid
  | TEviction
  | TRateLimit

datatype query =
    QAssets bool
  | QUserRole address
  | QSpotBalances address
  | QClearinghouse address
  | QResubscribed address
  | QAdopt address
  | QAmended address cloid
  | QReconcileAll address "cloid list"
  | QStatusByOid address u64 cloid
  | QStatusByCloid address cloid
  | QRateLimit address

datatype effect =
    OnReady
  | OnDisconnected string
  | OnOrderUpdate order
  | OnFill fillMsg
  | OnLiquidation "u64 \<times> string \<times> string \<times> decimal \<times> decimal"
  | OnFunding "int \<times> string \<times> decimal \<times> decimal \<times> decimal"
  | OnError error
  | ActionCallback nat "exchangeResponse result"
  | InfoCallback nat "string result"
  | SessionSend string
  | HttpPost u64 string
  | Query query
  | AddTimer nat int timer_callback
  | CancelTimer nat
  | Subscribe string
  | ClearSubscriptions
  | SessionStart
  | SessionStop

section \<open>The client\<close>

record client =
  cfg :: exchangeConfig
  builder :: requestBuilder
  signerAddress :: address
  account :: address
  user :: address
  assets :: registry
  orders :: "cloid \<rightharpoonup> tracked"
  oidIndex :: oid_index
  positions :: "string \<rightharpoonup> positionState"
  spotTokens :: "string \<rightharpoonup> decimal"
  accountValue :: decimal
  seenTids :: "u64 set"
  seenTidOrder :: "u64 list"
  pending :: "u64 \<rightharpoonup> pendingAction"
  pendingInfo :: "u64 \<rightharpoonup> nat"
  nextRequestId :: u64
  lastNonce :: u64
  cloidSession :: u64
  cloidCounter :: u64
  started :: bool
  assetsLoaded :: bool
  positionsLoaded :: bool
  spotBalancesLoaded :: bool
  orderUpdatesAcked :: bool
  userFillsAcked :: bool
  ready :: bool
  wasReadyBefore :: bool
  ordersAdopted :: bool
  adoptionInFlight :: bool
  fillsSnapshotSeen :: bool
  evictionTimer :: nat
  rateLimitTimer :: nat
  rateLimit :: rateLimitStatus
  unitsAtLastRefresh :: u64
  rateLimitWarned :: bool
  stats_of :: stats
  clock :: int
  session_open :: bool
  send_ok :: bool
  send_breaks :: "(u64 list \<times> string) option"
  http_rate_hits :: u64
  measured_us :: int
  nextTimer :: nat
  out :: "effect list"

definition kMaxRememberedTids :: nat where
  "kMaxRememberedTids = 20000"

definition kMaxBatchEntries :: nat where
  "kMaxBatchEntries = 40"

definition kEvictionPeriodMs :: int where
  "kEvictionPeriodMs = 10000"

definition kExternalCloidHigh :: u64 where
  "kExternalCloidHigh = not 0"

definition kNotFoundProbes :: nat where
  "kNotFoundProbes = 3"

definition kNotFoundRetryMs :: int where
  "kNotFoundRetryMs = 1000"

definition isTransportFailure :: "error \<Rightarrow> bool" where
  "isTransportFailure e \<longleftrightarrow> err_kind e = Transport \<or> err_kind e = Timeout"

definition log_out :: "effect \<Rightarrow> client \<Rightarrow> client" where
  "log_out e s = s\<lparr>out := out s @ [e]\<rparr>"

definition mod_stats :: "(stats \<Rightarrow> stats) \<Rightarrow> client \<Rightarrow> client" where
  "mod_stats f s = s\<lparr>stats_of := f (stats_of s)\<rparr>"

definition addTimer :: "int \<Rightarrow> timer_callback \<Rightarrow> client \<Rightarrow> nat \<times> client" where
  "addTimer ms cb s = (nextTimer s, log_out (AddTimer (nextTimer s) ms cb) (s\<lparr>nextTimer := nextTimer s + 1\<rparr>))"

definition later :: "int \<Rightarrow> timer_callback \<Rightarrow> client \<Rightarrow> client" where
  "later ms cb s = snd (addTimer ms cb s)"

section \<open>The order table\<close>

definition track :: "cloid \<Rightarrow> client \<Rightarrow> client" where
  "track c s =
     (let t = (case orders s c of Some t \<Rightarrow> t | None \<Rightarrow> default_tracked)
      in s\<lparr>orders := (orders s)(c \<mapsto> mod_order (\<lambda>o'. o'\<lparr>o_cloid := c\<rparr>) t)\<rparr>)"

definition find_order :: "cloid \<Rightarrow> client \<Rightarrow> cloid option" where
  "find_order c s = (if orders s c \<noteq> None then Some c else None)"

definition findByOid :: "u64 \<Rightarrow> client \<Rightarrow> cloid option" where
  "findByOid oid s =
     (if oid = 0 then None
      else case oidIndex s oid of None \<Rightarrow> None | Some c \<Rightarrow> find_order c s)"

definition findOrder :: "cloid \<Rightarrow> client \<Rightarrow> order option" where
  "findOrder c s = map_option t_order (orders s c)"

text \<open>Changing the order a pointer refers to, and with it the index.\<close>

definition upd :: "cloid \<Rightarrow> (tracked \<Rightarrow> tracked) \<Rightarrow> client \<Rightarrow> client" where
  "upd c f s = (case orders s c of None \<Rightarrow> s | Some t \<Rightarrow> s\<lparr>orders := (orders s)(c \<mapsto> f t)\<rparr>)"

definition upd_ix :: "cloid \<Rightarrow> (tracked \<Rightarrow> oid_index \<Rightarrow> tracked \<times> oid_index) \<Rightarrow> client \<Rightarrow> client" where
  "upd_ix c f s = (case orders s c of None \<Rightarrow> s
     | Some t \<Rightarrow> (let (t, ix) = f t (oidIndex s) in s\<lparr>orders := (orders s)(c \<mapsto> t), oidIndex := ix\<rparr>))"

definition emit :: "cloid \<Rightarrow> client \<Rightarrow> client" where
  "emit c s = (case orders s c of None \<Rightarrow> s
     | Some t \<Rightarrow>
         if t_emitted t = observe (t_order t) then s
         else
           let t = mod_order (\<lambda>o'. o'\<lparr>o_updatedMs := clock s\<rparr>) (t\<lparr>t_emitted := observe (t_order t)\<rparr>)
           in log_out (OnOrderUpdate (t_order t)) (s\<lparr>orders := (orders s)(c \<mapsto> t)\<rparr>))"

definition nextCloid :: "client \<Rightarrow> cloid \<times> client" where
  "nextCloid s = (Cloid (cloidSession s) (cloidCounter s + 1), s\<lparr>cloidCounter := cloidCounter s + 1\<rparr>)"

definition nextNonce :: "client \<Rightarrow> u64 \<times> client" where
  "nextNonce s =
     (let c = nonce_candidate (word_of_int (clock s)) (lastNonce s) in (c, s\<lparr>lastNonce := c\<rparr>))"

definition liveOrders :: "cloid list \<Rightarrow> string \<Rightarrow> client \<Rightarrow> order list" where
  "liveOrders iter coin s =
     filter (\<lambda>o'. isLive o' \<and> (coin = [] \<or> o_coin o' = coin)) (List.map_filter (\<lambda>c. findOrder c s) iter)"

definition position_of :: "string \<Rightarrow> client \<Rightarrow> decimal" where
  "position_of coin s = (case positions s coin of None \<Rightarrow> dec_zero | Some p \<Rightarrow> ps_size p)"

definition spotTokenBalance :: "string \<Rightarrow> client \<Rightarrow> decimal" where
  "spotTokenBalance token s = (case spotTokens s token of None \<Rightarrow> dec_zero | Some d \<Rightarrow> d)"

definition try_emplace :: "string \<Rightarrow> positionState \<Rightarrow> client \<Rightarrow> client" where
  "try_emplace coin p s =
     (if positions s coin = None then s\<lparr>positions := (positions s)(coin \<mapsto> p)\<rparr> else s)"

section \<open>Request budget\<close>

definition rateLimitStatus_of :: "client \<Rightarrow> rateLimitStatus" where
  "rateLimitStatus_of s =
     (rateLimit s)\<lparr>requestsUsed := requestsUsed (rateLimit s) + (addressUnitsUsed (stats_of s) - unitsAtLastRefresh s)\<rparr>"

definition countRateLimitUnits :: "pendingAction \<Rightarrow> client \<Rightarrow> client" where
  "countRateLimitUnits p s =
     (let s = mod_stats (\<lambda>st. st\<lparr>addressUnitsUsed := addressUnitsUsed st +
                (if pa_cloids p = [] then 1 else word_of_nat (length (pa_cloids p)))\<rparr>) s;
          status = rateLimitStatus_of s
      in if requestsCap status = 0 then s
         else if rateLimitWarnFraction (cfg s) \<le> ddiv (of_integer (uint (rl_remaining status))) (of_integer (uint (requestsCap status))) then s\<lparr>rateLimitWarned := False\<rparr>
         else if \<not> rateLimitWarned s then s\<lparr>rateLimitWarned := True\<rparr> else s)"

definition armRateLimitRefresh :: "client \<Rightarrow> client" where
  "armRateLimitRefresh s =
     (let (i, s) = addTimer (if requestsCap (rateLimit s) = 0 then 200 else rateLimitRefreshMs (cfg s)) TRateLimit s
      in s\<lparr>rateLimitTimer := i\<rparr>)"

definition onRateLimitTimer :: "client \<Rightarrow> client" where
  "onRateLimitTimer s =
     (let s = s\<lparr>rateLimitTimer := 0\<rparr> in
      if \<not> started s then s
      else let s = log_out (Query (QRateLimit (user s))) s
           in if started s \<and> rateLimitRefreshMs (cfg s) > 0 then armRateLimitRefresh s else s)"

definition onRateLimit :: "rateLimitStatus result \<Rightarrow> client \<Rightarrow> client" where
  "onRateLimit r s = (case r of Inl _ \<Rightarrow> s
     | Inr st \<Rightarrow> s\<lparr>rateLimit := st, unitsAtLastRefresh := addressUnitsUsed (stats_of s)\<rparr>)"

section \<open>Eviction\<close>

definition armEviction :: "client \<Rightarrow> client" where
  "armEviction s = (let (i, s) = addTimer kEvictionPeriodMs TEviction s in s\<lparr>evictionTimer := i\<rparr>)"

definition evict :: "int \<Rightarrow> cloid \<Rightarrow> client \<Rightarrow> client" where
  "evict cutoff c s = (case orders s c of None \<Rightarrow> s
     | Some t \<Rightarrow>
         let o' = t_order t in
         if isTerminal (o_state o') \<and> o_updatedMs o' < cutoff then
           let s = (if o_oid o' \<noteq> 0 then s\<lparr>oidIndex := (oidIndex s)(o_oid o' := None)\<rparr> else s)
           in s\<lparr>orders := (orders s)(c := None)\<rparr>
         else s)"

definition onEvictionTimer :: "cloid list \<Rightarrow> client \<Rightarrow> client" where
  "onEvictionTimer iter s =
     (let s = s\<lparr>evictionTimer := 0\<rparr>;
          cutoff = clock s - terminalOrderRetentionMs (cfg s);
          s = fold (evict cutoff) iter s
      in if started s then armEviction s else s)"

end
