(* ===== verification/HL_Exchange.thy ===== *)
theory HL_Exchange
  imports HL_ExchangeState
begin

text \<open>
  The operations of \<open>hl::ExchangeClient\<close> (\<open>src/om/ExchangeClient.cpp\<close>): reconciliation, the merge of
  acknowledgements, order updates and fills into the order table, order entry, the transport of
  signed actions, and start-up and readiness. The theory \<open>HL_Client\<close> has their properties.
\<close>

section \<open>Reconciliation\<close>

definition reconcile :: "cloid \<Rightarrow> client \<Rightarrow> client" where
  "reconcile c s =
     (let s = mod_stats (\<lambda>st. st\<lparr>reconciles := reconciles st + 1\<rparr>) s;
          probeOid = (case findOrder c s of Some o' \<Rightarrow> o_oid o' | None \<Rightarrow> 0)
      in if probeOid \<noteq> 0 then log_out (Query (QStatusByOid (user s) probeOid c)) s
         else log_out (Query (QStatusByCloid (user s) c)) s)"

definition onOrderStatus :: "cloid \<Rightarrow> orderStatusInfo result \<Rightarrow> client \<Rightarrow> client" where
  "onOrderStatus c r s = (case orders s c of None \<Rightarrow> s | Some t \<Rightarrow>
     (case r of
        Inl _ \<Rightarrow> later 2000 (TReconcile c) s
      | Inr info \<Rightarrow>
          if \<not> osi_found info then
            if state_of t \<noteq> PendingNew then s
            else if notFoundProbes t < kNotFoundProbes then
              later kNotFoundRetryMs (TNotFound c) (upd c (\<lambda>t. t\<lparr>notFoundProbes := notFoundProbes t + 1\<rparr>) s)
            else
              let s = upd c (set_state Rejected) s;
                  s = (if o_lastError (t_order t) = [] then upd c (set_error ''order not found on venue'') s else s)
              in emit c s
          else
            let s = upd c (\<lambda>t. t\<lparr>notFoundProbes := 0\<rparr>) s;
                venue = osi_order info in
            if o_oid (t_order t) \<noteq> 0 \<and> oo_oid venue \<noteq> 0 \<and> oo_oid venue \<noteq> o_oid (t_order t) then s
            else
              let s = upd_ix c (setOid (oo_oid venue)) s;
                  s = upd c (applyVenueStatus (osi_status info) (osi_statusText info) (oo_limitPx venue) (oo_origSz venue)) s
              in emit c s))"

definition onReconcileTimer :: "cloid \<Rightarrow> client \<Rightarrow> client" where
  "onReconcileTimer c s = (case orders s c of None \<Rightarrow> s
     | Some t \<Rightarrow> if isLive (t_order t) \<and> started s then reconcile c s else s)"

definition onNotFoundTimer :: "cloid \<Rightarrow> client \<Rightarrow> client" where
  "onNotFoundTimer c s = (case orders s c of None \<Rightarrow> s
     | Some t \<Rightarrow> if state_of t = PendingNew then reconcile c s else s)"

definition reconcileAmended :: "cloid \<Rightarrow> client \<Rightarrow> client" where
  "reconcileAmended c s =
     log_out (Query (QAmended (user s) c)) (mod_stats (\<lambda>st. st\<lparr>reconciles := reconciles st + 1\<rparr>) s)"

text \<open>Adopt the listed order as the current generation of a known order.\<close>

definition adopt_generation :: "cloid \<Rightarrow> openOrder \<Rightarrow> client \<Rightarrow> client" where
  "adopt_generation c listed s =
     (let s = upd_ix c (setOid (oo_oid listed)) s;
          s = upd c (applyVenueStatus UOpen ''open'' (oo_limitPx listed) (oo_origSz listed)) s
      in emit c s)"

definition onAmendedListing :: "cloid \<Rightarrow> openOrder list result \<Rightarrow> client \<Rightarrow> client" where
  "onAmendedListing c r s = (case orders s c of None \<Rightarrow> s | Some t \<Rightarrow>
     (case r of
        Inl _ \<Rightarrow> reconcile c s
      | Inr listing \<Rightarrow>
          (case List.find (\<lambda>listed. oo_cloid listed = Some c) listing of
             Some listed \<Rightarrow> adopt_generation c listed s
           | None \<Rightarrow> reconcile c s)))"

section \<open>Adopting orders from a listing\<close>

fun occurs_in :: "string \<Rightarrow> string \<Rightarrow> bool" where
  "occurs_in pat [] = (pat = [])"
| "occurs_in pat (c # s) = (take (length pat) (c # s) = pat \<or> occurs_in pat s)"

definition trigger_of_listing :: "openOrder \<Rightarrow> triggerSpec" where
  "trigger_of_listing listed = \<lparr>triggerPx = oo_triggerPx listed, isMarket = occurs_in ''Market'' (oo_orderType listed),
     trigger_kind_of = (if occurs_in ''Take Profit'' (oo_orderType listed) then TakeProfit else StopLoss)\<rparr>"

definition revive :: "cloid \<Rightarrow> openOrder \<Rightarrow> client \<Rightarrow> client" where
  "revive c listed s =
     (let s = upd c (\<lambda>t. set_error [] (set_state Open t)) s;
          s = upd_ix c (setOid (oo_oid listed)) s;
          s = upd c (seedFilled listed) s;
          s = upd c (applyVenueStatus UOpen ''open'' (oo_limitPx listed) (oo_origSz listed)) s
      in emit c s)"

definition fresh_from_listing :: "openOrder \<Rightarrow> registry \<Rightarrow> tracked \<Rightarrow> tracked" where
  "fresh_from_listing listed reg t =
     (let t = mod_order (\<lambda>o'. o'\<lparr>o_external := (oo_cloid listed = None), o_coin := oo_coin listed,
                o_asset := (case reg_find reg (oo_coin listed) of Some a \<Rightarrow> asset a | None \<Rightarrow> o_asset o'),
                o_side := oo_side listed, o_px := oo_limitPx listed, o_origSz := oo_origSz listed\<rparr>) t;
          t = seedFilled listed t;
          t = mod_order (\<lambda>o'. o'\<lparr>o_reduceOnly := oo_reduceOnly listed, o_isTrigger := oo_isTrigger listed,
                o_trigger := (if oo_isTrigger listed then Some (trigger_of_listing listed) else o_trigger o')\<rparr>) t;
          t = set_state (open_state t) t
      in mod_order (\<lambda>o'. o'\<lparr>o_createdMs := oo_timestampMs listed\<rparr>) t)"

definition adopt_one :: "openOrder \<Rightarrow> client \<times> nat \<Rightarrow> client \<times> nat" where
  "adopt_one listed sn =
     (let (s, adopted) = sn;
          c = (case oo_cloid listed of Some c \<Rightarrow> c | None \<Rightarrow> Cloid kExternalCloidHigh (oo_oid listed)) in
      case orders s c of
        Some known \<Rightarrow>
          if isTerminal (state_of known) \<and> o_oid (t_order known) \<noteq> oo_oid listed
          then (revive c listed s, adopted + 1) else (s, adopted)
      | None \<Rightarrow>
          if findByOid (oo_oid listed) s \<noteq> None then (s, adopted)
          else
            let s = track c s;
                s = upd c (fresh_from_listing listed (assets s)) s;
                s = upd_ix c (setOid (oo_oid listed)) s
            in (emit c s, adopted + 1))"

definition adoptFromListing :: "openOrder list \<Rightarrow> client \<Rightarrow> client \<times> nat" where
  "adoptFromListing listing s = fold adopt_one listing (s, 0)"

section \<open>Reconciling every live order\<close>

definition reconcileAll :: "cloid list \<Rightarrow> client \<Rightarrow> client" where
  "reconcileAll iter s =
     (let live = filter (\<lambda>c. case orders s c of Some t \<Rightarrow> isLive (t_order t) | None \<Rightarrow> False) iter in
      if live = [] \<and> \<not> adoptExistingOrders (cfg s) then s
      else log_out (Query (QReconcileAll (user s) live)) (mod_stats (\<lambda>st. st\<lparr>reconciles := reconciles st + 1\<rparr>) s))"

fun reconcileAll_loop :: "openOrder list \<Rightarrow> cloid list \<Rightarrow> client \<times> cloid list \<Rightarrow> client \<times> cloid list" where
  "reconcileAll_loop listing [] su = su"
| "reconcileAll_loop listing (c # cs) (s, unresolved) =
     (case orders s c of
        None \<Rightarrow> reconcileAll_loop listing cs (s, unresolved)
      | Some t \<Rightarrow>
          if \<not> isLive (t_order t) then reconcileAll_loop listing cs (s, unresolved)
          else
            case List.find (\<lambda>listed. oo_cloid listed = Some c \<or>
                   (o_oid (t_order t) \<noteq> 0 \<and> oo_oid listed = o_oid (t_order t))) listing of
              None \<Rightarrow> reconcileAll_loop listing cs (s, unresolved @ [c])
            | Some listed \<Rightarrow> reconcileAll_loop listing cs (adopt_generation c listed s, unresolved))"

definition onReconcileAllListing :: "cloid list \<Rightarrow> openOrder list result \<Rightarrow> client \<Rightarrow> client" where
  "onReconcileAllListing live r s =
     (case r of
        Inl _ \<Rightarrow> fold reconcile live s
      | Inr listing \<Rightarrow>
          let (s, unresolved) = reconcileAll_loop listing live (s, []);
              s = fold reconcile unresolved s
          in if adoptExistingOrders (cfg s) then fst (adoptFromListing listing s) else s)"

section \<open>Results of actions\<close>

definition set_cancelPending :: "bool \<Rightarrow> tracked \<Rightarrow> tracked" where
  "set_cancelPending b = mod_order (\<lambda>o'. o'\<lparr>o_cancelPending := b\<rparr>)"

definition set_modifyPending :: "bool \<Rightarrow> tracked \<Rightarrow> tracked" where
  "set_modifyPending b = mod_order (\<lambda>o'. o'\<lparr>o_modifyPending := b\<rparr>)"

definition result_error :: "cloid \<Rightarrow> pendingAction \<Rightarrow> error \<Rightarrow> client \<Rightarrow> client" where
  "result_error c p err s =
     (let s = upd c (set_error (message err)) s;
          s = (case pa_kind p of
                 KOrder \<Rightarrow>
                   if isTransportFailure err then reconcile c s
                   else upd c (\<lambda>t. if state_of t = PendingNew then set_state Rejected t else t) s
               | KCancel \<Rightarrow>
                   (let s = upd c (set_cancelPending False) s
                    in if isTransportFailure err then reconcile c s else s)
               | KModify \<Rightarrow>
                   (let s = upd c (set_modifyPending False) s
                    in if isTransportFailure err \<or>
                          (case orders s c of Some t \<Rightarrow> canceledDuringModify t | None \<Rightarrow> False)
                       then reconcileAmended c s else s)
               | KOther \<Rightarrow> s)
      in emit c s)"

definition result_short :: "cloid \<Rightarrow> pendingAction \<Rightarrow> actionStatus list \<Rightarrow> client \<Rightarrow> client" where
  "result_short c p sts s =
     (if length sts = 1 \<and> st_kind (hd sts) = StError then
        let s = upd c (set_error (st_error (hd sts))) s;
            s = upd c (\<lambda>t.
                  if pa_kind p = KOrder \<and> state_of t = PendingNew then set_state Rejected t
                  else if pa_kind p = KCancel then set_cancelPending False t
                  else if pa_kind p = KModify then set_modifyPending False t else t) s
        in emit c s
      else reconcile c s)"

definition modify_accepted :: "nat \<Rightarrow> pendingAction \<Rightarrow> actionStatus \<Rightarrow> tracked \<Rightarrow> oid_index \<Rightarrow> tracked \<times> oid_index" where
  "modify_accepted i p st t ix =
     (let t = (if i < length (modifyTargets p)
               then mod_order (\<lambda>o'. o'\<lparr>o_px := fst (modifyTargets p ! i), o_origSz := snd (modifyTargets p ! i)\<rparr>) t
               else t);
          t = (if modifyTrigger p \<noteq> None
               then mod_order (\<lambda>o'. o'\<lparr>o_trigger := modifyTrigger p, o_isTrigger := True\<rparr>) t else t);
          (t, ix) = (if st_oid st \<noteq> 0 \<and> st_oid st \<noteq> o_oid (t_order t)
                     then setOid (st_oid st)
                            (if o_oid (t_order t) \<noteq> 0 then retireOid (o_oid (t_order t)) t else t) ix
                     else (t, ix));
          t = t\<lparr>canceledDuringModify := False\<rparr>;
          (t, ix) = applyAck st t ix
      in (set_error [] t, ix))"

definition result_status :: "nat \<Rightarrow> cloid \<Rightarrow> pendingAction \<Rightarrow> actionStatus \<Rightarrow> client \<Rightarrow> client" where
  "result_status i c p st s =
     (let s = (case pa_kind p of
                 KOrder \<Rightarrow> upd_ix c (applyAck st) s
               | KCancel \<Rightarrow>
                   (let s = upd c (set_cancelPending False) s
                    in if st_kind st = Success
                       then upd c (\<lambda>t. if \<not> isTerminal (state_of t) then set_state Canceled t else t) s
                       else reconcile c (upd c (set_error (st_error st)) s))
               | KModify \<Rightarrow>
                   (let s = upd c (set_modifyPending False) s
                    in if st_kind st = StError then reconcileAmended c (upd c (set_error (st_error st)) s)
                       else upd_ix c (modify_accepted i p st) s)
               | KOther \<Rightarrow> s)
      in emit c s)"

definition apply_one_result ::
  "pendingAction \<Rightarrow> exchangeResponse result \<Rightarrow> nat \<Rightarrow> cloid \<Rightarrow> client \<Rightarrow> client" where
  "apply_one_result p result i c s =
     (if orders s c = None then s
      else case result of
        Inl err \<Rightarrow> result_error c p err s
      | Inr resp \<Rightarrow>
          if statuses resp = [] then s
          else if i \<ge> length (statuses resp) then result_short c p (statuses resp) s
          else result_status i c p (statuses resp ! i) s)"

fun applyActionResult_loop ::
  "pendingAction \<Rightarrow> exchangeResponse result \<Rightarrow> nat \<Rightarrow> cloid list \<Rightarrow> client \<Rightarrow> client" where
  "applyActionResult_loop p result i [] s = s"
| "applyActionResult_loop p result i (c # cs) s =
     applyActionResult_loop p result (i + 1) cs (apply_one_result p result i c s)"

definition applyActionResult :: "pendingAction \<Rightarrow> exchangeResponse result \<Rightarrow> client \<Rightarrow> client" where
  "applyActionResult p result s = applyActionResult_loop p result 0 (pa_cloids p) s"

definition add_round_trip :: "actionKind \<Rightarrow> u32 \<Rightarrow> stats \<Rightarrow> stats" where
  "add_round_trip k us st = (case k of
     KOrder \<Rightarrow> st\<lparr>orderRoundTrip := lat_add us (orderRoundTrip st)\<rparr>
   | KCancel \<Rightarrow> st\<lparr>cancelRoundTrip := lat_add us (cancelRoundTrip st)\<rparr>
   | KModify \<Rightarrow> st\<lparr>modifyRoundTrip := lat_add us (modifyRoundTrip st)\<rparr>
   | KOther \<Rightarrow> st\<lparr>otherRoundTrip := lat_add us (otherRoundTrip st)\<rparr>)"

definition completeAction :: "u64 \<Rightarrow> exchangeResponse result \<Rightarrow> client \<Rightarrow> client" where
  "completeAction requestId result s = (case pending s requestId of None \<Rightarrow> s | Some p \<Rightarrow>
     let s = s\<lparr>pending := (pending s)(requestId := None)\<rparr>;
         s = (if pa_timer p \<noteq> 0 then log_out (CancelTimer (pa_timer p)) s else s);
         s = (if pa_sent p then mod_stats (add_round_trip (pa_kind p) (elapsedUs (measured_us s))) s else s);
         s = (case result of
                Inl e \<Rightarrow> mod_stats (\<lambda>st. st\<lparr>actionErrors := actionErrors st + 1,
                             timeouts := (if err_kind e = Timeout then timeouts st + 1 else timeouts st)\<rparr>) s
              | Inr _ \<Rightarrow> s);
         s = applyActionResult p result s
     in case pa_callback p of Some cb \<Rightarrow> log_out (ActionCallback cb result) s | None \<Rightarrow> s)"

section \<open>Transport\<close>

definition emplace :: "('k \<rightharpoonup> 'v) \<Rightarrow> 'k \<Rightarrow> 'v \<Rightarrow> ('k \<rightharpoonup> 'v)" where
  "emplace m k v = (if m k = None then m(k \<mapsto> v) else m)"

text \<open>
  The stream reports its end from inside \<open>session_.send\<close> when the write fails or the send buffer is full; the session then
  calls \<open>onSessionClosed\<close> before \<open>send\<close> returns. \<open>send_breaks\<close> says whether it does, with the order in which the pending
  requests are walked and the reason, and \<open>send_ok\<close> is what \<open>send\<close> returns.
\<close>

definition onSessionClosed :: "u64 list \<Rightarrow> string \<Rightarrow> client \<Rightarrow> client" where
  "onSessionClosed iter reason s =
     (let s = s\<lparr>ready := False, orderUpdatesAcked := False, userFillsAcked := False\<rparr>;
          lost = filter (\<lambda>i. case pending s i of Some p \<Rightarrow> viaWebSocket p | None \<Rightarrow> False) iter;
          s = fold (\<lambda>i. completeAction i (Inl (mk_error Transport (''WebSocket closed: '' @ reason)))) lost s
      in log_out (OnDisconnected reason) s)"

definition session_send :: "string \<Rightarrow> client \<Rightarrow> client" where
  "session_send frame s =
     (let s = log_out (SessionSend frame) s in
      case send_breaks s of
        None \<Rightarrow> s
      | Some (iter, reason) \<Rightarrow> onSessionClosed iter reason (s\<lparr>session_open := False\<rparr>))"

definition send :: "encodedAction \<Rightarrow> pendingAction \<Rightarrow> client \<Rightarrow> client" where
  "send action p s =
     (let i = nextRequestId s;
          s = s\<lparr>nextRequestId := nextRequestId s + 1\<rparr>;
          s = mod_stats (\<lambda>st. st\<lparr>actionsSent := actionsSent st + 1\<rparr>) s;
          s = countRateLimitUnits p s;
          s = mod_stats (\<lambda>st. st\<lparr>rateLimitHits := http_rate_hits s\<rparr>) s;
          expiresAfter = (if actionExpiryMs (cfg s) > 0
                          then Some (word_of_int (clock s + actionExpiryMs (cfg s))) else None);
          (nonce, s) = nextNonce s;
          p = p\<lparr>pa_sent := True\<rparr>;
          s = mod_stats (\<lambda>st. st\<lparr>buildAndSign := lat_add (elapsedUs (measured_us s)) (buildAndSign st)\<rparr>) s
      in if transport (cfg s) = WebSocketTransport \<and> session_open s then
           let frame = wsPostAction (builder s) i action nonce expiresAfter;
               (tm, s) = addTimer (requestTimeoutMs (cfg s)) (TActionTimeout i) s;
               s = s\<lparr>pending := emplace (pending s) i (p\<lparr>viaWebSocket := True, pa_timer := tm\<rparr>)\<rparr>;
               s = session_send frame s
           in if \<not> send_ok s then completeAction i (Inl (mk_error Transport ''WebSocket send failed'')) s else s
         else
           let body = payload (builder s) action nonce expiresAfter;
               s = mod_stats (\<lambda>st. st\<lparr>actionsViaHttp := actionsViaHttp st + 1\<rparr>) s;
               s = s\<lparr>pending := emplace (pending s) i p\<rparr>
           in log_out (HttpPost i body) s)"

definition onActionTimeout :: "u64 \<Rightarrow> client \<Rightarrow> client" where
  "onActionTimeout i s =
     (let s = (case pending s i of Some p \<Rightarrow> s\<lparr>pending := (pending s)(i \<mapsto> p\<lparr>pa_timer := 0\<rparr>)\<rparr> | None \<Rightarrow> s)
      in completeAction i (Inl (mk_error Timeout ''no response to WebSocket post'')) s)"

definition onHttpResponse ::
  "(string \<Rightarrow> json option) \<Rightarrow> (json \<Rightarrow> string) \<Rightarrow> u64 \<Rightarrow> error \<Rightarrow> string \<Rightarrow> client \<Rightarrow> client" where
  "onHttpResponse parse_json minify i err body s =
     (if is_error err \<and> body = [] then completeAction i (Inl err) s
      else
        case parseExchangeResponse parse_json minify body of
          Inl e \<Rightarrow> if is_error err then completeAction i (Inl (err\<lparr>message := message err @ '': '' @ take 300 body\<rparr>)) s
                   else completeAction i (Inl e) s
        | Inr r \<Rightarrow> completeAction i (Inr r) s)"

definition onPostResponse ::
  "(string \<Rightarrow> json option) \<Rightarrow> (json \<Rightarrow> string) \<Rightarrow> postResponseMsg \<Rightarrow> client \<Rightarrow> client" where
  "onPostResponse parse_json minify msg s =
     (case pendingInfo s (pr_id msg) of
        Some cb \<Rightarrow>
          let s = s\<lparr>pendingInfo := (pendingInfo s)(pr_id msg := None)\<rparr>
          in log_out (InfoCallback cb (if pr_type msg = PostError then Inl (mk_error Venue (pr_payload msg))
                                       else Inr (pr_payload msg))) s
      | None \<Rightarrow>
          (case pr_type msg of
             PostAction \<Rightarrow> completeAction (pr_id msg) (parseExchangeResponse parse_json minify (pr_payload msg)) s
           | PostError \<Rightarrow> completeAction (pr_id msg) (Inl (mk_error Venue (pr_payload msg))) s
           | PostInfo \<Rightarrow> s))"

definition take_info :: "u64 \<Rightarrow> error \<Rightarrow> client \<Rightarrow> client" where
  "take_info i e s = (case pendingInfo s i of None \<Rightarrow> s
     | Some cb \<Rightarrow> log_out (InfoCallback cb (Inl e)) (s\<lparr>pendingInfo := (pendingInfo s)(i := None)\<rparr>))"

definition infoOverWebSocket :: "string \<Rightarrow> nat \<Rightarrow> client \<Rightarrow> client" where
  "infoOverWebSocket infoJson cb s =
     (if \<not> session_open s then log_out (InfoCallback cb (Inl (mk_error Transport ''WebSocket is not connected''))) s
      else
        let i = nextRequestId s;
            s = s\<lparr>nextRequestId := nextRequestId s + 1, pendingInfo := emplace (pendingInfo s) i cb\<rparr>;
            s = session_send (wsInfo i infoJson) s
        in if \<not> send_ok s then take_info i (mk_error Transport ''WebSocket send failed'') s
           else later (requestTimeoutMs (cfg s)) (TInfoTimeout i) s)"

definition onInfoTimeout :: "u64 \<Rightarrow> client \<Rightarrow> client" where
  "onInfoTimeout i s = take_info i (mk_error Timeout ''no response to WebSocket info request'') s"

section \<open>Order updates and fills\<close>

definition is_external_cloid :: "orderUpdateMsg \<Rightarrow> cloid" where
  "is_external_cloid u = (case u_cloid u of Some c \<Rightarrow> c | None \<Rightarrow> Cloid kExternalCloidHigh (u_oid u))"

definition locate :: "cloid option \<Rightarrow> u64 \<Rightarrow> client \<Rightarrow> cloid option" where
  "locate co oid s =
     (case (case co of Some c \<Rightarrow> find_order c s | None \<Rightarrow> None) of
        Some c \<Rightarrow> Some c
      | None \<Rightarrow> findByOid oid s)"

definition fresh_from_update :: "orderUpdateMsg \<Rightarrow> registry \<Rightarrow> tracked \<Rightarrow> tracked" where
  "fresh_from_update u reg = mod_order (\<lambda>o'. o'\<lparr>o_external := True, o_coin := u_coin u,
     o_asset := (case reg_find reg (u_coin u) of Some a \<Rightarrow> asset a | None \<Rightarrow> o_asset o'),
     o_side := u_side u, o_px := u_limitPx u, o_origSz := u_origSz u, o_createdMs := u_timestampMs u\<rparr>)"

definition track_update :: "orderUpdateMsg \<Rightarrow> client \<Rightarrow> cloid \<times> client" where
  "track_update u s =
     (let c = is_external_cloid u;
          s = track c s;
          s = upd c (fresh_from_update u (assets s)) s
      in (c, upd_ix c (setOid (u_oid u)) s))"

text \<open>
  The generation checks of an update: \<open>None\<close> when the update is skipped, otherwise the order with
  the id it carries from now on.
\<close>

definition update_generation ::
  "orderUpdateMsg \<Rightarrow> tracked \<Rightarrow> oid_index \<Rightarrow> (tracked \<times> oid_index) option" where
  "update_generation u t ix =
     (let oid = o_oid (t_order t) in
      if u_oid u \<noteq> 0 \<and> oid \<noteq> 0 \<and> u_oid u \<noteq> oid then
        if u_oid u < oid then None
        else if u_oid u \<in> set (retiredOids t) then None
        else if o_modifyPending (t_order t) then
          if u_status u \<noteq> UOpen \<and> u_status u \<noteq> UFilled \<and> u_status u \<noteq> UTriggered then None
          else Some (setOid (u_oid u) (retireOid oid t) ix)
        else Some (setOid (u_oid u) t ix)
      else if u_oid u \<noteq> 0 \<and> oid = 0 then Some (setOid (u_oid u) t ix)
      else Some (t, ix))"

definition onOrderUpdate :: "orderUpdateMsg \<Rightarrow> client \<Rightarrow> client" where
  "onOrderUpdate u s =
     (let (c, s) = (case locate (u_cloid u) (u_oid u) s of Some c \<Rightarrow> (c, s) | None \<Rightarrow> track_update u s) in
      case orders s c of None \<Rightarrow> s | Some t \<Rightarrow>
        (case update_generation u t (oidIndex s) of
           None \<Rightarrow> s
         | Some (t, ix) \<Rightarrow>
             let s = s\<lparr>orders := (orders s)(c \<mapsto> t), oidIndex := ix\<rparr> in
             if o_modifyPending (t_order t) \<and> u_oid u = o_oid (t_order t) \<and> u_status u = UCanceled
             then upd c (\<lambda>t. t\<lparr>canceledDuringModify := True\<rparr>) s
             else emit c (upd c (applyVenueStatus (u_status u) (u_statusText u) (u_limitPx u) (u_origSz u)) s)))"

definition onOrderUpdates :: "orderUpdateMsg list \<Rightarrow> client \<Rightarrow> client" where
  "onOrderUpdates us s = fold onOrderUpdate us s"

definition remember_tid :: "u64 \<Rightarrow> client \<Rightarrow> client" where
  "remember_tid tid s =
     (let s = s\<lparr>seenTids := insert tid (seenTids s), seenTidOrder := seenTidOrder s @ [tid]\<rparr>
      in if length (seenTidOrder s) > kMaxRememberedTids
         then s\<lparr>seenTids := seenTids s - {hd (seenTidOrder s)}, seenTidOrder := tl (seenTidOrder s)\<rparr>
         else s)"

definition apply_position :: "fillMsg \<Rightarrow> client \<Rightarrow> client" where
  "apply_position f s =
     (let p = (case positions s (f_coin f) of Some p \<Rightarrow> p | None \<Rightarrow> \<lparr>ps_size = dec_zero, lastFillMs = 0\<rparr>);
          p = (if f_timeMs f \<ge> lastFillMs p then \<lparr>ps_size = endPosition f, lastFillMs = f_timeMs f\<rparr> else p)
      in s\<lparr>positions := (positions s)(f_coin f \<mapsto> p)\<rparr>)"

definition add_fill :: "fillMsg \<Rightarrow> tracked \<Rightarrow> tracked" where
  "add_fill f t =
     (let t = recomputeFills (t\<lparr>fillSum := dec_add (fillSum t) (f_sz f),
                fillNotional := fillNotional t + raw (f_px f) * raw (f_sz f)\<rparr>)
      in if \<not> isTerminal (state_of t)
         then set_state (if o_filledSz (t_order t) \<ge> o_origSz (t_order t) then Filled else PartiallyFilled) t
         else t)"

definition fill_order :: "fillMsg \<Rightarrow> cloid \<Rightarrow> client \<Rightarrow> client" where
  "fill_order f c s = (case orders s c of None \<Rightarrow> s | Some t \<Rightarrow>
     let oid = o_oid (t_order t);
         other = (f_oid f \<noteq> 0 \<and> oid \<noteq> 0 \<and> f_oid f \<noteq> oid) in
     if other \<and> f_oid f < oid then s
     else
       let s = (if other then upd_ix c (setOid (f_oid f)) s else s)
       in emit c (upd c (add_fill f) s))"

definition onUserFill :: "bool \<Rightarrow> fillMsg \<Rightarrow> client \<Rightarrow> client" where
  "onUserFill historical f s =
     (if f_tid f \<in> seenTids s then s
      else
        let s = remember_tid (f_tid f) s in
        if historical then s
        else
          let s = mod_stats (\<lambda>st. st\<lparr>n_fills := n_fills st + 1\<rparr>) s;
              s = apply_position f s;
              found = locate (f_cloid f) (f_oid f) s;
              s = log_out (OnFill f) s
          in case found of None \<Rightarrow> s | Some c \<Rightarrow> fill_order f c s)"

definition onUserFills :: "userFillsMsg \<Rightarrow> client \<Rightarrow> client" where
  "onUserFills msg s =
     (let historical = (uf_isSnapshot msg \<and> \<not> fillsSnapshotSeen s);
          s = (if uf_isSnapshot msg then s\<lparr>fillsSnapshotSeen := True\<rparr> else s)
      in fold (onUserFill historical) (uf_fills msg) s)"

definition onNonUserCancel :: "string \<times> u64 \<Rightarrow> client \<Rightarrow> client" where
  "onNonUserCancel m s = (case findByOid (snd m) s of None \<Rightarrow> s
     | Some c \<Rightarrow> emit c (upd c (applyVenueStatus UCanceled ''canceledByVenue'' dec_zero dec_zero) s))"

definition onNonUserCancels :: "(string \<times> u64) list \<Rightarrow> client \<Rightarrow> client" where
  "onNonUserCancels ms s = fold onNonUserCancel ms s"

end
