(* ===== verification/HL_OrderEntry.thy ===== *)
theory HL_OrderEntry
  imports HL_Exchange
begin

text \<open>
  The public methods of \<open>hl::ExchangeClient\<close> that a strategy calls (\<open>src/om/ExchangeClient.cpp\<close>, from
  \<open>checkReady\<close> to \<open>submitAction\<close>), and its life cycle: construction, start and stop, start-up
  queries, readiness and the session's events. A method that returns an \<open>Error\<close> returns the
  new state and the error, which is \<open>no_error\<close> on success.
\<close>

section \<open>Order entry\<close>

record orderRequest =
  r_coin :: string
  r_side :: side
  r_px :: decimal
  r_sz :: decimal
  r_tif :: tif
  r_reduceOnly :: bool
  r_trigger :: "triggerSpec option"
  r_cloid :: "cloid option"

definition rejected :: "string \<Rightarrow> error" where
  "rejected m = mk_error ErrRejected m"

definition single_quoted :: "string \<Rightarrow> string" where
  "single_quoted s = CHR 0x27 # s @ [CHR 0x27]"

definition checkReady :: "client \<Rightarrow> error" where
  "checkReady s =
     (if \<not> started s then rejected ''client not started''
      else if \<not> assetsLoaded s then rejected ''asset metadata not loaded yet''
      else no_error)"

definition buildWire :: "orderRequest \<Rightarrow> cloid \<Rightarrow> client \<Rightarrow> orderWire result" where
  "buildWire req c s =
     (if \<not> isValidCoinName (r_coin req)
      then Inl (rejected ''coin name contains characters that are not valid on this venue'')
      else case reg_find (assets s) (r_coin req) of
        None \<Rightarrow> Inl (rejected (''unknown coin '' @ single_quoted (r_coin req)))
      | Some a \<Rightarrow>
          if isDelisted a then Inl (rejected (r_coin req @ '' is delisted''))
          else if raw (r_px req) \<le> 0 \<or> raw (r_sz req) \<le> 0 then Inl (rejected ''price and size must be positive'')
          else if \<not> isValidPx a (r_px req) then
            Inl (rejected (''invalid price '' @ dec_toString (r_px req) @ '' for '' @ r_coin req @
              '' (nearest valid '' @ dec_toString (roundPx a (r_px req) Nearest) @ '')''))
          else if \<not> isValidSz a (r_sz req) then
            Inl (rejected (''invalid size '' @ dec_toString (r_sz req) @ '' for '' @ r_coin req @
              '' (szDecimals '' @ int_text (szDecimals a) @ '')''))
          else if (case r_trigger req of Some t \<Rightarrow> \<not> isValidPx a (triggerPx t) | None \<Rightarrow> False) then
            Inl (rejected (''invalid trigger price '' @
              (case r_trigger req of Some t \<Rightarrow> dec_toString (triggerPx t) | None \<Rightarrow> [])))
          else Inr \<lparr>ow_asset = asset a, ow_isBuy = (r_side req = Buy), ow_px = r_px req, ow_sz = r_sz req,
                 ow_reduceOnly = r_reduceOnly req, ow_tif = r_tif req, ow_trigger = r_trigger req, ow_cloid = Some c\<rparr>)"

text \<open>The first loop: \<open>value_or\<close> evaluates \<open>nextCloid()\<close> also when the request carries an id.\<close>

fun place_build ::
  "orderRequest list \<Rightarrow> orderWire list \<Rightarrow> cloid list \<Rightarrow> client \<Rightarrow> client \<times> (orderWire list \<times> cloid list) result" where
  "place_build [] wires cloids s = (s, Inr (wires, cloids))"
| "place_build (req # reqs) wires cloids s =
     (let (fresh, s) = nextCloid s;
          c = (case r_cloid req of Some c \<Rightarrow> c | None \<Rightarrow> fresh) in
      if orders s c \<noteq> None then (s, Inl (rejected (''duplicate cloid '' @ cloid_toString c)))
      else case buildWire req c s of
        Inl e \<Rightarrow> (s, Inl e)
      | Inr w \<Rightarrow> place_build reqs (wires @ [w]) (cloids @ [c]) s)"

definition request_order :: "orderRequest \<Rightarrow> orderWire \<Rightarrow> int \<Rightarrow> order \<Rightarrow> order" where
  "request_order req w now o' = o'\<lparr>o_coin := r_coin req, o_asset := ow_asset w, o_side := r_side req,
     o_px := r_px req, o_origSz := r_sz req, o_tif := r_tif req, o_reduceOnly := r_reduceOnly req,
     o_trigger := r_trigger req, o_isTrigger := (r_trigger req \<noteq> None), o_state := PendingNew,
     o_createdMs := now, o_updatedMs := now\<rparr>"

fun place_track :: "int \<Rightarrow> orderRequest list \<Rightarrow> orderWire list \<Rightarrow> cloid list \<Rightarrow> client \<Rightarrow> client" where
  "place_track now (req # reqs) (w # ws) (c # cs) s =
     place_track now reqs ws cs (upd c (mod_order (request_order req w now)) (track c s))"
| "place_track now reqs ws cs s = s"

definition placeOrders ::
  "orderRequest list \<Rightarrow> order_grouping \<Rightarrow> builderFee option \<Rightarrow> client \<Rightarrow> client \<times> cloid list result" where
  "placeOrders requests grouping fee s =
     (if is_error (checkReady s) then (s, Inl (checkReady s))
      else if requests = [] then (s, Inl (rejected ''no orders''))
      else case place_build requests [] [] s of
        (s, Inl e) \<Rightarrow> (s, Inl e)
      | (s, Inr (wires, cloids)) \<Rightarrow>
          let s = place_track (clock s) requests wires cloids s;
              p = default_pending\<lparr>pa_kind := KOrder, pa_cloids := cloids\<rparr>;
              fee = (if fee \<noteq> None then fee else cfg_builderFee (cfg s))
          in (send (act_order wires grouping fee) p s, Inr cloids))"

definition placeOrder :: "orderRequest \<Rightarrow> client \<Rightarrow> client \<times> cloid result" where
  "placeOrder req s =
     (case placeOrders [req] (GroupingOf Na) None s of
        (s, Inl e) \<Rightarrow> (s, Inl e)
      | (s, Inr cs) \<Rightarrow> (s, Inr (hd cs)))"

definition cancel :: "cloid \<Rightarrow> client \<Rightarrow> client \<times> error" where
  "cancel c s =
     (if is_error (checkReady s) then (s, checkReady s)
      else case orders s c of
        None \<Rightarrow> (s, rejected (''unknown order '' @ cloid_toString c))
      | Some t \<Rightarrow>
          let o' = t_order t in
          if \<not> isLive o' then
            (s, rejected (''order is not live ('' @ orderState_toString (o_state o') @ '')''))
          else if o_cancelPending o' then (s, rejected ''cancel already pending'')
          else
            let p = default_pending\<lparr>pa_kind := KCancel, pa_cloids := [c]\<rparr>;
                s' = upd c (set_cancelPending True) s;
                fast = (fastCancels (cfg s) \<and> \<not> o_isTrigger o') in
            if o_external o' then
              if o_oid o' = 0 then (upd c (set_cancelPending False) s', rejected ''external order without oid'')
              else (send (act_cancel [\<lparr>cw_asset = o_asset o', cw_oid = o_oid o'\<rparr>] fast) p s', no_error)
            else (send (act_cancelByCloid [\<lparr>cc_asset = o_asset o', cc_cloid = c\<rparr>] fast) p s', no_error))"

definition cancelByOid :: "string \<Rightarrow> u64 \<Rightarrow> client \<Rightarrow> client \<times> error" where
  "cancelByOid coin oid s =
     (if is_error (checkReady s) then (s, checkReady s)
      else case reg_find (assets s) coin of
        None \<Rightarrow> (s, rejected (''unknown coin '' @ single_quoted coin))
      | Some a \<Rightarrow>
          let (s, cloids) = (case findByOid oid s of
                Some c \<Rightarrow> (upd c (set_cancelPending True) s,
                           case orders s c of Some t \<Rightarrow> [o_cloid (t_order t)] | None \<Rightarrow> [])
              | None \<Rightarrow> (s, [Cloid 0 0]));
              p = default_pending\<lparr>pa_kind := KCancel, pa_cloids := cloids\<rparr>
          in (send (act_cancel [\<lparr>cw_asset = asset a, cw_oid = oid\<rparr>] False) p s, no_error))"

record cancel_lists =
  byCloid :: "cancelByCloidWire list"
  byOid :: "cancelWire list"
  cloidOrders :: "cloid list"
  oidOrders :: "cloid list"
  anyTrigger :: bool

definition cancelAll_collect :: "string \<Rightarrow> cloid \<Rightarrow> cancel_lists \<times> client \<Rightarrow> cancel_lists \<times> client" where
  "cancelAll_collect coin c ls =
     (let (l, s) = ls in
      case orders s c of None \<Rightarrow> (l, s) | Some t \<Rightarrow>
        let o' = t_order t in
        if \<not> isLive o' \<or> o_cancelPending o' \<or> (coin \<noteq> [] \<and> o_coin o' \<noteq> coin) then (l, s)
        else
          let l = l\<lparr>anyTrigger := (anyTrigger l \<or> o_isTrigger o')\<rparr> in
          if o_external o' then
            if o_oid o' = 0 then (l, s)
            else (l\<lparr>byOid := byOid l @ [\<lparr>cw_asset = o_asset o', cw_oid = o_oid o'\<rparr>], oidOrders := oidOrders l @ [c]\<rparr>,
                  upd c (set_cancelPending True) s)
          else (l\<lparr>byCloid := byCloid l @ [\<lparr>cc_asset = o_asset o', cc_cloid = c\<rparr>], cloidOrders := cloidOrders l @ [c]\<rparr>,
                upd c (set_cancelPending True) s))"

text \<open>The two batch loops; an iteration advances by \<open>kMaxBatchEntries\<close> entries.\<close>

function cloid_batches :: "bool \<Rightarrow> cancelByCloidWire list \<Rightarrow> cloid list \<Rightarrow> client \<Rightarrow> client" where
  "cloid_batches fast ws cs s =
     (if ws = [] then s
      else cloid_batches fast (drop kMaxBatchEntries ws) (drop kMaxBatchEntries cs)
             (send (act_cancelByCloid (take kMaxBatchEntries ws) fast)
                (default_pending\<lparr>pa_kind := KCancel, pa_cloids := take kMaxBatchEntries cs\<rparr>) s))"
  by pat_completeness auto
termination
  by (relation "measure (\<lambda>(fast, ws, cs, s). length ws)") (auto simp: kMaxBatchEntries_def)

function oid_batches :: "bool \<Rightarrow> cancelWire list \<Rightarrow> cloid list \<Rightarrow> client \<Rightarrow> client" where
  "oid_batches fast ws cs s =
     (if ws = [] then s
      else oid_batches fast (drop kMaxBatchEntries ws) (drop kMaxBatchEntries cs)
             (send (act_cancel (take kMaxBatchEntries ws) fast)
                (default_pending\<lparr>pa_kind := KCancel, pa_cloids := take kMaxBatchEntries cs\<rparr>) s))"
  by pat_completeness auto
termination
  by (relation "measure (\<lambda>(fast, ws, cs, s). length ws)") (auto simp: kMaxBatchEntries_def)

declare cloid_batches.simps [simp del] oid_batches.simps [simp del]

definition no_cancels :: cancel_lists where
  "no_cancels = \<lparr>byCloid = [], byOid = [], cloidOrders = [], oidOrders = [], anyTrigger = False\<rparr>"

definition cancelAll :: "cloid list \<Rightarrow> string \<Rightarrow> client \<Rightarrow> client \<times> error" where
  "cancelAll iter coin s =
     (if is_error (checkReady s) then (s, checkReady s)
      else
        let (l, s) = fold (cancelAll_collect coin) iter (no_cancels, s);
            fast = (fastCancels (cfg s) \<and> \<not> anyTrigger l);
            s = cloid_batches fast (byCloid l) (cloidOrders l) s;
            s = oid_batches fast (byOid l) (oidOrders l) s
        in (s, no_error))"

definition modify :: "cloid \<Rightarrow> decimal \<Rightarrow> decimal \<Rightarrow> triggerSpec option \<Rightarrow> client \<Rightarrow> client \<times> error" where
  "modify c newPx newSz newTrigger s =
     (if is_error (checkReady s) then (s, checkReady s)
      else case orders s c of
        None \<Rightarrow> (s, rejected (''unknown order '' @ cloid_toString c))
      | Some t \<Rightarrow>
          let o' = t_order t in
          if \<not> isLive o' \<or> o_cancelPending o' then (s, rejected ''order is not live or being canceled'')
          else if o_oid o' = 0 then (s, rejected ''order not acknowledged yet'')
          else if o_modifyPending o' then (s, rejected ''modify already pending'')
          else
            let req = \<lparr>r_coin = o_coin o', r_side = o_side o', r_px = newPx, r_sz = newSz, r_tif = o_tif o',
                       r_reduceOnly = o_reduceOnly o',
                       r_trigger = (if newTrigger \<noteq> None then newTrigger else o_trigger o'), r_cloid = None\<rparr> in
            case buildWire req c s of
              Inl e \<Rightarrow> (s, e)
            | Inr w \<Rightarrow>
                let m = \<lparr>mw_target = Inl (o_oid o'), mw_order = (if o_external o' then w\<lparr>ow_cloid := None\<rparr> else w)\<rparr>;
                    p = default_pending\<lparr>pa_kind := KModify, pa_cloids := [c], modifyTargets := [(newPx, newSz)],
                          modifyTrigger := newTrigger\<rparr>;
                    s = upd c (\<lambda>t. (set_modifyPending True t)\<lparr>canceledDuringModify := False\<rparr>) s
                in (send (act_batchModify [m]) p s, no_error))"

definition scheduleCancel :: "int option \<Rightarrow> callback \<Rightarrow> client \<Rightarrow> client \<times> error" where
  "scheduleCancel due cb s =
     (if \<not> started s then (s, rejected ''client not started'')
      else if (case due of Some t \<Rightarrow> t < clock s + 5000 | None \<Rightarrow> False)
      then (s, rejected ''scheduleCancel time must be at least 5 s in the future'')
      else (send (act_scheduleCancel (map_option word_of_int due)) (default_pending\<lparr>pa_callback := cb\<rparr>) s, no_error))"

definition updateLeverage :: "string \<Rightarrow> u32 \<Rightarrow> bool \<Rightarrow> callback \<Rightarrow> client \<Rightarrow> client \<times> error" where
  "updateLeverage coin leverage isCross cb s =
     (if is_error (checkReady s) then (s, checkReady s)
      else case reg_find (assets s) coin of
        None \<Rightarrow> (s, rejected (''unknown perp '' @ single_quoted coin))
      | Some a \<Rightarrow>
          if kind a \<noteq> Perp then (s, rejected (''unknown perp '' @ single_quoted coin))
          else if leverage = 0 \<or> (maxLeverage a \<noteq> 0 \<and> leverage > maxLeverage a)
          then (s, rejected (''leverage out of range (max '' @ to_chars (unat (maxLeverage a)) @ '')''))
          else (send (act_updateLeverage (asset a) isCross leverage) (default_pending\<lparr>pa_callback := cb\<rparr>) s, no_error))"

definition updateIsolatedMargin :: "string \<Rightarrow> decimal \<Rightarrow> callback \<Rightarrow> client \<Rightarrow> client \<times> error" where
  "updateIsolatedMargin coin usdc cb s =
     (if is_error (checkReady s) then (s, checkReady s)
      else case reg_find (assets s) coin of
        None \<Rightarrow> (s, rejected (''unknown perp '' @ single_quoted coin))
      | Some a \<Rightarrow>
          if kind a \<noteq> Perp then (s, rejected (''unknown perp '' @ single_quoted coin))
          else case act_updateIsolatedMargin (asset a) usdc of
            Inl e \<Rightarrow> (s, e)
          | Inr action \<Rightarrow> (send action (default_pending\<lparr>pa_callback := cb\<rparr>) s, no_error))"

definition reserveRequestWeight :: "u64 \<Rightarrow> callback \<Rightarrow> client \<Rightarrow> client \<times> error" where
  "reserveRequestWeight weight cb s =
     (if \<not> started s then (s, rejected ''client not started'')
      else (send (act_reserveRequestWeight weight) (default_pending\<lparr>pa_callback := cb\<rparr>) s, no_error))"

definition noop :: "callback \<Rightarrow> client \<Rightarrow> client \<times> error" where
  "noop cb s =
     (if \<not> started s then (s, rejected ''client not started'')
      else (send act_noop (default_pending\<lparr>pa_callback := cb\<rparr>) s, no_error))"

definition submitAction :: "encodedAction \<Rightarrow> callback \<Rightarrow> client \<Rightarrow> client" where
  "submitAction action cb s = send action (default_pending\<lparr>pa_callback := cb\<rparr>) s"

section \<open>Start-up and readiness\<close>

definition seedSpotPositions :: "client \<Rightarrow> client" where
  "seedSpotPositions s =
     (if \<not> spotBalancesLoaded s \<or> \<not> assetsLoaded s then s
      else fold (\<lambda>a s.
             if kind a \<noteq> Spot \<or> baseToken a = [] then s
             else case spotTokens s (baseToken a) of
               Some d \<Rightarrow> try_emplace (name a) \<lparr>ps_size = d, lastFillMs = 0\<rparr> s
             | None \<Rightarrow> s) (assets s) s)"

definition maybeReady :: "cloid list \<Rightarrow> client \<Rightarrow> client" where
  "maybeReady iter s =
     (if ready s \<or> \<not> started s \<or> \<not> assetsLoaded s \<or> \<not> positionsLoaded s \<or> \<not> session_open s \<or>
         \<not> orderUpdatesAcked s \<or> \<not> userFillsAcked s \<or> (loadSpotAssets (cfg s) \<and> \<not> spotBalancesLoaded s) then s
      else if \<not> wasReadyBefore s \<and> adoptExistingOrders (cfg s) \<and> \<not> ordersAdopted s then
        if \<not> adoptionInFlight s then log_out (Query (QAdopt (user s))) (s\<lparr>adoptionInFlight := True\<rparr>) else s
      else
        let s = s\<lparr>ready := True\<rparr>;
            s = (if wasReadyBefore s then reconcileAll iter s else s)
        in log_out OnReady (s\<lparr>wasReadyBefore := True\<rparr>))"

definition onAdoptListing :: "cloid list \<Rightarrow> openOrder list result \<Rightarrow> client \<Rightarrow> client" where
  "onAdoptListing iter r s =
     (let s = s\<lparr>adoptionInFlight := False, ordersAdopted := True\<rparr> in
      case r of Inl _ \<Rightarrow> maybeReady iter s
      | Inr listing \<Rightarrow> maybeReady iter (fst (adoptFromListing listing s)))"

definition user_subscription :: "string \<Rightarrow> address \<Rightarrow> string" where
  "user_subscription ch a = ''{\"type\":\"'' @ ch @ ''\",\"user\":\"'' @ addr_toHex a @ ''\"}''"

definition subscribe_user :: "client \<Rightarrow> client" where
  "subscribe_user s =
     (let s = log_out (Subscribe (user_subscription ''orderUpdates'' (user s))) s;
          s = log_out (Subscribe (user_subscription ''userFills'' (user s))) s
      in if subscribeUserEvents (cfg s) then log_out (Subscribe (user_subscription ''userEvents'' (user s))) s else s)"

definition bootstrap :: "client \<Rightarrow> client" where
  "bootstrap s =
     (let s = log_out (Query (QAssets (loadSpotAssets (cfg s)))) s;
          s = log_out (Query (QUserRole (signerAddress s))) s;
          s = (if loadSpotAssets (cfg s) \<and> \<not> spotBalancesLoaded s
               then log_out (Query (QSpotBalances (user s))) s else s)
      in if positionsLoaded s then s else log_out (Query (QClearinghouse (user s))) s)"

definition onAssets :: "cloid list \<Rightarrow> registry result \<Rightarrow> client \<Rightarrow> client" where
  "onAssets iter r s = (case r of
     Inl e \<Rightarrow> later 2000 TBootstrap (log_out (OnError e) s)
   | Inr reg \<Rightarrow> maybeReady iter (seedSpotPositions (s\<lparr>assets := reg, assetsLoaded := True\<rparr>)))"

definition onBootstrapTimer :: "client \<Rightarrow> client" where
  "onBootstrapTimer s = (if started s \<and> \<not> assetsLoaded s then bootstrap s else s)"

definition resubscribeUser :: "client \<Rightarrow> client" where
  "resubscribeUser s =
     (let s = log_out ClearSubscriptions s;
          s = s\<lparr>orderUpdatesAcked := False, userFillsAcked := False, ready := False\<rparr>;
          s = subscribe_user s;
          s = s\<lparr>positions := Map.empty, fillsSnapshotSeen := False, positionsLoaded := False,
                spotBalancesLoaded := \<not> loadSpotAssets (cfg s)\<rparr>
      in log_out (Query (QResubscribed (user s))) s)"

definition onUserRole :: "userRole result \<Rightarrow> client \<Rightarrow> client" where
  "onUserRole r s = (case r of
     Inl _ \<Rightarrow> s
   | Inr ur \<Rightarrow>
       if \<not> isAgent ur then s
       else case master ur of
         None \<Rightarrow> s
       | Some m \<Rightarrow>
           if m = user s then s
           else if cfg_accountAddress (cfg s) = [] \<and> vault (builder s) = None
           then resubscribeUser (s\<lparr>account := m, user := m\<rparr>)
           else log_out (OnError (rejected (''accountAddress '' @ addr_toHex (user s) @
                  '' does not match the agent'' @ [CHR 0x27] @ ''s master account '' @ addr_toHex m))) s)"

definition seed_positions :: "position list \<Rightarrow> client \<Rightarrow> client" where
  "seed_positions ps s = fold (\<lambda>p. try_emplace (p_coin p) \<lparr>ps_size = p_szi p, lastFillMs = 0\<rparr>) ps s"

definition onSpotBalances :: "cloid list \<Rightarrow> spotBalance list result \<Rightarrow> client \<Rightarrow> client" where
  "onSpotBalances iter r s =
     (let s = (case r of Inl _ \<Rightarrow> s
               | Inr bs \<Rightarrow> fold (\<lambda>b s. s\<lparr>spotTokens := (spotTokens s)(sb_coin b \<mapsto> sb_total b)\<rparr>) bs s)
      in maybeReady iter (seedSpotPositions (s\<lparr>spotBalancesLoaded := True\<rparr>)))"

text \<open>The answer to \<open>clearinghouseState\<close>, from \<open>bootstrap\<close> and from \<open>resubscribeUser\<close> alike.\<close>

definition onClearinghouse :: "cloid list \<Rightarrow> accountState result \<Rightarrow> client \<Rightarrow> client" where
  "onClearinghouse iter r s =
     (let s = (case r of Inl _ \<Rightarrow> s
               | Inr st \<Rightarrow> (seed_positions (as_positions st) s)\<lparr>accountValue := as_accountValue st\<rparr>)
      in maybeReady iter (s\<lparr>positionsLoaded := True\<rparr>))"

definition start :: "client \<Rightarrow> client" where
  "start s =
     (if started s then s
      else
        let s = bootstrap (s\<lparr>started := True\<rparr>);
            s = log_out SessionStart (subscribe_user s);
            s = armEviction s
        in if rateLimitRefreshMs (cfg s) > 0 then armRateLimitRefresh s else s)"

definition cancel_timer :: "nat \<Rightarrow> client \<Rightarrow> client" where
  "cancel_timer tm s = (if tm \<noteq> 0 then log_out (CancelTimer tm) s else s)"

definition stop :: "u64 list \<Rightarrow> client \<Rightarrow> client" where
  "stop iter s =
     (if \<not> started s then s
      else
        let s = log_out SessionStop (s\<lparr>started := False, ready := False\<rparr>);
            s = (cancel_timer (evictionTimer s) s)\<lparr>evictionTimer := 0\<rparr>;
            s = (cancel_timer (rateLimitTimer s) s)\<lparr>rateLimitTimer := 0\<rparr>;
            s = fold (\<lambda>i s. case pending s i of Some p \<Rightarrow> cancel_timer (pa_timer p) s | None \<Rightarrow> s) iter s
        in s\<lparr>pending := Map.empty, pendingInfo := Map.empty\<rparr>)"

definition onSessionOpen :: "client \<Rightarrow> client" where
  "onSessionOpen s = s\<lparr>orderUpdatesAcked := False, userFillsAcked := False\<rparr>"

definition onSubscriptionResponse :: "cloid list \<Rightarrow> string \<Rightarrow> client \<Rightarrow> client" where
  "onSubscriptionResponse iter subscriptionType s =
     maybeReady iter
       (if subscriptionType = ''orderUpdates'' then s\<lparr>orderUpdatesAcked := True\<rparr>
        else if subscriptionType = ''userFills'' then s\<lparr>userFillsAcked := True\<rparr> else s)"

definition onVenueError :: "string \<Rightarrow> client \<Rightarrow> client" where
  "onVenueError txt s = log_out (OnError (mk_error Venue txt)) s"

definition parseOptionalAddress :: "string \<Rightarrow> address option option" where
  "parseOptionalAddress txt =
     (if txt = [] then Some None
      else case parseAddress txt of None \<Rightarrow> None | Some a \<Rightarrow> Some (Some a))"

text \<open>
  The constructor; \<open>None\<close> is the exception it throws on a malformed key or address. \<open>mk_signer\<close>
  stands for the construction of the signer, \<open>rand\<close> for the eight random bytes (\<open>None\<close> when the
  generator fails).
\<close>

definition new_client ::
  "(string \<Rightarrow> (l1_signer \<times> address) option) \<Rightarrow> u64 option \<Rightarrow> int \<Rightarrow> string \<Rightarrow> string \<Rightarrow> exchangeConfig \<Rightarrow> client option" where
  "new_client mk_signer rand now privateKey vaultAddress c =
     (if privateKey = [] then None
      else case mk_signer privateKey of None \<Rightarrow> None | Some (sg, sa) \<Rightarrow>
        case parseOptionalAddress vaultAddress of None \<Rightarrow> None | Some v \<Rightarrow>
        case parseOptionalAddress (cfg_accountAddress c) of None \<Rightarrow> None | Some ac \<Rightarrow>
          let acct = (case ac of Some a \<Rightarrow> a | None \<Rightarrow> sa);
              session = (case rand of Some x \<Rightarrow> x | None \<Rightarrow> word_of_int now);
              session = (if session = kExternalCloidHigh then 1 else session)
          in Some \<lparr>cfg = c, builder = \<lparr>signer = sg, isMainnet = (cfg_network c = Mainnet), vault = v\<rparr>,
               signerAddress = sa, account = acct, user = (case v of Some a \<Rightarrow> a | None \<Rightarrow> acct),
               assets = [], orders = Map.empty, oidIndex = Map.empty, positions = Map.empty,
               spotTokens = Map.empty, accountValue = dec_zero, seenTids = {}, seenTidOrder = [],
               pending = Map.empty, pendingInfo = Map.empty, nextRequestId = 1, lastNonce = 0,
               cloidSession = session, cloidCounter = 0, started = False, assetsLoaded = False,
               positionsLoaded = False, spotBalancesLoaded = False, orderUpdatesAcked = False,
               userFillsAcked = False, ready = False, wasReadyBefore = False, ordersAdopted = False,
               adoptionInFlight = False, fillsSnapshotSeen = False, evictionTimer = 0, rateLimitTimer = 0,
               rateLimit = \<lparr>cumVlm = dec_zero, requestsUsed = 0, requestsCap = 0\<rparr>, unitsAtLastRefresh = 0,
               rateLimitWarned = False, stats_of = no_stats, clock = now, session_open = False, send_ok = True, send_breaks = None,
               http_rate_hits = 0, measured_us = 0, nextTimer = 1, out = []\<rparr>)"

end
