(* ===== verification/HL_OrderTable.thy ===== *)
theory HL_OrderTable
  imports HL_OrderEntry
begin

text \<open>
  The abstract order table. Everything the client does to its table of orders and to the index from
  exchange ids is a sequence of five kinds of transitions: an order changes, an order is created, an
  order is tracked again under its own id, a terminal order is evicted, a terminal order is revived. What a change may do is \<open>tr_step\<close>.
  The theory shows that every operation of \<open>HL_Exchange\<close> and \<open>HL_OrderEntry\<close> is such a sequence, and
  which operations may evict or revive; the invariants of the table are then proved once, by rule
  induction over the transitions.
\<close>

section \<open>Transitions\<close>

type_synonym table = "(cloid \<rightharpoonup> tracked) \<times> oid_index"

definition oid_of :: "tracked \<Rightarrow> u64" where
  "oid_of t = o_oid (t_order t)"

definition tracked_inv :: "tracked \<Rightarrow> bool" where
  "tracked_inv t \<longleftrightarrow> o_filledSz (t_order t) = dec_max2 (fillSum t) (ackFilledSz t) \<and>
     length (retiredOids t) \<le> 4 \<and> notFoundProbes t \<le> kNotFoundProbes"

text \<open>The index keeps its entries, except that the order's own entry follows its exchange id.\<close>

definition ix_step :: "tracked \<Rightarrow> oid_index \<Rightarrow> tracked \<Rightarrow> oid_index \<Rightarrow> bool" where
  "ix_step t ix t' ix' \<longleftrightarrow>
     (\<forall>i d. ix' i = Some d \<longrightarrow>
        (i \<noteq> 0 \<and> i = oid_of t' \<and> d = o_cloid (t_order t)) \<or>
        (ix i = Some d \<and> (i = 0 \<or> i \<noteq> oid_of t \<or> oid_of t' = oid_of t)))"

definition same_accounting :: "tracked \<Rightarrow> tracked \<Rightarrow> bool" where
  "same_accounting t t' \<longleftrightarrow> o_cloid (t_order t') = o_cloid (t_order t) \<and> (tracked_inv t \<longrightarrow> tracked_inv t')"

definition tr_step :: "tracked \<Rightarrow> oid_index \<Rightarrow> tracked \<Rightarrow> oid_index \<Rightarrow> bool" where
  "tr_step t ix t' ix' \<longleftrightarrow> same_accounting t t' \<and> ix_step t ix t' ix' \<and>
     (isTerminal (state_of t) \<longrightarrow> state_of t' = state_of t \<or> state_of t' = Filled)"

inductive tbl_step :: "bool \<Rightarrow> bool \<Rightarrow> table \<Rightarrow> table \<Rightarrow> bool" for ev rv where
  change: "T c = Some t \<Longrightarrow> tr_step t ix t' ix' \<Longrightarrow> tbl_step ev rv (T, ix) (T(c \<mapsto> t'), ix')"
| create: "T c = None \<Longrightarrow> o_cloid (t_order t) = c \<Longrightarrow> oid_of t = 0 \<Longrightarrow> tracked_inv t \<Longrightarrow>
    tbl_step ev rv (T, ix) (T(c \<mapsto> t), ix)"
| retrack: "T c = Some t \<Longrightarrow> tbl_step ev rv (T, ix) (T(c \<mapsto> mod_order (\<lambda>o'. o'\<lparr>o_cloid := c\<rparr>) t), ix)"
| evict: "ev \<Longrightarrow> T c = Some t \<Longrightarrow> isTerminal (state_of t) \<Longrightarrow>
    tbl_step ev rv (T, ix) (T(c := None), if oid_of t = 0 then ix else ix(oid_of t := None))"
| revive: "rv \<Longrightarrow> T c = Some t \<Longrightarrow> isTerminal (state_of t) \<Longrightarrow> same_accounting t t' \<Longrightarrow> oid_of t' = oid_of t \<Longrightarrow>
    tbl_step ev rv (T, ix) (T(c \<mapsto> t'), ix)"

definition tbl_steps :: "bool \<Rightarrow> bool \<Rightarrow> table \<Rightarrow> table \<Rightarrow> bool" where
  "tbl_steps ev rv = (tbl_step ev rv)\<^sup>*\<^sup>*"

definition tbl :: "client \<Rightarrow> table" where
  "tbl s = (orders s, oidIndex s)"

lemma tbl_steps_refl [simp, intro]: "tbl_steps ev rv T T"
  by (simp add: tbl_steps_def)

lemma tbl_steps_trans [trans]: "tbl_steps ev rv T U \<Longrightarrow> tbl_steps ev rv U V \<Longrightarrow> tbl_steps ev rv T V"
  by (simp add: tbl_steps_def)

lemma tbl_steps_one: "tbl_step ev rv T U \<Longrightarrow> tbl_steps ev rv T U"
  by (simp add: tbl_steps_def)

section \<open>Steps of one order\<close>

lemma ix_step_same [simp]: "oid_of t' = oid_of t \<Longrightarrow> ix_step t ix t' ix"
  by (simp add: ix_step_def)

text \<open>An update that touches neither the identity of the order nor its fill accounting.\<close>

definition quiet :: "(order \<Rightarrow> order) \<Rightarrow> bool" where
  "quiet f \<longleftrightarrow> (\<forall>o'. o_cloid (f o') = o_cloid o' \<and> o_oid (f o') = o_oid o' \<and> o_filledSz (f o') = o_filledSz o')"

lemma mod_order_sel [simp]:
  "t_order (mod_order f t) = f (t_order t)" "fillSum (mod_order f t) = fillSum t"
  "ackFilledSz (mod_order f t) = ackFilledSz t" "retiredOids (mod_order f t) = retiredOids t"
  "notFoundProbes (mod_order f t) = notFoundProbes t" "ackAvgPx (mod_order f t) = ackAvgPx t"
  "fillNotional (mod_order f t) = fillNotional t" "t_emitted (mod_order f t) = t_emitted t"
  "canceledDuringModify (mod_order f t) = canceledDuringModify t"
  by (simp_all add: mod_order_def)

lemma same_accounting_quiet: "quiet f \<Longrightarrow> same_accounting t (mod_order f t)"
  by (simp add: same_accounting_def quiet_def tracked_inv_def)

lemma same_accounting_refl [simp]: "same_accounting t t"
  by (simp add: same_accounting_def)

lemma same_accounting_trans: "same_accounting t u \<Longrightarrow> same_accounting u v \<Longrightarrow> same_accounting t v"
  by (simp add: same_accounting_def)

lemma same_accounting_recompute:
  "o_cloid (t_order t') = o_cloid (t_order t) \<Longrightarrow> retiredOids t' = retiredOids t \<Longrightarrow>
   notFoundProbes t' = notFoundProbes t \<Longrightarrow> same_accounting t (recomputeFills t')"
  by (simp add: same_accounting_def tracked_inv_def recomputeFills_def)

lemma recomputeFills_sel [simp]:
  "o_cloid (t_order (recomputeFills t)) = o_cloid (t_order t)" "oid_of (recomputeFills t) = oid_of t"
  "state_of (recomputeFills t) = state_of t" "retiredOids (recomputeFills t) = retiredOids t"
  "notFoundProbes (recomputeFills t) = notFoundProbes t"
  "o_origSz (t_order (recomputeFills t)) = o_origSz (t_order t)"
  by (simp_all add: recomputeFills_def oid_of_def state_of_def)

lemma setters_sel [simp]:
  "state_of (set_state x t) = x" "oid_of (set_state x t) = oid_of t"
  "o_cloid (t_order (set_state x t)) = o_cloid (t_order t)"
  "state_of (set_error e t) = state_of t" "oid_of (set_error e t) = oid_of t"
  "o_cloid (t_order (set_error e t)) = o_cloid (t_order t)"
  "state_of (clear_cancelPending t) = state_of t" "oid_of (clear_cancelPending t) = oid_of t"
  "state_of (set_cancelPending b t) = state_of t" "oid_of (set_cancelPending b t) = oid_of t"
  "state_of (set_modifyPending b t) = state_of t" "oid_of (set_modifyPending b t) = oid_of t"
  by (simp_all add: set_state_def set_error_def clear_cancelPending_def set_cancelPending_def
      set_modifyPending_def state_of_def oid_of_def)

lemma setters_accounting [simp]:
  "same_accounting u (set_state x t) \<longleftrightarrow> same_accounting u t"
  "same_accounting u (set_error e t) \<longleftrightarrow> same_accounting u t"
  "same_accounting u (clear_cancelPending t) \<longleftrightarrow> same_accounting u t"
  "same_accounting u (set_cancelPending b t) \<longleftrightarrow> same_accounting u t"
  "same_accounting u (set_modifyPending b t) \<longleftrightarrow> same_accounting u t"
  by (simp_all add: same_accounting_def tracked_inv_def set_state_def set_error_def
      clear_cancelPending_def set_cancelPending_def set_modifyPending_def)

lemma setOid_sel:
  assumes "setOid i t ix = (t', ix')"
  shows "state_of t' = state_of t" and "same_accounting t t'" and "ix_step t ix t' ix'"
    and "oid_of t' = (if i = 0 then oid_of t else i)"
    and "retiredOids t' = retiredOids t" "notFoundProbes t' = notFoundProbes t"
    "o_cloid (t_order t') = o_cloid (t_order t)"
  using assms
  by (auto simp: setOid_def Let_def state_of_def oid_of_def same_accounting_def tracked_inv_def ix_step_def
      dec_max2_def split: if_splits)

lemma setOid_step: "setOid i t ix = (t', ix') \<Longrightarrow> tr_step t ix t' ix'"
  by (simp add: tr_step_def setOid_sel)

lemma tr_step_quiet:
  "quiet f \<Longrightarrow> (isTerminal (state_of t) \<Longrightarrow> state_of (mod_order f t) = state_of t \<or> state_of (mod_order f t) = Filled) \<Longrightarrow>
   tr_step t ix (mod_order f t) ix"
  by (simp add: tr_step_def same_accounting_quiet oid_of_def quiet_def)

lemma seedFilled_sel:
  "state_of (seedFilled listed t) = state_of t" "oid_of (seedFilled listed t) = oid_of t"
  "same_accounting t (seedFilled listed t)"
proof -
  show "same_accounting t (seedFilled listed t)"
    by (auto simp: seedFilled_def Let_def intro!: same_accounting_recompute)
qed (simp_all add: seedFilled_def Let_def state_of_def oid_of_def recomputeFills_def)

lemma applyVenueStatus_sel:
  "oid_of (applyVenueStatus st tx lp os t) = oid_of t"
  "same_accounting t (applyVenueStatus st tx lp os t)"
  by (auto simp: applyVenueStatus_def Let_def oid_of_def same_accounting_def tracked_inv_def set_state_def set_error_def
      clear_cancelPending_def recomputeFills_def split: orderUpdateStatus.split)

lemma applyVenueStatus_terminal:
  "isTerminal (state_of t) \<Longrightarrow>
   state_of (applyVenueStatus st tx lp os t) = state_of t \<or> state_of (applyVenueStatus st tx lp os t) = Filled"
  by (cases st) (simp_all add: applyVenueStatus_def)

lemma applyVenueStatus_step: "tr_step t ix (applyVenueStatus st tx lp os t) ix"
  using applyVenueStatus_terminal by (simp add: tr_step_def applyVenueStatus_sel)

lemma applyAck_sel:
  assumes "applyAck st t ix = (t', ix')"
  shows "same_accounting t t'" and "ix_step t ix t' ix'"
    and "isTerminal (state_of t) \<Longrightarrow> state_of t' = state_of t \<or> state_of t' = Filled"
proof -
  obtain u jx where u: "setOid (st_oid st) t ix = (u, jx)" by (cases "setOid (st_oid st) t ix")
  note su = setOid_sel[OF u]
  have a: "same_accounting t (recomputeFills (u\<lparr>ackFilledSz := x, ackAvgPx := y\<rparr>))" for x y
    by (rule same_accounting_recompute) (simp_all add: su)
  have o: "oid_of (u\<lparr>ackFilledSz := x, ackAvgPx := y\<rparr>) = oid_of u" for x y by (simp add: oid_of_def)
  have ix: "ix_step t ix w jx" if "oid_of w = oid_of u" for w
    using su(3) that by (simp add: ix_step_def)
  have P: "\<not> isTerminal PendingNew" by (simp add: isTerminal_def)
  show "same_accounting t t'"
    using assms su a by (auto simp: applyAck_def u Let_def split: status_kind.splits if_splits)
  have "oid_of t' = oid_of u \<and> ix' = jx \<or> oid_of t' = oid_of t \<and> ix' = ix"
    using assms o by (auto simp: applyAck_def u Let_def split: status_kind.splits if_splits)
  then show "ix_step t ix t' ix'" using ix by auto
  show "isTerminal (state_of t) \<Longrightarrow> state_of t' = state_of t \<or> state_of t' = Filled"
    using assms su P by (auto simp: applyAck_def u Let_def split: status_kind.splits if_splits)
qed

lemma applyAck_step: "applyAck st t ix = (t', ix') \<Longrightarrow> tr_step t ix t' ix'"
  using applyAck_sel[of st t ix t' ix'] by (auto simp: tr_step_def)

section \<open>Steps of the client\<close>

lemma tbl_frame [simp]:
  "tbl (log_out e s) = tbl s" "tbl (mod_stats g s) = tbl s" "tbl (later ms cb s) = tbl s"
  "tbl (snd (addTimer ms cb s)) = tbl s" "tbl (try_emplace k p s) = tbl s" "tbl (remember_tid i s) = tbl s"
  "tbl (apply_position f s) = tbl s" "tbl (countRateLimitUnits pa s) = tbl s"
  "tbl (snd (nextNonce s)) = tbl s" "tbl (snd (nextCloid s)) = tbl s" "tbl (cancel_timer tm s) = tbl s"
  "tbl (armEviction s) = tbl s" "tbl (armRateLimitRefresh s) = tbl s"
  by (auto simp: tbl_def log_out_def mod_stats_def later_def addTimer_def try_emplace_def remember_tid_def
      apply_position_def countRateLimitUnits_def nextNonce_def nextCloid_def cancel_timer_def armEviction_def
      armRateLimitRefresh_def Let_def)

lemma tbl_fields [simp]:
  "tbl (s\<lparr>pending := a\<rparr>) = tbl s" "tbl (s\<lparr>pendingInfo := b\<rparr>) = tbl s" "tbl (s\<lparr>started := f1\<rparr>) = tbl s"
  "tbl (s\<lparr>ready := f1\<rparr>) = tbl s" "tbl (s\<lparr>evictionTimer := n\<rparr>) = tbl s" "tbl (s\<lparr>rateLimitTimer := n\<rparr>) = tbl s"
  "tbl (s\<lparr>nextRequestId := i\<rparr>) = tbl s" "tbl (s\<lparr>orderUpdatesAcked := f1\<rparr>) = tbl s"
  "tbl (s\<lparr>userFillsAcked := f1\<rparr>) = tbl s" "tbl (s\<lparr>assets := reg\<rparr>) = tbl s" "tbl (s\<lparr>assetsLoaded := f1\<rparr>) = tbl s"
  "tbl (s\<lparr>positions := ps\<rparr>) = tbl s" "tbl (s\<lparr>fillsSnapshotSeen := f1\<rparr>) = tbl s"
  "tbl (s\<lparr>positionsLoaded := f1\<rparr>) = tbl s" "tbl (s\<lparr>spotBalancesLoaded := f1\<rparr>) = tbl s"
  "tbl (s\<lparr>account := ad\<rparr>) = tbl s" "tbl (s\<lparr>user := ad\<rparr>) = tbl s" "tbl (s\<lparr>spotTokens := st\<rparr>) = tbl s"
  "tbl (s\<lparr>accountValue := d\<rparr>) = tbl s" "tbl (s\<lparr>wasReadyBefore := f1\<rparr>) = tbl s"
  "tbl (s\<lparr>ordersAdopted := f1\<rparr>) = tbl s" "tbl (s\<lparr>adoptionInFlight := f1\<rparr>) = tbl s"
  "tbl (s\<lparr>rateLimit := rl\<rparr>) = tbl s" "tbl (s\<lparr>unitsAtLastRefresh := i\<rparr>) = tbl s" "tbl (s\<lparr>cloidCounter := i\<rparr>) = tbl s"
  "tbl (s\<lparr>clock := k\<rparr>) = tbl s" "tbl (s\<lparr>session_open := f1\<rparr>) = tbl s" "tbl (s\<lparr>send_ok := f1\<rparr>) = tbl s"
  "tbl (s\<lparr>send_breaks := br\<rparr>) = tbl s"
  "tbl (s\<lparr>http_rate_hits := i\<rparr>) = tbl s" "tbl (s\<lparr>measured_us := k\<rparr>) = tbl s"
  by (simp_all add: tbl_def)

lemma orders_frame [simp]:
  "orders (log_out e s) = orders s" "oidIndex (log_out e s) = oidIndex s"
  "orders (mod_stats g s) = orders s" "oidIndex (mod_stats g s) = oidIndex s"
  "orders (later ms cb s) = orders s" "oidIndex (later ms cb s) = oidIndex s"
  by (simp_all add: log_out_def mod_stats_def later_def addTimer_def)

named_theorems tbl_intros

lemma upd_steps [tbl_intros]:
  assumes "tbl_steps ev rv T (tbl s)"
    and "\<And>t. orders s c = Some t \<Longrightarrow> tr_step t (oidIndex s) (f t) (oidIndex s)"
  shows "tbl_steps ev rv T (tbl (upd c f s))"
proof (cases "orders s c")
  case None
  then show ?thesis using assms(1) by (simp add: upd_def)
next
  case (Some t)
  from tbl_step.change[of "orders s" c, OF Some assms(2)[OF Some], of ev rv]
  have "tbl_steps ev rv (tbl s) (tbl (upd c f s))"
    by (simp add: tbl_steps_one tbl_def upd_def Some)
  with assms(1) show ?thesis by (rule tbl_steps_trans)
qed

lemma upd_ix_steps [tbl_intros]:
  assumes "tbl_steps ev rv T (tbl s)"
    and "\<And>t t' ix'. orders s c = Some t \<Longrightarrow> f t (oidIndex s) = (t', ix') \<Longrightarrow> tr_step t (oidIndex s) t' ix'"
  shows "tbl_steps ev rv T (tbl (upd_ix c f s))"
proof (cases "orders s c")
  case None
  then show ?thesis using assms(1) by (simp add: upd_ix_def)
next
  case (Some t)
  obtain t' ix' where f: "f t (oidIndex s) = (t', ix')" by (cases "f t (oidIndex s)")
  from tbl_step.change[of "orders s" c, OF Some assms(2)[OF Some f], of ev rv]
  have "tbl_steps ev rv (tbl s) (tbl (upd_ix c f s))"
    by (simp add: tbl_steps_one tbl_def upd_ix_def Some f)
  with assms(1) show ?thesis by (rule tbl_steps_trans)
qed

lemma emit_steps [tbl_intros]:
  assumes "tbl_steps ev rv T (tbl s)"
  shows "tbl_steps ev rv T (tbl (emit c s))"
proof (cases "orders s c")
  case None
  then show ?thesis using assms by (simp add: emit_def)
next
  case (Some t)
  define t' where "t' = mod_order (\<lambda>o'. o'\<lparr>o_updatedMs := clock s\<rparr>) (t\<lparr>t_emitted := observe (t_order t)\<rparr>)"
  have "tr_step t (oidIndex s) t' (oidIndex s)"
    by (simp add: t'_def tr_step_def same_accounting_def tracked_inv_def oid_of_def state_of_def)
  from tbl_step.change[of "orders s" c, OF Some this, of ev rv]
  have "tbl_steps ev rv (tbl s) (tbl (emit c s))"
    by (auto simp add: tbl_steps_one tbl_def emit_def Some log_out_def t'_def Let_def)
  with assms show ?thesis by (rule tbl_steps_trans)
qed

lemma track_steps [tbl_intros]:
  assumes "tbl_steps ev rv T (tbl s)"
  shows "tbl_steps ev rv T (tbl (track c s))"
proof -
  have "tbl_steps ev rv (tbl s) (tbl (track c s))"
  proof (cases "orders s c")
    case None
    have "tracked_inv (mod_order (\<lambda>o'. o'\<lparr>o_cloid := c\<rparr>) default_tracked)"
      by (simp add: tracked_inv_def default_tracked_def default_order_def dec_max2_def)
    then show ?thesis unfolding tbl_def track_def
      by (auto simp: None default_tracked_def default_order_def oid_of_def intro!: tbl_steps_one tbl_step.create)
  next
    case (Some t)
    then show ?thesis unfolding tbl_def track_def
      by (auto intro!: tbl_steps_one tbl_step.retrack)
  qed
  with assms show ?thesis by (rule tbl_steps_trans)
qed

lemma fold_steps:
  assumes "\<And>x s. x \<in> set xs \<Longrightarrow> tbl_steps ev rv (tbl s) (tbl (f x s))" and "tbl_steps ev rv T (tbl s)"
  shows "tbl_steps ev rv T (tbl (fold f xs s))"
  using assms
proof (induction xs arbitrary: s)
  case (Cons x xs)
  have "tbl_steps ev rv T (tbl (f x s))"
    using Cons.prems(2) Cons.prems(1)[of x s] by (auto intro: tbl_steps_trans)
  then show ?case using Cons.IH[of "f x s"] Cons.prems(1) by simp
qed simp

lemma tr_step_mod_order [tbl_intros]:
  "quiet f \<Longrightarrow> (\<And>o'. o_state (f o') = o_state o') \<Longrightarrow> tr_step t ix (mod_order f t) ix"
  by (rule tr_step_quiet) (simp_all add: state_of_def)

lemma tr_step_setters [tbl_intros]:
  "tr_step t ix (set_error e t) ix" "tr_step t ix (clear_cancelPending t) ix" "tr_step t ix (set_cancelPending b t) ix"
  "tr_step t ix (set_modifyPending b t) ix" "(isTerminal (state_of t) \<Longrightarrow> x = Filled) \<Longrightarrow> tr_step t ix (set_state x t) ix"
  "tr_step t ix t ix"
  by (auto simp: tr_step_def)

lemma tr_step_flags [tbl_intros]:
  "tr_step t ix (t\<lparr>canceledDuringModify := b\<rparr>) ix"
  "tr_step t ix (t\<lparr>notFoundProbes := 0\<rparr>) ix"
  "notFoundProbes t < kNotFoundProbes \<Longrightarrow> tr_step t ix (t\<lparr>notFoundProbes := Suc (notFoundProbes t)\<rparr>) ix"
  "tr_step t ix (retireOid i t) ix"
  by (auto simp: tr_step_def same_accounting_def tracked_inv_def oid_of_def state_of_def retireOid_def Let_def)

lemma ix_step_trans:
  assumes "ix_step t ix u jx" and "ix_step u jx v kx" and "o_cloid (t_order u) = o_cloid (t_order t)"
  shows "ix_step t ix v kx"
  unfolding ix_step_def
proof (intro allI impI)
  fix i d
  assume "kx i = Some d"
  with assms(2) consider "i \<noteq> 0" "i = oid_of v" "d = o_cloid (t_order u)"
    | "jx i = Some d" "i = 0 \<or> i \<noteq> oid_of u \<or> oid_of v = oid_of u" unfolding ix_step_def by blast
  then show "(i \<noteq> 0 \<and> i = oid_of v \<and> d = o_cloid (t_order t)) \<or>
      (ix i = Some d \<and> (i = 0 \<or> i \<noteq> oid_of t \<or> oid_of v = oid_of t))"
  proof cases
    case 2
    with assms(1) show ?thesis unfolding ix_step_def by metis
  qed (simp add: assms(3))
qed

lemma tr_step_trans: "tr_step t ix u jx \<Longrightarrow> tr_step u jx v kx \<Longrightarrow> tr_step t ix v kx"
  unfolding tr_step_def
  by (auto simp: same_accounting_def isTerminal_def intro: ix_step_trans)

lemma reconcile_tbl [simp]: "tbl (reconcile c s) = tbl s" "tbl (reconcileAmended c s) = tbl s"
  by (auto simp: reconcile_def reconcileAmended_def Let_def)

lemma not_terminal_PendingNew [simp]: "\<not> isTerminal PendingNew" "\<not> isTerminal Open" "\<not> isTerminal PartiallyFilled"
  "isTerminal Filled" "isTerminal Canceled" "isTerminal Rejected"
  by (simp_all add: isTerminal_def)

lemmas tr_steps = applyVenueStatus_step applyAck_step setOid_step

lemma adopt_generation_steps [tbl_intros]:
  "tbl_steps ev rv T (tbl s) \<Longrightarrow> tbl_steps ev rv T (tbl (adopt_generation c listed s))"
  unfolding adopt_generation_def Let_def by (intro tbl_intros) (auto intro: tr_steps)

lemma onOrderStatus_steps: "tbl_steps ev rv (tbl s) (tbl (onOrderStatus c r s))"
proof (cases "orders s c")
  case None
  then show ?thesis by (simp add: onOrderStatus_def)
next
  case (Some t)
  show ?thesis
  proof (cases r)
    case (Inl e)
    then show ?thesis by (simp add: onOrderStatus_def Some)
  next
    case (Inr info)
    show ?thesis
    proof (cases "osi_found info")
      case True
      show ?thesis unfolding onOrderStatus_def Let_def Some Inr option.case sum.case
        using True by (auto intro!: tbl_intros intro: tr_steps)
    next
      case False
      show ?thesis unfolding onOrderStatus_def Let_def Some Inr option.case sum.case
        using False by (auto intro!: tbl_intros simp: Some)
    qed
  qed
qed

lemma onAmendedListing_steps: "tbl_steps ev rv (tbl s) (tbl (onAmendedListing c r s))"
  unfolding onAmendedListing_def
  by (auto split: option.split sum.split intro!: adopt_generation_steps)

lemma seedFilled_step: "tr_step t ix (seedFilled listed t) ix"
  by (simp add: tr_step_def seedFilled_sel)

lemma revive_steps:
  assumes "orders s c = Some t" and "isTerminal (state_of t)"
  shows "tbl_steps ev True (tbl s) (tbl (revive c listed s))"
proof -
  let ?t = "set_error [] (set_state Open t)"
  have "tbl_step ev True (tbl s) (tbl (upd c (\<lambda>t. set_error [] (set_state Open t)) s))"
    using tbl_step.revive[of True "orders s" c t ?t ev "oidIndex s"] assms by (simp add: tbl_def upd_def)
  then have one: "tbl_steps ev True (tbl s) (tbl (upd c (\<lambda>t. set_error [] (set_state Open t)) s))"
    by (rule tbl_steps_one)
  show ?thesis unfolding revive_def Let_def
    by (rule emit_steps, rule upd_steps, rule upd_steps, rule upd_ix_steps, rule one)
      (auto intro: tr_steps seedFilled_step)
qed

lemma fresh_from_listing_step:
  assumes "\<not> isTerminal (state_of t)"
  shows "tr_step t ix (fresh_from_listing listed reg t) ix"
proof -
  define u where "u = mod_order (\<lambda>o'. o'\<lparr>o_external := (oo_cloid listed = None), o_coin := oo_coin listed,
      o_asset := (case reg_find reg (oo_coin listed) of Some a \<Rightarrow> asset a | None \<Rightarrow> o_asset o'),
      o_side := oo_side listed, o_px := oo_limitPx listed, o_origSz := oo_origSz listed\<rparr>) t"
  define v where "v = seedFilled listed u"
  define w where "w = mod_order (\<lambda>o'. o'\<lparr>o_reduceOnly := oo_reduceOnly listed, o_isTrigger := oo_isTrigger listed,
      o_trigger := (if oo_isTrigger listed then Some (trigger_of_listing listed) else o_trigger o')\<rparr>) v"
  have "same_accounting t u" "oid_of u = oid_of t" unfolding u_def
    by (simp_all add: same_accounting_quiet quiet_def oid_of_def)
  moreover have "same_accounting u v" "oid_of v = oid_of u" by (simp_all add: v_def seedFilled_sel)
  moreover have "same_accounting v w" "oid_of w = oid_of v" unfolding w_def
    by (simp_all add: same_accounting_quiet quiet_def oid_of_def)
  ultimately have w: "same_accounting t w" "oid_of w = oid_of t" by (auto intro: same_accounting_trans)
  have e: "fresh_from_listing listed reg t = mod_order (\<lambda>o'. o'\<lparr>o_createdMs := oo_timestampMs listed\<rparr>) (set_state (open_state w) w)"
    by (simp add: fresh_from_listing_def Let_def u_def v_def w_def)
  have q: "quiet (\<lambda>o'. o'\<lparr>o_createdMs := oo_timestampMs listed\<rparr>)" by (simp add: quiet_def)
  have "same_accounting t (fresh_from_listing listed reg t)"
    unfolding e by (rule same_accounting_trans[OF _ same_accounting_quiet[OF q]]) (simp add: w(1))
  moreover have "oid_of (fresh_from_listing listed reg t) = oid_of t"
    using w(2) unfolding e by (simp add: oid_of_def set_state_def)
  ultimately show ?thesis using assms by (simp add: tr_step_def)
qed

lemma adopt_one_steps: "tbl_steps ev True (tbl (fst sn)) (tbl (fst (adopt_one listed sn)))"
proof (cases sn)
  case (Pair s n)
  define c where "c = (case oo_cloid listed of Some c \<Rightarrow> c | None \<Rightarrow> Cloid kExternalCloidHigh (oo_oid listed))"
  show ?thesis
  proof (cases "orders s c")
    case (Some t)
    then show ?thesis using revive_steps[OF Some] by (simp add: adopt_one_def Pair flip: c_def)
  next
    case None
    have new: "orders (track c s) c = Some t \<Longrightarrow> \<not> isTerminal (state_of t)" for t
      by (auto simp: track_def None default_tracked_def default_order_def state_of_def)
    show ?thesis using None unfolding adopt_one_def Pair Let_def prod.case c_def[symmetric]
      by (auto intro!: tbl_intros fresh_from_listing_step simp: new intro: tr_steps)
  qed
qed

lemma adoptFromListing_steps:
  assumes "tbl_steps ev True T (tbl s)"
  shows "tbl_steps ev True T (tbl (fst (adoptFromListing listing s)))"
proof -
  have "tbl_steps ev True T (tbl (fst sn)) \<Longrightarrow> tbl_steps ev True T (tbl (fst (fold adopt_one listing sn)))" for sn
  proof (induction listing arbitrary: sn)
    case (Cons oo listing)
    from Cons.IH[OF tbl_steps_trans[OF Cons.prems adopt_one_steps, of oo]] show ?case by simp
  qed simp
  from this[of "(s, 0)"] assms show ?thesis by (simp add: adoptFromListing_def)
qed

lemma reconcileAll_loop_steps:
  "tbl_steps ev rv T (tbl (fst su)) \<Longrightarrow> tbl_steps ev rv T (tbl (fst (reconcileAll_loop listing cs su)))"
proof (induction listing cs su rule: reconcileAll_loop.induct)
  case (2 listing c cs s unresolved)
  then show ?case
    by (cases "orders s c") (auto split: option.split intro!: 2 adopt_generation_steps)
qed simp

lemma fold_reconcile_tbl [simp]: "tbl (fold reconcile cs s) = tbl s"
  by (induction cs arbitrary: s) simp_all

lemma onReconcileAllListing_steps: "tbl_steps ev True (tbl s) (tbl (onReconcileAllListing live r s))"
proof (cases r)
  case (Inr listing)
  obtain s' un where l: "reconcileAll_loop listing live (s, []) = (s', un)"
    by (cases "reconcileAll_loop listing live (s, [])")
  have "tbl_steps ev True (tbl s) (tbl s')"
    using reconcileAll_loop_steps[of ev True "tbl s" "(s, [])" listing live] by (simp add: l)
  then show ?thesis by (auto simp: onReconcileAllListing_def Inr l Let_def intro!: adoptFromListing_steps)
qed (simp add: onReconcileAllListing_def)

lemma reconcileAll_tbl [simp]: "tbl (reconcileAll iter s) = tbl s"
  by (simp add: reconcileAll_def Let_def)

section \<open>Results of actions\<close>

lemma modify_accepted_step: "modify_accepted i p st t ix = (t', ix') \<Longrightarrow> tr_step t ix t' ix'"
proof -
  assume m: "modify_accepted i p st t ix = (t', ix')"
  define t1 where "t1 = (if i < length (modifyTargets p)
    then mod_order (\<lambda>o'. o'\<lparr>o_px := fst (modifyTargets p ! i), o_origSz := snd (modifyTargets p ! i)\<rparr>) t else t)"
  define t2 where "t2 = (if modifyTrigger p \<noteq> None
    then mod_order (\<lambda>o'. o'\<lparr>o_trigger := modifyTrigger p, o_isTrigger := True\<rparr>) t1 else t1)"
  define t3 where "t3 = (if o_oid (t_order t2) \<noteq> 0 then retireOid (o_oid (t_order t2)) t2 else t2)"
  obtain t4 ix4 where t4: "(if st_oid st \<noteq> 0 \<and> st_oid st \<noteq> o_oid (t_order t2) then setOid (st_oid st) t3 ix else (t2, ix)) = (t4, ix4)"
    by (cases "if st_oid st \<noteq> 0 \<and> st_oid st \<noteq> o_oid (t_order t2) then setOid (st_oid st) t3 ix else (t2, ix)")
  obtain t5 ix5 where t5: "applyAck st (t4\<lparr>canceledDuringModify := False\<rparr>) ix4 = (t5, ix5)"
    by (cases "applyAck st (t4\<lparr>canceledDuringModify := False\<rparr>) ix4")
  have e: "t' = set_error [] t5" "ix' = ix5"
    using m t4 t5 unfolding modify_accepted_def Let_def t1_def[symmetric] t2_def[symmetric] t3_def[symmetric] by simp_all
  have 1: "tr_step t ix t1 ix" unfolding t1_def by (auto intro!: tr_step_mod_order tr_step_setters simp: quiet_def)
  have 2: "tr_step t1 ix t2 ix" unfolding t2_def by (auto intro!: tr_step_mod_order tr_step_setters simp: quiet_def)
  have 3: "tr_step t2 ix t3 ix" unfolding t3_def by (auto intro!: tr_step_flags tr_step_setters)
  have 4: "tr_step t2 ix t4 ix4" using t4 3
    by (auto split: if_splits intro: tr_step_trans[OF 3] setOid_step tr_step_setters)
  have 5: "tr_step t4 ix4 t5 ix5" using tr_step_trans[OF tr_step_flags(1) applyAck_step[OF t5]] .
  have 6: "tr_step t5 ix5 t' ix'" unfolding e by (rule tr_step_setters)
  show ?thesis by (rule tr_step_trans[OF 1 tr_step_trans[OF 2 tr_step_trans[OF 4 tr_step_trans[OF 5 6]]]])
qed

lemma result_error_steps: "tbl_steps ev rv (tbl s) (tbl (result_error c p err s))"
  unfolding result_error_def Let_def
  by (cases "pa_kind p") (auto intro!: tbl_intros)

lemma result_short_steps: "tbl_steps ev rv (tbl s) (tbl (result_short c p sts s))"
  unfolding result_short_def Let_def by (auto intro!: tbl_intros)

lemma result_status_steps: "tbl_steps ev rv (tbl s) (tbl (result_status i c p st s))"
  unfolding result_status_def Let_def
  by (cases "pa_kind p") (auto intro!: tbl_intros intro: applyAck_step modify_accepted_step)

lemma applyActionResult_steps:
  assumes "tbl_steps ev rv T (tbl s)"
  shows "tbl_steps ev rv T (tbl (applyActionResult p r s))"
proof -
  have one: "tbl_steps ev rv (tbl s) (tbl (apply_one_result p r i c s))" for i c s
    by (auto simp: apply_one_result_def result_error_steps result_short_steps result_status_steps split: sum.split)
  have "tbl_steps ev rv T (tbl s) \<Longrightarrow> tbl_steps ev rv T (tbl (applyActionResult_loop p r i cs s))" for i cs s
  proof (induction cs arbitrary: i s)
    case (Cons c cs)
    from Cons.IH[OF tbl_steps_trans[OF Cons.prems one, of i c]] show ?case by simp
  qed simp
  with assms show ?thesis by (simp add: applyActionResult_def)
qed

lemma completeAction_steps:
  assumes "tbl_steps ev rv T (tbl s)"
  shows "tbl_steps ev rv T (tbl (completeAction i r s))"
  using assms unfolding completeAction_def Let_def
  by (auto split: option.split sum.split intro!: applyActionResult_steps)

lemma completions_fold_steps:
  "tbl_steps ev rv T (tbl s) \<Longrightarrow> tbl_steps ev rv T (tbl (fold (\<lambda>i. completeAction i r) ids s))"
  by (induction ids arbitrary: s) (simp_all add: completeAction_steps)

lemma onSessionClosed_steps:
  "tbl_steps ev rv T (tbl s) \<Longrightarrow> tbl_steps ev rv T (tbl (onSessionClosed iter reason s))"
  by (simp add: onSessionClosed_def Let_def completions_fold_steps)

lemma session_send_steps:
  "tbl_steps ev rv T (tbl s) \<Longrightarrow> tbl_steps ev rv T (tbl (session_send frame s))"
  by (simp add: session_send_def Let_def onSessionClosed_steps split: option.split)

lemma send_steps:
  assumes "tbl_steps ev rv T (tbl s)"
  shows "tbl_steps ev rv T (tbl (send a p s))"
  using assms unfolding send_def Let_def
  by (auto simp: case_prod_beta intro!: completeAction_steps session_send_steps)

end
