(* ===== verification/HL_Events.thy ===== *)
theory HL_Events
  imports HL_OrderTable
begin

text \<open>
  The events of the exchange client: every public method, session message, query answer and timer of
  \<open>ExchangeClient\<close> is one constructor of \<open>event\<close>, and \<open>handle\<close> runs the operation
  that the code runs for it. The theory shows that every event moves the order table only by the transitions of
  \<open>HL_OrderTable\<close>, and draws from this the invariants of every reachable client.
\<close>

section \<open>Updates and fills\<close>

lemma update_generation_step:
  "update_generation u t ix = Some (t', ix') \<Longrightarrow> tr_step t ix t' ix'"
  by (auto simp: update_generation_def Let_def split: if_splits
      intro: setOid_step tr_step_trans[OF tr_step_flags(4) setOid_step] tr_step_setters)

lemma track_update_steps:
  assumes "track_update u s = (c, s')"
  shows "tbl_steps ev rv (tbl s) (tbl s')"
  using assms unfolding track_update_def Let_def prod.inject
  by (auto simp: fresh_from_update_def intro!: tbl_intros intro: setOid_step simp: quiet_def)

lemma onOrderUpdate_steps: "tbl_steps ev rv (tbl s) (tbl (onOrderUpdate u s))"
proof -
  obtain c s1 where cs: "(case locate (u_cloid u) (u_oid u) s of Some c \<Rightarrow> (c, s) | None \<Rightarrow> track_update u s) = (c, s1)"
    by (cases "case locate (u_cloid u) (u_oid u) s of Some c \<Rightarrow> (c, s) | None \<Rightarrow> track_update u s")
  have 1: "tbl_steps ev rv (tbl s) (tbl s1)"
    using cs track_update_steps[of u s c s1] by (auto split: option.splits)
  show ?thesis
  proof (cases "orders s1 c")
    case None
    then show ?thesis using 1 by (simp add: onOrderUpdate_def cs)
  next
    case (Some t)
    show ?thesis
    proof (cases "update_generation u t (oidIndex s1)")
      case None
      then show ?thesis using 1 by (simp add: onOrderUpdate_def cs Some)
    next
      case (Some p)
      obtain t' ix' where p: "p = (t', ix')" by (cases p)
      let ?s = "s1\<lparr>orders := (orders s1)(c \<mapsto> t'), oidIndex := ix'\<rparr>"
      have "tbl_step ev rv (tbl s1) (tbl ?s)"
        using tbl_step.change[of "orders s1" c, OF \<open>orders s1 c = Some t\<close> update_generation_step[OF Some[unfolded p]]]
        by (simp add: tbl_def)
      with 1 have 2: "tbl_steps ev rv (tbl s) (tbl ?s)" by (auto intro: tbl_steps_trans tbl_steps_one)
      show ?thesis
        unfolding onOrderUpdate_def cs Let_def prod.case \<open>orders s1 c = Some t\<close> option.case Some p
        using 2 by (auto intro!: emit_steps upd_steps applyVenueStatus_step tr_step_flags)
    qed
  qed
qed

lemma onOrderUpdates_steps: "tbl_steps ev rv (tbl s) (tbl (onOrderUpdates us s))"
  unfolding onOrderUpdates_def by (rule fold_steps) (auto intro: onOrderUpdate_steps)

lemma add_fill_step: "tr_step t ix (add_fill f t) ix"
proof -
  let ?u = "recomputeFills (t\<lparr>fillSum := dec_add (fillSum t) (f_sz f),
    fillNotional := fillNotional t + raw (f_px f) * raw (f_sz f)\<rparr>)"
  have "same_accounting t ?u" by (rule same_accounting_recompute) simp_all
  moreover have "oid_of ?u = oid_of t" "state_of ?u = state_of t" by (simp_all add: oid_of_def state_of_def recomputeFills_def)
  ultimately show ?thesis by (auto simp: tr_step_def add_fill_def Let_def)
qed

lemma onUserFill_steps: "tbl_steps ev rv (tbl s) (tbl (onUserFill h f s))"
proof -
  have fill: "tbl_steps ev rv (tbl s) (tbl (fill_order f c s))" for c s
    unfolding fill_order_def Let_def
    by (auto split: option.split intro!: tbl_intros add_fill_step intro: setOid_step)
  have "tbl_steps ev rv (tbl s) (tbl s') \<Longrightarrow> tbl_steps ev rv (tbl s) (tbl (fill_order f c s'))" for s' c
    using tbl_steps_trans[OF _ fill] .
  then show ?thesis unfolding onUserFill_def Let_def by (auto split: option.split)
qed

lemma onUserFills_steps: "tbl_steps ev rv (tbl s) (tbl (onUserFills m s))"
  unfolding onUserFills_def Let_def by (rule fold_steps) (auto intro: onUserFill_steps)

lemma onNonUserCancels_steps: "tbl_steps ev rv (tbl s) (tbl (onNonUserCancels ms s))"
  unfolding onNonUserCancels_def
  by (rule fold_steps) (auto simp: onNonUserCancel_def split: option.split intro!: tbl_intros intro: applyVenueStatus_step)

section \<open>Order entry\<close>

lemma place_build_tbl: "tbl (fst (place_build reqs ws cs s)) = tbl s"
  by (induction reqs ws cs s rule: place_build.induct)
    (auto simp: Let_def nextCloid_def tbl_def split: sum.split option.split)

lemma request_order_step: "\<not> isTerminal (state_of t) \<Longrightarrow> tr_step t ix (mod_order (request_order req w now) t) ix"
  by (rule tr_step_quiet) (simp_all add: quiet_def request_order_def)

text \<open>The ids of a batch are not in the table when its orders are built.\<close>

definition pending_new :: "client \<Rightarrow> cloid \<Rightarrow> bool" where
  "pending_new s c \<longleftrightarrow> (\<forall>t. orders s c = Some t \<longrightarrow> \<not> isTerminal (state_of t))"

lemma place_build_new:
  "place_build reqs ws cs s = (s', Inr (ws', cs')) \<Longrightarrow>
   \<exists>new. cs' = cs @ new \<and> length new = length reqs \<and> (\<forall>c \<in> set new. orders s c = None)"
proof (induction reqs ws cs s arbitrary: s' ws' cs' rule: place_build.induct)
  case (2 req reqs ws cs s)
  define c where "c = (case r_cloid req of Some c \<Rightarrow> c | None \<Rightarrow> fst (nextCloid s))"
  define s1 where "s1 = snd (nextCloid s)"
  have o: "orders s1 = orders s" by (simp add: s1_def nextCloid_def)
  obtain w where w: "orders s1 c = None" "buildWire req c s1 = Inr w"
    "place_build reqs (ws @ [w]) (cs @ [c]) s1 = (s', Inr (ws', cs'))"
    using 2(2) by (auto simp: case_prod_beta Let_def c_def s1_def split: if_splits sum.splits)
  have n: "nextCloid s = (fst (nextCloid s), s1)" by (simp add: s1_def)
  obtain new where "cs' = (cs @ [c]) @ new" "length new = length reqs" "\<forall>c \<in> set new. orders s1 c = None"
    using 2(1)[OF n[symmetric] refl c_def _ w(2,3)] w(1) by auto
  then show ?case using w(1) o by (intro exI[of _ "c # new"]) auto
qed simp

lemma place_track_steps:
  assumes "\<And>c. c \<in> set cs \<Longrightarrow> pending_new s c" and "tbl_steps ev rv T (tbl s)"
  shows "tbl_steps ev rv T (tbl (place_track now reqs ws cs s))"
  using assms
proof (induction now reqs ws cs s rule: place_track.induct)
  case (1 now req reqs w ws c cs s)
  let ?s = "upd c (mod_order (request_order req w now)) (track c s)"
  have live: "orders (track c s) c = Some t \<Longrightarrow> \<not> isTerminal (state_of t)" for t
    using 1(2)[of c]
    by (auto simp: track_def pending_new_def default_tracked_def default_order_def state_of_def split: option.splits)
  have "tbl_steps ev rv T (tbl ?s)"
    using 1(3) live by (auto intro!: tbl_intros request_order_step)
  moreover have "pending_new ?s d" if "d \<in> set (c # cs)" for d
    using 1(2)[OF that] by (auto simp: pending_new_def upd_def track_def state_of_def request_order_def split: option.splits if_splits)
  ultimately show ?case using 1(1) by simp
qed simp_all

lemma placeOrders_steps: "tbl_steps ev rv (tbl s) (tbl (fst (placeOrders reqs g b s)))"
proof (cases "place_build reqs [] [] s")
  case (Pair s1 r)
  have t: "tbl s1 = tbl s" using place_build_tbl[of reqs "[]" "[]" s] by (simp add: Pair)
  show ?thesis
  proof (cases r)
    case (Inl e)
    then show ?thesis by (simp add: placeOrders_def Pair t)
  next
    case (Inr wc)
    obtain ws cs where wc: "wc = (ws, cs)" by (cases wc)
    have "orders s1 c = None" if "c \<in> set cs" for c
      using place_build_new[of reqs "[]" "[]" s s1 ws cs] that t by (auto simp: Pair Inr wc tbl_def)
    then have "tbl_steps ev rv (tbl s) (tbl (place_track (clock s1) reqs ws cs s1))"
      by (intro place_track_steps) (auto simp: pending_new_def t)
    then show ?thesis
      by (auto simp: placeOrders_def Pair Inr wc Let_def intro!: send_steps)
  qed
qed

lemma cancel_steps: "tbl_steps ev rv (tbl s) (tbl (fst (cancel c s)))"
  unfolding cancel_def Let_def by (auto split: option.split intro!: tbl_intros send_steps)

lemma cancelByOid_steps: "tbl_steps ev rv (tbl s) (tbl (fst (cancelByOid coin i s)))"
  unfolding cancelByOid_def Let_def by (auto split: option.split intro!: tbl_intros send_steps)

lemma batches_steps:
  "tbl_steps ev rv T (tbl s) \<Longrightarrow> tbl_steps ev rv T (tbl (cloid_batches fast ws cs s))"
  "tbl_steps ev rv T (tbl s) \<Longrightarrow> tbl_steps ev rv T (tbl (oid_batches fast us cs s))"
proof -
  show "tbl_steps ev rv T (tbl s) \<Longrightarrow> tbl_steps ev rv T (tbl (cloid_batches fast ws cs s))"
  proof (induction fast ws cs s rule: cloid_batches.induct)
    case (1 fast ws cs s)
    then show ?case by (simp add: cloid_batches.simps[of fast ws] send_steps)
  qed
  show "tbl_steps ev rv T (tbl s) \<Longrightarrow> tbl_steps ev rv T (tbl (oid_batches fast us cs s))"
  proof (induction fast us cs s rule: oid_batches.induct)
    case (1 fast ws cs s)
    then show ?case by (simp add: oid_batches.simps[of fast ws] send_steps)
  qed
qed

lemma cancelAll_collect_steps: "tbl_steps ev rv (tbl (snd ls)) (tbl (snd (cancelAll_collect coin c ls)))"
  unfolding cancelAll_collect_def Let_def case_prod_beta by (auto split: option.split intro!: tbl_intros)

lemma collect_fold_steps: "tbl_steps ev rv (tbl (snd ls)) (tbl (snd (fold (cancelAll_collect coin) iter ls)))"
proof (induction iter arbitrary: ls)
  case (Cons c iter)
  from tbl_steps_trans[OF cancelAll_collect_steps Cons.IH] show ?case by simp
qed simp

lemma cancelAll_steps: "tbl_steps ev rv (tbl s) (tbl (fst (cancelAll iter coin s)))"
  using collect_fold_steps[of ev rv "(no_cancels, s)" coin iter]
  unfolding cancelAll_def Let_def case_prod_beta by (auto intro!: batches_steps)

lemma modify_steps: "tbl_steps ev rv (tbl s) (tbl (fst (modify c px sz tr s)))"
proof -
  have "tr_step t ix ((set_modifyPending True t)\<lparr>canceledDuringModify := False\<rparr>) ix" for t ix
    by (rule tr_step_trans[OF tr_step_setters(4) tr_step_flags(1)])
  then show ?thesis unfolding modify_def Let_def
    by (auto split: option.split sum.split intro!: upd_steps send_steps)
qed

lemma other_actions_steps:
  "tbl_steps ev rv (tbl s) (tbl (fst (scheduleCancel due cb s)))"
  "tbl_steps ev rv (tbl s) (tbl (fst (updateLeverage coin lev cr cb s)))"
  "tbl_steps ev rv (tbl s) (tbl (fst (updateIsolatedMargin coin usdc cb s)))"
  "tbl_steps ev rv (tbl s) (tbl (fst (reserveRequestWeight wt cb s)))"
  "tbl_steps ev rv (tbl s) (tbl (fst (noop cb s)))"
  "tbl_steps ev rv (tbl s) (tbl (submitAction a cb s))"
  by (auto simp: scheduleCancel_def updateLeverage_def updateIsolatedMargin_def reserveRequestWeight_def noop_def
      submitAction_def split: option.split sum.split intro!: send_steps)

section \<open>Life cycle\<close>

lemma maybeReady_tbl [simp]: "tbl (maybeReady iter s) = tbl s"
  by (simp add: maybeReady_def Let_def)

lemma fold_tbl: "(\<And>x s. tbl (f x s) = tbl s) \<Longrightarrow> tbl (fold f xs s) = tbl s"
  by (induction xs arbitrary: s) simp_all

lemma startup_tbl [simp]:
  "tbl (seedSpotPositions s) = tbl s" "tbl (seed_positions ps s) = tbl s" "tbl (bootstrap s) = tbl s"
  "tbl (subscribe_user s) = tbl s" "tbl (resubscribeUser s) = tbl s" "tbl (onSessionOpen s) = tbl s"
  "tbl (onVenueError tx s) = tbl s" "tbl (take_info i e s) = tbl s"
  by (auto simp: seedSpotPositions_def seed_positions_def bootstrap_def subscribe_user_def resubscribeUser_def
      onSessionOpen_def onVenueError_def take_info_def Let_def intro!: fold_tbl split: option.split)

lemma handlers_tbl [simp]:
  "tbl (onAssets iter ra s) = tbl s" "tbl (onBootstrapTimer s) = tbl s" "tbl (onUserRole ru s) = tbl s"
  "tbl (onClearinghouse iter rc s) = tbl s" "tbl (start s) = tbl s" "tbl (onRateLimitTimer s) = tbl s"
  "tbl (onRateLimit rl s) = tbl s" "tbl (onSubscriptionResponse iter ty s) = tbl s" "tbl (onReconcileTimer c s) = tbl s"
  "tbl (onNotFoundTimer c s) = tbl s" "tbl (onInfoTimeout i s) = tbl s"
  by (auto simp: onAssets_def onBootstrapTimer_def onUserRole_def onClearinghouse_def start_def onRateLimitTimer_def
      onRateLimit_def onSubscriptionResponse_def onReconcileTimer_def onNotFoundTimer_def
      onInfoTimeout_def Let_def split: sum.split option.split)

lemma onSpotBalances_tbl [simp]: "tbl (onSpotBalances iter r s) = tbl s"
  by (cases r) (simp_all add: onSpotBalances_def Let_def fold_tbl)

lemma stop_tbl [simp]: "tbl (stop iter s) = tbl s"
proof -
  have "tbl (fold (\<lambda>i s. case pending s i of Some p \<Rightarrow> cancel_timer (pa_timer p) s | None \<Rightarrow> s) iter s) = tbl s" for s
    by (rule fold_tbl) (simp split: option.split)
  then show ?thesis by (simp add: stop_def Let_def)
qed

lemma onAdoptListing_steps: "tbl_steps ev True (tbl s) (tbl (onAdoptListing iter r s))"
  by (cases r) (auto simp: onAdoptListing_def Let_def intro!: adoptFromListing_steps)

lemma infoOverWebSocket_steps: "tbl_steps ev rv (tbl s) (tbl (infoOverWebSocket js cb s))"
  unfolding infoOverWebSocket_def Let_def by (auto intro!: session_send_steps)

lemma completions_steps:
  "tbl_steps ev rv (tbl s) (tbl (onActionTimeout i s))"
  "tbl_steps ev rv (tbl s) (tbl (onHttpResponse pj mn i err body s))"
  "tbl_steps ev rv (tbl s) (tbl (onPostResponse pj mn msg s))"
  by (auto simp: onActionTimeout_def onHttpResponse_def onPostResponse_def Let_def
      split: option.split sum.split postType.split intro!: completeAction_steps)

lemma evict_steps: "tbl_steps True rv (tbl s) (tbl (evict cutoff c s))"
proof (cases "orders s c")
  case (Some t)
  have "tbl_step True rv (tbl s) (tbl (evict cutoff c s))"
    if "isTerminal (o_state (t_order t))" "o_updatedMs (t_order t) < cutoff"
    using tbl_step.evict[of True "orders s" c t rv "oidIndex s"] that
    by (auto simp: tbl_def evict_def Some oid_of_def state_of_def Let_def)
  then show ?thesis by (cases "isTerminal (o_state (t_order t)) \<and> o_updatedMs (t_order t) < cutoff")
    (auto simp: evict_def Some Let_def intro: tbl_steps_one)
qed (simp add: evict_def)

lemma onEvictionTimer_steps: "tbl_steps True rv (tbl s) (tbl (onEvictionTimer iter s))"
proof -
  have "tbl_steps True rv (tbl s) (tbl (fold (evict k) iter (s\<lparr>evictionTimer := 0\<rparr>)))" for k
    by (rule fold_steps) (auto intro: evict_steps)
  then show ?thesis by (simp add: onEvictionTimer_def Let_def)
qed

section \<open>Events\<close>

text \<open>
  Everything that can happen to a client: a call of a public method, a message of the session, the
  answer to a query, a timer, and a change of what the client reads from its environment.
\<close>

datatype event =
    EPlaceOrders "orderRequest list" order_grouping "builderFee option"
  | EPlaceOrder orderRequest
  | ECancel cloid
  | ECancelByOid string u64
  | ECancelAll "cloid list" string
  | EModify cloid decimal decimal "triggerSpec option"
  | EScheduleCancel "int option" callback
  | EUpdateLeverage string u32 bool callback
  | EUpdateIsolatedMargin string decimal callback
  | EReserveRequestWeight u64 callback
  | ENoop callback
  | ESubmitAction encodedAction callback
  | EInfoOverWebSocket string nat
  | EStart
  | EStop "u64 list"
  | EOrderUpdates "orderUpdateMsg list"
  | EUserFills userFillsMsg
  | ENonUserCancels "(string \<times> u64) list"
  | EPostResponse postResponseMsg
  | EHttpResponse u64 error string
  | ESubscriptionResponse "cloid list" string
  | EVenueError string
  | ESessionOpen
  | ESessionClosed "u64 list" string
  | EAssets "cloid list" "registry result"
  | EUserRole "userRole result"
  | ESpotBalances "cloid list" "spotBalance list result"
  | EClearinghouse "cloid list" "accountState result"
  | ERateLimit "rateLimitStatus result"
  | EOrderStatus cloid "orderStatusInfo result"
  | EAmendedListing cloid "openOrder list result"
  | EAdoptListing "cloid list" "openOrder list result"
  | EReconcileAllListing "cloid list" "openOrder list result"
  | EActionTimeout u64
  | EInfoTimeout u64
  | EBootstrapTimer
  | EReconcileTimer cloid
  | ENotFoundTimer cloid
  | EEvictionTimer "cloid list"
  | ERateLimitTimer
  | EEnvironment int bool bool "(u64 list \<times> string) option" u64 int

fun handle :: "(string \<Rightarrow> json option) \<Rightarrow> (json \<Rightarrow> string) \<Rightarrow> event \<Rightarrow> client \<Rightarrow> client" where
  "handle pj mn (EPlaceOrders reqs g b) s = fst (placeOrders reqs g b s)"
| "handle pj mn (EPlaceOrder req) s = fst (placeOrder req s)"
| "handle pj mn (ECancel c) s = fst (cancel c s)"
| "handle pj mn (ECancelByOid coin i) s = fst (cancelByOid coin i s)"
| "handle pj mn (ECancelAll iter coin) s = fst (cancelAll iter coin s)"
| "handle pj mn (EModify c p z tr) s = fst (modify c p z tr s)"
| "handle pj mn (EScheduleCancel due cb) s = fst (scheduleCancel due cb s)"
| "handle pj mn (EUpdateLeverage coin lev cross cb) s = fst (updateLeverage coin lev cross cb s)"
| "handle pj mn (EUpdateIsolatedMargin coin usdc cb) s = fst (updateIsolatedMargin coin usdc cb s)"
| "handle pj mn (EReserveRequestWeight wt cb) s = fst (reserveRequestWeight wt cb s)"
| "handle pj mn (ENoop cb) s = fst (noop cb s)"
| "handle pj mn (ESubmitAction a cb) s = submitAction a cb s"
| "handle pj mn (EInfoOverWebSocket js cb) s = infoOverWebSocket js cb s"
| "handle pj mn EStart s = start s"
| "handle pj mn (EStop iter) s = stop iter s"
| "handle pj mn (EOrderUpdates us) s = onOrderUpdates us s"
| "handle pj mn (EUserFills m) s = onUserFills m s"
| "handle pj mn (ENonUserCancels ms) s = onNonUserCancels ms s"
| "handle pj mn (EPostResponse m) s = onPostResponse pj mn m s"
| "handle pj mn (EHttpResponse i err body) s = onHttpResponse pj mn i err body s"
| "handle pj mn (ESubscriptionResponse iter ty) s = onSubscriptionResponse iter ty s"
| "handle pj mn (EVenueError tx) s = onVenueError tx s"
| "handle pj mn ESessionOpen s = onSessionOpen s"
| "handle pj mn (ESessionClosed iter reason) s = onSessionClosed iter reason s"
| "handle pj mn (EAssets iter r) s = onAssets iter r s"
| "handle pj mn (EUserRole r) s = onUserRole r s"
| "handle pj mn (ESpotBalances iter r) s = onSpotBalances iter r s"
| "handle pj mn (EClearinghouse iter r) s = onClearinghouse iter r s"
| "handle pj mn (ERateLimit r) s = onRateLimit r s"
| "handle pj mn (EOrderStatus c r) s = onOrderStatus c r s"
| "handle pj mn (EAmendedListing c r) s = onAmendedListing c r s"
| "handle pj mn (EAdoptListing iter r) s = onAdoptListing iter r s"
| "handle pj mn (EReconcileAllListing live r) s = onReconcileAllListing live r s"
| "handle pj mn (EActionTimeout i) s = onActionTimeout i s"
| "handle pj mn (EInfoTimeout i) s = onInfoTimeout i s"
| "handle pj mn EBootstrapTimer s = onBootstrapTimer s"
| "handle pj mn (EReconcileTimer c) s = onReconcileTimer c s"
| "handle pj mn (ENotFoundTimer c) s = onNotFoundTimer c s"
| "handle pj mn (EEvictionTimer iter) s = onEvictionTimer iter s"
| "handle pj mn ERateLimitTimer s = onRateLimitTimer s"
| "handle pj mn (EEnvironment now op ok br hits us) s =
     s\<lparr>clock := now, session_open := op, send_ok := ok, send_breaks := br, http_rate_hits := hits, measured_us := us\<rparr>"

fun evicts :: "event \<Rightarrow> bool" where
  "evicts (EEvictionTimer _) = True"
| "evicts _ = False"

fun lists_orders :: "event \<Rightarrow> bool" where
  "lists_orders (EAdoptListing _ _) = True"
| "lists_orders (EReconcileAllListing _ _) = True"
| "lists_orders _ = False"

lemma placeOrder_steps: "tbl_steps ev rv (tbl s) (tbl (fst (placeOrder req s)))"
  using placeOrders_steps[of ev rv s "[req]" "GroupingOf Na" None]
  by (auto simp: placeOrder_def split: prod.splits sum.splits)

lemma handle_steps: "tbl_steps (evicts e) (lists_orders e) (tbl s) (tbl (handle pj mn e s))"
  by (cases e)
    (simp_all add: placeOrders_steps placeOrder_steps cancel_steps cancelByOid_steps cancelAll_steps modify_steps
      other_actions_steps onOrderUpdates_steps onUserFills_steps onNonUserCancels_steps completions_steps
      onSessionClosed_steps infoOverWebSocket_steps onOrderStatus_steps onAmendedListing_steps onAdoptListing_steps
      onReconcileAllListing_steps onEvictionTimer_steps)

section \<open>Invariants of the table\<close>

text \<open>
  Every order is stored under its own client id, its fill accounting is consistent, and the index
  from exchange ids only has entries for the id an order carries now.
\<close>

definition table_inv :: "table \<Rightarrow> bool" where
  "table_inv T \<longleftrightarrow>
     (\<forall>c t. fst T c = Some t \<longrightarrow> o_cloid (t_order t) = c \<and> tracked_inv t) \<and>
     (\<forall>i c. snd T i = Some c \<longrightarrow> i \<noteq> 0 \<and> (\<exists>t. fst T c = Some t \<and> oid_of t = i))"

lemma table_invI:
  assumes "\<And>c t. T c = Some t \<Longrightarrow> o_cloid (t_order t) = c" and "\<And>c t. T c = Some t \<Longrightarrow> tracked_inv t"
    and "\<And>i c. ix i = Some c \<Longrightarrow> i \<noteq> 0" and "\<And>i c. ix i = Some c \<Longrightarrow> \<exists>t. T c = Some t \<and> oid_of t = i"
  shows "table_inv (T, ix)"
  using assms unfolding table_inv_def fst_conv snd_conv by blast

lemma table_invD:
  assumes "table_inv (T, ix)"
  shows "T c = Some t \<Longrightarrow> o_cloid (t_order t) = c" and "T c = Some t \<Longrightarrow> tracked_inv t"
    and "ix i = Some d \<Longrightarrow> i \<noteq> 0" and "ix i = Some d \<Longrightarrow> \<exists>t. T d = Some t \<and> oid_of t = i"
  using assms unfolding table_inv_def fst_conv snd_conv by blast+

text \<open>Replacing an order by one that keeps its accounting, with the index following its exchange id.\<close>

lemma table_inv_change:
  assumes inv: "table_inv (T, ix)" and c: "T c = Some t" and acc: "same_accounting t t'" and st: "ix_step t ix t' ix'"
  shows "table_inv (T(c \<mapsto> t'), ix')"
proof -
  note d = table_invD[OF inv]
  have own: "o_cloid (t_order t) = c" "tracked_inv t" using d(1,2)[OF c] .
  have "i \<noteq> 0 \<and> (\<exists>u. (T(c \<mapsto> t')) e = Some u \<and> oid_of u = i)" if "ix' i = Some e" for i e
    using st that unfolding ix_step_def
  proof (elim allE impE)
    assume "(i \<noteq> 0 \<and> i = oid_of t' \<and> e = o_cloid (t_order t)) \<or>
      (ix i = Some e \<and> (i = 0 \<or> i \<noteq> oid_of t \<or> oid_of t' = oid_of t))"
    then show ?thesis using d(3,4)[of i e] own(1) c by auto
  qed auto
  then show ?thesis using d(1,2) acc own by (intro table_invI) (auto simp: same_accounting_def split: if_splits)
qed

lemma table_inv_step: "tbl_step ev rv T T' \<Longrightarrow> table_inv T \<Longrightarrow> table_inv T'"
proof (induction rule: tbl_step.induct)
  case (change T c t ix t' ix')
  then show ?case by (auto simp: tr_step_def intro: table_inv_change)
next
  case (create T c t ix)
  note d = table_invD[OF create(5)]
  have "\<exists>u. (T(c \<mapsto> t)) e = Some u \<and> oid_of u = i" if "ix i = Some e" for i e
    using d(4)[OF that] create(1) by auto
  then show ?case using create(1-4) d by (intro table_invI) (auto split: if_splits)
next
  case (retrack T c t ix)
  have "o_cloid (t_order t) = c" using table_invD(1)[OF retrack(2,1)] .
  then have "mod_order (\<lambda>o'. o'\<lparr>o_cloid := c\<rparr>) t = t" by (simp add: mod_order_def)
  then show ?case using retrack by (simp add: fun_upd_idem)
next
  case (evict T c t ix)
  note d = table_invD[OF evict(4)]
  have "\<exists>u. (T(c := None)) e = Some u \<and> oid_of u = i"
    if "(if oid_of t = 0 then ix else ix(oid_of t := None)) i = Some e" for i e
    using that d(3,4)[of i e] evict(2) by (auto split: if_splits)
  then show ?case using d by (intro table_invI) (auto split: if_splits)
next
  case (revive T c t t' ix)
  then show ?case by (intro table_inv_change) auto
qed

lemma table_inv_steps: "tbl_steps ev rv T T' \<Longrightarrow> table_inv T \<Longrightarrow> table_inv T'"
  unfolding tbl_steps_def by (induction rule: rtranclp_induct) (auto intro: table_inv_step)

inductive reachable :: "(string \<Rightarrow> json option) \<Rightarrow> (json \<Rightarrow> string) \<Rightarrow> client \<Rightarrow> bool" for pj mn where
  constructed: "new_client mk_signer rand now key vlt c = Some s \<Longrightarrow> reachable pj mn s"
| handled: "reachable pj mn s \<Longrightarrow> reachable pj mn (handle pj mn e s)"

lemma new_client_empty:
  "new_client mk_signer rand now key vlt c = Some s \<Longrightarrow>
   orders s = Map.empty \<and> oidIndex s = Map.empty \<and> pending s = Map.empty \<and> seenTids s = {} \<and> seenTidOrder s = []"
  by (auto simp: new_client_def Let_def split: if_splits option.splits)

section \<open>Terminal orders\<close>

definition ended :: "orderState \<Rightarrow> cloid \<Rightarrow> table \<Rightarrow> bool" where
  "ended x c T \<longleftrightarrow> (\<exists>t. fst T c = Some t \<and> (state_of t = x \<or> state_of t = Filled))"

lemma ended_step:
  assumes "tbl_step False False T T'" and "isTerminal x" and "ended x c T"
  shows "ended x c T'"
  using assms
proof (induction rule: tbl_step.induct)
  case (change T d t ix t' ix')
  then show ?case by (auto simp: ended_def tr_step_def isTerminal_def)
next
  case (create T d t ix)
  then show ?case by (auto simp: ended_def)
next
  case (retrack T d t ix)
  then show ?case by (auto simp: ended_def state_of_def)
qed auto

lemma ended_steps: "tbl_steps False False T T' \<Longrightarrow> isTerminal x \<Longrightarrow> ended x c T \<Longrightarrow> ended x c T'"
  unfolding tbl_steps_def by (induction rule: rtranclp_induct) (auto intro: ended_step)

end
