(* ===== verification/HL_Requests.thy ===== *)
theory HL_Requests
  imports HL_Events
begin

text \<open>
  What the exchange client keeps besides its orders: the requests in flight and the callbacks they
  owe, the window of fills already seen, and the flags that gate readiness. Each is projected out of the
  client (\<open>flight\<close>, \<open>tids\<close>, \<open>gate_of\<close>); the frame lemmas say which operations leave the projection
  alone, and the invariants follow for every reachable client.
\<close>

section \<open>Requests in flight\<close>

text \<open>What applying a result to the table leaves alone: the requests in flight and the user's callbacks.\<close>

fun is_callback :: "effect \<Rightarrow> bool" where
  "is_callback (ActionCallback _ _) = True"
| "is_callback _ = False"

definition flight :: "client \<Rightarrow> (u64 \<rightharpoonup> pendingAction) \<times> effect list" where
  "flight s = (pending s, filter is_callback (out s))"

named_theorems flight_simps

lemma flight_basic [flight_simps]:
  "flight (upd c f s) = flight s" "flight (upd_ix c g s) = flight s" "flight (emit c s) = flight s"
  "flight (mod_stats h s) = flight s" "flight (reconcile c s) = flight s" "flight (reconcileAmended c s) = flight s"
  by (auto simp: flight_def upd_def upd_ix_def emit_def mod_stats_def reconcile_def reconcileAmended_def log_out_def Let_def
      split: option.split prod.split)

lemma flight_results [flight_simps]:
  "flight (result_error c p err s) = flight s" "flight (result_short c p sts s) = flight s"
  "flight (result_status i c p st s) = flight s"
  by (auto simp: result_error_def result_short_def result_status_def Let_def flight_simps split: actionKind.split)

lemma flight_apply_one [flight_simps]: "flight (apply_one_result p r i c s) = flight s"
  by (auto simp: apply_one_result_def flight_simps split: sum.split)

lemma flight_loop [flight_simps]: "flight (applyActionResult_loop p r i cs s) = flight s"
  by (induction p r i cs s rule: applyActionResult_loop.induct) (simp_all add: flight_simps)

lemma flight_applyActionResult [flight_simps]: "flight (applyActionResult p r s) = flight s"
  by (simp add: applyActionResult_def flight_simps)

definition callback_of :: "pendingAction \<Rightarrow> exchangeResponse result \<Rightarrow> effect list" where
  "callback_of p r = (case pa_callback p of Some cb \<Rightarrow> [ActionCallback cb r] | None \<Rightarrow> [])"

lemma flight_log_out: "flight (log_out e s) = (pending s, filter is_callback (out s) @ (if is_callback e then [e] else []))"
  by (simp add: flight_def log_out_def)

lemma completeAction_flight:
  assumes "pending s i = Some p"
  shows "flight (completeAction i r s) = ((pending s)(i := None), filter is_callback (out s) @ callback_of p r)"
proof -
  let ?s = "s\<lparr>pending := (pending s)(i := None)\<rparr>"
  define s1 where "s1 = (if pa_timer p \<noteq> 0 then log_out (CancelTimer (pa_timer p)) ?s else ?s)"
  define s2 where "s2 = (if pa_sent p then mod_stats (add_round_trip (pa_kind p) (elapsedUs (measured_us s1))) s1 else s1)"
  define s3 where "s3 = (case r of
      Inl e \<Rightarrow> mod_stats (\<lambda>st. st\<lparr>actionErrors := actionErrors st + 1,
                   timeouts := (if err_kind e = Timeout then timeouts st + 1 else timeouts st)\<rparr>) s2
    | Inr _ \<Rightarrow> s2)"
  define s4 where "s4 = applyActionResult p r s3"
  have "flight s4 = ((pending s)(i := None), filter is_callback (out s))"
    unfolding s4_def s3_def s2_def s1_def
    by (simp add: flight_simps sum.case_eq_if) (auto simp: flight_def log_out_def)
  moreover have "completeAction i r s = (case pa_callback p of Some cb \<Rightarrow> log_out (ActionCallback cb r) s4 | None \<Rightarrow> s4)"
    by (simp only: completeAction_def assms option.case Let_def s4_def s3_def s2_def s1_def)
  ultimately show ?thesis
    by (auto simp: callback_of_def flight_def log_out_def split: option.split)
qed

lemma completeAction_unknown: "pending s i = None \<Longrightarrow> completeAction i r s = s"
  by (simp add: completeAction_def)

lemma completeAction_pending:
  "pending (completeAction i r s) = (pending s)(i := None)"
proof (cases "pending s i")
  case None
  then show ?thesis by (simp add: completeAction_unknown fun_upd_idem)
next
  case (Some p)
  from completeAction_flight[OF this, of r] show ?thesis by (simp add: flight_def)
qed

lemma complete_fold_pending:
  "pending (fold (\<lambda>i. completeAction i r) is s) = (\<lambda>i. if i \<in> set is then None else pending s i)"
proof (induction "is" arbitrary: s)
  case (Cons i "is")
  show ?case by (rule ext) (simp add: Cons.IH completeAction_pending)
qed simp

lemma complete_fold_callbacks:
  assumes "distinct is" and "\<And>i. i \<in> set is \<Longrightarrow> pending s i \<noteq> None"
  shows "filter is_callback (out (fold (\<lambda>i. completeAction i r) is s)) =
    filter is_callback (out s) @ concat (map (\<lambda>i. callback_of (the (pending s i)) r) is)"
  using assms
proof (induction "is" arbitrary: s)
  case (Cons i "is")
  obtain p where p: "pending s i = Some p" using Cons.prems(2)[of i] by auto
  let ?s = "completeAction i r s"
  have fl: "pending ?s = (pending s)(i := None)" "filter is_callback (out ?s) = filter is_callback (out s) @ callback_of p r"
    using completeAction_flight[OF p, of r] by (simp_all add: flight_def)
  have "concat (map (\<lambda>j. callback_of (the (pending ?s j)) r) is) = concat (map (\<lambda>j. callback_of (the (pending s j)) r) is)"
    using Cons.prems(1) fl(1) by (intro arg_cong[of _ _ concat]) auto
  moreover have "pending ?s j \<noteq> None" if "j \<in> set is" for j
    using Cons.prems that fl(1) by auto
  ultimately show ?case using Cons.IH[of ?s] Cons.prems(1) fl(2) p by simp
qed simp

section \<open>Fills\<close>

definition tid_window :: "client \<Rightarrow> bool" where
  "tid_window s \<longleftrightarrow> seenTids s = set (seenTidOrder s) \<and> distinct (seenTidOrder s) \<and>
     length (seenTidOrder s) \<le> kMaxRememberedTids"

definition tids :: "client \<Rightarrow> u64 set \<times> u64 list" where
  "tids s = (seenTids s, seenTidOrder s)"

lemma tids_frame [simp]:
  "tids (upd c f s) = tids s" "tids (upd_ix c g s) = tids s" "tids (emit c s) = tids s" "tids (mod_stats h s) = tids s"
  "tids (apply_position x s) = tids s" "tids (log_out e s) = tids s"
  by (auto simp: tids_def upd_def upd_ix_def emit_def mod_stats_def apply_position_def log_out_def Let_def
      split: option.split prod.split)

lemma tids_fill_order [simp]: "tids (fill_order f c s) = tids s"
  by (auto simp: fill_order_def Let_def split: option.split)

lemma tids_onUserFill:
  "tids (onUserFill h f s) = (if f_tid f \<in> seenTids s then tids s else tids (remember_tid (f_tid f) s))"
  by (auto simp: onUserFill_def Let_def split: option.split)

lemma tid_window_tids: "tid_window s \<longleftrightarrow> fst (tids s) = set (snd (tids s)) \<and> distinct (snd (tids s)) \<and> length (snd (tids s)) \<le> kMaxRememberedTids"
  by (simp add: tid_window_def tids_def)

lemma remember_tid_order:
  assumes "tid_window s" and "i \<notin> seenTids s"
  shows "tid_window (remember_tid i s)" and "seenTidOrder (remember_tid i s) =
    drop (length (seenTidOrder s) + 1 - kMaxRememberedTids) (seenTidOrder s @ [i])"
proof -
  let ?q = "seenTidOrder s"
  have w: "seenTids s = set ?q" "distinct ?q" "length ?q \<le> kMaxRememberedTids" "i \<notin> set ?q"
    using assms by (auto simp: tid_window_def)
  have "tid_window (remember_tid i s) \<and> seenTidOrder (remember_tid i s) = drop (length ?q + 1 - kMaxRememberedTids) (?q @ [i])"
  proof (cases "length ?q < kMaxRememberedTids")
    case True
    then show ?thesis using w by (simp add: remember_tid_def tid_window_def Let_def)
  next
    case False
    then have len: "length ?q = kMaxRememberedTids" using w(3) by simp
    then obtain j q where q: "?q = j # q" by (cases ?q) (auto simp: kMaxRememberedTids_def)
    show ?thesis using w len by (auto simp: remember_tid_def tid_window_def Let_def q)
  qed
  then show "tid_window (remember_tid i s)" and "seenTidOrder (remember_tid i s) =
    drop (length ?q + 1 - kMaxRememberedTids) (?q @ [i])" by auto
qed

lemma tid_window_onUserFill: "tid_window s \<Longrightarrow> tid_window (onUserFill h f s)"
  using remember_tid_order(1)[of s "f_tid f"] by (simp add: tid_window_tids tids_onUserFill)

lemma tid_window_fills: "tid_window s \<Longrightarrow> tid_window (fold (onUserFill h) fs s)"
  by (induction fs arbitrary: s) (simp_all add: tid_window_onUserFill)

lemma fills_remembered:
  assumes "tid_window s" and "seenTidOrder s = old @ new" and "set old \<inter> f_tid ` set fs = {}"
    and "length new + length fs \<le> kMaxRememberedTids"
  shows "set new \<union> f_tid ` set fs \<subseteq> seenTids (fold (onUserFill h) fs s)"
  using assms
proof (induction fs arbitrary: s old new)
  case Nil
  then show ?case by (simp add: tid_window_def)
next
  case (Cons f fs)
  let ?s = "onUserFill h f s"
  have w: "tid_window ?s" using tid_window_onUserFill[OF Cons.prems(1)] .
  show ?case
  proof (cases "f_tid f \<in> seenTids s")
    case True
    then have "seenTidOrder ?s = old @ new" and mem: "f_tid f \<in> set new"
      using Cons.prems(1-3) tids_onUserFill[of h f s] by (auto simp: tids_def tid_window_def)
    from Cons.IH[OF w this(1)] Cons.prems(3,4) mem show ?thesis by auto
  next
    case False
    have ord: "seenTidOrder ?s = drop (length old + length new + 1 - kMaxRememberedTids) (old @ new @ [f_tid f])"
      using tids_onUserFill[of h f s] remember_tid_order(2)[OF Cons.prems(1) False] False Cons.prems(2)
      by (simp add: tids_def)
    define k where "k = length old + length new + 1 - kMaxRememberedTids"
    have "k \<le> length old" using Cons.prems(4) by (simp add: k_def)
    then have "seenTidOrder ?s = drop k old @ (new @ [f_tid f])" using ord by (simp add: k_def)
    moreover have "set (drop k old) \<inter> f_tid ` set fs = {}"
      using Cons.prems(3) set_drop_subset[of k old] by fastforce
    ultimately show ?thesis using Cons.IH[OF w, of "drop k old" "new @ [f_tid f]"] Cons.prems(4) by auto
  qed
qed

lemma fills_known: "f_tid ` set fs \<subseteq> seenTids s \<Longrightarrow> fold (onUserFill h) fs s = s"
proof (induction fs)
  case (Cons f fs)
  then show ?case by (simp add: onUserFill_def)
qed simp

section \<open>Readiness\<close>

text \<open>
  The flags that gate readiness, with the window of remembered fills. Most operations leave all of it
  alone; the ones that do not are the fills and the start-up and session handlers.
\<close>

record gate =
  g_cfg :: exchangeConfig
  g_started :: bool
  g_assets :: bool
  g_positions :: bool
  g_spot :: bool
  g_ready :: bool
  g_before :: bool
  g_adopted :: bool
  g_tids :: "u64 set \<times> u64 list"

definition gate_of :: "client \<Rightarrow> gate" where
  "gate_of s = \<lparr>g_cfg = cfg s, g_started = started s, g_assets = assetsLoaded s, g_positions = positionsLoaded s,
     g_spot = spotBalancesLoaded s, g_ready = ready s, g_before = wasReadyBefore s, g_adopted = ordersAdopted s,
     g_tids = tids s\<rparr>"

named_theorems gate_simps

lemmas gate_defs = gate_of_def tids_def

lemma gate_basic [gate_simps]:
  "gate_of (upd c f s) = gate_of s" "gate_of (upd_ix c g s) = gate_of s" "gate_of (emit c s) = gate_of s"
  "gate_of (mod_stats h s) = gate_of s" "gate_of (log_out e s) = gate_of s" "gate_of (later ms cb s) = gate_of s"
  "gate_of (snd (addTimer ms cb s)) = gate_of s" "gate_of (track c s) = gate_of s"
  "gate_of (reconcile c s) = gate_of s" "gate_of (reconcileAmended c s) = gate_of s" "gate_of (try_emplace k q s) = gate_of s"
  "gate_of (apply_position x s) = gate_of s" "gate_of (countRateLimitUnits p s) = gate_of s"
  "gate_of (snd (nextNonce s)) = gate_of s" "gate_of (snd (nextCloid s)) = gate_of s" "gate_of (cancel_timer tm s) = gate_of s"
  "gate_of (armEviction s) = gate_of s" "gate_of (armRateLimitRefresh s) = gate_of s" "gate_of (evict limit c s) = gate_of s"
  "gate_of (take_info i er s) = gate_of s"
  by (auto simp: gate_defs upd_def upd_ix_def emit_def mod_stats_def log_out_def later_def addTimer_def track_def reconcile_def
      reconcileAmended_def try_emplace_def apply_position_def countRateLimitUnits_def nextNonce_def nextCloid_def cancel_timer_def
      armEviction_def armRateLimitRefresh_def evict_def take_info_def Let_def split: option.split prod.split)

lemma gate_fields [gate_simps]:
  "gate_of (s\<lparr>pending := a\<rparr>) = gate_of s" "gate_of (s\<lparr>pendingInfo := b\<rparr>) = gate_of s"
  "gate_of (s\<lparr>evictionTimer := n\<rparr>) = gate_of s" "gate_of (s\<lparr>rateLimitTimer := n\<rparr>) = gate_of s"
  "gate_of (s\<lparr>nextRequestId := i\<rparr>) = gate_of s" "gate_of (s\<lparr>assets := reg\<rparr>) = gate_of s"
  "gate_of (s\<lparr>positions := ps\<rparr>) = gate_of s" "gate_of (s\<lparr>fillsSnapshotSeen := f1\<rparr>) = gate_of s"
  "gate_of (s\<lparr>spotTokens := st\<rparr>) = gate_of s" "gate_of (s\<lparr>accountValue := d\<rparr>) = gate_of s"
  "gate_of (s\<lparr>adoptionInFlight := f1\<rparr>) = gate_of s" "gate_of (s\<lparr>orders := os\<rparr>) = gate_of s"
  "gate_of (s\<lparr>oidIndex := ix\<rparr>) = gate_of s" "gate_of (s\<lparr>account := ad\<rparr>) = gate_of s" "gate_of (s\<lparr>user := ad\<rparr>) = gate_of s"
  "gate_of (s\<lparr>rateLimit := rl\<rparr>) = gate_of s" "gate_of (s\<lparr>unitsAtLastRefresh := i\<rparr>) = gate_of s"
  "gate_of (s\<lparr>orderUpdatesAcked := f1\<rparr>) = gate_of s" "gate_of (s\<lparr>userFillsAcked := f1\<rparr>) = gate_of s"
  "gate_of (s\<lparr>clock := k\<rparr>) = gate_of s" "gate_of (s\<lparr>session_open := f1\<rparr>) = gate_of s" "gate_of (s\<lparr>send_ok := f1\<rparr>) = gate_of s"
  "gate_of (s\<lparr>send_breaks := br\<rparr>) = gate_of s"
  "gate_of (s\<lparr>http_rate_hits := i\<rparr>) = gate_of s" "gate_of (s\<lparr>measured_us := k\<rparr>) = gate_of s"
  by (simp_all add: gate_defs)

lemma gate_fold: "(\<And>x s. gate_of (f x s) = gate_of s) \<Longrightarrow> gate_of s = g \<Longrightarrow> gate_of (fold f xs s) = g"
  by (induction xs arbitrary: s) simp_all

lemma gate_results [gate_simps]:
  "gate_of (result_error c p er s) = gate_of s" "gate_of (result_short c p sts s) = gate_of s"
  "gate_of (result_status i c p st s) = gate_of s"
  by (auto simp: result_error_def result_short_def result_status_def Let_def gate_simps split: actionKind.split)

lemma gate_apply_one [gate_simps]: "gate_of (apply_one_result p r i c s) = gate_of s"
  by (auto simp: apply_one_result_def gate_simps split: sum.split)

lemma gate_loop [gate_simps]: "gate_of (applyActionResult_loop p r i cs s) = gate_of s"
  by (induction p r i cs s rule: applyActionResult_loop.induct) (simp_all add: gate_simps)

lemma gate_completeAction [gate_simps]: "gate_of (completeAction i r s) = gate_of s"
  unfolding completeAction_def Let_def applyActionResult_def
  by (auto simp: gate_simps split: option.split sum.split)

text \<open>A send may end the session, which takes readiness away and nothing else.\<close>

definition gate_drops :: "gate \<Rightarrow> gate \<Rightarrow> bool" where
  "gate_drops g g' \<longleftrightarrow> g' = g \<or> g' = g\<lparr>g_ready := False\<rparr>"

lemma gate_drops_refl [simp]: "gate_drops g g"
  by (simp add: gate_drops_def)

lemma gate_drops_trans: "gate_drops g h \<Longrightarrow> gate_drops h k \<Longrightarrow> gate_drops g k"
  by (auto simp: gate_drops_def)

lemma gate_onSessionClosed: "gate_of (onSessionClosed iter reason s) = (gate_of s)\<lparr>g_ready := False\<rparr>"
proof -
  have "gate_of (fold (\<lambda>i. completeAction i r) js s) = gate_of s" for r js s
    by (rule gate_fold) (auto simp: gate_simps)
  then show ?thesis by (simp add: onSessionClosed_def Let_def gate_simps) (simp add: gate_defs)
qed

lemma gate_session_send: "gate_drops g (gate_of s) \<Longrightarrow> gate_drops g (gate_of (session_send frame s))"
  by (auto simp: session_send_def Let_def gate_simps gate_onSessionClosed gate_drops_def split: option.split)

lemma gate_send: "gate_drops g (gate_of s) \<Longrightarrow> gate_drops g (gate_of (send a p s))"
  unfolding send_def Let_def case_prod_beta by (auto simp: gate_simps intro!: gate_session_send)

lemma gate_place_build: "gate_of (fst (place_build reqs ws cs s)) = gate_of s"
  by (induction reqs ws cs s rule: place_build.induct)
    (auto simp: Let_def nextCloid_def gate_defs split: sum.split option.split)

lemma gate_place_track [gate_simps]: "gate_of (place_track now reqs vs ds s) = gate_of s"
  by (induction now reqs vs ds s rule: place_track.induct) (simp_all add: gate_simps)

lemma gate_placeOrders: "gate_drops (gate_of s) (gate_of (fst (placeOrders reqs g b s)))"
  using gate_place_build[of reqs "[]" "[]" s]
  by (auto simp: placeOrders_def Let_def gate_simps intro!: gate_send split: prod.split sum.split)

lemma gate_batches:
  "gate_drops g (gate_of s) \<Longrightarrow> gate_drops g (gate_of (cloid_batches fast ws cs s))"
  "gate_drops g (gate_of s) \<Longrightarrow> gate_drops g (gate_of (oid_batches fast us cs s))"
proof -
  show "gate_drops g (gate_of s) \<Longrightarrow> gate_drops g (gate_of (cloid_batches fast ws cs s))"
  proof (induction fast ws cs s rule: cloid_batches.induct)
    case (1 fast ws cs s)
    then show ?case by (simp add: cloid_batches.simps[of fast ws] gate_send)
  qed
  show "gate_drops g (gate_of s) \<Longrightarrow> gate_drops g (gate_of (oid_batches fast us cs s))"
  proof (induction fast us cs s rule: oid_batches.induct)
    case (1 fast us cs s)
    then show ?case by (simp add: oid_batches.simps[of fast us] gate_send)
  qed
qed

lemma gate_collect: "gate_of (snd (fold (cancelAll_collect coin) iter ls)) = gate_of (snd ls)"
proof (induction iter arbitrary: ls)
  case (Cons c iter)
  then show ?case by (auto simp: cancelAll_collect_def Let_def gate_simps split: option.split prod.split)
qed simp

lemma gate_entry:
  "gate_drops (gate_of s) (gate_of (fst (placeOrder req s)))" "gate_drops (gate_of s) (gate_of (fst (cancel c s)))"
  "gate_drops (gate_of s) (gate_of (fst (cancelByOid coin i s)))" "gate_drops (gate_of s) (gate_of (fst (cancelAll iter coin s)))"
  "gate_drops (gate_of s) (gate_of (fst (modify c px sz tr s)))" "gate_drops (gate_of s) (gate_of (fst (scheduleCancel due cb s)))"
  "gate_drops (gate_of s) (gate_of (fst (updateLeverage coin lev cr cb s)))"
  "gate_drops (gate_of s) (gate_of (fst (updateIsolatedMargin coin usdc cb s)))"
  "gate_drops (gate_of s) (gate_of (fst (reserveRequestWeight wt cb s)))" "gate_drops (gate_of s) (gate_of (fst (noop cb s)))"
  "gate_drops (gate_of s) (gate_of (submitAction a cb s))" "gate_drops (gate_of s) (gate_of (infoOverWebSocket js k s))"
  using gate_placeOrders[of s "[req]" "GroupingOf Na" None] gate_collect[of coin iter "(no_cancels, s)"]
  by (auto simp: placeOrder_def cancel_def cancelByOid_def cancelAll_def modify_def scheduleCancel_def updateLeverage_def
      updateIsolatedMargin_def reserveRequestWeight_def noop_def submitAction_def infoOverWebSocket_def Let_def gate_simps
      intro!: gate_send gate_session_send gate_batches split: option.split prod.split sum.split)

lemma gate_updates [gate_simps]:
  "gate_of (onOrderUpdates us s) = gate_of s" "gate_of (onNonUserCancels ms s) = gate_of s"
  "gate_of (onOrderStatus c q s) = gate_of s" "gate_of (adopt_generation c op s) = gate_of s"
  by (auto simp: onOrderUpdates_def onNonUserCancels_def onOrderUpdate_def track_update_def onNonUserCancel_def onOrderStatus_def
      adopt_generation_def Let_def gate_simps intro!: gate_fold split: option.split prod.split sum.split)

lemma gate_adopt: "gate_of (fst (fold adopt_one listing sn)) = gate_of (fst sn)"
proof (induction listing arbitrary: sn)
  case (Cons op listing)
  then show ?case by (auto simp: adopt_one_def revive_def Let_def gate_simps split: option.split prod.split)
qed simp

lemma gate_adoptFromListing [gate_simps]: "gate_of (fst (adoptFromListing listing s)) = gate_of s"
  by (simp add: adoptFromListing_def gate_adopt)

lemma gate_reconcileAll_loop: "gate_of (fst (reconcileAll_loop listing cs su)) = gate_of (fst su)"
  by (induction listing cs su rule: reconcileAll_loop.induct) (auto simp: gate_simps split: option.split)

lemma gate_listing [gate_simps]:
  "gate_of (onReconcileAllListing live r s) = gate_of s" "gate_of (onAmendedListing c q s) = gate_of s"
  "gate_of (reconcileAll iter s) = gate_of s"
proof -
  have "gate_of (fold reconcile cs s) = gate_of s" for cs s by (rule gate_fold) (simp_all add: gate_simps)
  then show "gate_of (onReconcileAllListing live r s) = gate_of s"
    using gate_reconcileAll_loop[of _ live "(s, [])"]
    by (auto simp: onReconcileAllListing_def Let_def gate_simps split: sum.split prod.split) (metis fst_conv)+
qed (auto simp: onAmendedListing_def reconcileAll_def Let_def gate_simps split: option.split sum.split)

lemma gate_environment [gate_simps]:
  "gate_of (onActionTimeout i s) = gate_of s" "gate_of (onHttpResponse pj mn i er body s) = gate_of s"
  "gate_of (onPostResponse pj mn msg s) = gate_of s" "gate_of (onInfoTimeout i s) = gate_of s"
  "gate_of (onVenueError tx s) = gate_of s" "gate_of (onSessionOpen s) = gate_of s" "gate_of (onRateLimit rl s) = gate_of s"
  "gate_of (onRateLimitTimer s) = gate_of s" "gate_of (onReconcileTimer c s) = gate_of s"
  "gate_of (onNotFoundTimer c s) = gate_of s" "gate_of (onEvictionTimer iter s) = gate_of s"
  "gate_of (bootstrap s) = gate_of s" "gate_of (onBootstrapTimer s) = gate_of s" "gate_of (subscribe_user s) = gate_of s"
  "gate_of (seedSpotPositions s) = gate_of s" "gate_of (seed_positions qs s) = gate_of s"
  by (auto simp: onActionTimeout_def onHttpResponse_def onPostResponse_def onInfoTimeout_def onVenueError_def onSessionOpen_def
      onRateLimit_def onRateLimitTimer_def onReconcileTimer_def onNotFoundTimer_def onEvictionTimer_def bootstrap_def
      onBootstrapTimer_def subscribe_user_def seedSpotPositions_def seed_positions_def Let_def gate_simps
      intro!: gate_fold split: option.split sum.split postType.split)

definition gate_inv :: "gate \<Rightarrow> bool" where
  "gate_inv g \<longleftrightarrow>
     (g_ready g \<longrightarrow> g_started g \<and> g_assets g \<and> g_positions g \<and> (loadSpotAssets (g_cfg g) \<longrightarrow> g_spot g) \<and> g_before g) \<and>
     (g_before g \<longrightarrow> adoptExistingOrders (g_cfg g) \<longrightarrow> g_adopted g) \<and>
     fst (g_tids g) = set (snd (g_tids g)) \<and> distinct (snd (g_tids g)) \<and> length (snd (g_tids g)) \<le> kMaxRememberedTids"

lemma gate_sel:
  "g_cfg (gate_of s) = cfg s" "g_started (gate_of s) = started s" "g_assets (gate_of s) = assetsLoaded s"
  "g_positions (gate_of s) = positionsLoaded s" "g_spot (gate_of s) = spotBalancesLoaded s" "g_ready (gate_of s) = ready s"
  "g_before (gate_of s) = wasReadyBefore s" "g_adopted (gate_of s) = ordersAdopted s" "g_tids (gate_of s) = tids s"
  by (simp_all add: gate_of_def)

lemma gate_flags [gate_simps]:
  "gate_of (s\<lparr>started := b\<rparr>) = (gate_of s)\<lparr>g_started := b\<rparr>" "gate_of (s\<lparr>assetsLoaded := b\<rparr>) = (gate_of s)\<lparr>g_assets := b\<rparr>"
  "gate_of (s\<lparr>positionsLoaded := b\<rparr>) = (gate_of s)\<lparr>g_positions := b\<rparr>"
  "gate_of (s\<lparr>spotBalancesLoaded := b\<rparr>) = (gate_of s)\<lparr>g_spot := b\<rparr>" "gate_of (s\<lparr>ready := b\<rparr>) = (gate_of s)\<lparr>g_ready := b\<rparr>"
  "gate_of (s\<lparr>wasReadyBefore := b\<rparr>) = (gate_of s)\<lparr>g_before := b\<rparr>" "gate_of (s\<lparr>ordersAdopted := b\<rparr>) = (gate_of s)\<lparr>g_adopted := b\<rparr>"
  by (simp_all add: gate_defs)

lemma gate_inv_maybeReady: 
  assumes "gate_inv (gate_of s)"
  shows "gate_inv (gate_of (maybeReady iter s))"
  using assms unfolding maybeReady_def Let_def
  by (auto simp: gate_simps) (auto simp: gate_inv_def gate_sel)

lemma gate_inv_fills: "gate_inv (gate_of s) \<Longrightarrow> gate_inv (gate_of (onUserFills m s))"
proof -
  assume inv: "gate_inv (gate_of s)"
  have fill: "gate_of (fill_order f c s) = gate_of s" for f c s
    by (auto simp: fill_order_def Let_def gate_simps split: option.split)
  have rem: "gate_of (remember_tid i s) = (gate_of s)\<lparr>g_tids := tids (remember_tid i s)\<rparr>" for i s
    by (simp add: gate_defs remember_tid_def Let_def)
  have one: "gate_of (onUserFill h f s) = (gate_of s)\<lparr>g_tids := tids (onUserFill h f s)\<rparr>" for h f s
    by (auto simp: onUserFill_def Let_def gate_simps fill rem split: option.split) (simp add: gate_defs)
  have all: "gate_of (fold (onUserFill h) fs s) = (gate_of s)\<lparr>g_tids := tids (fold (onUserFill h) fs s)\<rparr>" for h fs s
  proof (induction fs arbitrary: s)
    case (Cons f fs)
    show ?case by (simp add: Cons.IH one)
  qed (simp add: gate_defs)
  let ?s = "if uf_isSnapshot m then s\<lparr>fillsSnapshotSeen := True\<rparr> else s"
  have g: "gate_of ?s = gate_of s" by (simp add: gate_simps)
  have "tid_window ?s" using inv by (simp add: gate_inv_def gate_sel tid_window_tids) (simp add: tids_def)
  from tid_window_fills[OF this] inv show ?thesis
    unfolding onUserFills_def Let_def all g by (simp add: gate_inv_def gate_sel tid_window_tids)
qed

lemma gate_inv_startup:
  assumes "gate_inv (gate_of s)"
  shows "gate_inv (gate_of (start s))" "gate_inv (gate_of (stop ids s))" "gate_inv (gate_of (onSessionClosed ids reason s))"
    "gate_inv (gate_of (onUserRole ru s))"
proof -
  have fold_pending: "gate_of (fold (\<lambda>i s. case pending s i of Some p \<Rightarrow> cancel_timer (pa_timer p) s | None \<Rightarrow> s) ids s) = gate_of s" for s
    by (rule gate_fold) (auto simp: gate_simps split: option.split)
  show "gate_inv (gate_of (start s))" using assms by (simp add: start_def Let_def gate_simps) (simp add: gate_inv_def)
  show "gate_inv (gate_of (stop ids s))"
    using assms by (simp add: stop_def Let_def gate_simps fold_pending) (simp add: gate_inv_def)
  show "gate_inv (gate_of (onSessionClosed ids reason s))"
    using assms by (simp add: gate_onSessionClosed gate_inv_def)
  show "gate_inv (gate_of (onUserRole ru s))"
    using assms
    by (auto simp: onUserRole_def resubscribeUser_def Let_def gate_simps split: sum.split option.split)
      (auto simp: gate_inv_def)
qed

lemma gate_inv_set:
  assumes "gate_inv g"
  shows "gate_inv (g\<lparr>g_assets := True\<rparr>)" "gate_inv (g\<lparr>g_spot := True\<rparr>)" "gate_inv (g\<lparr>g_positions := True\<rparr>)"
    "gate_inv (g\<lparr>g_adopted := True\<rparr>)"
  using assms by (simp_all add: gate_inv_def)

lemma gate_inv_answers:
  assumes "gate_inv (gate_of s)"
  shows "gate_inv (gate_of (onAssets iter ra s))" "gate_inv (gate_of (onSpotBalances iter rb s))"
    "gate_inv (gate_of (onClearinghouse iter rc s))" "gate_inv (gate_of (onSubscriptionResponse iter ty s))"
    "gate_inv (gate_of (onAdoptListing iter rd s))"
proof -
  have tok: "gate_of (fold (\<lambda>b s. s\<lparr>spotTokens := (spotTokens s)(sb_coin b \<mapsto> sb_total b)\<rparr>) bs s) = gate_of s" for bs s
    by (rule gate_fold) (auto simp: gate_simps)
  note set = gate_inv_set[OF assms] assms
  show "gate_inv (gate_of (onAssets iter ra s))"
    by (cases ra) (simp_all add: onAssets_def gate_simps set gate_inv_maybeReady)
  show "gate_inv (gate_of (onSpotBalances iter rb s))"
    by (cases rb) (simp_all add: onSpotBalances_def gate_simps tok set gate_inv_maybeReady)
  show "gate_inv (gate_of (onClearinghouse iter rc s))"
    by (cases rc) (simp_all add: onClearinghouse_def gate_simps set gate_inv_maybeReady)
  show "gate_inv (gate_of (onSubscriptionResponse iter ty s))"
    by (simp add: onSubscriptionResponse_def gate_simps set gate_inv_maybeReady)
  show "gate_inv (gate_of (onAdoptListing iter rd s))"
    by (cases rd) (simp_all add: onAdoptListing_def gate_simps set gate_inv_maybeReady Let_def)
qed

lemma gate_inv_drops: "gate_inv g \<Longrightarrow> gate_drops g g' \<Longrightarrow> gate_inv g'"
  by (auto simp: gate_drops_def gate_inv_def)

lemma gate_inv_handle: "gate_inv (gate_of s) \<Longrightarrow> gate_inv (gate_of (handle pj mn e s))"
  by (cases e)
    (simp_all add: gate_simps gate_inv_fills gate_inv_startup gate_inv_answers gate_inv_drops[OF _ gate_placeOrders] gate_inv_drops[OF _ gate_entry(1)]
      gate_inv_drops[OF _ gate_entry(2)] gate_inv_drops[OF _ gate_entry(3)] gate_inv_drops[OF _ gate_entry(4)] gate_inv_drops[OF _ gate_entry(5)]
      gate_inv_drops[OF _ gate_entry(6)] gate_inv_drops[OF _ gate_entry(7)] gate_inv_drops[OF _ gate_entry(8)] gate_inv_drops[OF _ gate_entry(9)]
      gate_inv_drops[OF _ gate_entry(10)] gate_inv_drops[OF _ gate_entry(11)] gate_inv_drops[OF _ gate_entry(12)])

lemma reachable_gate: "reachable pj mn s \<Longrightarrow> gate_inv (gate_of s)"
proof (induction rule: reachable.induct)
  case (constructed mk_signer rand now key vlt c s)
  then show ?case
    by (auto simp: new_client_def Let_def gate_inv_def gate_defs split: if_splits option.splits)
qed (rule gate_inv_handle)

text \<open>Only \<open>maybeReady\<close> makes a client ready.\<close>

definition just_ready :: "client \<Rightarrow> bool" where
  "just_ready s \<longleftrightarrow> session_open s \<and> orderUpdatesAcked s \<and> userFillsAcked s \<and> out s \<noteq> [] \<and> last (out s) = OnReady"

lemma reconcileAll_keeps:
  "session_open (reconcileAll iter s) = session_open s" "orderUpdatesAcked (reconcileAll iter s) = orderUpdatesAcked s"
  "userFillsAcked (reconcileAll iter s) = userFillsAcked s"
  by (simp_all add: reconcileAll_def log_out_def mod_stats_def Let_def)

lemma maybeReady_just: "ready (maybeReady iter u) \<Longrightarrow> ready u \<or> just_ready (maybeReady iter u)"
  by (auto simp: maybeReady_def just_ready_def Let_def log_out_def reconcileAll_keeps split: if_splits)

lemma ready_gate: "gate_of s' = gate_of s \<Longrightarrow> ready s' = ready s"
  by (simp add: gate_of_def)

lemma ready_drops: "gate_drops (gate_of s) (gate_of s') \<Longrightarrow> ready s' \<Longrightarrow> ready s"
  by (auto simp: gate_drops_def gate_of_def)

lemma ready_g: "ready s = g_ready (gate_of s)"
  by (simp add: gate_of_def)

lemma answers_just:
  "ready (onAssets iter ra s) \<Longrightarrow> ready s \<or> just_ready (onAssets iter ra s)"
  "ready (onSpotBalances iter rb s) \<Longrightarrow> ready s \<or> just_ready (onSpotBalances iter rb s)"
  "ready (onClearinghouse iter rc s) \<Longrightarrow> ready s \<or> just_ready (onClearinghouse iter rc s)"
  "ready (onSubscriptionResponse iter ty s) \<Longrightarrow> ready s \<or> just_ready (onSubscriptionResponse iter ty s)"
  "ready (onAdoptListing iter rd s) \<Longrightarrow> ready s \<or> just_ready (onAdoptListing iter rd s)"
proof -
  have tok: "gate_of (fold (\<lambda>b s. s\<lparr>spotTokens := (spotTokens s)(sb_coin b \<mapsto> sb_total b)\<rparr>) bs s) = gate_of s" for bs s
    by (rule gate_fold) (auto simp: gate_simps)
  have via: "ready x \<Longrightarrow> x = maybeReady iter u \<Longrightarrow> g_ready (gate_of u) = g_ready (gate_of s) \<Longrightarrow> ready s \<or> just_ready x" for x u
    using maybeReady_just[of iter u] by (auto simp: ready_g)
  show "ready (onAssets iter ra s) \<Longrightarrow> ready s \<or> just_ready (onAssets iter ra s)"
  proof (cases ra)
    case (Inl e)
    then show "ready (onAssets iter ra s) \<Longrightarrow> ?thesis" by (simp add: onAssets_def ready_g gate_simps)
  next
    case (Inr reg)
    then have "onAssets iter ra s = maybeReady iter (seedSpotPositions (s\<lparr>assets := reg, assetsLoaded := True\<rparr>))" by (simp add: onAssets_def)
    then show "ready (onAssets iter ra s) \<Longrightarrow> ?thesis" by (rule via[rotated]) (simp_all add: gate_simps)
  qed
  show "ready (onSpotBalances iter rb s) \<Longrightarrow> ready s \<or> just_ready (onSpotBalances iter rb s)"
    by (erule via[OF _ onSpotBalances_def[unfolded Let_def]]) (cases rb, simp_all add: gate_simps tok)
  show "ready (onClearinghouse iter rc s) \<Longrightarrow> ready s \<or> just_ready (onClearinghouse iter rc s)"
    by (erule via[OF _ onClearinghouse_def[unfolded Let_def]]) (cases rc, simp_all add: gate_simps)
  show "ready (onSubscriptionResponse iter ty s) \<Longrightarrow> ready s \<or> just_ready (onSubscriptionResponse iter ty s)"
    by (erule via[OF _ onSubscriptionResponse_def]) (simp add: gate_simps)
  have "onAdoptListing iter rd s = maybeReady iter (case rd of Inl e \<Rightarrow> s\<lparr>adoptionInFlight := False, ordersAdopted := True\<rparr>
      | Inr listing \<Rightarrow> fst (adoptFromListing listing (s\<lparr>adoptionInFlight := False, ordersAdopted := True\<rparr>)))"
    by (cases rd) (simp_all add: onAdoptListing_def Let_def)
  then show "ready (onAdoptListing iter rd s) \<Longrightarrow> ready s \<or> just_ready (onAdoptListing iter rd s)"
    by (rule via[rotated]) (cases rd, simp_all add: gate_simps)
qed

lemma ready_fills: "ready (onUserFills m s) = ready s"
proof -
  have "ready (fill_order f c s) = ready s" for f c s
    by (rule ready_gate) (auto simp: fill_order_def Let_def gate_simps split: option.split)
  then have one: "ready (onUserFill h f s) = ready s" for h f s
    by (auto simp: onUserFill_def remember_tid_def apply_position_def mod_stats_def log_out_def Let_def split: option.split)
  have "ready (fold (onUserFill h) fs s) = ready s" for h fs s by (induction fs arbitrary: s) (simp_all add: one)
  then show ?thesis by (simp add: onUserFills_def Let_def)
qed

lemma ready_startup:
  "ready (start s) \<Longrightarrow> ready s" "ready (stop ids s) \<Longrightarrow> ready s" "ready (onSessionClosed ids reason s) \<Longrightarrow> ready s" "ready (onUserRole ru s) \<Longrightarrow> ready s"
proof -
  have stopped: "gate_of (fold (\<lambda>i s. case pending s i of Some p \<Rightarrow> cancel_timer (pa_timer p) s | None \<Rightarrow> s) ids s) = gate_of s" for s
    by (rule gate_fold) (auto simp: gate_simps split: option.split)
  show "ready (start s) \<Longrightarrow> ready s" by (simp add: ready_g start_def Let_def gate_simps split: if_splits)
  show "ready (stop ids s) \<Longrightarrow> ready s" by (simp add: ready_g stop_def Let_def gate_simps stopped split: if_splits)
  show "ready (onSessionClosed ids reason s) \<Longrightarrow> ready s" by (simp add: ready_g gate_onSessionClosed)
  show "ready (onUserRole ru s) \<Longrightarrow> ready s"
    by (auto simp: ready_g onUserRole_def resubscribeUser_def Let_def gate_simps split: sum.splits option.splits if_splits)
qed

lemma handle_ready_kept:
  assumes "ready (handle pj mn e s)"
  shows "ready s \<or> just_ready (handle pj mn e s)"
proof (cases e)
  case (EAssets iter r)
  then show ?thesis using assms answers_just(1) by simp
next
  case (ESpotBalances iter r)
  then show ?thesis using assms answers_just(2) by simp
next
  case (EClearinghouse iter r)
  then show ?thesis using assms answers_just(3) by simp
next
  case (ESubscriptionResponse iter ty)
  then show ?thesis using assms answers_just(4) by simp
next
  case (EAdoptListing iter r)
  then show ?thesis using assms answers_just(5) by simp
next
  case (EUserFills m)
  then show ?thesis using assms by (simp add: ready_fills)
qed (use assms in \<open>auto simp: ready_g gate_simps dest: ready_startup[unfolded ready_g] ready_drops[unfolded ready_g, OF gate_placeOrders]
  ready_drops[unfolded ready_g, OF gate_entry(1)] ready_drops[unfolded ready_g, OF gate_entry(2)] ready_drops[unfolded ready_g, OF gate_entry(3)]
  ready_drops[unfolded ready_g, OF gate_entry(4)] ready_drops[unfolded ready_g, OF gate_entry(5)] ready_drops[unfolded ready_g, OF gate_entry(6)]
  ready_drops[unfolded ready_g, OF gate_entry(7)] ready_drops[unfolded ready_g, OF gate_entry(8)] ready_drops[unfolded ready_g, OF gate_entry(9)]
  ready_drops[unfolded ready_g, OF gate_entry(10)] ready_drops[unfolded ready_g, OF gate_entry(11)] ready_drops[unfolded ready_g, OF gate_entry(12)]\<close>)

lemma handle_becomes_ready:
  assumes "ready (handle pj mn e s)" and "\<not> ready s"
  shows "session_open (handle pj mn e s) \<and> orderUpdatesAcked (handle pj mn e s) \<and> userFillsAcked (handle pj mn e s) \<and>
    out (handle pj mn e s) \<noteq> [] \<and> last (out (handle pj mn e s)) = OnReady"
  using handle_ready_kept[OF assms(1)] assms(2) by (simp add: just_ready_def)

lemma reachable_tid_window: "reachable pj mn s \<Longrightarrow> tid_window s"
  using reachable_gate[of pj mn s] by (simp add: gate_inv_def gate_sel tid_window_tids)

end
