(* ===== verification/HL_Client.thy ===== *)
theory HL_Client
  imports HL_Requests
begin

text \<open>
  The contract of \<open>hl::ExchangeClient\<close> towards a strategy: which order generation an update may move
  an order to, what \<open>placeOrders\<close> and \<open>cancelAll\<close> send, how an order the venue does not know ends,
  and the properties of the client over all its events.
\<close>

section \<open>Generations\<close>

definition gen_le :: "client \<Rightarrow> client \<Rightarrow> bool" where
  "gen_le s s' \<longleftrightarrow> (\<forall>c t. orders s c = Some t \<longrightarrow> (\<exists>t'. orders s' c = Some t' \<and> oid_of t \<le> oid_of t'))"

lemma gen_le_refl [simp]: "gen_le s s"
  by (auto simp: gen_le_def)

lemma gen_le_trans: "gen_le s u \<Longrightarrow> gen_le u v \<Longrightarrow> gen_le s v"
  unfolding gen_le_def by (meson order_trans)

lemma gen_le_frame [simp]:
  "gen_le s (log_out e u) \<longleftrightarrow> gen_le s u" "gen_le s (mod_stats h u) \<longleftrightarrow> gen_le s u"
  "gen_le s (remember_tid i u) \<longleftrightarrow> gen_le s u" "gen_le s (apply_position f u) \<longleftrightarrow> gen_le s u"
  by (simp_all add: gen_le_def mod_stats_def log_out_def remember_tid_def apply_position_def Let_def)

lemma gen_le_upd:
  assumes "gen_le s u" and "\<And>t. oid_of (f t) = oid_of t"
  shows "gen_le s (upd c f u)"
  using assms(1)
proof (rule gen_le_trans)
  show "gen_le u (upd c f u)" using assms(2) by (auto simp: gen_le_def upd_def split: option.split)
qed

lemma gen_le_emit: "gen_le s u \<Longrightarrow> gen_le s (emit c u)"
  by (rule gen_le_trans) (auto simp: gen_le_def emit_def oid_of_def log_out_def Let_def split: option.split)

lemma gen_le_put:
  assumes "gen_le s u" and "\<And>t0. orders u c = Some t0 \<Longrightarrow> oid_of t0 \<le> oid_of t"
  shows "gen_le s (u\<lparr>orders := (orders u)(c \<mapsto> t), oidIndex := ix\<rparr>)"
  using assms(1) by (rule gen_le_trans) (use assms(2) in \<open>auto simp: gen_le_def\<close>)

lemma setOid_oid: "oid_of (fst (setOid i t ix)) = (if i = 0 then oid_of t else i)"
  using setOid_sel(4)[of i t ix "fst (setOid i t ix)" "snd (setOid i t ix)"] by simp

lemma update_generation_oid:
  "update_generation u t ix = Some (t', ix') \<Longrightarrow> oid_of t \<le> oid_of t'"
  using setOid_oid[of "u_oid u" t ix] setOid_oid[of "u_oid u" "retireOid (oid_of t) t" ix]
  by (auto simp: update_generation_def Let_def retireOid_def oid_of_def[symmetric] split: if_splits)

lemma retrack_gen: "gen_le s (track c s)"
  by (auto simp: gen_le_def track_def oid_of_def split: option.split)

text \<open>
  An update without a client id is tracked under a key made from its exchange id. The key is in order
  when it is free, or its order has no newer exchange id.
\<close>

definition external_key_ok :: "orderUpdateMsg \<Rightarrow> client \<Rightarrow> bool" where
  "external_key_ok u s \<longleftrightarrow>
     (case u_cloid u of Some _ \<Rightarrow> True
      | None \<Rightarrow> (case orders s (Cloid kExternalCloidHigh (u_oid u)) of None \<Rightarrow> True | Some t \<Rightarrow> oid_of t \<le> u_oid u))"

lemma gen_le_upd_ix:
  assumes "gen_le s u" and "\<And>t. orders u c = Some t \<Longrightarrow> oid_of t \<le> oid_of (fst (f t (oidIndex u)))"
  shows "gen_le s (upd_ix c f u)"
  using assms(1)
proof (rule gen_le_trans)
  show "gen_le u (upd_ix c f u)"
    using assms(2) by (auto simp: gen_le_def upd_ix_def split: option.split prod.split)
qed

lemma track_update_gen:
  assumes "locate (u_cloid u) (u_oid u) s = None" and "external_key_ok u s" and "track_update u s = (c, s')"
  shows "gen_le s s'"
proof -
  let ?k = "is_external_cloid u"
  have key: "oid_of t \<le> u_oid u" if "orders s ?k = Some t" for t
    using assms(1,2) that
    by (auto simp: external_key_ok_def locate_def find_order_def is_external_cloid_def split: option.splits if_splits)
  have s': "s' = upd_ix ?k (setOid (u_oid u)) (upd ?k (fresh_from_update u (assets (track ?k s))) (track ?k s))"
    using assms(3) by (auto simp: track_update_def Let_def)
  show ?thesis unfolding s'
  proof (rule gen_le_upd_ix)
    show "gen_le s (upd ?k (fresh_from_update u (assets (track ?k s))) (track ?k s))"
      by (rule gen_le_upd[OF retrack_gen]) (simp add: fresh_from_update_def oid_of_def)
    fix t assume "orders (upd ?k (fresh_from_update u (assets (track ?k s))) (track ?k s)) ?k = Some t"
    then have "oid_of t \<le> u_oid u"
      using key by (auto simp: upd_def track_def fresh_from_update_def oid_of_def default_tracked_def default_order_def
          split: option.splits)
    then show "oid_of t \<le> oid_of (fst (setOid (u_oid u) t (oidIndex (upd ?k (fresh_from_update u (assets (track ?k s))) (track ?k s)))))"
      by (simp add: setOid_oid)
  qed
qed

lemma onOrderUpdate_gen:
  assumes "external_key_ok u s"
  shows "gen_le s (onOrderUpdate u s)"
proof -
  obtain c s1 where cs: "(case locate (u_cloid u) (u_oid u) s of Some c \<Rightarrow> (c, s) | None \<Rightarrow> track_update u s) = (c, s1)"
    by (cases "case locate (u_cloid u) (u_oid u) s of Some c \<Rightarrow> (c, s) | None \<Rightarrow> track_update u s")
  have 1: "gen_le s s1" using track_update_gen[of u s c s1] assms cs by (cases "locate (u_cloid u) (u_oid u) s") auto
  show ?thesis
  proof (cases "orders s1 c")
    case None
    then show ?thesis using 1 by (simp add: onOrderUpdate_def cs)
  next
    case (Some t)
    note t = this
    show ?thesis
    proof (cases "update_generation u t (oidIndex s1)")
      case None
      then show ?thesis using 1 by (simp add: onOrderUpdate_def cs t)
    next
      case (Some p)
      obtain t' ix' where p: "p = (t', ix')" by (cases p)
      have 2: "gen_le s (s1\<lparr>orders := (orders s1)(c \<mapsto> t'), oidIndex := ix'\<rparr>)"
        using update_generation_oid[OF Some[unfolded p]] t by (intro gen_le_put[OF 1]) simp
      have flag: "oid_of (t\<lparr>canceledDuringModify := True\<rparr>) = oid_of t" for t by (simp add: oid_of_def)
      show ?thesis
        unfolding onOrderUpdate_def cs Let_def prod.case t option.case Some p
        using 2 flag by (auto intro!: gen_le_emit gen_le_upd simp: applyVenueStatus_sel)
    qed
  qed
qed

lemma onUserFill_gen: "gen_le s (onUserFill h f s)"
proof -
  have fill: "gen_le s (fill_order f c u)" if "gen_le s u" for c u
  proof (cases "orders u c")
    case (Some t)
    have oid: "oid_of (add_fill f t) = oid_of t" for t by (simp add: add_fill_def Let_def oid_of_def recomputeFills_def set_state_def)
    show ?thesis unfolding fill_order_def Let_def Some option.case oid_of_def[symmetric]
      using that by (auto intro!: gen_le_emit gen_le_upd gen_le_upd_ix simp: oid setOid_oid Some not_less)
  qed (use that in \<open>simp add: fill_order_def\<close>)
  show ?thesis unfolding onUserFill_def Let_def by (auto intro!: fill split: option.split)
qed

section \<open>Order entry\<close>

text \<open>The prices and sizes of a request are values of the fixed-point type.\<close>

definition wf_request :: "orderRequest \<Rightarrow> bool" where
  "wf_request req \<longleftrightarrow> wf_decimal (r_px req) \<and> wf_decimal (r_sz req) \<and>
     (case r_trigger req of Some t \<Rightarrow> wf_decimal (triggerPx t) | None \<Rightarrow> True)"

text \<open>What the venue accepts: a listed asset, positive amounts, its price rule and its size step.\<close>

definition wire_ok :: "registry \<Rightarrow> orderRequest \<Rightarrow> cloid \<Rightarrow> orderWire \<Rightarrow> bool" where
  "wire_ok reg req c w \<longleftrightarrow> isValidCoinName (r_coin req) \<and>
     (\<exists>a. reg_find reg (r_coin req) = Some a \<and> \<not> isDelisted a \<and> 0 < raw (ow_px w) \<and> 0 < raw (ow_sz w) \<and>
        venue_price_ok a (raw (ow_px w)) \<and> sz_step a dvd raw (ow_sz w) \<and>
        (case ow_trigger w of Some t \<Rightarrow> venue_price_ok a (raw (triggerPx t)) | None \<Rightarrow> True) \<and>
        w = \<lparr>ow_asset = asset a, ow_isBuy = (r_side req = Buy), ow_px = r_px req, ow_sz = r_sz req,
             ow_reduceOnly = r_reduceOnly req, ow_tif = r_tif req, ow_trigger = r_trigger req, ow_cloid = Some c\<rparr>)"

lemma buildWire_iff:
  assumes "wf_request req"
  shows "buildWire req c s = Inr w \<longleftrightarrow> wire_ok (assets s) req c w"
proof (cases "reg_find (assets s) (r_coin req)")
  case None
  then show ?thesis by (simp add: buildWire_def wire_ok_def)
next
  case (Some a)
  have px: "isValidPx a (r_px req) \<longleftrightarrow> venue_price_ok a (raw (r_px req))"
    using assms by (simp add: wf_request_def isValidPx_venue)
  have sz: "0 < raw (r_sz req) \<Longrightarrow> isValidSz a (r_sz req) \<longleftrightarrow> sz_step a dvd raw (r_sz req)"
    using assms isValidSz_step[of "r_sz req" a] by (auto simp: wf_request_def wf_decimal_def in_i64_def)
  have tr: "(case r_trigger req of Some t \<Rightarrow> \<not> isValidPx a (triggerPx t) | None \<Rightarrow> False) \<longleftrightarrow>
    \<not> (case r_trigger req of Some t \<Rightarrow> venue_price_ok a (raw (triggerPx t)) | None \<Rightarrow> True)"
    using assms by (auto simp: wf_request_def isValidPx_venue split: option.split)
  show ?thesis unfolding buildWire_def Some option.case px tr wire_ok_def
    using sz by (cases "0 < raw (r_sz req)") (auto simp: not_le)
qed

definition request_cloid :: "orderRequest \<Rightarrow> cloid \<Rightarrow> cloid" where
  "request_cloid req fresh = (case r_cloid req of Some c \<Rightarrow> c | None \<Rightarrow> fresh)"

text \<open>
  One valid wire per request, in the order of the requests, under the request's client id or a new one
  from the session's counter, which no tracked order has.
\<close>

fun wires_for ::
  "registry \<Rightarrow> (cloid \<rightharpoonup> tracked) \<Rightarrow> u64 \<Rightarrow> u64 \<Rightarrow> orderRequest list \<Rightarrow> cloid list \<Rightarrow> orderWire list \<Rightarrow> bool" where
  "wires_for reg tb sess n [] [] [] = True"
| "wires_for reg tb sess n (req # reqs) (c # cs) (w # ws) =
     (wire_ok reg req c w \<and> tb c = None \<and> c = request_cloid req (Cloid sess (n + 1)) \<and>
      wires_for reg tb sess (n + 1) reqs cs ws)"
| "wires_for reg tb sess n reqs cs ws = False"

lemma place_build_ok:
  "place_build reqs ws cs s = (s', Inr (ws', cs')) \<Longrightarrow> \<forall>r \<in> set reqs. wf_request r \<Longrightarrow>
   \<exists>ws2 cs2. ws' = ws @ ws2 \<and> cs' = cs @ cs2 \<and> s' = s\<lparr>cloidCounter := cloidCounter s + of_nat (length reqs)\<rparr> \<and>
     wires_for (assets s) (orders s) (cloidSession s) (cloidCounter s) reqs cs2 ws2"
proof (induction reqs ws cs s arbitrary: s' ws' cs' rule: place_build.induct)
  case (2 req reqs ws cs s)
  define c where "c = (case r_cloid req of Some c \<Rightarrow> c | None \<Rightarrow> fst (nextCloid s))"
  define s1 where "s1 = snd (nextCloid s)"
  have s1: "s1 = s\<lparr>cloidCounter := cloidCounter s + 1\<rparr>" by (simp add: s1_def nextCloid_def)
  obtain w where w: "orders s1 c = None" "buildWire req c s1 = Inr w"
    "place_build reqs (ws @ [w]) (cs @ [c]) s1 = (s', Inr (ws', cs'))"
    using 2(2) by (auto simp: case_prod_beta Let_def c_def s1_def split: if_splits sum.splits)
  have ok: "wire_ok (assets s) req c w" using buildWire_iff[of req c s1 w] w(2) 2(3) by (simp add: s1)
  have n: "nextCloid s = (fst (nextCloid s), s1)" by (simp add: s1_def)
  have c: "c = request_cloid req (Cloid (cloidSession s) (cloidCounter s + 1))"
    by (simp add: c_def request_cloid_def nextCloid_def split: option.split)
  obtain ws2 cs2 where ih: "ws' = (ws @ [w]) @ ws2" "cs' = (cs @ [c]) @ cs2"
    "s' = s1\<lparr>cloidCounter := cloidCounter s1 + of_nat (length reqs)\<rparr>"
    "wires_for (assets s1) (orders s1) (cloidSession s1) (cloidCounter s1) reqs cs2 ws2"
    using 2(1)[OF n[symmetric] refl c_def _ w(2,3)] w(1) 2(3) by auto
  have "wires_for (assets s) (orders s) (cloidSession s) (cloidCounter s) (req # reqs) (c # cs2) (w # ws2)"
    using ih(4) ok w(1) c by (simp add: s1)
  then show ?case using ih(1-3) by (intro exI[of _ "w # ws2"] exI[of _ "c # cs2"]) (auto simp: s1 algebra_simps)
qed simp

lemma place_build_error: "place_build reqs ws cs s = (s', Inl e) \<Longrightarrow> \<exists>n. s' = s\<lparr>cloidCounter := n\<rparr>"
proof (induction reqs ws cs s rule: place_build.induct)
  case (2 req reqs ws cs s)
  then show ?case
    by (auto simp: Let_def nextCloid_def split: if_splits sum.splits option.splits)
qed simp

section \<open>Cancelling everything\<close>

text \<open>The orders \<open>cancelAll\<close> selects, and the wire it sends for each.\<close>

definition cancelable :: "string \<Rightarrow> client \<Rightarrow> cloid \<Rightarrow> bool" where
  "cancelable coin s c = (case orders s c of None \<Rightarrow> False | Some t \<Rightarrow>
     isLive (t_order t) \<and> \<not> o_cancelPending (t_order t) \<and> (coin = [] \<or> o_coin (t_order t) = coin) \<and>
     (o_external (t_order t) \<longrightarrow> o_oid (t_order t) \<noteq> 0))"

definition external_order :: "client \<Rightarrow> cloid \<Rightarrow> bool" where
  "external_order s c = (case orders s c of None \<Rightarrow> False | Some t \<Rightarrow> o_external (t_order t))"

definition cloid_wire :: "client \<Rightarrow> cloid \<Rightarrow> cancelByCloidWire" where
  "cloid_wire s c = \<lparr>cc_asset = o_asset (t_order (the (orders s c))), cc_cloid = c\<rparr>"

definition oid_wire :: "client \<Rightarrow> cloid \<Rightarrow> cancelWire" where
  "oid_wire s c = \<lparr>cw_asset = o_asset (t_order (the (orders s c))), cw_oid = o_oid (t_order (the (orders s c)))\<rparr>"

definition mark_canceling :: "cloid list \<Rightarrow> client \<Rightarrow> client" where
  "mark_canceling cs s = fold (\<lambda>c. upd c (set_cancelPending True)) cs s"

definition by_cloid :: "string \<Rightarrow> client \<Rightarrow> cloid list \<Rightarrow> cloid list" where
  "by_cloid coin s iter = filter (\<lambda>c. cancelable coin s c \<and> \<not> external_order s c) iter"

definition by_oid :: "string \<Rightarrow> client \<Rightarrow> cloid list \<Rightarrow> cloid list" where
  "by_oid coin s iter = filter (\<lambda>c. cancelable coin s c \<and> external_order s c) iter"

lemma cancelAll_collect_one:
  assumes "cancelAll_collect coin c (l, s) = (l', s')"
  shows "if cancelable coin s c then
      s' = upd c (set_cancelPending True) s \<and>
      (if external_order s c then byOid l' = byOid l @ [oid_wire s c] \<and> oidOrders l' = oidOrders l @ [c] \<and>
          byCloid l' = byCloid l \<and> cloidOrders l' = cloidOrders l
        else byCloid l' = byCloid l @ [cloid_wire s c] \<and> cloidOrders l' = cloidOrders l @ [c] \<and>
          byOid l' = byOid l \<and> oidOrders l' = oidOrders l)
    else s' = s \<and> byCloid l' = byCloid l \<and> cloidOrders l' = cloidOrders l \<and> byOid l' = byOid l \<and> oidOrders l' = oidOrders l"
  using assms
  by (auto simp: cancelAll_collect_def cancelable_def external_order_def cloid_wire_def oid_wire_def Let_def
      split: option.splits if_splits)

lemma upd_other:
  assumes "d \<noteq> c"
  shows "cancelable coin (upd c f s) d = cancelable coin s d" "external_order (upd c f s) d = external_order s d"
    "cloid_wire (upd c f s) d = cloid_wire s d" "oid_wire (upd c f s) d = oid_wire s d"
  using assms by (auto simp: cancelable_def external_order_def cloid_wire_def oid_wire_def upd_def split: option.split)

lemma cancelAll_collect_fold:
  assumes "distinct iter" and "fold (cancelAll_collect coin) iter (l, s) = (l', s')"
  shows "s' = mark_canceling (filter (cancelable coin s) iter) s \<and>
    cloidOrders l' = cloidOrders l @ by_cloid coin s iter \<and> byCloid l' = byCloid l @ map (cloid_wire s) (by_cloid coin s iter) \<and>
    oidOrders l' = oidOrders l @ by_oid coin s iter \<and> byOid l' = byOid l @ map (oid_wire s) (by_oid coin s iter)"
  using assms
proof (induction iter arbitrary: l s)
  case Nil
  then show ?case by (simp add: mark_canceling_def by_cloid_def by_oid_def)
next
  case (Cons c iter)
  obtain l1 s1 where one: "cancelAll_collect coin c (l, s) = (l1, s1)" by (cases "cancelAll_collect coin c (l, s)")
  note step = cancelAll_collect_one[OF one]
  have same: "cancelable coin s1 d = cancelable coin s d" "external_order s1 d = external_order s d"
    "cloid_wire s1 d = cloid_wire s d" "oid_wire s1 d = oid_wire s d" if "d \<in> set iter" for d
  proof -
    have "d \<noteq> c" using that Cons.prems(1) by auto
    then show "cancelable coin s1 d = cancelable coin s d" "external_order s1 d = external_order s d"
      "cloid_wire s1 d = cloid_wire s d" "oid_wire s1 d = oid_wire s d"
      using step upd_other[of d c] by (auto split: if_splits)
  qed
  have lists: "filter (cancelable coin s1) iter = filter (cancelable coin s) iter" "by_cloid coin s1 iter = by_cloid coin s iter"
    "by_oid coin s1 iter = by_oid coin s iter"
    unfolding by_cloid_def by_oid_def using same by (auto intro!: filter_cong)
  have wires: "map (cloid_wire s1) (by_cloid coin s iter) = map (cloid_wire s) (by_cloid coin s iter)"
    "map (oid_wire s1) (by_oid coin s iter) = map (oid_wire s) (by_oid coin s iter)"
    using same by (auto simp: by_cloid_def by_oid_def)
  from Cons.IH[of l1 s1] Cons.prems one lists wires
  have ih: "s' = mark_canceling (filter (cancelable coin s) iter) s1 \<and>
    cloidOrders l' = cloidOrders l1 @ by_cloid coin s iter \<and> byCloid l' = byCloid l1 @ map (cloid_wire s) (by_cloid coin s iter) \<and>
    oidOrders l' = oidOrders l1 @ by_oid coin s iter \<and> byOid l' = byOid l1 @ map (oid_wire s) (by_oid coin s iter)"
    by simp
  then show ?case using step
    by (cases "cancelable coin s c"; cases "external_order s c") (simp_all add: mark_canceling_def by_cloid_def by_oid_def)
qed

definition trigger_order :: "client \<Rightarrow> cloid \<Rightarrow> bool" where
  "trigger_order s c = (case orders s c of None \<Rightarrow> False | Some t \<Rightarrow> o_isTrigger (t_order t))"

lemma cancelAll_collect_trigger:
  assumes "distinct iter" and "fold (cancelAll_collect coin) iter (l, s) = (l', s')"
  shows "cfg s' = cfg s \<and> (anyTrigger l \<longrightarrow> anyTrigger l') \<and>
    (\<forall>c \<in> set iter. cancelable coin s c \<longrightarrow> trigger_order s c \<longrightarrow> anyTrigger l')"
  using assms
proof (induction iter arbitrary: l s)
  case (Cons c iter)
  obtain l1 s1 where one: "cancelAll_collect coin c (l, s) = (l1, s1)" by (cases "cancelAll_collect coin c (l, s)")
  have step: "cfg s1 = cfg s" "anyTrigger l \<or> cancelable coin s c \<and> trigger_order s c \<longrightarrow> anyTrigger l1"
    using one by (auto simp: cancelAll_collect_def cancelable_def trigger_order_def upd_def Let_def split: option.splits if_splits)
  have tr: "trigger_order (upd c f s) d = trigger_order s d" if "d \<noteq> c" for d f
    using that by (simp add: trigger_order_def upd_def split: option.split)
  have same: "cancelable coin s1 d = cancelable coin s d" "trigger_order s1 d = trigger_order s d" if "d \<in> set iter" for d
    using that Cons.prems(1) cancelAll_collect_one[OF one] upd_other(1)[of d c] tr[of d] by (auto split: if_splits)
  have fold1: "fold (cancelAll_collect coin) iter (l1, s1) = (l', s')" using Cons.prems(2) one by simp
  have dist: "distinct iter" using Cons.prems(1) by simp
  from Cons.IH[OF dist fold1] step same show ?case by auto
qed simp

text \<open>The batches of at most \<open>kMaxBatchEntries\<close> entries.\<close>

function batches :: "'a list \<Rightarrow> 'a list list" where
  "batches xs = (if xs = [] then [] else take kMaxBatchEntries xs # batches (drop kMaxBatchEntries xs))"
  by pat_completeness auto
termination
  by (relation "measure length") (auto simp: kMaxBatchEntries_def)

declare batches.simps [simp del]

lemma batches_Nil [simp]:
  "batches [] = []" "cloid_batches fast [] cs s = s" "oid_batches fast [] cs s = s"
  by (simp_all add: batches.simps[of "[]"] cloid_batches.simps[of _ "[]"] oid_batches.simps[of _ "[]"])

lemma batches_concat: "concat (batches xs) = xs"
proof (induction xs rule: batches.induct)
  case (1 xs)
  then show ?case by (cases "xs = []") (simp_all add: batches.simps[of xs])
qed

lemma batches_length: "\<forall>b \<in> set (batches xs). 0 < length b \<and> length b \<le> kMaxBatchEntries"
proof (induction xs rule: batches.induct)
  case (1 xs)
  then show ?case by (cases "xs = []") (simp_all add: batches.simps[of xs] kMaxBatchEntries_def)
qed

definition cancel_pending :: "cloid list \<Rightarrow> pendingAction" where
  "cancel_pending cs = default_pending\<lparr>pa_kind := KCancel, pa_cloids := cs\<rparr>"

lemma cloid_batches_eq:
  "cloid_batches fast (map f cs) cs s = fold (\<lambda>b. send (act_cancelByCloid (map f b) fast) (cancel_pending b)) (batches cs) s"
proof (induction cs arbitrary: s rule: batches.induct)
  case (1 cs)
  then show ?case
    by (cases "cs = []") (simp_all add: batches.simps[of cs] cloid_batches.simps[of fast "map f cs"] take_map drop_map cancel_pending_def)
qed

lemma oid_batches_eq:
  "oid_batches fast (map f cs) cs s = fold (\<lambda>b. send (act_cancel (map f b) fast) (cancel_pending b)) (batches cs) s"
proof (induction cs arbitrary: s rule: batches.induct)
  case (1 cs)
  then show ?case
    by (cases "cs = []") (simp_all add: batches.simps[of cs] oid_batches.simps[of fast "map f cs"] take_map drop_map cancel_pending_def)
qed

section \<open>Orders the venue does not know\<close>

lemma not_found_probe:
  assumes "orders s c = Some t" and "state_of t = PendingNew" and "notFoundProbes t < kNotFoundProbes" and "\<not> osi_found info"
  shows "\<exists>t'. orders (onOrderStatus c (Inr info) s) c = Some t' \<and> state_of t' = PendingNew \<and>
    notFoundProbes t' = notFoundProbes t + 1"
  using assms by (auto simp: onOrderStatus_def upd_def later_def addTimer_def log_out_def state_of_def)

lemma not_found_last:
  assumes "orders s c = Some t" and "state_of t = PendingNew" and "notFoundProbes t = kNotFoundProbes" and "\<not> osi_found info"
  shows "\<exists>t'. orders (onOrderStatus c (Inr info) s) c = Some t' \<and> state_of t' = Rejected \<and> o_lastError (t_order t') \<noteq> []"
  using assms
  by (auto simp: onOrderStatus_def upd_def emit_def set_state_def set_error_def log_out_def state_of_def Let_def mod_order_def)

section \<open>A late update for an amended external order\<close>

section \<open>Examples\<close>

lemma reachable_fold: "reachable pj mn s \<Longrightarrow> reachable pj mn (fold (handle pj mn) es s)"
  by (induction es arbitrary: s) (simp_all add: reachable.handled)

definition ex_address :: address where
  "ex_address = replicate 20 1"

definition ex_signer :: l1_signer where
  "ex_signer = (\<lambda>_ _ _ _ _. \<lparr>sig_r = replicate 32 0, sig_s = replicate 32 0, sig_v = 27\<rparr>)"

definition ex_config :: exchangeConfig where
  "ex_config = \<lparr>cfg_network = Testnet, cfg_accountAddress = [], transport = WebSocketTransport, requestTimeoutMs = 5000,
     loadSpotAssets = False, subscribeUserEvents = False, adoptExistingOrders = False, cfg_builderFee = None,
     fastCancels = False, actionExpiryMs = 0, rateLimitRefreshMs = 0, rateLimitWarnFraction = 1 / 10, terminalOrderRetentionMs = 60000\<rparr>"

definition ex_client :: client where
  "ex_client = the (new_client (\<lambda>_. Some (ex_signer, ex_address)) (Some 7) 1000 ''k'' [] ex_config)"

lemma ex_client_new: "new_client (\<lambda>_. Some (ex_signer, ex_address)) (Some 7) 1000 ''k'' [] ex_config = Some ex_client"
  by (simp add: ex_client_def new_client_def parseOptionalAddress_def ex_config_def)

definition ex_update :: orderUpdateMsg where
  "ex_update = \<lparr>u_coin = ''BTC'', u_side = Buy, u_limitPx = Decimal 6000000000000, u_sz = Decimal 100000000,
     u_origSz = Decimal 100000000, u_oid = 77, u_timestampMs = 900, u_cloid = None, u_status = UOpen,
     u_statusText = ''open'', u_statusTimestampMs = 900\<rparr>"

definition ex_seen :: client where
  "ex_seen = handle (\<lambda>_. None) (\<lambda>_. []) (EOrderUpdates [ex_update]) ex_client"

lemma ex_client_fields:
  "orders ex_client = Map.empty" "oidIndex ex_client = Map.empty" "assets ex_client = []" "clock ex_client = 1000"
  "pending ex_client = Map.empty" "seenTids ex_client = {}" "seenTidOrder ex_client = []" "cfg ex_client = ex_config"
  "started ex_client = False" "assetsLoaded ex_client = False" "out ex_client = []" "session_open ex_client = False"
  by (simp_all add: ex_client_def new_client_def parseOptionalAddress_def ex_config_def)

lemmas ex_eval = ex_client_fields ex_update_def onOrderUpdates_def onOrderUpdate_def locate_def find_order_def findByOid_def
  track_update_def is_external_cloid_def track_def upd_def upd_ix_def fresh_from_update_def default_tracked_def default_order_def
  mod_order_def setOid_def update_generation_def applyVenueStatus_def emit_def log_out_def observe_def state_of_def open_state_def
  isZero_def set_state_def isTerminal_def Let_def default_emitted_def dec_zero_def

lemma ex_seen_order:
  "\<exists>t. orders ex_seen (Cloid kExternalCloidHigh 77) = Some t \<and> state_of t = Open \<and> oid_of t = 77 \<and> isLive (t_order t) \<and>
     \<not> o_modifyPending (t_order t)"
  by (simp add: ex_seen_def ex_eval isLive_def oid_of_def)

definition ex_canceled :: client where
  "ex_canceled = onOrderUpdate (ex_update\<lparr>u_status := UCanceled, u_statusText := ''canceled''\<rparr>) ex_seen"

definition ex_waiting :: client where
  "ex_waiting = ex_client\<lparr>pending := [1 \<mapsto> default_pending\<lparr>pa_callback := Some 3, viaWebSocket := True\<rparr>]\<rparr>"

definition ex_fill :: fillMsg where
  "ex_fill = \<lparr>f_coin = ''BTC'', f_px = Decimal 6000000000000, f_sz = Decimal 50000000, f_side = Buy, f_timeMs = 950,
     f_startPosition = Decimal 0, f_dir = ''Open Long'', f_closedPnl = Decimal 0, f_hash = [], f_oid = 77, f_crossed = False,
     f_fee = Decimal 0, f_feeToken = ''USDC'', f_tid = 5, f_cloid = None\<rparr>"

definition ex_fills :: userFillsMsg where
  "ex_fills = \<lparr>uf_isSnapshot = False, uf_user = [], uf_fills = [ex_fill]\<rparr>"

definition ex_btc :: assetInfo where
  "ex_btc = default_asset\<lparr>name := ''BTC'', szDecimals := 5\<rparr>"

definition ex_trading :: client where
  "ex_trading = ex_seen\<lparr>started := True, assetsLoaded := True, assets := [ex_btc]\<rparr>"

definition ex_request :: orderRequest where
  "ex_request = \<lparr>r_coin = ''BTC'', r_side = Buy, r_px = Decimal 6000000000000, r_sz = Decimal 100000, r_tif = Gtc,
     r_reduceOnly = False, r_trigger = None, r_cloid = None\<rparr>"

definition ex_not_found :: orderStatusInfo where
  "ex_not_found = \<lparr>osi_found = False, osi_order = \<lparr>oo_coin = [], oo_side = Buy, oo_limitPx = dec_zero, oo_sz = dec_zero,
     oo_origSz = dec_zero, oo_oid = 0, oo_timestampMs = 0, oo_cloid = None, oo_reduceOnly = False, oo_isTrigger = False,
     oo_triggerPx = dec_zero, oo_orderType = [], oo_tif = []\<rparr>, osi_status = UUnknown, osi_statusText = [],
     osi_statusTimestampMs = 0\<rparr>"

definition ex_amended :: client where
  "ex_amended = ex_client\<lparr>orders := [Cloid kExternalCloidHigh 77 \<mapsto>
     default_tracked\<lparr>t_order := default_order\<lparr>o_oid := 90, o_external := True, o_state := Open\<rparr>\<rparr>],
     oidIndex := [90 \<mapsto> Cloid kExternalCloidHigh 77]\<rparr>"

definition ex_startup :: "event list" where
  "ex_startup = [EStart, EEnvironment 2000 True True None 0 0, ESubscriptionResponse [] ''orderUpdates'',
     ESubscriptionResponse [] ''userFills'', EAssets [] (Inr []), EClearinghouse [] (Inl no_error)]"

definition ex_ready :: client where
  "ex_ready = fold (handle (\<lambda>_. None) (\<lambda>_. [])) ex_startup ex_client"

section \<open>Properties\<close>

text \<open>
  C2: whatever calls, messages, answers and timers a client sees, every tracked order stays under its own client id,
  its filled size is the larger of the fills and the acknowledged size, it keeps at most four retired ids and three probes, and
  the index from exchange ids only names orders that carry that id now.
\<close>

theorem reachable_table: "reachable pj mn s \<Longrightarrow> table_inv (orders s, oidIndex s)"
proof (induction rule: reachable.induct)
  case (constructed mk_signer rand now key vlt c s)
  then show ?case using new_client_empty[OF constructed] by (simp add: table_inv_def)
next
  case (handled s e)
  then show ?case using table_inv_steps[OF handle_steps[of e s pj mn]] by (simp add: tbl_def)
qed

theorem reachable_table_witness:
  "reachable (\<lambda>_. None) (\<lambda>_. []) ex_seen \<and> table_inv (orders ex_seen, oidIndex ex_seen) \<and>
   orders ex_seen (Cloid kExternalCloidHigh 77) \<noteq> None"
proof -
  have r: "reachable (\<lambda>_. None) (\<lambda>_. []) ex_seen"
    unfolding ex_seen_def by (intro reachable.handled reachable.constructed[OF ex_client_new])
  from reachable_table[OF r] ex_seen_order r show ?thesis by auto
qed

text \<open>
  C7: an order that is filled, canceled or rejected never becomes live again, and never leaves the table, through any event
  but the eviction timer and a listing of open orders; the only change of state left to it is to become filled.
\<close>

theorem terminal_order_stays:
  assumes "orders s c = Some t" and "isTerminal (state_of t)" and "\<not> evicts e" and "\<not> lists_orders e"
  shows "\<exists>t'. orders (handle pj mn e s) c = Some t' \<and> (state_of t' = state_of t \<or> state_of t' = Filled)"
proof -
  have "tbl_steps False False (tbl s) (tbl (handle pj mn e s))"
    using handle_steps[of e s pj mn] assms(3,4) by simp
  from ended_steps[OF this assms(2), of c] show ?thesis using assms(1) by (auto simp: ended_def tbl_def)
qed

theorem terminal_order_stays_witness:
  "\<exists>t. orders ex_canceled (Cloid kExternalCloidHigh 77) = Some t \<and> isTerminal (state_of t) \<and>
     (\<exists>t'. orders (handle (\<lambda>_. None) (\<lambda>_. []) (EOrderUpdates [ex_update]) ex_canceled) (Cloid kExternalCloidHigh 77) = Some t' \<and>
        (state_of t' = state_of t \<or> state_of t' = Filled))"
proof -
  have "\<exists>t. orders ex_canceled (Cloid kExternalCloidHigh 77) = Some t \<and> isTerminal (state_of t)"
    by (simp add: ex_canceled_def ex_seen_def ex_eval clear_cancelPending_def)
  then obtain t where t: "orders ex_canceled (Cloid kExternalCloidHigh 77) = Some t" "isTerminal (state_of t)" by blast
  from terminal_order_stays[OF t, of "EOrderUpdates [ex_update]" "\<lambda>_. None" "\<lambda>_. []"] t show ?thesis by auto
qed

text \<open>
  C23: completing a request takes it out of the requests in flight and calls its callback exactly once with the result;
  a second answer or the timeout that comes later changes nothing.
\<close>

theorem action_completes_once:
  assumes "pending s i = Some p"
  shows "pending (completeAction i r s) = (pending s)(i := None) \<and>
    filter is_callback (out (completeAction i r s)) =
      filter is_callback (out s) @ (case pa_callback p of Some cb \<Rightarrow> [ActionCallback cb r] | None \<Rightarrow> []) \<and>
    completeAction i r' (completeAction i r s) = completeAction i r s \<and>
    onActionTimeout i (completeAction i r s) = completeAction i r s"
  using completeAction_flight[OF assms, of r]
  by (simp add: flight_def callback_of_def completeAction_unknown completeAction_pending onActionTimeout_def)

theorem action_completes_once_witness:
  "pending ex_waiting 1 \<noteq> None \<and> pending (completeAction 1 (Inl no_error) ex_waiting) = Map.empty \<and>
   filter is_callback (out (completeAction 1 (Inl no_error) ex_waiting)) = [ActionCallback 3 (Inl no_error)]"
proof -
  have p: "pending ex_waiting 1 = Some (default_pending\<lparr>pa_callback := Some 3, viaWebSocket := True\<rparr>)" by (simp add: ex_waiting_def)
  from action_completes_once[OF p, of "Inl no_error"] p show ?thesis
    by (auto simp: ex_waiting_def ex_client_fields)
qed

text \<open>
  When the session closes, every request that went over it is completed with a transport error and its callback
  is called once, while requests over HTTP stay in flight.
\<close>

lemma session_loss_completes_posts:
  assumes "distinct iter" and "set iter = dom (pending s)"
  shows "pending (onSessionClosed iter reason s) =
      (\<lambda>i. case pending s i of Some p \<Rightarrow> if viaWebSocket p then None else Some p | None \<Rightarrow> None) \<and>
    filter is_callback (out (onSessionClosed iter reason s)) = filter is_callback (out s) @
      concat (map (\<lambda>i. callback_of (the (pending s i)) (Inl (mk_error Transport (''WebSocket closed: '' @ reason))))
        (filter (\<lambda>i. viaWebSocket (the (pending s i))) iter))"
proof -
  define lost where "lost = filter (\<lambda>i. viaWebSocket (the (pending s i))) iter"
  define failure :: "exchangeResponse result" where "failure = Inl (mk_error Transport (''WebSocket closed: '' @ reason))"
  let ?s = "s\<lparr>ready := False, orderUpdatesAcked := False, userFillsAcked := False\<rparr>"
  have lost: "filter (\<lambda>i. case pending ?s i of Some p \<Rightarrow> viaWebSocket p | None \<Rightarrow> False) iter = lost"
    unfolding lost_def using assms(2) by (intro filter_cong) (auto simp: dom_def)
  have dist: "distinct lost" and known: "\<And>i. i \<in> set lost \<Longrightarrow> pending ?s i \<noteq> None"
    using assms(1,2) by (auto simp: lost_def)
  have eq: "onSessionClosed iter reason s = log_out (OnDisconnected reason) (fold (\<lambda>i. completeAction i failure) lost ?s)"
    unfolding onSessionClosed_def Let_def lost by (simp add: failure_def)
  have "pending (onSessionClosed iter reason s) i =
      (case pending s i of Some p \<Rightarrow> if viaWebSocket p then None else Some p | None \<Rightarrow> None)" for i
    using assms(2) by (auto simp: eq complete_fold_pending log_out_def lost_def split: option.split)
  then show ?thesis using complete_fold_callbacks[OF dist known, of failure]
    by (auto simp: eq log_out_def lost_def failure_def)
qed

text \<open>
  C18: the window of remembered trades stays consistent, and fills delivered again, in a snapshot after a reconnect or
  otherwise, change neither orders nor positions and call no listener.
\<close>

theorem replayed_fills_ignored:
  assumes "tid_window s" and "seenTids s \<inter> f_tid ` set (uf_fills m) = {}"
    and "length (uf_fills m) \<le> kMaxRememberedTids" and "f_tid ` set (uf_fills r) \<subseteq> f_tid ` set (uf_fills m)"
  shows "tid_window (onUserFills m s) \<and>
    onUserFills r (onUserFills m s) =
      (if uf_isSnapshot r then (onUserFills m s)\<lparr>fillsSnapshotSeen := True\<rparr> else onUserFills m s)"
proof -
  define s' where "s' = (if uf_isSnapshot m then s\<lparr>fillsSnapshotSeen := True\<rparr> else s)"
  define h where "h = (uf_isSnapshot m \<and> \<not> fillsSnapshotSeen s)"
  have w: "tid_window s'" "seenTids s' = seenTids s" "seenTidOrder s' = seenTidOrder s @ []"
    using assms(1) by (simp_all add: s'_def tid_window_def)
  have m: "onUserFills m s = fold (onUserFill h) (uf_fills m) s'"
    by (simp add: onUserFills_def s'_def h_def Let_def)
  have "set (seenTidOrder s) \<inter> f_tid ` set (uf_fills m) = {}" using assms(1,2) by (simp add: tid_window_def)
  from fills_remembered[OF w(1) w(3) this, of h] assms(3)
  have "f_tid ` set (uf_fills m) \<subseteq> seenTids (onUserFills m s)" by (simp add: m)
  then have "f_tid ` set (uf_fills r) \<subseteq> seenTids (onUserFills m s)" using assms(4) by blast
  then show ?thesis
    using tid_window_fills[OF w(1)] by (auto simp: m onUserFills_def[of r] Let_def intro!: fills_known)
qed

theorem replayed_fills_ignored_witness:
  "tid_window ex_client \<and> onUserFills ex_fills (onUserFills ex_fills ex_client) = onUserFills ex_fills ex_client"
proof -
  have w: "tid_window ex_client" by (simp add: tid_window_def ex_client_fields)
  from replayed_fills_ignored[OF w, of ex_fills ex_fills] show ?thesis
    using w by (simp add: ex_client_fields ex_fills_def kMaxRememberedTids_def)
qed

text \<open>
  C16: a client becomes ready only with everything it waits for, and says so. In every reachable state and after any event, a
  ready client was started, has its assets and the answer about its positions, the answer about its spot balances when they
  are asked for, and the answer about its open orders when they are to be adopted; and when the event made it ready, then in
  that moment its session is open, both subscriptions of the user's stream are acknowledged, and \<open>onReady\<close> is what the
  listener was told last. A query for positions, balances or open orders that failed counts as answered.
\<close>

theorem ready_means_loaded:
  assumes "reachable pj mn s" and "ready (handle pj mn e s)"
  shows "let s' = handle pj mn e s in
    started s' \<and> assetsLoaded s' \<and> positionsLoaded s' \<and> (loadSpotAssets (cfg s') \<longrightarrow> spotBalancesLoaded s') \<and>
    (adoptExistingOrders (cfg s') \<longrightarrow> ordersAdopted s') \<and>
    (\<not> ready s \<longrightarrow> session_open s' \<and> orderUpdatesAcked s' \<and> userFillsAcked s' \<and> out s' \<noteq> [] \<and> last (out s') = OnReady)"
  using gate_inv_handle[OF reachable_gate[OF assms(1)], of pj mn e] handle_becomes_ready[OF assms(2)] assms(2)
  by (simp add: gate_inv_def gate_sel Let_def)

theorem ready_means_loaded_witness:
  "reachable (\<lambda>_. None) (\<lambda>_. []) ex_ready \<and> ready ex_ready \<and> session_open ex_ready \<and> last (out ex_ready) = OnReady"
proof -
  let ?h = "handle (\<lambda>_. None) (\<lambda>_. [])"
  define s where "s = fold ?h (butlast ex_startup) ex_client"
  have eq: "ex_ready = ?h (last ex_startup) s" by (simp add: ex_ready_def s_def ex_startup_def)
  have r: "reachable (\<lambda>_. None) (\<lambda>_. []) s"
    unfolding s_def by (intro reachable_fold reachable.constructed[OF ex_client_new])
  note eval = ex_startup_def start_def bootstrap_def subscribe_user_def armEviction_def addTimer_def log_out_def
    onSubscriptionResponse_def onAssets_def onClearinghouse_def maybeReady_def seedSpotPositions_def Let_def ex_client_fields
    ex_client_def new_client_def parseOptionalAddress_def ex_config_def
  have n: "\<not> ready s" by (simp add: s_def eval)
  have y: "ready (?h (last ex_startup) s)" by (simp add: s_def eval)
  from ready_means_loaded[OF r y] n y reachable.handled[OF r, of "last ex_startup"] show ?thesis by (simp add: eq Let_def)
qed

text \<open>
  C24: a batch of orders is either refused with nothing tracked and nothing sent, or sent as one action with one wire per
  request in order, each with a positive price and size that the venue accepts for a listed asset, under the client id of the request
  or a new one, which no tracked order had.
\<close>

theorem placeOrders_all_or_nothing:
  assumes "\<forall>r \<in> set reqs. wf_request r"
  shows "case placeOrders reqs g fee s of
      (s', Inl e) \<Rightarrow> \<exists>n. s' = s\<lparr>cloidCounter := n\<rparr>
    | (s', Inr cs) \<Rightarrow> \<exists>ws. wires_for (assets s) (orders s) (cloidSession s) (cloidCounter s) reqs cs ws \<and>
        s' = send (act_order ws g (if fee \<noteq> None then fee else cfg_builderFee (cfg s)))
               (default_pending\<lparr>pa_kind := KOrder, pa_cloids := cs\<rparr>)
               (place_track (clock s) reqs ws cs (s\<lparr>cloidCounter := cloidCounter s + of_nat (length reqs)\<rparr>))"
proof (cases "is_error (checkReady s) \<or> reqs = []")
  case True
  have same: "\<exists>n. s = s\<lparr>cloidCounter := n\<rparr>" by (rule exI[of _ "cloidCounter s"]) simp
  from True have "\<exists>e. placeOrders reqs g fee s = (s, Inl e)" by (auto simp: placeOrders_def)
  then obtain e where e: "placeOrders reqs g fee s = (s, Inl e)" ..
  show ?thesis unfolding e using same by simp
next
  case False
  then have chk: "\<not> is_error (checkReady s)" "reqs \<noteq> []" by auto
  obtain s1 r where b: "place_build reqs [] [] s = (s1, r)" by (cases "place_build reqs [] [] s")
  show ?thesis
  proof (cases r)
    case (Inl e)
    then show ?thesis using place_build_error[of reqs "[]" "[]" s s1 e] b chk by (simp add: placeOrders_def)
  next
    case (Inr wc)
    obtain ws cs where wc: "wc = (ws, cs)" by (cases wc)
    from place_build_ok[OF b[unfolded Inr wc] assms]
    have s1: "s1 = s\<lparr>cloidCounter := cloidCounter s + of_nat (length reqs)\<rparr>"
      and ok: "wires_for (assets s) (orders s) (cloidSession s) (cloidCounter s) reqs cs ws" by auto
    have cfg: "cfg (place_track now rs vs ds u) = cfg u" for now rs vs ds u
      by (induction now rs vs ds u rule: place_track.induct) (simp_all add: upd_def track_def split: option.split)
    have eq: "placeOrders reqs g fee s =
      (send (act_order ws g (if fee \<noteq> None then fee else cfg_builderFee (cfg s)))
         (default_pending\<lparr>pa_kind := KOrder, pa_cloids := cs\<rparr>) (place_track (clock s) reqs ws cs s1), Inr cs)"
      using chk s1 by (simp add: placeOrders_def b Inr wc Let_def cfg)
    show ?thesis unfolding eq prod.case sum.case s1 using ok by blast
  qed
qed

theorem placeOrders_all_or_nothing_witness:
  "wf_request ex_request \<and>
   (case placeOrders [ex_request] (GroupingOf Na) None ex_trading of
      (s', Inl e) \<Rightarrow> \<exists>n. s' = ex_trading\<lparr>cloidCounter := n\<rparr>
    | (s', Inr cs) \<Rightarrow> \<exists>ws. wires_for [ex_btc] (orders ex_trading) (cloidSession ex_trading) (cloidCounter ex_trading) [ex_request] cs ws)"
proof -
  have wf: "\<forall>r \<in> set [ex_request]. wf_request r" by (simp add: ex_request_def wf_request_def wf_decimal_def in_i64_def)
  have "assets ex_trading = [ex_btc]" by (simp add: ex_trading_def)
  with placeOrders_all_or_nothing[OF wf, where g = "GroupingOf Na" and fee = None and s = ex_trading] wf show ?thesis
    by (auto split: prod.splits sum.splits)
qed

text \<open>
  CancelAll marks every live order of the coin that it can name and sends each in exactly one cancel, external ones
  by exchange id and the others by client id, in batches of at most 40, and never as fast cancels when a trigger order is among them.
\<close>

lemma cancelAll_covers_live_orders:
  assumes "\<not> is_error (checkReady s)" and "distinct iter"
  shows "\<exists>fast. (fast \<longrightarrow> fastCancels (cfg s) \<and> (\<forall>c \<in> set iter. cancelable coin s c \<longrightarrow> \<not> trigger_order s c)) \<and>
    cancelAll iter coin s =
      (fold (\<lambda>b. send (act_cancel (map (oid_wire s) b) fast) (cancel_pending b)) (batches (by_oid coin s iter))
        (fold (\<lambda>b. send (act_cancelByCloid (map (cloid_wire s) b) fast) (cancel_pending b)) (batches (by_cloid coin s iter))
          (mark_canceling (filter (cancelable coin s) iter) s)), no_error) \<and>
    concat (batches (by_cloid coin s iter)) = by_cloid coin s iter \<and>
    concat (batches (by_oid coin s iter)) = by_oid coin s iter \<and>
    (\<forall>b \<in> set (batches (by_cloid coin s iter) @ batches (by_oid coin s iter)). 0 < length b \<and> length b \<le> kMaxBatchEntries)"
proof -
  obtain l s' where f: "fold (cancelAll_collect coin) iter (no_cancels, s) = (l, s')"
    by (cases "fold (cancelAll_collect coin) iter (no_cancels, s)")
  note c = cancelAll_collect_fold[OF assms(2) f]
  have "cancelAll iter coin s = (oid_batches (fastCancels (cfg s') \<and> \<not> anyTrigger l) (byOid l) (oidOrders l)
      (cloid_batches (fastCancels (cfg s') \<and> \<not> anyTrigger l) (byCloid l) (cloidOrders l) s'), no_error)"
    using assms(1) by (simp add: cancelAll_def f Let_def)
  then show ?thesis using c batches_length cancelAll_collect_trigger[OF assms(2) f]
    by (auto simp: no_cancels_def cloid_batches_eq oid_batches_eq batches_concat intro!: exI[of _ "fastCancels (cfg s') \<and> \<not> anyTrigger l"])
qed

text \<open>
  An order update never moves an order back to an older exchange id, as long as the key for an update without client
  id is not held by a newer order.
\<close>

lemma update_keeps_generation:
  assumes "orders s c = Some t" and "external_key_ok u s"
  shows "\<exists>t'. orders (onOrderUpdate u s) c = Some t' \<and> oid_of t \<le> oid_of t'"
  using onOrderUpdate_gen[OF assms(2)] assms(1) by (simp add: gen_le_def)

text \<open>
  Fills never move an order back to an older exchange id.
\<close>

lemma fills_keep_generation:
  "orders s c = Some t \<Longrightarrow> \<exists>t'. orders (onUserFills m s) c = Some t' \<and> oid_of t \<le> oid_of t'"
proof -
  have "gen_le s (fold (onUserFill h) fs u)" if "gen_le s u" for h fs u
    using that by (induction fs arbitrary: u) (simp_all add: gen_le_trans[OF _ onUserFill_gen])
  then have "gen_le s (onUserFills m s)"
    unfolding onUserFills_def Let_def by (simp add: gen_le_def)
  then show "orders s c = Some t \<Longrightarrow> ?thesis" by (simp add: gen_le_def)
qed

text \<open>
  An order whose placement is in doubt survives three answers that the venue does not know it, and the fourth
  rejects it with an error text.
\<close>

lemma missing_order_rejected_after_probes:
  assumes "orders s c = Some t" and "state_of t = PendingNew" and "notFoundProbes t = 0" and "\<not> osi_found info"
  shows "(\<forall>k \<le> kNotFoundProbes. \<exists>t'. orders ((onOrderStatus c (Inr info) ^^ k) s) c = Some t' \<and> state_of t' = PendingNew) \<and>
    (\<exists>t'. orders ((onOrderStatus c (Inr info) ^^ (kNotFoundProbes + 1)) s) c = Some t' \<and> state_of t' = Rejected \<and>
      o_lastError (t_order t') \<noteq> [])"
proof -
  have probes: "\<exists>t'. orders ((onOrderStatus c (Inr info) ^^ k) s) c = Some t' \<and> state_of t' = PendingNew \<and> notFoundProbes t' = k"
    if "k \<le> kNotFoundProbes" for k
    using that
  proof (induction k)
    case (Suc k)
    then obtain t' where "orders ((onOrderStatus c (Inr info) ^^ k) s) c = Some t'" "state_of t' = PendingNew" "notFoundProbes t' = k"
      by auto
    with not_found_probe[OF this(1,2)] Suc.prems assms(4) show ?case by auto
  qed (use assms in simp)
  from probes[of kNotFoundProbes] not_found_last assms(4) show ?thesis using probes by fastforce
qed

text \<open>
  An external order without client id that was amended is stored under the key of its first exchange id; a late
  cancel for that id finds no index entry, reuses the key, moves the order back to the old id and cancels it.
\<close>

lemma late_cancel_kills_amended_external_order:
  assumes "u_cloid u = None" and "orders s (Cloid kExternalCloidHigh (u_oid u)) = Some t" and "oidIndex s (u_oid u) = None"
    and "u_oid u \<noteq> 0" and "u_oid u < oid_of t" and "isLive (t_order t)" and "\<not> o_modifyPending (t_order t)"
    and "u_status u = UCanceled"
  shows "\<exists>t'. orders (onOrderUpdate u s) (Cloid kExternalCloidHigh (u_oid u)) = Some t' \<and>
    state_of t' = Canceled \<and> oid_of t' = u_oid u \<and> oidIndex (onOrderUpdate u s) (oid_of t) = None"
proof -
  define k where "k = Cloid kExternalCloidHigh (u_oid u)"
  have loc: "locate (u_cloid u) (u_oid u) s = None" using assms(1,3,4) by (simp add: locate_def findByOid_def)
  have key: "is_external_cloid u = k" using assms(1) by (simp add: is_external_cloid_def k_def)
  define t1 where "t1 = fresh_from_update u (assets s) (mod_order (\<lambda>o'. o'\<lparr>o_cloid := k\<rparr>) t)"
  have t1: "oid_of t1 = oid_of t" "state_of t1 = state_of t" "o_modifyPending (t_order t1) = o_modifyPending (t_order t)"
    by (simp_all add: t1_def fresh_from_update_def oid_of_def state_of_def)
  have ne: "o_oid (t_order t1) \<noteq> u_oid u" "o_oid (t_order t1) \<noteq> 0" "u_oid u \<noteq> o_oid (t_order t)"
    using assms(5) t1(1) by (auto simp: oid_of_def)
  obtain t2 ix where so: "setOid (u_oid u) t1 (oidIndex s) = (t2, ix)" by (cases "setOid (u_oid u) t1 (oidIndex s)")
  have t2: "oid_of t2 = u_oid u" "state_of t2 = state_of t" "\<not> o_modifyPending (t_order t2)" "ix (oid_of t) = None"
    using so assms(4,7) t1 ne unfolding setOid_def oid_of_def state_of_def by auto
  have tr: "track_update u s = (k, s\<lparr>orders := (orders s)(k \<mapsto> t2), oidIndex := ix\<rparr>)"
    using assms(2) so by (simp add: track_update_def key Let_def track_def upd_def upd_ix_def t1_def k_def[symmetric])
  have gen: "update_generation u t2 ix = Some (t2, ix)" using t2(1) by (simp add: update_generation_def oid_of_def Let_def)
  have st: "state_of (applyVenueStatus UCanceled x lp os t2) = Canceled" for x lp os
    using assms(6) t2(2) by (auto simp: applyVenueStatus_def isLive_def state_of_def Let_def set_state_def set_error_def clear_cancelPending_def)
  show ?thesis unfolding k_def[symmetric] onOrderUpdate_def loc option.case tr Let_def prod.case
    using t2 st[of "u_statusText u" "u_limitPx u" "u_origSz u"] applyVenueStatus_sel(1)[of UCanceled "u_statusText u" "u_limitPx u" "u_origSz u" t2]
    by (auto simp: gen upd_def emit_def log_out_def assms(8) Let_def oid_of_def state_of_def)
qed

end
