(* ===== verification/HL_WsCodec.thy ===== *)
theory HL_WsCodec
  imports HL_Types
begin

text \<open>
  The WebSocket frame codec (\<open>include/hl/net/WsCodec.h\<close>, \<open>src/net/WsCodec.cpp\<close>): the masking
  encoder, the incremental decoder with fragment reassembly, and the base64 encoder of the handshake.

  \<^item> Bytes are \<open>u8\<close>, lengths are \<open>nat\<close>; an opcode is the byte that the enumeration wraps, because the
    decoder casts any four-bit value to it.
  \<^item> The decoder's sink is a function: given the events delivered so far it says what the callback
    does to the decoder, which is to feed it more bytes or to reset it. The decoding loop is a partial
    function, since a sink that always feeds more never lets it end.
\<close>

section \<open>Encoding\<close>

definition opContinuation :: u8 where "opContinuation = 0"
definition opText :: u8 where "opText = 1"
definition opBinary :: u8 where "opBinary = 2"

definition mask_bytes :: "u32 \<Rightarrow> u8 list" where
  "mask_bytes maskKey = [ucast (drop_bit 24 maskKey), ucast (drop_bit 16 maskKey), ucast (drop_bit 8 maskKey), ucast maskKey]"

definition ws_length_bytes :: "nat \<Rightarrow> u8 list" where
  "ws_length_bytes len =
     (if len < 126 then [0x80 OR word_of_nat len]
      else if len \<le> 0xFFFF then [0x80 OR 126, word_of_nat (len div 2 ^ 8), word_of_nat len]
      else (0x80 OR 127) # map (\<lambda>i. word_of_nat (len div 2 ^ (8 * i))) [7, 6, 5, 4, 3, 2, 1, 0])"

text \<open>\<open>memcpy\<close> of eight bytes into a 64-bit word and back, least significant byte first.\<close>

definition load64 :: "u8 list \<Rightarrow> u64" where
  "load64 bs = foldr (\<lambda>b w. push_bit 8 w OR ucast b) bs 0"

definition store64 :: "u64 \<Rightarrow> u8 list" where
  "store64 w = map (\<lambda>i. ucast (drop_bit (8 * i) w)) [0..<8]"

function mask_loop :: "u8 list \<Rightarrow> u8 list \<Rightarrow> nat \<Rightarrow> u8 list" where
  "mask_loop key src i =
     (if i + 8 \<le> length src
      then store64 (load64 (take 8 (drop i src)) XOR load64 (key @ key)) @ mask_loop key src (i + 8)
      else map (\<lambda>j. src ! j XOR key ! (j mod 4)) [i..<length src])"
  by pat_completeness auto
termination
  by (relation "measure (\<lambda>(key, src, i). length src - i)") auto

declare mask_loop.simps [simp del]

definition encodeWsFrame :: "u8 \<Rightarrow> u8 list \<Rightarrow> u32 \<Rightarrow> u8 list \<Rightarrow> u8 list" where
  "encodeWsFrame opcode payload maskKey out =
     out @ [0x80 OR opcode] @ ws_length_bytes (length payload) @ mask_bytes maskKey @
     mask_loop (mask_bytes maskKey) payload 0"

section \<open>Decoding\<close>

datatype decode_status = DecodeOk | ProtocolError | MessageTooBig

datatype ws_event = WsMessage u8 "u8 list" | WsControl u8 "u8 list"

datatype sink_call = SinkFeed "u8 list" | SinkReset

type_synonym ws_sink = "ws_event list \<Rightarrow> sink_call list"

record reassembly =
  fragments :: "u8 list"
  fragmentOpcode :: u8
  inFragmentedMessage :: bool

record decoder =
  buffer :: "u8 list"
  consumed :: nat
  frag :: reassembly
  decoding :: bool
  staging :: "u8 list"
  epoch :: u64
  maxMessage :: nat

definition new_decoder :: "nat \<Rightarrow> decoder" where
  "new_decoder maxMessageBytes = \<lparr>buffer = [], consumed = 0,
     frag = \<lparr>fragments = [], fragmentOpcode = opText, inFragmentedMessage = False\<rparr>,
     decoding = False, staging = [], epoch = 0, maxMessage = maxMessageBytes\<rparr>"

definition decoder_reset :: "decoder \<Rightarrow> decoder" where
  "decoder_reset d = d\<lparr>epoch := epoch d + 1, staging := [], buffer := [], consumed := 0,
     frag := (frag d)\<lparr>fragments := [], inFragmentedMessage := False\<rparr>\<rparr>"

text \<open>What a callback does; it runs while \<open>decoding\<close> is set, so that the bytes it feeds are staged.\<close>

fun sink_calls :: "sink_call list \<Rightarrow> decoder \<Rightarrow> decoder" where
  "sink_calls [] d = d"
| "sink_calls (SinkFeed bs # cs) d = sink_calls cs (d\<lparr>staging := staging d @ bs\<rparr>)"
| "sink_calls (SinkReset # cs) d = sink_calls cs (decoder_reset d)"

datatype frame_head =
    HeadShort
  | HeadTooBig
  | Head (h_fin: bool) (h_op: u8) (h_masked: bool) (h_len: nat) (h_header: nat)

definition read_length64 :: "u8 list \<Rightarrow> u64" where
  "read_length64 bs = foldl (\<lambda>w b. push_bit 8 w OR ucast b) 0 bs"

text \<open>The head of the frame that starts at \<open>p\<close>, up to the test that the whole frame is there.\<close>

definition sized_head :: "nat \<Rightarrow> nat \<Rightarrow> bool \<Rightarrow> u8 \<Rightarrow> bool \<Rightarrow> nat \<Rightarrow> nat \<Rightarrow> frame_head" where
  "sized_head maxMsg avail fin op masked payloadLen header =
     (let header = (if masked then header + 4 else header) in
      if payloadLen > maxMsg then HeadTooBig
      else if avail < (header + payloadLen) mod 2 ^ 64 then HeadShort
      else Head fin op masked payloadLen header)"

definition read_head :: "nat \<Rightarrow> u8 list \<Rightarrow> frame_head" where
  "read_head maxMsg p =
     (if length p < 2 then HeadShort
      else
        let sized = sized_head maxMsg (length p) (p ! 0 AND 0x80 \<noteq> 0) (p ! 0 AND 0x0F) (p ! 1 AND 0x80 \<noteq> 0);
            len7 = unat (p ! 1 AND 0x7F)
        in if len7 = 126 then
             if length p < 4 then HeadShort else sized (unat (push_bit 8 (ucast (p ! 2)) OR ucast (p ! 3) :: u64)) 4
           else if len7 = 127 then
             if length p < 10 then HeadShort else sized (unat (read_length64 (take 8 (drop 2 p)))) 10
           else sized len7 2)"

definition unmask :: "u8 list \<Rightarrow> u8 list \<Rightarrow> u8 list" where
  "unmask key payload = map (\<lambda>i. payload ! i XOR key ! (i mod 4)) [0..<length payload]"

definition frame_body :: "u8 list \<Rightarrow> frame_head \<Rightarrow> u8 list" where
  "frame_body p h =
     (let payload = take (h_len h) (drop (h_header h) p)
      in if h_masked h then unmask (take 4 (drop (h_header h - 4) p)) payload else payload)"

text \<open>What a complete frame does to the reassembly state, and the message it completes.\<close>

definition accept_frame ::
  "nat \<Rightarrow> bool \<Rightarrow> u8 \<Rightarrow> u8 list \<Rightarrow> reassembly \<Rightarrow> decode_status + (reassembly \<times> ws_event option)" where
  "accept_frame maxMsg fin op body fr =
     (if op \<ge> 8 then
        if \<not> fin \<or> length body > 125 then Inl ProtocolError else Inr (fr, Some (WsControl op body))
      else if op = opContinuation then
        if \<not> inFragmentedMessage fr then Inl ProtocolError
        else if length (fragments fr) + length body > maxMsg then Inl MessageTooBig
        else
          let all = fragments fr @ body in
          if fin then Inr (fr\<lparr>inFragmentedMessage := False, fragments := []\<rparr>, Some (WsMessage (fragmentOpcode fr) all))
          else Inr (fr\<lparr>fragments := all\<rparr>, None)
      else if op = opText \<or> op = opBinary then
        if inFragmentedMessage fr then Inl ProtocolError
        else if fin then Inr (fr, Some (WsMessage op body))
        else Inr (fr\<lparr>inFragmentedMessage := True, fragmentOpcode := op, fragments := body\<rparr>, None)
      else Inl ProtocolError)"

datatype loop_exit = Break decode_status | ResetInCallback

definition deliver :: "ws_sink \<Rightarrow> ws_event \<Rightarrow> decoder \<times> ws_event list \<Rightarrow> decoder \<times> ws_event list" where
  "deliver sink e de = (let evs = snd de @ [e] in (sink_calls (sink evs) (fst de), evs))"

text \<open>One iteration after the staged bytes have been taken over: a final value, or the next state.\<close>

definition decode_one ::
  "ws_sink \<Rightarrow> u64 \<Rightarrow> decoder \<times> ws_event list \<Rightarrow> loop_exit option \<times> decoder \<times> ws_event list" where
  "decode_one sink ep de =
     (let d = fst de; p = drop (consumed d) (buffer d); h = read_head (maxMessage d) p in
      case h of
        HeadShort \<Rightarrow> (Some (Break DecodeOk), de)
      | HeadTooBig \<Rightarrow> (Some (Break MessageTooBig), de)
      | Head fin op masked len header \<Rightarrow>
          let d = d\<lparr>consumed := consumed d + header + len\<rparr> in
          case accept_frame (maxMessage d) fin op (frame_body p h) (frag d) of
            Inl st \<Rightarrow> (Some (Break st), d, snd de)
          | Inr (fr, None) \<Rightarrow> (None, d\<lparr>frag := fr\<rparr>, snd de)
          | Inr (fr, Some e) \<Rightarrow>
              let de = deliver sink e (d\<lparr>frag := fr\<rparr>, snd de)
              in (if epoch (fst de) \<noteq> ep then Some ResetInCallback else None, de))"

definition take_staged :: "decoder \<Rightarrow> decoder" where
  "take_staged d = (if staging d \<noteq> [] then d\<lparr>buffer := buffer d @ staging d, staging := []\<rparr> else d)"

partial_function (option) feed_loop ::
  "ws_sink \<Rightarrow> u64 \<Rightarrow> decoder \<times> ws_event list \<Rightarrow> (loop_exit \<times> decoder \<times> ws_event list) option" where
  "feed_loop sink ep de =
     (case decode_one sink ep (take_staged (fst de), snd de) of
        (Some x, de) \<Rightarrow> Some (x, de)
      | (None, de) \<Rightarrow> feed_loop sink ep de)"

definition compact_buffer :: "decoder \<Rightarrow> decoder" where
  "compact_buffer d =
     (if consumed d = length (buffer d) then d\<lparr>buffer := [], consumed := 0\<rparr>
      else if consumed d > 64 * 1024 \<and> consumed d * 2 > length (buffer d)
      then d\<lparr>buffer := drop (consumed d) (buffer d), consumed := 0\<rparr>
      else d)"

definition feed ::
  "ws_sink \<Rightarrow> u8 list \<Rightarrow> decoder \<times> ws_event list \<Rightarrow> (decode_status \<times> decoder \<times> ws_event list) option" where
  "feed sink bytes de =
     (let (d, evs) = de in
      if decoding d then Some (DecodeOk, d\<lparr>staging := staging d @ bytes\<rparr>, evs)
      else
        case feed_loop sink (epoch d) (d\<lparr>decoding := True, buffer := buffer d @ bytes\<rparr>, evs) of
          None \<Rightarrow> None
        | Some (ResetInCallback, d, evs) \<Rightarrow> Some (DecodeOk, d\<lparr>decoding := False\<rparr>, evs)
        | Some (Break st, d, evs) \<Rightarrow> Some (st, compact_buffer (d\<lparr>decoding := False, staging := []\<rparr>), evs))"

section \<open>Handshake key\<close>

definition kTable :: string where
  "kTable = ''ABCDEFGHIJKLMNOPQRSTUVWXYZabcdefghijklmnopqrstuvwxyz0123456789+/''"

definition b64_char :: "u32 \<Rightarrow> nat \<Rightarrow> char" where
  "b64_char v s = kTable ! unat (drop_bit s v AND 63)"

fun base64Encode :: "u8 list \<Rightarrow> string" where
  "base64Encode (a # b # c # rest) =
     (let v = push_bit 16 (ucast a) OR push_bit 8 (ucast b) OR ucast c
      in [b64_char v 18, b64_char v 12, b64_char v 6, b64_char v 0] @ base64Encode rest)"
| "base64Encode [a, b] =
     (let v = push_bit 16 (ucast a) OR push_bit 8 (ucast b)
      in [b64_char v 18, b64_char v 12, b64_char v 6, CHR ''=''])"
| "base64Encode [a] =
     (let v = push_bit 16 (ucast a) in [b64_char v 18, b64_char v 12, CHR ''='', CHR ''=''])"
| "base64Encode [] = []"

text \<open>\<open>SHA1\<close> is OpenSSL's.\<close>

definition kGuid :: string where
  "kGuid = ''258EAFA5-E914-47DA-95CA-C5AB0DC85B11''"

definition wsAcceptKey :: "(string \<Rightarrow> u8 list) \<Rightarrow> string \<Rightarrow> string" where
  "wsAcceptKey sha1 key = base64Encode (sha1 (key @ kGuid))"

section \<open>Masking\<close>

lemma bit_load64:
  "length bs \<le> 8 \<Longrightarrow> bit (load64 bs) n \<longleftrightarrow> n < 8 * length bs \<and> bit (bs ! (n div 8)) (n mod 8)"
proof (induction bs arbitrary: n)
  case (Cons b bs)
  have len: "length bs \<le> 8" "length bs < 8" using Cons.prems by simp_all
  have ih: "bit (load64 bs) m \<longleftrightarrow> m < 8 * length bs \<and> bit (bs ! (m div 8)) (m mod 8)" for m
    by (rule Cons.IH[OF len(1)])
  show ?case
  proof (cases "n < 8")
    case True
    then show ?thesis by (simp add: load64_def bit_or_iff bit_push_bit_iff bit_ucast_iff)
  next
    case False
    then obtain m where m: "n = m + 8" by (metis add.commute le_add_diff_inverse2 linorder_not_less)
    have b: "\<not> bit b (m + 8)" using bit_imp_le_length[of b "m + 8"] by auto
    have "bit (load64 (b # bs)) (m + 8) \<longleftrightarrow> m + 8 < 64 \<and> bit (load64 bs) m"
      using b by (simp add: load64_def bit_or_iff bit_push_bit_iff bit_ucast_iff)
    also have "\<dots> \<longleftrightarrow> m + 8 < 8 * length (b # bs) \<and> bit ((b # bs) ! ((m + 8) div 8)) ((m + 8) mod 8)"
      using len by (auto simp: ih div_add_self2)
    finally show ?thesis by (simp add: m)
  qed
qed (simp add: load64_def)

lemma store_xor_load:
  assumes "length a = 8" and "length b = 8"
  shows "store64 (load64 a XOR load64 b) = map (\<lambda>i. a ! i XOR b ! i) [0..<8]"
proof (rule nth_equalityI)
  fix i assume "i < length (store64 (load64 a XOR load64 b))"
  then have i: "i < 8" by (simp add: store64_def)
  have "bit (ucast (drop_bit (8 * i) (load64 a XOR load64 b)) :: u8) n = bit (a ! i XOR b ! i) n" if "n < 8" for n
    using i that assms by (simp add: bit_ucast_iff bit_drop_bit_eq bit_xor_iff bit_load64)
  then have "(ucast (drop_bit (8 * i) (load64 a XOR load64 b)) :: u8) = a ! i XOR b ! i"
    by (intro bit_word_eqI) simp
  then show "store64 (load64 a XOR load64 b) ! i = map (\<lambda>i. a ! i XOR b ! i) [0..<8] ! i"
    using i by (simp add: store64_def)
qed (simp add: store64_def)

lemma nth_key_twice: "length key = 4 \<Longrightarrow> i < 8 \<Longrightarrow> (key @ key) ! i = key ! (i mod 4)"
  by (cases "i < 4") (auto simp: nth_append mod_if)

lemma mask_loop_reference:
  assumes "length key = 4" and "i mod 8 = 0"
  shows "mask_loop key src i = map (\<lambda>j. src ! j XOR key ! (j mod 4)) [i..<length src]"
  using assms(2)
proof (induction "length src - i" arbitrary: i rule: less_induct)
  case less
  show ?case
  proof (cases "i + 8 \<le> length src")
    case True
    have "store64 (load64 (take 8 (drop i src)) XOR load64 (key @ key)) =
        map (\<lambda>j. take 8 (drop i src) ! j XOR (key @ key) ! j) [0..<8]"
      using True assms(1) by (intro store_xor_load) auto
    also have "\<dots> = map (\<lambda>j. src ! j XOR key ! (j mod 4)) [i..<i + 8]"
    proof (rule nth_equalityI)
      fix j assume "j < length (map (\<lambda>j. take 8 (drop i src) ! j XOR (key @ key) ! j) [0..<8])"
      then have j: "j < 8" by simp
      then have "(i + j) mod 4 = j mod 4" using less.prems by presburger
      then show "map (\<lambda>j. take 8 (drop i src) ! j XOR (key @ key) ! j) [0..<8] ! j =
          map (\<lambda>j. src ! j XOR key ! (j mod 4)) [i..<i + 8] ! j"
        using j True nth_key_twice[OF assms(1) j] by (simp add: add.commute)
    qed simp
    finally have head: "store64 (load64 (take 8 (drop i src)) XOR load64 (key @ key)) =
        map (\<lambda>j. src ! j XOR key ! (j mod 4)) [i..<i + 8]" .
    have "mask_loop key src (i + 8) = map (\<lambda>j. src ! j XOR key ! (j mod 4)) [i + 8..<length src]"
      using True less.prems by (intro less.hyps) auto
    moreover have "[i..<length src] = [i..<i + 8] @ [i + 8..<length src]"
      using True upt_add_eq_append[of i "i + 8" "length src - (i + 8)"] by simp
    ultimately show ?thesis using True head by (simp add: mask_loop.simps[of key src i])
  qed (simp add: mask_loop.simps)
qed

lemma length_mask_bytes [simp]: "length (mask_bytes k) = 4"
  by (simp add: mask_bytes_def)

lemma mask_loop_unmask: "mask_loop (mask_bytes k) src 0 = unmask (mask_bytes k) src"
  by (simp add: mask_loop_reference unmask_def)

lemma length_unmask [simp]: "length (unmask key src) = length src"
  by (simp add: unmask_def)

lemma unmask_unmask [simp]: "unmask key (unmask key src) = src"
  by (rule nth_equalityI) (simp_all add: unmask_def xor.assoc)

section \<open>Reading back a frame\<close>

lemma len7_bits:
  "n < 126 \<Longrightarrow> (0x80 OR word_of_nat n :: u8) AND 0x80 \<noteq> 0 \<and> unat ((0x80 OR word_of_nat n :: u8) AND 0x7F) = n"
proof -
  have "\<forall>n \<in> set [0..<126]. (0x80 OR word_of_nat n :: u8) AND 0x80 \<noteq> 0 \<and> unat ((0x80 OR word_of_nat n :: u8) AND 0x7F) = n"
    by (simp add: upt_conv_Cons)
  then show "n < 126 \<Longrightarrow> ?thesis" by auto
qed

lemma op_bits:
  assumes "op < (16 :: u8)"
  shows "(0x80 OR op) AND 0x80 \<noteq> 0" "(0x80 OR op) AND 0x0F = op"
proof -
  have "\<forall>n \<in> set [0..<16]. (0x80 OR word_of_nat n :: u8) AND 0x80 \<noteq> 0 \<and> (0x80 OR word_of_nat n :: u8) AND 0x0F = word_of_nat n"
    by (simp add: upt_conv_Cons)
  moreover have "op = word_of_nat (unat op)" "unat op < 16" using assms by (simp_all add: word_less_nat_alt)
  ultimately show "(0x80 OR op) AND 0x80 \<noteq> 0" "(0x80 OR op) AND 0x0F = op" by (metis atLeastLessThan_iff set_upt zero_le)+
qed

lemma be_step: "push_bit 8 (word_of_nat a :: u64) OR ucast (word_of_nat b :: u8) = word_of_nat (a * 2 ^ 8 + b mod 2 ^ 8)"
proof -
  have disj: "push_bit 8 (word_of_nat a :: u64) AND ucast (word_of_nat b :: u8) = 0"
  proof (rule bit_word_eqI)
    fix n assume "n < LENGTH(64)"
    have "\<not> bit (word_of_nat b :: u8) n" if "8 \<le> n"
      using bit_imp_le_length[of "word_of_nat b :: u8" n] that by auto
    then show "bit (push_bit 8 (word_of_nat a :: u64) AND ucast (word_of_nat b :: u8)) n = bit 0 n"
      by (auto simp: bit_and_iff bit_push_bit_iff bit_ucast_iff)
  qed
  have "push_bit 8 (word_of_nat a :: u64) OR ucast (word_of_nat b :: u8) = push_bit 8 (word_of_nat a) + ucast (word_of_nat b :: u8)"
    using disj word_plus_and_or[of "push_bit 8 (word_of_nat a :: u64)" "ucast (word_of_nat b :: u8)"] by simp
  also have "\<dots> = word_of_nat (a * 2 ^ 8) + word_of_nat (b mod 2 ^ 8)"
    by (simp add: push_bit_eq_mult unsigned_of_nat take_bit_eq_mod mult.commute)
  finally show ?thesis by simp
qed

lemma read_length64_be:
  assumes "n < 2 ^ 64"
  shows "unat (read_length64 (map (\<lambda>i. word_of_nat (n div 2 ^ (8 * i))) [7, 6, 5, 4, 3, 2, 1, 0])) = n"
proof -
  have glue: "(n div 2 ^ (8 * (k + 1))) * 2 ^ 8 + (n div 2 ^ (8 * k)) mod 2 ^ 8 = n div 2 ^ (8 * k)" for k
  proof -
    have "n div 2 ^ (8 * (k + 1)) = (n div 2 ^ (8 * k)) div 2 ^ 8"
      using div_mult2_eq[of n "2 ^ (8 * k)" "2 ^ 8"] by (simp add: power_add mult.commute)
    then show ?thesis by (simp add: div_mult_mod_eq)
  qed
  have top: "n div 2 ^ (8 * 7) < 2 ^ 8" using assms by (simp add: div_less_iff_less_mult)
  then have "read_length64 (map (\<lambda>i. word_of_nat (n div 2 ^ (8 * i))) [7, 6, 5, 4, 3, 2, 1, 0]) = word_of_nat (n div 2 ^ (8 * 0))"
    using be_step[of 0 "n div 2 ^ (8 * 7)"] glue[of 6] glue[of 5] glue[of 4] glue[of 3] glue[of 2] glue[of 1] glue[of 0]
    by (simp add: read_length64_def be_step)
  then show ?thesis using assms by (simp add: unsigned_of_nat take_bit_eq_mod)
qed

lemma length_ws_length_bytes:
  "length (ws_length_bytes n) = (if n < 126 then 1 else if n \<le> 0xFFFF then 3 else 9)"
  by (simp add: ws_length_bytes_def)

lemma drop_prefix: "p = a @ b \<Longrightarrow> n = length a \<Longrightarrow> drop n p = b"
  by simp

lemma read_head_encoded:
  fixes key :: u32 and rest :: "u8 list"
  assumes "op < 16" and "length payload \<le> maxMsg" and "maxMsg + 14 < 2 ^ 64"
  defines "p \<equiv> encodeWsFrame op payload key [] @ rest"
  defines "header \<equiv> 1 + length (ws_length_bytes (length payload)) + 4"
  shows "read_head maxMsg p = Head True op True (length payload) header" and "length p \<ge> header + length payload"
    and "frame_body p (Head True op True (length payload) header) = payload"
    and "drop (header + length payload) p = rest"
proof -
  let ?n = "length payload" and ?m = "mask_loop (mask_bytes key) payload 0"
  have p: "p = (0x80 OR op) # ws_length_bytes ?n @ mask_bytes key @ ?m @ rest" by (simp add: p_def encodeWsFrame_def)
  have m: "length ?m = ?n" by (simp add: mask_loop_unmask)
  have n: "?n < 2 ^ 64" "(header + ?n) mod 2 ^ 64 = header + ?n" using assms(2,3) by (auto simp: header_def length_ws_length_bytes)
  show len: "length p \<ge> header + ?n" by (simp add: p m header_def)
  have "length (encodeWsFrame op payload key []) = header + ?n" by (simp add: encodeWsFrame_def m header_def)
  then show "drop (header + ?n) p = rest" by (simp add: p_def)
  have "drop (header - 4) p = mask_bytes key @ ?m @ rest"
    by (rule drop_prefix[of _ "(0x80 OR op) # ws_length_bytes ?n"]) (simp_all add: p header_def)
  moreover have "drop header p = ?m @ rest"
    by (rule drop_prefix[of _ "(0x80 OR op) # ws_length_bytes ?n @ mask_bytes key"]) (simp_all add: p header_def)
  ultimately have k: "take 4 (drop (header - 4) p) = mask_bytes key" and b: "take ?n (drop header p) = ?m"
    by (simp_all add: m)
  show "frame_body p (Head True op True ?n header) = payload"
    by (simp add: frame_body_def k b mask_loop_unmask)
  have bits: "p ! 0 AND 0x80 \<noteq> 0" "p ! 0 AND 0x0F = op" using op_bits[OF assms(1)] by (simp_all add: p)
  show "read_head maxMsg p = Head True op True ?n header"
  proof (cases "?n < 126")
    case True
    have "p ! 1 = 0x80 OR word_of_nat ?n" using True by (simp add: p ws_length_bytes_def)
    then show ?thesis using True len7_bits[OF True] bits len n(2) assms(2)
      by (simp add: read_head_def sized_head_def Let_def header_def length_ws_length_bytes)
  next
    case False
    show ?thesis
    proof (cases "?n \<le> 0xFFFF")
      case True
      have h: "p ! 1 = 0x80 OR 126" "p ! 2 = word_of_nat (?n div 2 ^ 8)" "p ! 3 = word_of_nat ?n"
        using True False by (simp_all add: p ws_length_bytes_def)
      have "push_bit 8 (ucast (p ! 2)) OR ucast (p ! 3) = (word_of_nat ?n :: u64)"
      proof -
        have "(ucast (word_of_nat (?n div 2 ^ 8) :: u8) :: u64) = word_of_nat (?n div 2 ^ 8)"
          using True by (simp add: unsigned_of_nat take_bit_eq_mod)
        then show ?thesis using be_step[of "?n div 2 ^ 8" ?n] by (simp add: h(2,3) div_mult_mod_eq)
      qed
      then show ?thesis using True False h bits len n assms(2)
        by (simp add: read_head_def sized_head_def Let_def header_def length_ws_length_bytes unsigned_of_nat take_bit_eq_mod)
    next
      case big: False
      have h: "p ! 1 = 0x80 OR 127"
        "take 8 (drop 2 p) = map (\<lambda>i. word_of_nat (?n div 2 ^ (8 * i))) [7, 6, 5, 4, 3, 2, 1, 0]"
        using big False by (simp_all add: p ws_length_bytes_def)
      have "unat (read_length64 (take 8 (drop 2 p))) = ?n" unfolding h(2) by (rule read_length64_be[OF n(1)])
      then show ?thesis using big False h(1) bits len n assms(2)
        by (simp add: read_head_def sized_head_def Let_def header_def length_ws_length_bytes)
    qed
  qed
qed

section \<open>The decoder as a function of the bytes\<close>

text \<open>
  With a sink that does not touch the decoder, the loop is a function of the unread bytes and the
  reassembly state: the reference \<open>run\<close> below.
\<close>

lemma read_head_bounds:
  assumes "read_head maxMsg p = Head fin op masked len header" and "maxMsg + 14 < 2 ^ 64"
  shows "header + len \<le> length p" "2 \<le> header" "len \<le> maxMsg" "masked \<Longrightarrow> 4 \<le> header"
proof -
  have "\<not> (len > maxMsg) \<and> (header = 2 \<or> header = 4 \<or> header = 6 \<or> header = 8 \<or> header = 10 \<or> header = 14) \<and>
      (masked \<longrightarrow> 4 \<le> header) \<and>
      \<not> length p < (header + len) mod 2 ^ 64"
    using assms(1) by (auto simp: read_head_def sized_head_def Let_def split: if_splits)
  then show "header + len \<le> length p" "2 \<le> header" "len \<le> maxMsg" "masked \<Longrightarrow> 4 \<le> header" using assms(2) by auto
qed

function run :: "nat \<Rightarrow> u8 list \<Rightarrow> reassembly \<Rightarrow> u8 list \<times> reassembly \<times> ws_event list \<times> decode_status" where
  "run maxMsg p fr =
     (if maxMsg + 14 \<ge> 2 ^ 64 then (p, fr, [], DecodeOk)
      else case read_head maxMsg p of
        HeadShort \<Rightarrow> (p, fr, [], DecodeOk)
      | HeadTooBig \<Rightarrow> (p, fr, [], MessageTooBig)
      | Head fin op masked len header \<Rightarrow>
          (case accept_frame maxMsg fin op (frame_body p (Head fin op masked len header)) fr of
             Inl st \<Rightarrow> (drop (header + len) p, fr, [], st)
           | Inr (fr, e) \<Rightarrow>
               (let (q, fr, evs, st) = run maxMsg (drop (header + len) p) fr
                in (q, fr, (case e of None \<Rightarrow> evs | Some e \<Rightarrow> e # evs), st))))"
  by pat_completeness auto
termination
proof (relation "measure (\<lambda>(m, p, fr). length p)")
  fix maxMsg :: nat and p :: "u8 list" and fr fin op masked len header y and fr' :: reassembly and e :: "ws_event option"
  assume "\<not> 2 ^ 64 \<le> maxMsg + 14" and "read_head maxMsg p = Head fin op masked len header"
  then have "header + len \<le> length p" "2 \<le> header" using read_head_bounds by (meson not_le)+
  then show "((maxMsg, drop (header + len) p, fr'), (maxMsg, p, fr)) \<in> measure (\<lambda>(m, p, fr). length p)" by simp
qed simp

declare run.simps [simp del]

text \<open>Once enough bytes are there to decide, more bytes do not change the decision.\<close>

lemma read_head_append:
  assumes "read_head maxMsg p \<noteq> HeadShort"
  shows "read_head maxMsg (p @ x) = read_head maxMsg p"
proof -
  have two: "\<not> length p < 2" using assms by (auto simp: read_head_def)
  then have heads: "(p @ x) ! 0 = p ! 0" "(p @ x) ! 1 = p ! 1" by (cases p; cases "tl p"; simp)+
  have two': "\<not> length (p @ x) < 2" using two by simp
  have ext: "4 \<le> length p \<Longrightarrow> (p @ x) ! 2 = p ! 2 \<and> (p @ x) ! 3 = p ! 3"
    "10 \<le> length p \<Longrightarrow> take 8 (drop 2 (p @ x)) = take 8 (drop 2 p)" by (auto simp: nth_append)
  have sized: "sized_head maxMsg (length p + length x) f o' m l h = sized_head maxMsg (length p) f o' m l h"
    if "sized_head maxMsg (length p) f o' m l h \<noteq> HeadShort" for f o' m l h
    using that by (auto simp: sized_head_def Let_def split: if_splits)
  let ?l = "unat (p ! 1 AND 0x7F)"
  consider "?l = 126" | "?l = 127" | "?l \<noteq> 126" "?l \<noteq> 127" by blast
  then show ?thesis
  proof cases
    case 1
    then have "4 \<le> length p" using assms two by (simp add: read_head_def Let_def split: if_splits)
    then show ?thesis using assms two two' ext(1) 1 unfolding read_head_def Let_def heads by (simp add: sized)
  next
    case 2
    then have "10 \<le> length p" using assms two by (simp add: read_head_def Let_def split: if_splits)
    then show ?thesis using assms two two' ext(2) 2 unfolding read_head_def Let_def heads by (simp add: sized)
  next
    case 3
    then show ?thesis using assms two two' unfolding read_head_def Let_def heads by (simp add: sized)
  qed
qed

lemma frame_body_append:
  "h_header h + h_len h \<le> length p \<Longrightarrow> (h_masked h \<Longrightarrow> 4 \<le> h_header h) \<Longrightarrow> frame_body (p @ x) h = frame_body p h"
  by (auto simp: frame_body_def Let_def)

lemma run_append:
  assumes "run maxMsg p fr = (q, fr', evs, DecodeOk)" and "maxMsg + 14 < 2 ^ 64"
  shows "run maxMsg (p @ x) fr = (case run maxMsg (q @ x) fr' of (r, fr'', evs', st) \<Rightarrow> (r, fr'', evs @ evs', st))"
  using assms
proof (induction maxMsg p fr arbitrary: evs rule: run.induct)
  case (1 maxMsg p fr)
  have big: "\<not> 2 ^ 64 \<le> maxMsg + 14" using "1.prems"(2) by simp
  show ?case
  proof (cases "read_head maxMsg p")
    case HeadShort
    then have "q = p \<and> fr' = fr \<and> evs = []" using "1.prems"(1) big by (simp add: run.simps[of maxMsg p])
    then show ?thesis by (simp split: prod.split)
  next
    case HeadTooBig
    then show ?thesis using "1.prems"(1) big by (simp add: run.simps[of maxMsg p])
  next
    case (Head fin op masked len header)
    note bnd = read_head_bounds[OF Head "1.prems"(2)]
    let ?h = "Head fin op masked len header"
    show ?thesis
    proof (cases "accept_frame maxMsg fin op (frame_body p ?h) fr")
      case (Inl st)
      then have st: "st = DecodeOk" using "1.prems"(1) big Head by (simp add: run.simps[of maxMsg p])
      have "st \<noteq> DecodeOk" using Inl by (auto simp: accept_frame_def Let_def split: if_splits)
      then show ?thesis using st by simp
    next
      case (Inr fe)
      obtain fr1 e where fe: "fe = (fr1, e)" by (cases fe)
      obtain q1 fr2 evs1 st1 where rec: "run maxMsg (drop (header + len) p) fr1 = (q1, fr2, evs1, st1)"
        by (cases "run maxMsg (drop (header + len) p) fr1") auto
      have eq: "q1 = q" "fr2 = fr'" "st1 = DecodeOk" "evs = (case e of None \<Rightarrow> evs1 | Some e \<Rightarrow> e # evs1)"
        using "1.prems"(1) big Head Inr fe rec by (simp_all add: run.simps[of maxMsg p])
      have ih: "run maxMsg (drop (header + len) p @ x) fr1 =
          (case run maxMsg (q @ x) fr' of (r, fr'', evs', st) \<Rightarrow> (r, fr'', evs1 @ evs', st))"
        using "1.IH"[OF big Head Inr fe[symmetric] rec[unfolded eq(1-3)] "1.prems"(2)] fe by simp
      have "drop (header + len) (p @ x) = drop (header + len) p @ x" using bnd(1) by simp
      moreover have "frame_body (p @ x) ?h = frame_body p ?h" by (rule frame_body_append) (use bnd in simp_all)
      ultimately show ?thesis
        using big read_head_append[of maxMsg p x] Head Inr fe ih eq(4)
        by (cases "run maxMsg (q @ x) fr'") (simp add: run.simps[of maxMsg "p @ x"] split: option.split)
    qed
  qed
qed

lemma run_error_append:
  assumes "run maxMsg p fr = (q, fr', evs, st)" and "st \<noteq> DecodeOk"
  shows "snd (snd (snd (run maxMsg (p @ x) fr))) = st"
  using assms
proof (induction maxMsg p fr arbitrary: evs rule: run.induct)
  case (1 maxMsg p fr)
  have big: "\<not> 2 ^ 64 \<le> maxMsg + 14" and small: "maxMsg + 14 < 2 ^ 64" using "1.prems" by (auto simp: run.simps[of maxMsg p] split: if_splits)
  have ns: "read_head maxMsg p \<noteq> HeadShort" using "1.prems" big by (auto simp: run.simps[of maxMsg p])
  note app = read_head_append[OF ns, of x]
  show ?case
  proof (cases "read_head maxMsg p")
    case (Head fin op masked len header)
    note bnd = read_head_bounds[OF Head small]
    let ?h = "Head fin op masked len header"
    have body: "frame_body (p @ x) ?h = frame_body p ?h" by (rule frame_body_append) (use bnd in simp_all)
    show ?thesis
    proof (cases "accept_frame maxMsg fin op (frame_body p ?h) fr")
      case (Inl st')
      then show ?thesis using "1.prems"(1) big Head app body by (simp add: run.simps[of maxMsg p] run.simps[of maxMsg "p @ x"])
    next
      case (Inr fe)
      obtain fr1 e where fe: "fe = (fr1, e)" by (cases fe)
      obtain q1 fr2 evs1 st1 where rec: "run maxMsg (drop (header + len) p) fr1 = (q1, fr2, evs1, st1)"
        by (cases "run maxMsg (drop (header + len) p) fr1") auto
      have eq: "q1 = q" "fr2 = fr'" "st1 = st" using "1.prems"(1) big Head Inr fe rec by (simp_all add: run.simps[of maxMsg p])
      have ih: "snd (snd (snd (run maxMsg (drop (header + len) p @ x) fr1))) = st"
        using "1.IH"[OF big Head Inr fe[symmetric] rec[unfolded eq] "1.prems"(2)] fe by simp
      have "drop (header + len) (p @ x) = drop (header + len) p @ x" using bnd(1) by simp
      then show ?thesis using big Head app body Inr fe ih
        by (simp add: run.simps[of maxMsg "p @ x"] case_prod_beta)
    qed
  next
    case HeadTooBig
    then have "st = MessageTooBig" using "1.prems"(1) big by (simp add: run.simps[of maxMsg p])
    then show ?thesis using big app HeadTooBig by (simp add: run.simps[of maxMsg "p @ x"])
  qed (use ns in simp)
qed

definition quiet_sink :: "ws_sink \<Rightarrow> bool" where
  "quiet_sink sink \<longleftrightarrow> (\<forall>evs. sink evs = [])"

definition unread :: "decoder \<Rightarrow> u8 list" where
  "unread d = drop (consumed d) (buffer d)"

definition decoder_ok :: "decoder \<Rightarrow> bool" where
  "decoder_ok d \<longleftrightarrow> staging d = [] \<and> consumed d \<le> length (buffer d) \<and> maxMessage d + 14 < 2 ^ 64"

lemma feed_loop_run:
  assumes "quiet_sink sink" and "decoder_ok d" and "run (maxMessage d) (unread d) (frag d) = (q, fr, evs', st)"
  shows "\<exists>d'. feed_loop sink (epoch d) (d, evs) = Some (Break st, d', evs @ evs') \<and> decoder_ok d' \<and> unread d' = q \<and> frag d' = fr \<and>
    decoding d' = decoding d \<and> maxMessage d' = maxMessage d"
  using assms(2,3)
proof (induction "length (unread d)" arbitrary: d evs evs' rule: less_induct)
  case less
  have ok: "staging d = []" "consumed d \<le> length (buffer d)" "maxMessage d + 14 < 2 ^ 64" "\<not> 2 ^ 64 \<le> maxMessage d + 14"
    using less.prems(1) by (auto simp: decoder_ok_def)
  have staged: "take_staged d = d" using ok(1) by (simp add: take_staged_def)
  note sm = run.simps[of "maxMessage d" "unread d"] feed_loop.simps[of sink "epoch d" "(d, evs)"]
  show ?case
  proof (cases "read_head (maxMessage d) (unread d)")
    case HeadShort
    then show ?thesis using less.prems ok(4)
      by (simp add: sm staged decode_one_def unread_def[symmetric] Let_def)
  next
    case HeadTooBig
    then show ?thesis using less.prems ok(4)
      by (simp add: sm staged decode_one_def unread_def[symmetric] Let_def)
  next
    case (Head fin op masked len header)
    note bnd = read_head_bounds[OF Head ok(3)]
    let ?h = "Head fin op masked len header"
    let ?d = "d\<lparr>consumed := consumed d + header + len\<rparr>"
    have un: "unread (?d\<lparr>frag := x\<rparr>) = drop (header + len) (unread d)" "unread ?d = drop (header + len) (unread d)" for x
      by (simp_all add: unread_def ac_simps)
    have okd: "decoder_ok ?d" "decoder_ok (?d\<lparr>frag := x\<rparr>)" for x
      using bnd(1) ok by (auto simp: decoder_ok_def unread_def)
    show ?thesis
    proof (cases "accept_frame (maxMessage d) fin op (frame_body (unread d) ?h) (frag d)")
      case (Inl st')
      then show ?thesis using less.prems(2) ok(4) Head un okd
        by (simp add: sm staged decode_one_def unread_def[symmetric] Let_def)
    next
      case (Inr fe)
      obtain fr1 e where fe: "fe = (fr1, e)" by (cases fe)
      let ?d1 = "?d\<lparr>frag := fr1\<rparr>"
      obtain q1 fr2 evs1 st1 where rec: "run (maxMessage d) (drop (header + len) (unread d)) fr1 = (q1, fr2, evs1, st1)"
        by (cases "run (maxMessage d) (drop (header + len) (unread d)) fr1") auto
      have eq: "q1 = q" "fr2 = fr" "st1 = st" "evs' = (case e of None \<Rightarrow> evs1 | Some e \<Rightarrow> e # evs1)"
        using less.prems(2) ok(4) Head Inr fe rec by (simp_all add: sm)
      have lt: "length (unread ?d1) < length (unread d)" using bnd un by simp
      have rec': "run (maxMessage ?d1) (unread ?d1) (frag ?d1) = (q, fr, evs1, st)" using rec eq by (simp add: un)
      define evs0 where "evs0 = (case e of None \<Rightarrow> evs | Some e \<Rightarrow> evs @ [e])"
      have step: "feed_loop sink (epoch d) (d, evs) = feed_loop sink (epoch d) (?d1, evs0)"
        using Head Inr fe assms(1)
        by (simp add: feed_loop.simps[of sink "epoch d" "(d, evs)"] staged decode_one_def unread_def[symmetric] Let_def deliver_def
            quiet_sink_def evs0_def split: option.split)
      have "evs0 @ evs1 = evs @ evs'" using eq(4) by (simp add: evs0_def split: option.split)
      with less.hyps[OF lt okd(2) rec', of evs0] step show ?thesis by auto
    qed
  qed
qed

lemma compact_buffer_view:
  "decoder_ok d \<Longrightarrow> decoder_ok (compact_buffer d) \<and> unread (compact_buffer d) = unread d \<and> frag (compact_buffer d) = frag d \<and>
   decoding (compact_buffer d) = decoding d \<and> maxMessage (compact_buffer d) = maxMessage d"
  by (auto simp: compact_buffer_def decoder_ok_def unread_def)

lemma feed_run:
  assumes "quiet_sink sink" and "decoder_ok d" and "\<not> decoding d"
    and "run (maxMessage d) (unread d @ bytes) (frag d) = (q, fr, evs', st)"
  shows "\<exists>d'. feed sink bytes (d, evs) = Some (st, d', evs @ evs') \<and> decoder_ok d' \<and> \<not> decoding d' \<and> unread d' = q \<and> frag d' = fr \<and>
    maxMessage d' = maxMessage d"
proof -
  let ?d = "d\<lparr>decoding := True, buffer := buffer d @ bytes\<rparr>"
  have ok: "decoder_ok ?d" and un: "unread ?d = unread d @ bytes" using assms(2) by (auto simp: decoder_ok_def unread_def)
  have "run (maxMessage ?d) (unread ?d) (frag ?d) = (q, fr, evs', st)" using assms(4) un by simp
  from feed_loop_run[OF assms(1) ok this, of evs]
  obtain d1 where d1: "feed_loop sink (epoch d) (?d, evs) = Some (Break st, d1, evs @ evs')" "decoder_ok d1" "unread d1 = q"
    "frag d1 = fr" "maxMessage d1 = maxMessage d" by auto
  let ?d2 = "d1\<lparr>decoding := False, staging := []\<rparr>"
  have "decoder_ok ?d2" "unread ?d2 = q" "frag ?d2 = fr" using d1 by (auto simp: decoder_ok_def unread_def)
  with compact_buffer_view[of ?d2] d1 assms(3) show ?thesis by (auto simp: feed_def)
qed

section \<open>Streams of frames\<close>

text \<open>Feeding the pieces of a stream as they arrive, until the decoder reports an error.\<close>

fun feed_all ::
  "ws_sink \<Rightarrow> u8 list list \<Rightarrow> decoder \<times> ws_event list \<Rightarrow> (decode_status \<times> decoder \<times> ws_event list) option" where
  "feed_all sink [] de = Some (DecodeOk, de)"
| "feed_all sink (c # cs) de =
     (case feed sink c de of
        Some (DecodeOk, de) \<Rightarrow> feed_all sink cs de
      | r \<Rightarrow> r)"

lemma feed_all_run:
  assumes "quiet_sink sink" and "decoder_ok d" and "\<not> decoding d"
    and "run (maxMessage d) (unread d @ concat cs) (frag d) = (q, fr, evs', DecodeOk)"
    and "run (maxMessage d) (unread d) (frag d) = (unread d, frag d, [], DecodeOk)"
  shows "\<exists>d'. feed_all sink cs (d, evs) = Some (DecodeOk, d', evs @ evs') \<and> unread d' = q \<and> frag d' = fr"
  using assms(2-)
proof (induction cs arbitrary: d evs evs')
  case Nil
  then show ?case by simp
next
  case (Cons c cs)
  have small: "maxMessage d + 14 < 2 ^ 64" using Cons.prems(1) by (simp add: decoder_ok_def)
  obtain q1 fr1 evs1 st1 where r1: "run (maxMessage d) (unread d @ c) (frag d) = (q1, fr1, evs1, st1)"
    by (cases "run (maxMessage d) (unread d @ c) (frag d)") auto
  have "st1 = DecodeOk"
    using run_error_append[OF r1, of "concat cs"] Cons.prems(3) by auto
  note r1 = r1[unfolded this]
  obtain d1 where d1: "feed sink c (d, evs) = Some (DecodeOk, d1, evs @ evs1)" "decoder_ok d1" "\<not> decoding d1" "unread d1 = q1"
    "frag d1 = fr1" "maxMessage d1 = maxMessage d"
    using feed_run[OF assms(1) Cons.prems(1,2) r1, of evs] by auto
  obtain evs2 where r2: "run (maxMessage d) (q1 @ concat cs) fr1 = (q, fr, evs2, DecodeOk)" "evs' = evs1 @ evs2"
    using run_append[OF r1 small, of "concat cs"] Cons.prems(3) by (auto split: prod.splits)
  have "run (maxMessage d) q1 fr1 = (q1, fr1, [], DecodeOk)"
    using run_append[OF r1 small, of "[]"] r1 by (auto split: prod.splits)
  with Cons.IH[OF d1(2,3), of evs2 "evs @ evs1"] r2 d1 show ?case by auto
qed

text \<open>A frame this client sends, and the event its receiver sees.\<close>

definition sendable :: "nat \<Rightarrow> u8 \<times> u8 list \<times> u32 \<Rightarrow> bool" where
  "sendable maxMsg f \<longleftrightarrow> length (fst (snd f)) \<le> maxMsg \<and>
     (fst f = opText \<or> fst f = opBinary \<or> (8 \<le> fst f \<and> fst f < 16 \<and> length (fst (snd f)) \<le> 125))"

definition frame_event :: "u8 \<times> u8 list \<times> u32 \<Rightarrow> ws_event" where
  "frame_event f = (if fst f \<ge> 8 then WsControl (fst f) (fst (snd f)) else WsMessage (fst f) (fst (snd f)))"

definition encoded :: "u8 \<times> u8 list \<times> u32 \<Rightarrow> u8 list" where
  "encoded f = encodeWsFrame (fst f) (fst (snd f)) (snd (snd f)) []"

lemma run_Nil: "run maxMsg [] fr = ([], fr, [], DecodeOk)"
  by (simp add: run.simps[of maxMsg "[]"] read_head_def)

lemma run_encoded:
  assumes "maxMsg + 14 < 2 ^ 64" and "\<not> inFragmentedMessage fr" and "\<forall>f \<in> set fs. sendable maxMsg f"
  shows "run maxMsg (concat (map encoded fs)) fr = ([], fr, map frame_event fs, DecodeOk)"
  using assms(3)
proof (induction fs)
  case (Cons f fs)
  obtain op payload key where f: "f = (op, payload, key)" by (cases f)
  have op: "op < 16" and len: "length payload \<le> maxMsg" using Cons.prems
    by (auto simp: f sendable_def opText_def opBinary_def)
  define rest where "rest = concat (map encoded fs)"
  note r = read_head_encoded[OF op len assms(1), of key rest]
  have all: "concat (map encoded (f # fs)) = encodeWsFrame op payload key [] @ rest"
    by (simp add: rest_def f encoded_def[of "(op, payload, key)"])
  have small: "\<not> (8 :: u8) \<le> 1" "\<not> (8 :: u8) \<le> 2" by (simp_all add: word_le_nat_alt)
  have acc: "accept_frame maxMsg True op payload fr = Inr (fr, Some (frame_event f))"
    using Cons.prems assms(2) small
    by (auto simp: f sendable_def accept_frame_def frame_event_def opText_def opBinary_def opContinuation_def)
  have big: "\<not> 2 ^ 64 \<le> maxMsg + 14" using assms(1) by simp
  have "run maxMsg rest fr = ([], fr, map frame_event fs, DecodeOk)" using Cons.IH Cons.prems by (simp add: rest_def)
  then show ?case unfolding all using big r acc
    by (simp add: run.simps[of maxMsg "encodeWsFrame op payload key [] @ rest"])
qed (simp add: run_Nil)

section \<open>Properties\<close>

text \<open>
  C11: the frames this client encodes come back out of the decoder: whatever pieces the byte stream is
  split into, a fresh decoder fed the pieces in order accepts every piece, reports exactly the messages and control
  frames that were encoded, in order, and keeps no byte. The callback neither feeds nor resets the decoder.
\<close>

theorem ws_stream_decodes:
  assumes "quiet_sink sink" and "maxMsg + 14 < 2 ^ 64" and "\<forall>f \<in> set fs. sendable maxMsg f"
    and "concat chunks = concat (map encoded fs)"
  shows "\<exists>d. feed_all sink chunks (new_decoder maxMsg, []) = Some (DecodeOk, d, map frame_event fs) \<and> unread d = []"
proof -
  let ?d = "new_decoder maxMsg"
  have ok: "decoder_ok ?d" "\<not> decoding ?d" "unread ?d = []" "\<not> inFragmentedMessage (frag ?d)" "maxMessage ?d = maxMsg"
    using assms(2) by (simp_all add: decoder_ok_def new_decoder_def unread_def)
  have "run (maxMessage ?d) (unread ?d @ concat chunks) (frag ?d) = ([], frag ?d, map frame_event fs, DecodeOk)"
    using run_encoded[OF assms(2) ok(4) assms(3)] by (simp add: ok assms(4))
  from feed_all_run[OF assms(1) ok(1,2) this, of "[]"] show ?thesis by (auto simp: ok run_Nil)
qed

theorem ws_stream_decodes_witness:
  "quiet_sink (\<lambda>_. []) \<and> sendable 100 (opText, [104, 105], 0x01020304) \<and>
   (\<exists>d. feed_all (\<lambda>_. []) [take 3 (encoded (opText, [104, 105], 0x01020304)), drop 3 (encoded (opText, [104, 105], 0x01020304))]
      (new_decoder 100, []) = Some (DecodeOk, d, [WsMessage opText [104, 105]]))"
proof -
  have q: "quiet_sink (\<lambda>_. [])" "sendable 100 (opText, [104, 105], 0x01020304)"
    by (simp_all add: quiet_sink_def sendable_def opText_def)
  have ev: "frame_event (opText, [104, 105], 0x01020304) = WsMessage opText [104, 105]"
    by (simp add: frame_event_def opText_def word_le_nat_alt)
  from q show ?thesis
    using ws_stream_decodes[of "\<lambda>_. []" 100 "[(opText, [104, 105], 0x01020304)]"
      "[take 3 (encoded (opText, [104, 105], 0x01020304)), drop 3 (encoded (opText, [104, 105], 0x01020304))]"]
    by (auto simp del: feed_all.simps simp: ev)
qed

text \<open>
  Masking eight bytes at a time with the key repeated in a 64-bit word, and the rest one by one,
  is the XOR of every byte with its byte of the key.
\<close>

lemma mask_words_is_bytewise:
  "mask_loop (mask_bytes key) src 0 = map (\<lambda>j. src ! j XOR mask_bytes key ! (j mod 4)) [0..<length src]"
  by (simp add: mask_loop_unmask unmask_def)

end
