(* ===== verification/HL_Tls.thy ===== *)
theory HL_Tls
  imports HL_Types
begin

unbundle bit_operations_syntax

text \<open>
  The client stream (\<open>include/hl/net/TlsStream.h\<close>, \<open>src/net/TlsStream.cpp\<close>): address rotation, connecting,
  the TLS handshake, the outgoing buffer and the read loop.

  \<^item> The kernel and OpenSSL are the environment: a record of what the system calls of one step return.
  \<^item> Bytes are a type parameter, since the stream never looks at them; \<open>wire\<close> holds the bytes that the socket of
    the current connection has taken.
  \<^item> A method runs to its next listener callback. It returns the state and the calls that are left: the callback,
    and after it the rest of the method. A listener may call the stream, or run the event loop, from inside a
    callback, so a run is a stack of calls.
  \<^item> A timer is armed or not; \<open>connectTimer\<close> is the delay it was armed with. \<open>registered\<close> is the event mask that
    the event loop holds for the socket.
\<close>

section \<open>State and environment\<close>

datatype stream_state = SIdle | SConnecting | SHandshaking | SOpen | SClosed

record tlsOptions =
  connectTimeoutMs :: int
  maxOutboxBytes :: nat

record 'b tls =
  t_opts :: tlsOptions
  t_state :: stream_state
  registered :: "u32 option"
  t_secure :: bool
  wantWrite :: bool
  reading :: bool
  currentMask :: u32
  ssl :: bool
  endpoints :: "nat list"
  addrCursor :: nat
  attemptsLeft :: nat
  rotation :: nat
  outbox :: "'b list"
  outboxOffset :: nat
  connectTimer :: "int option"
  wire :: "'b list"

definition new_tls :: "tlsOptions \<Rightarrow> 'b tls" where
  "new_tls opts = \<lparr>t_opts = opts, t_state = SIdle, registered = None, t_secure = True, wantWrite = False,
     reading = False, currentMask = 0, ssl = False, endpoints = [], addrCursor = 0, attemptsLeft = 0, rotation = 0,
     outbox = [], outboxOffset = 0, connectTimer = None, wire = []\<rparr>"

datatype attempt = Started | SocketFails | ConnectFails

datatype handshake = HsDone | HsWantRead | HsWantWrite | HsFails string

datatype write_result = Wrote nat | WriteAgain | WriteInterrupted | WriteFails string

datatype 'b read_result = ReadData "'b list" | ReadAgain | ReadWantWrite | ReadInterrupted | ReadFails string

text \<open>What the system calls of one step return.\<close>

record 'b sys =
  sys_resolve :: "nat list option"
  sys_attempt :: "nat \<Rightarrow> attempt"
  sys_error :: "string option"
  sys_context :: "string option"
  sys_handshake :: handshake
  sys_writes :: "write_result list"
  sys_read :: "'b read_result"

datatype 'b stream_event = TlsConnected | TlsData "'b list" | TlsClosed string

datatype 'b tls_call =
    Connect bool
  | Send "'b list"
  | Close
  | IoEvent u32
  | ConnectTimeout
  | Callback "'b stream_event"
  | Returning
  | WriteIfOpen
  | WriteIfAsked u32
  | ReadLoop nat
  | ReadReturns

type_synonym 'b tls_result = "'b tls \<times> 'b tls_call list"

definition EPOLLIN :: u32 where "EPOLLIN = 0x1"
definition EPOLLOUT :: u32 where "EPOLLOUT = 0x4"
definition EPOLLERR :: u32 where "EPOLLERR = 0x8"
definition EPOLLHUP :: u32 where "EPOLLHUP = 0x10"
definition EPOLLRDHUP :: u32 where "EPOLLRDHUP = 0x2000"

definition tls_isOpen :: "'b tls \<Rightarrow> bool" where
  "tls_isOpen t \<longleftrightarrow> t_state t = SOpen"

definition pendingBytes :: "'b tls \<Rightarrow> nat" where
  "pendingBytes t = length (outbox t) - outboxOffset t"

section \<open>Closing\<close>

definition closeSocket :: "'b tls \<Rightarrow> 'b tls" where
  "closeSocket t = t\<lparr>connectTimer := None, registered := None\<rparr>"

definition release :: "'b tls \<Rightarrow> 'b tls" where
  "release t = t\<lparr>connectTimer := None, ssl := False, registered := None\<rparr>"

definition tls_close :: "'b tls \<Rightarrow> 'b tls" where
  "tls_close t = (release t)\<lparr>t_state := SClosed\<rparr>"

definition tls_fail :: "string \<Rightarrow> 'b tls \<Rightarrow> 'b tls_result" where
  "tls_fail reason t =
     (if t_state t = SClosed then (t, [])
      else ((release t)\<lparr>t_state := SClosed\<rparr>, [Callback (TlsClosed reason)]))"

section \<open>Connecting\<close>

definition perAddress :: "'b tls \<Rightarrow> int" where
  "perAddress t = max 1500 (connectTimeoutMs (t_opts t) sdiv int (length (endpoints t)))"

text \<open>The loop over the addresses that are left; the flag is the value \<open>startAttempt\<close> returns.\<close>

function startAttempt :: "'b sys \<Rightarrow> 'b tls \<Rightarrow> 'b tls \<times> bool" where
  "startAttempt e t =
     (if attemptsLeft t = 0 then (t\<lparr>t_state := SClosed\<rparr>, False)
      else
        let i = addrCursor t mod length (endpoints t);
            t = t\<lparr>attemptsLeft := attemptsLeft t - 1, addrCursor := addrCursor t + 1\<rparr>
        in if sys_attempt e i = Started
           then
             let m = EPOLLOUT OR EPOLLIN OR EPOLLRDHUP
             in (t\<lparr>t_state := SConnecting, currentMask := m, registered := Some m,
                   connectTimer := Some (if attemptsLeft t > 0 then perAddress t else connectTimeoutMs (t_opts t))\<rparr>, True)
           else startAttempt e t)"
  by pat_completeness auto
termination
  by (relation "measure (\<lambda>(e, t). attemptsLeft t)") auto

declare startAttempt.simps [simp del]

definition tls_connect :: "'b sys \<Rightarrow> bool \<Rightarrow> 'b tls \<Rightarrow> 'b tls \<times> bool" where
  "tls_connect e sec t =
     (let t = (release t)\<lparr>t_secure := sec, outbox := [], outboxOffset := 0, wire := []\<rparr> in
      case sys_resolve e of
        None \<Rightarrow> (t\<lparr>t_state := SClosed\<rparr>, False)
      | Some addrs \<Rightarrow>
          let eps = filter (\<lambda>n. n \<le> 128) addrs; t = t\<lparr>endpoints := eps\<rparr> in
          if eps = [] then (t\<lparr>t_state := SClosed\<rparr>, False)
          else startAttempt e (t\<lparr>addrCursor := rotation t mod length eps, rotation := rotation t + 1,
                 attemptsLeft := length eps\<rparr>))"

definition nextAddress :: "'b sys \<Rightarrow> string \<Rightarrow> 'b tls \<Rightarrow> 'b tls_result" where
  "nextAddress e reason t =
     (let t = closeSocket t in
      if attemptsLeft t > 0 then
        let (t, ok) = startAttempt e t in if ok then (t, []) else tls_fail reason t
      else tls_fail reason t)"

definition onConnectTimer :: "'b sys \<Rightarrow> 'b tls \<Rightarrow> 'b tls_result" where
  "onConnectTimer e t =
     (let t = t\<lparr>connectTimer := None\<rparr> in
      if t_state t = SConnecting then nextAddress e ''connect timeout'' t
      else if t_state t = SHandshaking then tls_fail ''TLS handshake timeout'' t
      else (t, []))"

section \<open>Writing\<close>

definition updateInterest :: "'b tls \<Rightarrow> 'b tls" where
  "updateInterest t =
     (if registered t = None then t
      else
        let needOut = (wantWrite t \<or> outboxOffset t < length (outbox t));
            m = EPOLLIN OR EPOLLRDHUP OR (if needOut then EPOLLOUT else 0)
        in if m \<noteq> currentMask t then t\<lparr>currentMask := m, registered := Some m\<rparr> else t)"

text \<open>The loop of \<open>doWrite\<close>, with the error it ends on. A write takes at most what it is offered; when the
  results run out the socket is full.\<close>

fun write_loop :: "write_result list \<Rightarrow> 'b tls \<Rightarrow> 'b tls \<times> string option" where
  "write_loop [] t = (t, None)"
| "write_loop (w # ws) t =
     (if outboxOffset t < length (outbox t) then
        case w of
          Wrote n \<Rightarrow>
            let k = min n (length (outbox t) - outboxOffset t)
            in write_loop ws (t\<lparr>outboxOffset := outboxOffset t + k, wire := wire t @ take k (drop (outboxOffset t) (outbox t))\<rparr>)
        | WriteAgain \<Rightarrow> (t, None)
        | WriteInterrupted \<Rightarrow> write_loop ws t
        | WriteFails r \<Rightarrow> (t, Some r)
      else (t, None))"

definition doWrite :: "'b sys \<Rightarrow> 'b tls \<Rightarrow> 'b tls_result" where
  "doWrite e t =
     (case write_loop (sys_writes e) (t\<lparr>wantWrite := False\<rparr>) of
        (t, Some r) \<Rightarrow> tls_fail r t
      | (t, None) \<Rightarrow>
          let t = (if outboxOffset t = length (outbox t) then t\<lparr>outbox := [], outboxOffset := 0\<rparr> else t)
          in (updateInterest t, []))"

definition compact_outbox :: "'b tls \<Rightarrow> 'b tls" where
  "compact_outbox t =
     (if outboxOffset t \<noteq> 0 \<and> outboxOffset t = length (outbox t) then t\<lparr>outbox := [], outboxOffset := 0\<rparr> else t)"

definition tls_send :: "'b sys \<Rightarrow> 'b list \<Rightarrow> 'b tls \<Rightarrow> 'b tls_result \<times> bool" where
  "tls_send e bytes t =
     (if t_state t = SClosed \<or> t_state t = SIdle then ((t, []), False)
      else
        let t = compact_outbox t
        in if maxOutboxBytes (t_opts t) \<noteq> 0 \<and> pendingBytes t + length bytes > maxOutboxBytes (t_opts t)
           then (tls_fail (''send buffer limit exceeded ('' @ emit_int (pendingBytes t + length bytes) [] @
                   '' bytes): the peer is not reading'') t, False)
           else
             let t = t\<lparr>outbox := outbox t @ bytes\<rparr>
             in (if t_state t = SOpen then doWrite e t else (t, []), True))"

section \<open>Handshake and reading\<close>

definition becomes_open :: "'b tls \<Rightarrow> 'b tls_result" where
  "becomes_open t = (updateInterest (t\<lparr>connectTimer := None, t_state := SOpen\<rparr>), [Callback TlsConnected, WriteIfOpen])"

definition doHandshake :: "'b sys \<Rightarrow> 'b tls \<Rightarrow> 'b tls_result" where
  "doHandshake e t =
     (case sys_handshake e of
        HsDone \<Rightarrow> becomes_open t
      | HsWantRead \<Rightarrow> let m = EPOLLIN OR EPOLLRDHUP in (t\<lparr>currentMask := m, registered := Some m\<rparr>, [])
      | HsWantWrite \<Rightarrow> let m = EPOLLIN OR EPOLLOUT OR EPOLLRDHUP in (t\<lparr>currentMask := m, registered := Some m\<rparr>, [])
      | HsFails r \<Rightarrow> tls_fail r t)"

definition onConnectReady :: "'b sys \<Rightarrow> 'b tls \<Rightarrow> 'b tls_result" where
  "onConnectReady e t =
     (case sys_error e of
        Some r \<Rightarrow> nextAddress e r t
      | None \<Rightarrow>
          if \<not> t_secure t then becomes_open t
          else case sys_context e of
                 Some r \<Rightarrow> tls_fail r t
               | None \<Rightarrow>
                   doHandshake e (t\<lparr>ssl := True, t_state := SHandshaking, connectTimer := Some (connectTimeoutMs (t_opts t))\<rparr>))"

text \<open>One turn of the read loop of \<open>doRead\<close>, which runs at most 64 of them. \<open>ReadInterrupted\<close> is the
  interrupted system call of a plain socket.\<close>

definition read_turn :: "'b sys \<Rightarrow> nat \<Rightarrow> 'b tls \<Rightarrow> 'b tls_result" where
  "read_turn e k t =
     (if k = 0 \<or> t_state t \<noteq> SOpen then (t, [ReadReturns])
      else case sys_read e of
        ReadData bs \<Rightarrow> (t, [Callback (TlsData bs), ReadLoop (k - 1)])
      | ReadAgain \<Rightarrow> (t, [ReadReturns])
      | ReadWantWrite \<Rightarrow> (updateInterest (t\<lparr>wantWrite := True\<rparr>), [ReadReturns])
      | ReadInterrupted \<Rightarrow> (t, [ReadLoop (k - 1)])
      | ReadFails r \<Rightarrow> (case tls_fail r t of (t, cs) \<Rightarrow> (t, cs @ [ReadReturns])))"

definition doRead :: "'b sys \<Rightarrow> 'b tls \<Rightarrow> 'b tls_result" where
  "doRead e t = (if reading t then (t, []) else read_turn e 64 (t\<lparr>reading := True\<rparr>))"

definition onIoEvent :: "'b sys \<Rightarrow> u32 \<Rightarrow> 'b tls \<Rightarrow> 'b tls_result" where
  "onIoEvent e events t =
     (case t_state t of
        SConnecting \<Rightarrow>
          if events AND (EPOLLERR OR EPOLLHUP) \<noteq> 0 \<and> events AND EPOLLOUT = 0
          then nextAddress e ''connection refused'' t else onConnectReady e t
      | SHandshaking \<Rightarrow> doHandshake e t
      | SOpen \<Rightarrow>
          (case (if events AND (EPOLLIN OR EPOLLRDHUP OR EPOLLHUP OR EPOLLERR) \<noteq> 0 then doRead e t else (t, [])) of
             (t, cs) \<Rightarrow> (t, cs @ [WriteIfAsked events]))
      | _ \<Rightarrow> (t, []))"

section \<open>Runs\<close>

text \<open>One call of the stack. \<open>Returning\<close> marks a listener that has not returned yet.\<close>

fun tls_step :: "'b sys \<Rightarrow> 'b tls_call \<Rightarrow> 'b tls \<Rightarrow> 'b tls_result" where
  "tls_step e (Connect sec) t = (fst (tls_connect e sec t), [])"
| "tls_step e (Send bytes) t = fst (tls_send e bytes t)"
| "tls_step e Close t = (tls_close t, [])"
| "tls_step e (IoEvent events) t = onIoEvent e events t"
| "tls_step e ConnectTimeout t = onConnectTimer e t"
| "tls_step e (Callback ev) t = (t, [Returning])"
| "tls_step e Returning t = (t, [])"
| "tls_step e WriteIfOpen t = (if t_state t = SOpen then doWrite e t else (t, []))"
| "tls_step e (WriteIfAsked events) t = (if t_state t = SOpen \<and> events AND EPOLLOUT \<noteq> 0 then doWrite e t else (t, []))"
| "tls_step e (ReadLoop k) t = read_turn e k t"
| "tls_step e ReadReturns t = (t\<lparr>reading := False\<rparr>, [])"

text \<open>The calls that come from outside: the owner's, and the event loop's for a registered socket or an armed timer.\<close>

fun offered :: "'b tls_call \<Rightarrow> 'b tls \<Rightarrow> bool" where
  "offered (Connect sec) t = True"
| "offered (Send bytes) t = True"
| "offered Close t = True"
| "offered (IoEvent events) t = (registered t \<noteq> None)"
| "offered ConnectTimeout t = (connectTimer t \<noteq> None)"
| "offered c t = False"

inductive tls_run :: "tlsOptions \<Rightarrow> 'b tls_call list \<Rightarrow> 'b tls \<Rightarrow> bool" for opts where
  start: "tls_run opts [] (new_tls opts)"
| call: "tls_run opts cs t \<Longrightarrow> cs = [] \<or> hd cs = Returning \<Longrightarrow> offered c t \<Longrightarrow> tls_run opts (c # cs) t"
| step: "tls_run opts (c # cs) t \<Longrightarrow> tls_step e c t = (t', ds) \<Longrightarrow> tls_run opts (ds @ cs) t'"

section \<open>The invariant of the stream\<close>

abbreviation (input) alive :: "stream_state \<Rightarrow> bool" where
  "alive s \<equiv> s = SConnecting \<or> s = SHandshaking \<or> s = SOpen"

definition unsent :: "'b tls \<Rightarrow> 'b list" where
  "unsent t = drop (outboxOffset t) (outbox t)"

definition asks_write :: "u32 \<Rightarrow> bool" where
  "asks_write m \<longleftrightarrow> m AND EPOLLOUT \<noteq> 0"

definition tls_inv :: "'b tls \<Rightarrow> bool" where
  "tls_inv t \<longleftrightarrow>
     registered t = (if alive (t_state t) then Some (currentMask t) else None) \<and>
     (connectTimer t \<noteq> None \<longleftrightarrow> t_state t = SConnecting \<or> t_state t = SHandshaking) \<and>
     (t_state t = SConnecting \<longrightarrow> asks_write (currentMask t)) \<and>
     (t_state t = SOpen \<and> (unsent t \<noteq> [] \<or> wantWrite t) \<longrightarrow> asks_write (currentMask t)) \<and>
     (ssl t \<longleftrightarrow> t_secure t \<and> (t_state t = SHandshaking \<or> t_state t = SOpen)) \<and>
     outboxOffset t \<le> length (outbox t)"

lemma asks_write_masks [simp]:
  "asks_write (EPOLLOUT OR EPOLLIN OR EPOLLRDHUP)" "asks_write (EPOLLIN OR EPOLLRDHUP OR EPOLLOUT)"
  by (simp_all add: asks_write_def EPOLLOUT_def EPOLLIN_def EPOLLRDHUP_def)

lemma new_tls_inv: "tls_inv (new_tls opts)"
  by (simp add: tls_inv_def new_tls_def)

lemma startAttempt_inv:
  assumes "startAttempt e t = (t', ok)" and "\<not> ssl t" and "outboxOffset t \<le> length (outbox t)"
    and "registered t = None" "connectTimer t = None"
  shows "tls_inv t' \<and> t_state t' = (if ok then SConnecting else SClosed) \<and> attemptsLeft t' \<le> attemptsLeft t \<and>
    (ok \<longrightarrow> attemptsLeft t' < attemptsLeft t)"
  using assms
proof (induction e t rule: startAttempt.induct)
  case (1 e t)
  show ?case
  proof (cases "attemptsLeft t = 0 \<or> sys_attempt e (addrCursor t mod length (endpoints t)) = Started")
    case True
    then show ?thesis using "1.prems"
      by (auto simp: startAttempt.simps[of e t] tls_inv_def Let_def unsent_def split: if_splits)
  next
    case False
    let ?s = "t\<lparr>attemptsLeft := attemptsLeft t - 1, addrCursor := addrCursor t + 1\<rparr>"
    have "startAttempt e ?s = (t', ok)" using False "1.prems"(1) by (simp add: startAttempt.simps[of e t] Let_def)
    then have "tls_inv t' \<and> t_state t' = (if ok then SConnecting else SClosed) \<and> attemptsLeft t' \<le> attemptsLeft ?s \<and>
      (ok \<longrightarrow> attemptsLeft t' < attemptsLeft ?s)"
      using False "1.prems" by (intro "1.IH"[OF _ refl refl]) simp_all
    then show ?thesis by auto
  qed
qed

lemma closed_inv: "outboxOffset t \<le> length (outbox t) \<Longrightarrow> tls_inv ((release t)\<lparr>t_state := SClosed\<rparr>)"
  by (simp add: tls_inv_def release_def)

lemma tls_inv_offset: "tls_inv t \<Longrightarrow> outboxOffset t \<le> length (outbox t)"
  by (simp add: tls_inv_def)

lemma tls_fail_inv: "tls_fail r t = (t', cs) \<Longrightarrow> tls_inv t \<Longrightarrow> tls_inv t'"
  by (cases "t_state t = SClosed") (auto simp: tls_fail_def dest: tls_inv_offset intro!: closed_inv)

lemma tls_fail_state: "tls_fail r t = (t', cs) \<Longrightarrow> t_state t' = SClosed"
  by (auto simp: tls_fail_def split: if_splits)

lemma nextAddress_inv:
  assumes "nextAddress e r t = (t', cs)" and "tls_inv t" and "t_state t = SConnecting"
  shows "tls_inv t'"
proof (cases "attemptsLeft t > 0")
  case True
  obtain s ok where s: "startAttempt e (closeSocket t) = (s, ok)" by (cases "startAttempt e (closeSocket t)")
  have "tls_inv s" using startAttempt_inv[OF s] assms(2,3) by (simp add: closeSocket_def tls_inv_def)
  then show ?thesis using assms(1) True s by (auto simp: nextAddress_def Let_def closeSocket_def split: if_splits dest: tls_fail_inv)
next
  case False
  then show ?thesis using assms closed_inv[of "closeSocket t"] tls_inv_offset[of t]
    by (auto simp: nextAddress_def closeSocket_def tls_fail_def)
qed

lemma tls_connect_inv:
  assumes "tls_connect e sec t = (t', ok)"
  shows "tls_inv t'"
proof -
  let ?t = "(release t)\<lparr>t_secure := sec, outbox := [], outboxOffset := 0, wire := []\<rparr>"
  show ?thesis
  proof (cases "sys_resolve e")
    case None
    then show ?thesis using assms by (auto simp: tls_connect_def tls_inv_def release_def)
  next
    case (Some addrs)
    then show ?thesis using assms startAttempt_inv[of e "?t\<lparr>endpoints := filter (\<lambda>n. n \<le> 128) addrs,
        addrCursor := rotation t mod length (filter (\<lambda>n. n \<le> 128) addrs), rotation := rotation t + 1,
        attemptsLeft := length (filter (\<lambda>n. n \<le> 128) addrs)\<rparr>" t' ok]
      by (auto simp: tls_connect_def Let_def tls_inv_def release_def split: if_splits)
  qed
qed

lemma updateInterest_eq:
  "registered t = Some (currentMask t) \<Longrightarrow>
   updateInterest t =
     (let m = EPOLLIN OR EPOLLRDHUP OR (if wantWrite t \<or> outboxOffset t < length (outbox t) then EPOLLOUT else 0)
      in t\<lparr>currentMask := m, registered := Some m\<rparr>)"
  by (cases t) (auto simp: updateInterest_def Let_def)

lemma updateInterest_inv:
  assumes "t_state t = SOpen" and "registered t = Some (currentMask t)" and "connectTimer t = None"
    and "ssl t \<longleftrightarrow> t_secure t" and "outboxOffset t \<le> length (outbox t)"
  shows "tls_inv (updateInterest t)"
  using assms by (auto simp: updateInterest_eq tls_inv_def Let_def unsent_def)

lemma write_loop_frame:
  assumes "write_loop ws t = (t', f)" and "outboxOffset t \<le> length (outbox t)"
  shows "wire t' @ unsent t' = wire t @ unsent t \<and> outboxOffset t' \<le> length (outbox t') \<and> outbox t' = outbox t \<and>
    (\<exists>w. wire t' = wire t @ w) \<and>
    t' = t\<lparr>outboxOffset := outboxOffset t', wire := wire t'\<rparr>"
  using assms
proof (induction ws t rule: write_loop.induct)
  case (2 w ws t)
  show ?case
  proof (cases "\<exists>n. w = Wrote n \<and> outboxOffset t < length (outbox t)")
    case True
    then obtain n where w: "w = Wrote n" and lt: "outboxOffset t < length (outbox t)" by blast
    let ?k = "min n (length (outbox t) - outboxOffset t)"
    let ?t = "t\<lparr>outboxOffset := outboxOffset t + ?k, wire := wire t @ take ?k (drop (outboxOffset t) (outbox t))\<rparr>"
    have "wire ?t @ unsent ?t = wire t @ unsent t"
      by (simp add: unsent_def) (metis add.commute append_take_drop_id drop_drop)
    moreover have "write_loop ws ?t = (t', f)" "outboxOffset ?t \<le> length (outbox ?t)"
      using "2.prems"(1) lt by (simp_all add: w Let_def)
    ultimately show ?thesis using "2.IH"(1)[OF lt w refl] by auto
  next
    case False
    with 2 show ?thesis by (auto split: write_result.splits if_splits)
  qed
qed simp

lemma doWrite_inv:
  assumes "doWrite e t = (t', cs)" and "t_state t = SOpen" and "registered t = Some (currentMask t)"
    and "connectTimer t = None" and "ssl t \<longleftrightarrow> t_secure t" and "outboxOffset t \<le> length (outbox t)"
  shows "tls_inv t'"
proof -
  obtain s f where w: "write_loop (sys_writes e) (t\<lparr>wantWrite := False\<rparr>) = (s, f)" by fastforce
  have o: "outboxOffset (t\<lparr>wantWrite := False\<rparr>) \<le> length (outbox (t\<lparr>wantWrite := False\<rparr>))"
    using assms(6) by simp
  have fr: "outboxOffset s \<le> length (outbox s)"
    and same: "s = t\<lparr>wantWrite := False, outboxOffset := outboxOffset s, wire := wire s\<rparr>"
    using write_loop_frame[OF w o] by (blast, simp)
  have st: "t_state s = SOpen" "registered s = Some (currentMask s)" "connectTimer s = None" "ssl s = t_secure s"
    using assms(2-5) by (subst same, simp)+
  show ?thesis
  proof (cases f)
    case None
    have "tls_inv (updateInterest (if outboxOffset s = length (outbox s) then s\<lparr>outbox := [], outboxOffset := 0\<rparr> else s))"
      using st fr(1) by (intro updateInterest_inv) simp_all
    then show ?thesis using assms(1) by (simp add: None doWrite_def w Let_def)
  next
    case (Some r)
    then show ?thesis using assms(1) st fr closed_inv[of s]
      by (simp add: doWrite_def w tls_fail_def)
  qed
qed

lemma becomes_open_inv:
  assumes "becomes_open t = (t', cs)" and "registered t = Some (currentMask t)" and "ssl t \<longleftrightarrow> t_secure t"
    and "outboxOffset t \<le> length (outbox t)"
  shows "tls_inv t'"
proof -
  have "tls_inv (updateInterest (t\<lparr>connectTimer := None, t_state := SOpen\<rparr>))" using assms by (intro updateInterest_inv) simp_all
  then show ?thesis using assms(1) by (simp add: becomes_open_def)
qed

lemma doHandshake_inv:
  assumes "doHandshake e t = (t', cs)" and "tls_inv t" and "t_state t = SHandshaking"
  shows "tls_inv t'"
proof (cases "sys_handshake e")
  case HsDone
  then show ?thesis using assms by (intro becomes_open_inv[of t t' cs]) (simp_all add: doHandshake_def tls_inv_def)
next
  case (HsFails r)
  then show ?thesis using assms by (intro tls_fail_inv[of r t t' cs]) (simp_all add: doHandshake_def)
qed (use assms in \<open>auto simp: doHandshake_def tls_inv_def Let_def\<close>)

lemma onConnectReady_inv:
  assumes "onConnectReady e t = (t', cs)" and "tls_inv t" and "t_state t = SConnecting"
  shows "tls_inv t'"
proof (cases "sys_error e")
  case (Some r)
  then show ?thesis using assms by (intro nextAddress_inv[of e r t t' cs]) (simp_all add: onConnectReady_def)
next
  case None
  show ?thesis
  proof (cases "t_secure t")
    case False
    then show ?thesis using assms None by (intro becomes_open_inv[of t t' cs]) (simp_all add: onConnectReady_def tls_inv_def)
  next
    case True
    show ?thesis
    proof (cases "sys_context e")
      case (Some r)
      then show ?thesis using assms None True by (intro tls_fail_inv[of r t t' cs]) (simp_all add: onConnectReady_def)
    next
      case no: None
      let ?s = "t\<lparr>ssl := True, t_state := SHandshaking, connectTimer := Some (connectTimeoutMs (t_opts t))\<rparr>"
      have "tls_inv ?s" using assms(2,3) True by (simp add: tls_inv_def)
      then show ?thesis using assms(1) None True no by (intro doHandshake_inv[of e ?s t' cs]) (simp_all add: onConnectReady_def)
    qed
  qed
qed

lemma read_turn_inv:
  assumes "read_turn e k t = (t', cs)" and "tls_inv t"
  shows "tls_inv t'"
proof (cases "k = 0 \<or> t_state t \<noteq> SOpen")
  case True
  then show ?thesis using assms by (simp add: read_turn_def)
next
  case open_stream: False
  show ?thesis
  proof (cases "sys_read e")
    case ReadWantWrite
    have "tls_inv (updateInterest (t\<lparr>wantWrite := True\<rparr>))"
      using assms(2) open_stream by (intro updateInterest_inv) (simp_all add: tls_inv_def)
    then show ?thesis using assms(1) open_stream by (simp add: read_turn_def ReadWantWrite)
  next
    case (ReadFails r)
    then show ?thesis using assms open_stream
      by (cases "tls_fail r t") (auto simp: read_turn_def intro: tls_fail_inv)
  qed (use assms open_stream in \<open>auto simp: read_turn_def\<close>)
qed

lemma reading_inv [simp]: "tls_inv (t\<lparr>reading := b\<rparr>) = tls_inv t"
  by (simp add: tls_inv_def unsent_def)

lemma doRead_inv: "doRead e t = (t', cs) \<Longrightarrow> tls_inv t \<Longrightarrow> tls_inv t'"
  using read_turn_inv[of e 64 "t\<lparr>reading := True\<rparr>" t' cs] by (auto simp: doRead_def split: if_splits)

lemma onIoEvent_inv:
  assumes "onIoEvent e events t = (t', cs)" and "tls_inv t"
  shows "tls_inv t'"
proof (cases "t_state t")
  case SConnecting
  then show ?thesis using assms by (auto simp: onIoEvent_def split: if_splits intro: nextAddress_inv onConnectReady_inv)
next
  case SHandshaking
  then show ?thesis using assms by (auto simp: onIoEvent_def intro: doHandshake_inv)
next
  case SOpen
  obtain s ds where r: "(if events AND (EPOLLIN OR EPOLLRDHUP OR EPOLLHUP OR EPOLLERR) \<noteq> 0 then doRead e t else (t, [])) = (s, ds)"
    by fastforce
  then have "tls_inv s" using assms(2) doRead_inv[of e t s ds] by (simp split: if_splits)
  then show ?thesis using assms(1) SOpen r by (simp add: onIoEvent_def)
qed (use assms in \<open>simp_all add: onIoEvent_def\<close>)

lemma onConnectTimer_inv:
  assumes "onConnectTimer e t = (t', cs)" and "tls_inv t"
  shows "tls_inv t'"
proof -
  let ?s = "t\<lparr>connectTimer := None\<rparr>"
  consider "t_state t = SConnecting" | "t_state t = SHandshaking" | "t_state t \<noteq> SConnecting" "t_state t \<noteq> SHandshaking" by blast
  then show ?thesis
  proof cases
    case 1
    have "closeSocket ?s = closeSocket t" by (simp add: closeSocket_def)
    then have "nextAddress e ''connect timeout'' ?s = nextAddress e ''connect timeout'' t"
      by (simp only: nextAddress_def)
    then show ?thesis using assms 1 by (auto simp: onConnectTimer_def intro: nextAddress_inv)
  next
    case 2
    then show ?thesis using assms closed_inv[of ?s] tls_inv_offset[OF assms(2)]
      by (auto simp: onConnectTimer_def tls_fail_def)
  next
    case 3
    then have "?s = t" using assms(2) by (cases t) (simp add: tls_inv_def)
    then show ?thesis using assms 3 by (simp add: onConnectTimer_def)
  qed
qed

lemma clear_inv: "tls_inv t \<Longrightarrow> tls_inv (t\<lparr>outbox := [], outboxOffset := 0\<rparr>)"
  by (simp add: tls_inv_def unsent_def)

lemma tls_send_inv:
  assumes "tls_send e bytes t = ((t', cs), ok)" and "tls_inv t"
  shows "tls_inv t'"
proof (cases "t_state t = SClosed \<or> t_state t = SIdle")
  case True
  then show ?thesis using assms by (simp add: tls_send_def)
next
  case False
  define s where "s = compact_outbox t"
  have s: "tls_inv s" "t_state s = t_state t"
    using clear_inv[OF assms(2)] by (simp_all add: s_def assms(2) compact_outbox_def)
  let ?u = "s\<lparr>outbox := outbox s @ bytes\<rparr>"
  consider (full) r where "tls_fail r s = (t', cs)" | (queued) "t_state s \<noteq> SOpen" "t' = ?u" | (sent) "t_state s = SOpen" "doWrite e ?u = (t', cs)"
    using assms(1) False by (auto simp: tls_send_def s_def[symmetric] Let_def s(2) split: if_splits)
  then show ?thesis
  proof cases
    case full
    then show ?thesis using s by (auto intro: tls_fail_inv)
  next
    case queued
    then show ?thesis using s(1) by (simp add: tls_inv_def)
  next
    case sent
    then show ?thesis using s(1) by (intro doWrite_inv[of e ?u t' cs]) (simp_all add: tls_inv_def)
  qed
qed

lemma open_doWrite_inv: "doWrite e t = (t', cs) \<Longrightarrow> tls_inv t \<Longrightarrow> t_state t = SOpen \<Longrightarrow> tls_inv t'"
  by (rule doWrite_inv[of e t t' cs]) (simp_all add: tls_inv_def)

lemma tls_step_inv:
  assumes "tls_step e c t = (t', ds)" and "tls_inv t"
  shows "tls_inv t'"
proof (cases c)
  case (Connect sec)
  then show ?thesis using assms by (cases "tls_connect e sec t") (auto intro: tls_connect_inv)
next
  case (Send bytes)
  then show ?thesis using assms by (cases "tls_send e bytes t") (auto intro: tls_send_inv)
next
  case Close
  then show ?thesis using assms closed_inv[OF tls_inv_offset[OF assms(2)]] by (simp add: tls_close_def)
qed (use assms in \<open>auto intro: onIoEvent_inv onConnectTimer_inv open_doWrite_inv read_turn_inv split: if_splits\<close>)

lemma tls_run_inv: "tls_run opts cs t \<Longrightarrow> tls_inv t"
  by (induction rule: tls_run.induct) (auto simp: new_tls_inv intro: tls_step_inv)

section \<open>The end of a connection is reported\<close>

fun closed_reports :: "'b tls_call list \<Rightarrow> string list" where
  "closed_reports [] = []"
| "closed_reports (Callback (TlsClosed r) # cs) = r # closed_reports cs"
| "closed_reports (c # cs) = closed_reports cs"

lemma closed_reports_append [simp]: "closed_reports (cs @ ds) = closed_reports cs @ closed_reports ds"
  by (induction cs rule: closed_reports.induct) simp_all

text \<open>A result that reports the end of the connection exactly when it ends there.\<close>

definition reports :: "'b tls \<Rightarrow> 'b tls_result \<Rightarrow> bool" where
  "reports t r \<longleftrightarrow>
     length (closed_reports (snd r)) = (if t_state t \<noteq> SClosed \<and> t_state (fst r) = SClosed then 1 else 0)"

lemma reports_fail: "t_state s = t_state t \<Longrightarrow> reports t (tls_fail r s)"
  by (simp add: reports_def tls_fail_def)

lemma reports_nothing: "t_state s = t_state t \<or> t_state s \<noteq> SClosed \<Longrightarrow> closed_reports cs = [] \<Longrightarrow> reports t (s, cs)"
  by (auto simp: reports_def)

lemma reports_append: "reports t (s, cs) \<Longrightarrow> closed_reports ds = [] \<Longrightarrow> reports t (s, cs @ ds)"
  by (simp add: reports_def)

lemma updateInterest_state [simp]: "t_state (updateInterest t) = t_state t"
  by (simp add: updateInterest_def Let_def)

lemma write_loop_state: "write_loop ws t = (s, f) \<Longrightarrow> t_state s = t_state t"
  by (induction ws t rule: write_loop.induct) (auto simp: Let_def split: if_splits write_result.splits)

lemma reports_doWrite: "t_state s = t_state t \<Longrightarrow> reports t (doWrite e s)"
  by (auto simp: doWrite_def Let_def split: prod.splits option.splits dest!: write_loop_state
      intro!: reports_nothing reports_fail)

lemma reports_nextAddress: "attemptsLeft t = 0 \<Longrightarrow> t_state s = t_state t \<Longrightarrow> attemptsLeft s = attemptsLeft t \<Longrightarrow> reports t (nextAddress e r s)"
  by (simp add: nextAddress_def closeSocket_def reports_fail)

lemma reports_handshake: "t_state s = t_state t \<or> t_state s \<noteq> SClosed \<and> t_state t \<noteq> SClosed \<Longrightarrow> reports t (doHandshake e s)"
  by (auto simp: doHandshake_def becomes_open_def reports_def tls_fail_def Let_def split: handshake.splits)

lemma reports_ready: "t_state t = SConnecting \<Longrightarrow> attemptsLeft t = 0 \<Longrightarrow> reports t (onConnectReady e t)"
  by (auto simp: onConnectReady_def becomes_open_def split: option.splits
      intro!: reports_nextAddress reports_handshake reports_fail reports_nothing)

lemma reports_read: "t_state s = t_state t \<Longrightarrow> reports t (read_turn e k s)"
proof (cases "sys_read e")
  case (ReadFails r)
  assume "t_state s = t_state t"
  then show ?thesis using reports_fail[of s t r]
    by (cases "tls_fail r s") (simp add: read_turn_def ReadFails reports_append reports_nothing)
qed (auto simp: read_turn_def intro!: reports_nothing)

lemma reports_io:
  assumes "t_state t = SConnecting \<longrightarrow> attemptsLeft t = 0"
  shows "reports t (onIoEvent e events t)"
proof (cases "t_state t")
  case SConnecting
  then show ?thesis using assms by (simp add: onIoEvent_def reports_nextAddress reports_ready)
next
  case SOpen
  obtain s ds where r: "(if events AND (EPOLLIN OR EPOLLRDHUP OR EPOLLHUP OR EPOLLERR) \<noteq> 0 then doRead e t else (t, [])) = (s, ds)"
    by fastforce
  have "reports t (s, ds)"
    unfolding r[symmetric] using reports_read[of "t\<lparr>reading := True\<rparr>" t e 64] by (auto simp: doRead_def reports_nothing)
  then show ?thesis using SOpen r by (simp add: onIoEvent_def reports_append)
qed (simp_all add: onIoEvent_def reports_nothing reports_handshake)

lemma reports_timer:
  assumes "t_state t = SConnecting \<longrightarrow> attemptsLeft t = 0"
  shows "reports t (onConnectTimer e t)"
  using assms by (auto simp: onConnectTimer_def Let_def reports_nothing intro!: reports_nextAddress reports_fail)

lemma reports_send: "reports t (fst (tls_send e bytes t))"
proof -
  have "t_state (compact_outbox t) = t_state t" by (simp add: compact_outbox_def)
  then show ?thesis
    by (auto simp: tls_send_def Let_def reports_nothing intro!: reports_fail reports_doWrite)
qed

text \<open>All remaining addresses fail inside \<open>connect\<close>.\<close>

lemma startAttempt_all_fail:
  "\<forall>i. sys_attempt e i \<noteq> Started \<Longrightarrow> t_state (fst (startAttempt e t)) = SClosed \<and> \<not> snd (startAttempt e t)"
  by (induction e t rule: startAttempt.induct) (simp add: startAttempt.simps Let_def)

section \<open>Connecting ends\<close>

fun timeouts :: "'b sys list \<Rightarrow> 'b tls \<Rightarrow> 'b tls" where
  "timeouts [] t = t"
| "timeouts (e # es) t = timeouts es (fst (tls_step e ConnectTimeout t))"

lemma timeout_progress:
  assumes "tls_inv t" and "t_state t = SConnecting"
  shows "t_state (fst (onConnectTimer e t)) = SClosed \<or>
    t_state (fst (onConnectTimer e t)) = SConnecting \<and> attemptsLeft (fst (onConnectTimer e t)) < attemptsLeft t"
proof -
  let ?s = "closeSocket (t\<lparr>connectTimer := None\<rparr>)"
  obtain u ok where u: "startAttempt e ?s = (u, ok)" by fastforce
  have "t_state u = (if ok then SConnecting else SClosed) \<and> (ok \<longrightarrow> attemptsLeft u < attemptsLeft t)"
    using startAttempt_inv[OF u] assms by (simp add: closeSocket_def tls_inv_def)
  then show ?thesis using assms u
    by (auto simp: onConnectTimer_def nextAddress_def Let_def closeSocket_def tls_fail_def split: if_splits)
qed

lemma timeouts_closed: "t_state t = SClosed \<Longrightarrow> tls_inv t \<Longrightarrow> t_state (timeouts es t) = SClosed"
proof (induction es arbitrary: t)
  case (Cons e es)
  have "tls_inv (fst (onConnectTimer e t))" using onConnectTimer_inv[of e t] Cons.prems by (cases "onConnectTimer e t") auto
  moreover have "t_state (fst (onConnectTimer e t)) = SClosed" using Cons.prems by (simp add: onConnectTimer_def)
  ultimately show ?case using Cons.IH by simp
qed simp

section \<open>Bytes leave in order\<close>

definition accepted :: "'b sys \<Rightarrow> 'b tls_call \<Rightarrow> 'b tls \<Rightarrow> 'b list" where
  "accepted e c t = (case c of Send bytes \<Rightarrow> if snd (tls_send e bytes t) then bytes else [] | _ \<Rightarrow> [])"

text \<open>The queue of a stream: what the socket has taken, then what waits.\<close>

definition stream_bytes :: "'b tls \<Rightarrow> 'b list" where
  "stream_bytes t = wire t @ unsent t"

definition extends :: "'b list \<Rightarrow> 'b tls \<Rightarrow> 'b tls \<Rightarrow> bool" where
  "extends bs t t' \<longleftrightarrow> stream_bytes t' = stream_bytes t @ bs \<and> (\<exists>w. wire t' = wire t @ w)"

lemma extends_same:
  "wire t' = wire t \<Longrightarrow> outbox t' = outbox t \<Longrightarrow> outboxOffset t' = outboxOffset t \<Longrightarrow> extends [] t t'"
  by (simp add: extends_def stream_bytes_def unsent_def)

lemma extends_trans: "extends bs t s \<Longrightarrow> extends cs s u \<Longrightarrow> extends (bs @ cs) t u"
  by (auto simp: extends_def)

lemma extends_fail: "extends [] s (fst (tls_fail r s))"
  by (rule extends_same) (simp_all add: tls_fail_def release_def)

lemma extends_interest: "extends [] s (updateInterest s)"
  by (rule extends_same) (simp_all add: updateInterest_def Let_def)

lemma startAttempt_bytes:
  "wire (fst (startAttempt e t)) = wire t \<and> outbox (fst (startAttempt e t)) = outbox t \<and>
   outboxOffset (fst (startAttempt e t)) = outboxOffset t"
proof (induction e t rule: startAttempt.induct)
  case (1 e t)
  then show ?case by (subst (1 2 3) startAttempt.simps) (simp add: Let_def)
qed

lemma extends_nextAddress: "extends [] t (fst (nextAddress e r t))"
proof -
  obtain u ok where u: "startAttempt e (closeSocket t) = (u, ok)" by fastforce
  have c: "extends [] t (closeSocket t)" by (rule extends_same) (simp_all add: closeSocket_def)
  have "extends [] t u"
    using startAttempt_bytes[of e "closeSocket t"] u by (intro extends_same) (simp_all add: closeSocket_def)
  then show ?thesis using c extends_trans[OF c extends_fail] extends_trans[of "[]" t u "[]", OF _ extends_fail]
    by (simp add: nextAddress_def Let_def u)
qed

lemma write_loop_bytes:
  "write_loop ws t = (t', f) \<Longrightarrow> outboxOffset t \<le> length (outbox t) \<Longrightarrow>
   wire t' @ unsent t' = wire t @ unsent t \<and> outboxOffset t' \<le> length (outbox t') \<and> (\<exists>w. wire t' = wire t @ w)"
  using write_loop_frame[of ws t t' f] by blast

lemma extends_doWrite:
  assumes "outboxOffset t \<le> length (outbox t)"
  shows "extends [] t (fst (doWrite e t))"
proof -
  obtain s f where w: "write_loop (sys_writes e) (t\<lparr>wantWrite := False\<rparr>) = (s, f)" by fastforce
  have s: "extends [] t s" "outboxOffset s \<le> length (outbox s)"
    using write_loop_bytes[OF w] assms by (auto simp: extends_def stream_bytes_def unsent_def)
  have "extends [] s (if outboxOffset s = length (outbox s) then s\<lparr>outbox := [], outboxOffset := 0\<rparr> else s)"
    by (simp add: extends_def stream_bytes_def unsent_def)
  then have "extends [] t (updateInterest (if outboxOffset s = length (outbox s) then s\<lparr>outbox := [], outboxOffset := 0\<rparr> else s))"
    using extends_trans[OF extends_trans[OF s(1)] extends_interest] by simp
  then show ?thesis using extends_trans[OF s(1) extends_fail] by (auto simp: doWrite_def w Let_def split: option.splits if_splits)
qed

lemma extends_send:
  assumes "tls_inv t"
  shows "extends (accepted e (Send bytes) t) t (fst (fst (tls_send e bytes t)))"
proof -
  let ?s = "compact_outbox t" and ?u = "(compact_outbox t)\<lparr>outbox := outbox (compact_outbox t) @ bytes\<rparr>"
  have o: "outboxOffset ?s \<le> length (outbox ?s)" using tls_inv_offset[OF assms] by (simp add: compact_outbox_def)
  have s: "extends [] t ?s" by (simp add: compact_outbox_def extends_def stream_bytes_def unsent_def)
  then have f: "\<And>r. extends [] t (fst (tls_fail r ?s))" using extends_trans[OF s extends_fail] by simp
  have u: "extends bytes ?s ?u" using o by (simp add: extends_def stream_bytes_def unsent_def)
  have "outboxOffset ?u \<le> length (outbox ?u)" using o by simp
  then have w: "extends bytes t (fst (doWrite e ?u))"
    using extends_trans[OF extends_trans[OF s u] extends_doWrite[of ?u e]] by simp
  show ?thesis using f w extends_trans[OF s u]
    by (auto simp: tls_send_def accepted_def Let_def extends_same)
qed

lemma extends_drop: "wire s = wire t \<Longrightarrow> outbox s = outbox t \<Longrightarrow> outboxOffset s = outboxOffset t \<Longrightarrow> extends bs s u = extends bs t u"
  by (simp add: extends_def stream_bytes_def unsent_def)

lemma extends_open: "extends [] t (fst (becomes_open t))"
  using extends_interest[of "t\<lparr>connectTimer := None, t_state := SOpen\<rparr>"]
  by (simp add: becomes_open_def extends_drop[of "t\<lparr>connectTimer := None, t_state := SOpen\<rparr>" t])

lemma extends_handshake: "extends [] t (fst (doHandshake e t))"
  by (simp add: doHandshake_def Let_def extends_open extends_fail extends_same split: handshake.splits)

lemma extends_ready: "extends [] t (fst (onConnectReady e t))"
proof -
  let ?s = "t\<lparr>ssl := True, t_state := SHandshaking, connectTimer := Some (connectTimeoutMs (t_opts t))\<rparr>"
  have "extends [] t (fst (doHandshake e ?s))" using extends_handshake[of ?s e] by (simp add: extends_drop[of ?s t])
  then show ?thesis by (simp add: onConnectReady_def extends_open extends_fail extends_nextAddress split: option.splits)
qed

lemma extends_timer: "extends [] t (fst (onConnectTimer e t))"
proof -
  let ?s = "t\<lparr>connectTimer := None\<rparr>"
  show ?thesis using extends_nextAddress[of ?s e] extends_fail[of ?s]
    by (simp add: onConnectTimer_def Let_def extends_drop[of ?s t] extends_same)
qed

lemma extends_read: "extends [] t (fst (read_turn e k t))"
proof -
  let ?s = "t\<lparr>wantWrite := True\<rparr>"
  have "extends [] t (updateInterest ?s)" using extends_interest[of ?s] by (simp add: extends_drop[of ?s t])
  then show ?thesis by (simp add: read_turn_def extends_same extends_fail case_prod_beta split: read_result.splits)
qed

lemma extends_io:
  assumes "tls_inv t"
  shows "extends [] t (fst (onIoEvent e events t))"
proof -
  let ?s = "t\<lparr>reading := True\<rparr>"
  have "extends [] t (fst (doRead e t))" using extends_read[of ?s e 64] by (simp add: doRead_def extends_drop[of ?s t] extends_same)
  then show ?thesis
    by (simp add: onIoEvent_def extends_same extends_nextAddress extends_ready extends_handshake case_prod_beta split: stream_state.splits)
qed

section \<open>Examples\<close>

text \<open>A host with two addresses of which the first takes the connection; and one that refuses all.\<close>

definition ex_opts :: tlsOptions where
  "ex_opts = \<lparr>connectTimeoutMs = 5000, maxOutboxBytes = 100\<rparr>"

definition ex_sys :: "char sys" where
  "ex_sys = \<lparr>sys_resolve = Some [16, 28], sys_attempt = (\<lambda>i. if i = 0 then Started else ConnectFails), sys_error = None,
     sys_context = None, sys_handshake = HsDone, sys_writes = [Wrote 2], sys_read = ReadFails ''reset''\<rparr>"

definition ex_down :: "char sys" where
  "ex_down = ex_sys\<lparr>sys_attempt := \<lambda>_. ConnectFails\<rparr>"

definition ex_stream :: "char tls" where
  "ex_stream = fst (tls_connect ex_sys False (new_tls ex_opts))"

lemma ex_stream_run: "tls_run ex_opts [] ex_stream"
  using tls_run.step[OF tls_run.call[OF tls_run.start], of "Connect False" ex_opts ex_sys ex_stream "[]"]
  by (simp add: ex_stream_def)

lemma ex_stream_simps: "t_state ex_stream = SConnecting" "attemptsLeft ex_stream = 1" "stream_bytes ex_stream = []" "t_opts ex_stream = ex_opts"
   "outbox ex_stream = []" "outboxOffset ex_stream = 0" "wire ex_stream = []"
  by (simp_all add: ex_stream_def tls_connect_def ex_sys_def startAttempt.simps Let_def new_tls_def release_def stream_bytes_def unsent_def)

section \<open>States of the stream\<close>

text \<open>A step opens a stream only with the callback that says so, and never leads back to idle.\<close>

definition announces :: "'b tls \<Rightarrow> 'b tls_result \<Rightarrow> bool" where
  "announces t r \<longleftrightarrow> (t_state (fst r) = SOpen \<longrightarrow> t_state t = SOpen \<or> Callback TlsConnected \<in> set (snd r)) \<and>
     (t_state (fst r) = SIdle \<longrightarrow> t_state t = SIdle)"

lemma announces_same: "t_state s = t_state t \<or> t_state s \<noteq> SOpen \<and> t_state s \<noteq> SIdle \<Longrightarrow> announces t (s, cs)"
  by (auto simp: announces_def)

lemma announces_fail: "announces t (tls_fail r s)"
  by (auto simp: tls_fail_def announces_def)

lemma startAttempt_state: "t_state (fst (startAttempt e t)) = SConnecting \<or> t_state (fst (startAttempt e t)) = SClosed"
proof (induction e t rule: startAttempt.induct)
  case (1 e t)
  then show ?case by (subst (1 2) startAttempt.simps) (simp add: Let_def)
qed

lemma announces_nextAddress: "announces t (nextAddress e r s)"
proof -
  obtain u ok where u: "startAttempt e (closeSocket s) = (u, ok)" by fastforce
  have "t_state u = SConnecting \<or> t_state u = SClosed" using startAttempt_state[of e "closeSocket s"] by (simp add: u)
  then show ?thesis by (auto simp: nextAddress_def Let_def u announces_fail intro!: announces_same)
qed

lemma announces_open: "announces t (becomes_open s)"
  by (simp add: announces_def becomes_open_def)

lemma announces_doWrite: "t_state s = t_state t \<Longrightarrow> announces t (doWrite e s)"
  by (auto simp: doWrite_def Let_def announces_fail split: prod.splits option.splits dest!: write_loop_state intro!: announces_same)

lemma announces_handshake: "t_state s \<noteq> SOpen \<Longrightarrow> t_state s \<noteq> SIdle \<Longrightarrow> announces t (doHandshake e s)"
  by (auto simp: doHandshake_def Let_def announces_open announces_fail split: handshake.splits intro!: announces_same)

lemma announces_read: "t_state s = t_state t \<Longrightarrow> announces t (read_turn e k s)"
  using announces_fail[of t _ s]
  by (auto simp: read_turn_def announces_def case_prod_beta split: read_result.splits)

lemma announces_io: "announces t (onIoEvent e events t)"
proof (cases "t_state t")
  case SConnecting
  then show ?thesis
    by (auto simp: onIoEvent_def onConnectReady_def announces_nextAddress announces_open announces_fail split: option.splits
        intro!: announces_handshake)
next
  case SOpen
  have "announces t (doRead e t)" by (auto simp: doRead_def intro!: announces_read announces_same)
  then show ?thesis using SOpen by (auto simp: onIoEvent_def announces_def split: prod.splits if_splits)
qed (auto simp: onIoEvent_def intro!: announces_same announces_handshake)

lemma announces_timer: "announces t (onConnectTimer e t)"
  by (auto simp: onConnectTimer_def Let_def announces_nextAddress announces_fail intro!: announces_same)

lemma announces_send: "announces t (fst (tls_send e bytes t))"
proof -
  have "t_state (compact_outbox t) = t_state t" by (simp add: compact_outbox_def)
  then show ?thesis by (auto simp: tls_send_def Let_def announces_fail intro!: announces_same announces_doWrite)
qed

lemma tls_connect_state:
  "t_state (fst (tls_connect e sec t)) = SConnecting \<or> t_state (fst (tls_connect e sec t)) = SClosed"
  using startAttempt_state by (auto simp: tls_connect_def Let_def split: option.splits)

lemma announces_connect: "announces t (fst (tls_connect e sec t), cs)"
  using tls_connect_state[of e sec t] by (intro announces_same) auto

lemma announces_step: "announces t (tls_step e d t)"
  by (cases d) (auto simp: announces_io announces_timer announces_send announces_read announces_connect tls_close_def
    intro!: announces_same announces_doWrite)

lemma tls_close_inv: "tls_inv t \<Longrightarrow> tls_inv (tls_close t)"
  using closed_inv[OF tls_inv_offset] by (simp add: tls_close_def)

section \<open>Properties\<close>

text \<open>
  The stream's bookkeeping in every run: it holds a socket exactly while it connects, shakes hands or is
  open; the connect timer is armed exactly while it connects or shakes hands; and whenever an open stream has bytes to
  write, or TLS waits to write, the event loop is asked for writability, so that no queued byte is forgotten.
\<close>

lemma stream_bookkeeping:
  assumes "tls_run opts cs t"
  shows "(registered t \<noteq> None \<longleftrightarrow> t_state t = SConnecting \<or> t_state t = SHandshaking \<or> t_state t = SOpen) \<and>
    (connectTimer t \<noteq> None \<longleftrightarrow> t_state t = SConnecting \<or> t_state t = SHandshaking) \<and>
    (t_state t = SOpen \<and> (unsent t \<noteq> [] \<or> wantWrite t) \<longrightarrow> (\<exists>m. registered t = Some m \<and> m AND EPOLLOUT \<noteq> 0))"
  using tls_run_inv[OF assms] by (auto simp: tls_inv_def asks_write_def)

text \<open>
  C21: bytes leave in the order they were sent: every step of a connection keeps what the socket has taken
  followed by what waits, and only an accepted \<open>send\<close> adds to it, at the end.
\<close>

theorem stream_keeps_order:
  assumes "tls_run opts (c # cs) t" and "tls_step e c t = (t', ds)" and "\<forall>sec. c \<noteq> Connect sec"
  shows "stream_bytes t' = stream_bytes t @ accepted e c t \<and> (\<exists>w. wire t' = wire t @ w)"
proof -
  have i: "tls_inv t" by (rule tls_run_inv[OF assms(1)])
  have "extends (accepted e c t) t (fst (tls_step e c t))"
  proof (cases c)
    case (Send bytes)
    then show ?thesis using extends_send[OF i] by simp
  next
    case (IoEvent events)
    then show ?thesis using extends_io[OF i] by (simp add: accepted_def)
  next
    case ConnectTimeout
    then show ?thesis by (simp add: accepted_def extends_timer)
  next
    case Close
    then show ?thesis by (simp add: accepted_def tls_close_def release_def extends_same)
  qed (use assms(3) extends_doWrite[OF tls_inv_offset[OF i]] in \<open>auto simp: accepted_def extends_same extends_read\<close>)
  then show ?thesis by (simp add: assms(2) extends_def)
qed

theorem stream_keeps_order_witness:
  "tls_run ex_opts [Send ''hello''] ex_stream \<and> stream_bytes (fst (tls_step ex_sys (Send ''hello'') ex_stream)) = ''hello''"
proof -
  have r: "tls_run ex_opts [Send ''hello''] ex_stream" by (rule tls_run.call[OF ex_stream_run]) simp_all
  have "accepted ex_sys (Send ''hello'') ex_stream = ''hello''"
    by (simp add: accepted_def tls_send_def ex_stream_simps compact_outbox_def pendingBytes_def ex_opts_def)
  then show ?thesis
    using stream_keeps_order[OF r, of ex_sys "fst (tls_step ex_sys (Send ''hello'') ex_stream)" "snd (tls_step ex_sys (Send ''hello'') ex_stream)"] r
    by (simp add: ex_stream_simps)
qed

text \<open>
  The end of a connection is reported once: a step that closes a stream, other than \<open>close\<close> and a
  new \<open>connect\<close>, issues exactly one \<open>onTlsClosed\<close>, and no other step issues one. The step starts from a stream
  that is not trying one of several addresses with others left.
\<close>

lemma stream_end_is_reported:
  assumes "tls_step e c t = (t', ds)" and "t_state t = SConnecting \<longrightarrow> attemptsLeft t = 0"
    and "c \<noteq> Close" and "\<forall>sec. c \<noteq> Connect sec"
  shows "length (closed_reports ds) = (if t_state t \<noteq> SClosed \<and> t_state t' = SClosed then 1 else 0)"
proof -
  have "reports t (tls_step e c t)"
    using assms(2-4) by (cases c) (auto intro: reports_send reports_io reports_timer reports_doWrite reports_read reports_nothing)
  then show ?thesis by (simp add: assms(1) reports_def)
qed

text \<open>
  When an attempt fails while addresses are left, and each of those fails at once, the stream ends
  closed and nothing is reported: \<open>startAttempt\<close> has closed the stream before \<open>nextAddress\<close> calls \<open>fail\<close>, and
  the owner waits for a callback that never comes.
\<close>

lemma failing_over_is_silent:
  assumes "t_state t = SConnecting" and "attemptsLeft t > 0" and "\<forall>i. sys_attempt e i \<noteq> Started"
  shows "t_state (fst (tls_step e ConnectTimeout t)) = SClosed \<and> closed_reports (snd (tls_step e ConnectTimeout t)) = []"
proof -
  let ?s = "closeSocket (t\<lparr>connectTimer := None\<rparr>)"
  obtain u where "startAttempt e ?s = (u, False)" "t_state u = SClosed"
    using startAttempt_all_fail[OF assms(3), of ?s] by (cases "startAttempt e ?s") auto
  then show ?thesis using assms(1,2) by (simp add: onConnectTimer_def nextAddress_def tls_fail_def Let_def closeSocket_def)
qed

text \<open>
  Connecting always ends: whatever the network does, after one connect timeout more than there are
  addresses left, a connecting stream is closed.
\<close>

lemma connecting_ends:
  assumes "tls_run opts cs t" and "t_state t = SConnecting" and "attemptsLeft t < length es"
  shows "t_state (timeouts es t) = SClosed"
  using tls_run_inv[OF assms(1)] assms(2,3)
proof (induction es arbitrary: t)
  case (Cons e es)
  let ?t = "fst (onConnectTimer e t)"
  have i: "tls_inv ?t" using onConnectTimer_inv[of e t] Cons.prems(1) by (cases "onConnectTimer e t") auto
  show ?case
  proof (cases "t_state ?t = SClosed")
    case True
    then show ?thesis using timeouts_closed[OF True i] by simp
  next
    case False
    then show ?thesis using timeout_progress[OF Cons.prems(1,2), of e] Cons.IH[OF i] Cons.prems(3) by auto
  qed
qed simp

end
