(* ===== verification/HL_EventLoop.thy ===== *)
theory HL_EventLoop
  imports HL_Types
begin

unbundle bit_operations_syntax

text \<open>
  The event loop (\<open>include/hl/net/EventLoop.h\<close>, \<open>src/net/EventLoop.cpp\<close>): the timer queue, the descriptor
  registrations with their generations, the dispatch of a batch of epoll events and the posted tasks.

  \<^item> The multimap of timers is a list in the order of due times; a timer index entry is the position of its id in it.
  \<^item> What a task or a handler does to the loop is a parameter of the definition that runs it.
  \<^item> \<open>epoll\<close>, the clock and the wake-up descriptor are outside: the time and the collected events are arguments.
\<close>

section \<open>Timers\<close>

record 'a timer_queue =
  timers :: "(int \<times> nat \<times> 'a) list"
  nextTimerId :: nat

definition new_timers :: "'a timer_queue" where
  "new_timers = \<lparr>timers = [], nextTimerId = 1\<rparr>"

definition timer_emplace :: "int \<Rightarrow> nat \<times> 'a \<Rightarrow> (int \<times> nat \<times> 'a) list \<Rightarrow> (int \<times> nat \<times> 'a) list" where
  "timer_emplace due x ts = takeWhile (\<lambda>t. fst t \<le> due) ts @ (due, x) # dropWhile (\<lambda>t. fst t \<le> due) ts"

definition addTimer :: "int \<Rightarrow> int \<Rightarrow> 'a \<Rightarrow> 'a timer_queue \<Rightarrow> 'a timer_queue \<times> nat" where
  "addTimer now delayMs task q =
     (let i = nextTimerId q
      in (q\<lparr>nextTimerId := i + 1, timers := timer_emplace (now + (if delayMs < 0 then 0 else delayMs)) (i, task) (timers q)\<rparr>, i))"

definition cancelTimer :: "nat \<Rightarrow> 'a timer_queue \<Rightarrow> 'a timer_queue" where
  "cancelTimer i q = q\<lparr>timers := filter (\<lambda>t. fst (snd t) \<noteq> i) (timers q)\<rparr>"

definition nextTimeoutMs :: "int \<Rightarrow> int \<Rightarrow> 'a timer_queue \<Rightarrow> int" where
  "nextTimeoutMs now maxWaitMs q =
     (case timers q of
        [] \<Rightarrow> maxWaitMs
      | (due, x) # ts \<Rightarrow>
          let untilNext = due - now;
              timerWait = (if untilNext \<le> 0 then 0 else wrap32 untilNext)
          in if maxWaitMs < 0 then timerWait else if timerWait < maxWaitMs then timerWait else maxWaitMs)"

text \<open>The loop of \<open>runTimers\<close>, with the ids of the timers it has fired. A task may add timers that are due at once,
  so the loop need not end.\<close>

partial_function (option) runTimers ::
  "('a \<Rightarrow> 'a timer_queue \<Rightarrow> 'a timer_queue) \<Rightarrow> int \<Rightarrow> 'a timer_queue \<times> nat list \<Rightarrow> ('a timer_queue \<times> nat list) option" where
  "runTimers run now qf =
     (case timers (fst qf) of
        [] \<Rightarrow> Some qf
      | (due, i, task) # ts \<Rightarrow>
          if due \<le> now then runTimers run now (run task ((fst qf)\<lparr>timers := ts\<rparr>), snd qf @ [i]) else Some qf)"

section \<open>Descriptors\<close>

record 'h registration =
  reg_handler :: 'h
  reg_generation :: u32

record 'h io =
  registrations :: "int \<rightharpoonup> 'h registration"
  nextGeneration :: u32
  epoll_set :: "int \<rightharpoonup> u32 \<times> u64"

definition kWakeTag :: u64 where
  "kWakeTag = NOT 0"

definition io_encode :: "int \<Rightarrow> u32 \<Rightarrow> u64" where
  "io_encode fd gen = push_bit 32 (ucast gen) OR ucast (word_of_int fd :: u32)"

definition io_add :: "int \<Rightarrow> u32 \<Rightarrow> 'h \<Rightarrow> 'h io \<Rightarrow> 'h io" where
  "io_add fd events h s =
     (let gen = nextGeneration s
      in s\<lparr>nextGeneration := gen + 1,
           registrations := (registrations s)(fd \<mapsto> \<lparr>reg_handler = h, reg_generation = gen\<rparr>),
           epoll_set := (epoll_set s)(fd \<mapsto> (events, io_encode fd gen))\<rparr>)"

definition io_modify :: "int \<Rightarrow> u32 \<Rightarrow> 'h io \<Rightarrow> 'h io" where
  "io_modify fd events s =
     (case registrations s fd of
        None \<Rightarrow> s
      | Some r \<Rightarrow> s\<lparr>epoll_set := (epoll_set s)(fd \<mapsto> (events, io_encode fd (reg_generation r)))\<rparr>)"

definition io_remove :: "int \<Rightarrow> 'h io \<Rightarrow> 'h io" where
  "io_remove fd s =
     (if registrations s fd \<noteq> None
      then s\<lparr>registrations := (registrations s)(fd := None), epoll_set := (epoll_set s)(fd := None)\<rparr> else s)"

text \<open>What a handler may do to the registrations while it runs.\<close>

datatype 'h io_op = IoAdd int u32 'h | IoModify int u32 | IoRemove int

fun io_apply :: "'h io_op \<Rightarrow> 'h io \<Rightarrow> 'h io" where
  "io_apply (IoAdd fd events h) s = io_add fd events h s"
| "io_apply (IoModify fd events) s = io_modify fd events s"
| "io_apply (IoRemove fd) s = io_remove fd s"

text \<open>
  The batch loop of \<open>runOnce\<close> over the collected tags and event masks: the registrations it ends with and the calls
  it makes, each a descriptor, its handler and the mask.
\<close>

fun dispatch ::
  "('h \<Rightarrow> u32 \<Rightarrow> 'h io_op list) \<Rightarrow> (u64 \<times> u32) list \<Rightarrow> 'h io \<Rightarrow> 'h io \<times> (int \<times> 'h \<times> u32) list" where
  "dispatch ops [] s = (s, [])"
| "dispatch ops ((tag, events) # evs) s =
     (if tag = kWakeTag then dispatch ops evs s
      else
        let fd = sint (ucast tag :: u32); gen = (ucast (drop_bit 32 tag) :: u32) in
        case registrations s fd of
          None \<Rightarrow> dispatch ops evs s
        | Some r \<Rightarrow>
            if reg_generation r \<noteq> gen then dispatch ops evs s
            else
              let (s', calls) = dispatch ops evs (fold io_apply (ops (reg_handler r) events) s)
              in (s', (fd, reg_handler r, events) # calls))"

section \<open>Posted tasks\<close>

text \<open>The posted tasks are taken out first, so a task that posts another one leaves it for the next iteration.\<close>

definition runPosted :: "('a \<Rightarrow> 'a list \<times> 's \<Rightarrow> 'a list \<times> 's) \<Rightarrow> 'a list \<times> 's \<Rightarrow> 'a list \<times> 's" where
  "runPosted run ps = fold run (fst ps) ([], snd ps)"

section \<open>The timer queue\<close>

definition timers_ok :: "'a timer_queue \<Rightarrow> bool" where
  "timers_ok q \<longleftrightarrow> sorted (map fst (timers q)) \<and> distinct (map (fst \<circ> snd) (timers q)) \<and>
     (\<forall>t \<in> set (timers q). 0 < fst (snd t) \<and> fst (snd t) < nextTimerId q) \<and> 0 < nextTimerId q"

lemma timer_emplace_simps [simp]:
  "timer_emplace due x [] = [(due, x)]"
  "timer_emplace due x (t # ts) = (if fst t \<le> due then t # timer_emplace due x ts else (due, x) # t # ts)"
  by (simp_all add: timer_emplace_def)

lemma timer_emplace_set [simp]: "set (timer_emplace due x ts) = insert (due, x) (set ts)"
  by (induction ts) auto

lemma timer_emplace_sorted: "sorted (map fst ts) \<Longrightarrow> sorted (map fst (timer_emplace due x ts))"
  by (induction ts) auto

lemma timer_emplace_distinct:
  "distinct (map (fst \<circ> snd) ts) \<Longrightarrow> fst x \<notin> (fst \<circ> snd) ` set ts \<Longrightarrow> distinct (map (fst \<circ> snd) (timer_emplace due x ts))"
  by (induction ts) auto

lemma new_timers_ok: "timers_ok new_timers"
  by (simp add: timers_ok_def new_timers_def)

lemma addTimer_ok: "timers_ok q \<Longrightarrow> timers_ok (fst (addTimer now delay task q))"
  by (auto simp: timers_ok_def addTimer_def Let_def timer_emplace_sorted intro!: timer_emplace_distinct)

lemma cancelTimer_ok: "timers_ok q \<Longrightarrow> timers_ok (cancelTimer i q)"
  by (auto simp: timers_ok_def cancelTimer_def sorted_filter distinct_map_filter)

lemma timer_ids_unique:
  assumes "timers_ok q" and "(d, i, k) \<in> set (timers q)" and "(d', i, k') \<in> set (timers q)"
  shows "k = k'"
  using assms unfolding timers_ok_def by (metis (no_types, lifting) comp_apply eq_key_imp_eq_value distinct_map inj_onD prod.inject snd_conv fst_conv)

lemma addTimer_id: "timers_ok q \<Longrightarrow> snd (addTimer now d k q) \<noteq> 0"
  by (simp add: addTimer_def timers_ok_def Let_def)

lemma pop_ok: "timers_ok q \<Longrightarrow> timers q = t # ts \<Longrightarrow> timers_ok (q\<lparr>timers := ts\<rparr>)"
  by (auto simp: timers_ok_def)

text \<open>A queue operation that a task performs.\<close>

datatype 'a timer_op = OpAdd int int 'a | OpCancel nat

fun timer_apply :: "'a timer_op \<Rightarrow> 'a timer_queue \<Rightarrow> 'a timer_queue" where
  "timer_apply (OpAdd now delay task) q = fst (addTimer now delay task q)"
| "timer_apply (OpCancel i) q = cancelTimer i q"

text \<open>An operation that adds no timer that is due already.\<close>

fun adds_later :: "int \<Rightarrow> 'a timer_op \<Rightarrow> bool" where
  "adds_later now (OpAdd t delay task) = (now < t + (if delay < 0 then 0 else delay))"
| "adds_later now (OpCancel i) = True"

definition due_timers :: "int \<Rightarrow> 'a timer_queue \<Rightarrow> (int \<times> nat \<times> 'a) list" where
  "due_timers now q = filter (\<lambda>t. fst t \<le> now) (timers q)"

text \<open>
  The timers of a list that have to run, when they run in this order and each task cancels what its operations say:
  all of them but those that an earlier one has cancelled.
\<close>

definition cancelled_ids :: "'a timer_op list \<Rightarrow> nat list" where
  "cancelled_ids ops = concat (map (\<lambda>op. case op of OpCancel i \<Rightarrow> [i] | OpAdd t d a \<Rightarrow> []) ops)"

fun expected_runs :: "('a \<Rightarrow> 'a timer_op list) \<Rightarrow> nat list \<Rightarrow> (int \<times> nat \<times> 'a) list \<Rightarrow> nat list" where
  "expected_runs ops dead [] = []"
| "expected_runs ops dead ((due, i, task) # ts) =
     (if i \<in> set dead then expected_runs ops dead ts
      else i # expected_runs ops (cancelled_ids (ops task) @ dead) ts)"

lemma cancelled_ids_simps [simp]:
  "cancelled_ids [] = []"
  "cancelled_ids (OpAdd t d a # ops) = cancelled_ids ops"
  "cancelled_ids (OpCancel i # ops) = i # cancelled_ids ops"
  by (simp_all add: cancelled_ids_def)

lemma timer_apply_ok: "timers_ok q \<Longrightarrow> timers_ok (timer_apply op q)"
  by (cases op) (simp_all add: addTimer_ok cancelTimer_ok)

lemma filter_emplace_late: "now < due \<Longrightarrow> filter (\<lambda>t. fst t \<le> now) (timer_emplace due x ts) = filter (\<lambda>t. fst t \<le> now) ts"
  by (induction ts) auto

lemma timer_apply_kept:
  "adds_later now op \<Longrightarrow>
   due_timers now (timer_apply op q) = filter (\<lambda>t. fst (snd t) \<notin> set (cancelled_ids [op])) (due_timers now q)"
  by (cases op) (simp_all add: due_timers_def addTimer_def Let_def filter_emplace_late cancelTimer_def conj_commute)

lemma timer_applies_due:
  "list_all (adds_later now) ops \<Longrightarrow>
   due_timers now (fold timer_apply ops q) = filter (\<lambda>t. fst (snd t) \<notin> set (cancelled_ids ops)) (due_timers now q)"
proof (induction ops arbitrary: q)
  case (Cons op ops)
  then show ?case using timer_apply_kept[of now op q] by (cases op) (auto simp del: timer_apply.simps intro!: filter_cong)
qed simp

lemma timer_applies_ok: "timers_ok q \<Longrightarrow> timers_ok (fold timer_apply ops q)"
  by (induction ops arbitrary: q) (simp_all add: timer_apply_ok)

lemma expected_runs_same_dead: "set d = set d' \<Longrightarrow> expected_runs ops d ts = expected_runs ops d' ts"
proof (induction ts arbitrary: d d')
  case (Cons t ts)
  obtain due i a where t: "t = (due, i, a)" by (cases t)
  have "set (cancelled_ids (ops a) @ d) = set (cancelled_ids (ops a) @ d')" using Cons.prems by simp
  from Cons.IH[OF this] Cons.IH[OF Cons.prems] show ?case by (simp add: t Cons.prems)
qed simp

lemma expected_runs_filter:
  "expected_runs ops (d @ e) ts = expected_runs ops e (filter (\<lambda>t. fst (snd t) \<notin> set d) ts)"
proof (induction ts arbitrary: e)
  case (Cons t ts)
  obtain due i a where t: "t = (due, i, a)" by (cases t)
  have "expected_runs ops (cancelled_ids (ops a) @ d @ e) ts = expected_runs ops (d @ cancelled_ids (ops a) @ e) ts"
    by (rule expected_runs_same_dead) auto
  then show ?case using Cons by (simp add: t)
qed simp

lemma sorted_none_due:
  assumes "timers_ok q" and "timers q = t # ts" and "now < fst t"
  shows "due_timers now q = [] \<and> (\<forall>u \<in> set (timers q). now < fst u)"
  using assms by (fastforce simp: timers_ok_def due_timers_def filter_empty_conv)

section \<open>Dispatch\<close>

lemma io_encode_roundtrip:
  assumes "- (2 ^ 31) \<le> fd" "fd < 2 ^ 31"
  shows "sint (ucast (io_encode fd gen) :: u32) = fd \<and> (ucast (drop_bit 32 (io_encode fd gen)) :: u32) = gen"
proof
  have "(ucast (io_encode fd gen) :: u32) = word_of_int fd"
    by (rule bit_word_eqI) (auto simp: io_encode_def bit_simps)
  moreover have "sint (word_of_int fd :: u32) = fd" using assms by (simp add: int_word_sint)
  ultimately show "sint (ucast (io_encode fd gen) :: u32) = fd" by simp
  show "(ucast (drop_bit 32 (io_encode fd gen)) :: u32) = gen"
    by (rule bit_word_eqI) (auto simp: io_encode_def bit_simps)
qed

text \<open>Since a batch began: a registration is still the one of the beginning, or has a newer generation.\<close>

definition since :: "'h io \<Rightarrow> 'h io \<Rightarrow> bool" where
  "since s0 s \<longleftrightarrow> nextGeneration s0 \<le> nextGeneration s \<and>
     (\<forall>fd r. registrations s fd = Some r \<longrightarrow> registrations s0 fd = Some r \<or> nextGeneration s0 \<le> reg_generation r)"

lemma since_refl: "since s s"
  by (simp add: since_def)

lemma inc_word: "unat (w :: u32) + 1 < 2 ^ 32 \<Longrightarrow> w \<le> w + 1 \<and> unat (w + 1) = unat w + 1"
  by (simp add: word_le_nat_alt unat_add_lem[THEN iffD1] unat_plus_simple)

lemma io_apply_since:
  assumes "since s0 s" and "unat (nextGeneration s) + 1 < 2 ^ 32"
  shows "since s0 (io_apply op s) \<and> unat (nextGeneration (io_apply op s)) \<le> unat (nextGeneration s) + 1"
proof (cases op)
  case (IoAdd fd events h)
  then show ?thesis using assms(1) inc_word[OF assms(2)] by (auto simp: since_def io_add_def Let_def)
qed (use assms(1) in \<open>auto simp: since_def io_modify_def io_remove_def split: option.splits if_splits\<close>)

lemma io_applies_since:
  assumes "since s0 s" and "unat (nextGeneration s) + length ops < 2 ^ 32"
  shows "since s0 (fold io_apply ops s) \<and> unat (nextGeneration (fold io_apply ops s)) \<le> unat (nextGeneration s) + length ops"
  using assms
proof (induction ops arbitrary: s)
  case (Cons op ops)
  have "since s0 (io_apply op s) \<and> unat (nextGeneration (io_apply op s)) \<le> unat (nextGeneration s) + 1"
    using Cons.prems by (intro io_apply_since) simp_all
  then show ?case using Cons.IH[of "io_apply op s"] Cons.prems by auto
qed simp

lemma dispatch_since:
  assumes "since s0 s" and "\<forall>h e. length (ops h e) \<le> k" and "unat (nextGeneration s) + k * length evs < 2 ^ 32"
    and "list_all (\<lambda>ev. (ucast (drop_bit 32 (fst ev)) :: u32) < nextGeneration s0) evs"
    and "(fd, h, m) \<in> set (snd (dispatch ops evs s))"
  shows "\<exists>r. registrations s0 fd = Some r \<and> reg_handler r = h"
  using assms(1,3-5)
proof (induction evs arbitrary: s)
  case (Cons ev evs)
  obtain tag events where ev: "ev = (tag, events)" by (cases ev)
  let ?fd = "sint (ucast tag :: u32)" and ?gen = "ucast (drop_bit 32 tag) :: u32"
  have room: "unat (nextGeneration s) + k * length evs < 2 ^ 32" using Cons.prems(2) by simp
  have later: "list_all (\<lambda>ev. (ucast (drop_bit 32 (fst ev)) :: u32) < nextGeneration s0) evs" "?gen < nextGeneration s0"
    using Cons.prems(3) by (simp_all add: ev)
  show ?case
  proof (cases "tag = kWakeTag \<or> (\<forall>r. registrations s ?fd = Some r \<longrightarrow> reg_generation r \<noteq> ?gen)")
    case True
    then have "dispatch ops (ev # evs) s = dispatch ops evs s" by (auto simp: ev Let_def split: option.splits)
    then show ?thesis using Cons.IH[OF Cons.prems(1) room later(1)] Cons.prems(4) by simp
  next
    case False
    then obtain r where r: "tag \<noteq> kWakeTag" "registrations s ?fd = Some r" "reg_generation r = ?gen" by auto
    let ?s = "fold io_apply (ops (reg_handler r) events) s"
    have k: "length (ops (reg_handler r) events) \<le> k" using assms(2) by blast
    have n: "since s0 ?s \<and> unat (nextGeneration ?s) \<le> unat (nextGeneration s) + length (ops (reg_handler r) events)"
      using Cons.prems(1,2) k by (intro io_applies_since) auto
    have d: "dispatch ops (ev # evs) s = (fst (dispatch ops evs ?s), (?fd, reg_handler r, events) # snd (dispatch ops evs ?s))"
      by (simp add: ev r case_prod_beta)
    have "registrations s0 ?fd = Some r"
      using Cons.prems(1) r(2,3) later(2) by (force simp: since_def)
    moreover have "unat (nextGeneration ?s) + k * length evs < 2 ^ 32" using n k Cons.prems(2) by simp
    ultimately show ?thesis using Cons.prems(4) Cons.IH[of ?s] n later(1) by (auto simp: d)
  qed
qed simp

definition ex_timers :: "string timer_queue" where
  "ex_timers = fst (addTimer 0 50 ''d'' (fst (addTimer 0 9 ''c'' (fst (addTimer 0 7 ''b'' (fst (addTimer 0 5 ''a'' new_timers)))))))"

definition ex_timer_ops :: "string \<Rightarrow> string timer_op list" where
  "ex_timer_ops a = (if a = ''a'' then [OpCancel 2, OpAdd 10 3 ''e''] else [])"

definition ex_io :: "string io" where
  "ex_io = io_add 5 1 ''book'' \<lparr>registrations = Map.empty, nextGeneration = 1, epoll_set = Map.empty\<rparr>"

text \<open>The handler of descriptor 5 replaces its own registration; the second event of the batch is for the old one.\<close>

definition ex_io_ops :: "string \<Rightarrow> u32 \<Rightarrow> string io_op list" where
  "ex_io_ops h m = (if h = ''book'' then [IoRemove 5, IoAdd 5 1 ''orders''] else [])"

section \<open>Properties\<close>

text \<open>
  C34: running the timers ends and runs the due ones, once each and in the order of their due times. When the tasks cancel
  timers and add only timers that are not due yet, \<open>runTimers\<close> returns, it has run exactly the timers that were due and that
  no earlier task cancelled, and no due timer is left.
\<close>

theorem due_timers_run_once_in_order:
  assumes "timers_ok q" and "\<forall>a. list_all (adds_later now) (ops a)"
  shows "\<exists>q'. runTimers (\<lambda>a. fold timer_apply (ops a)) now (q, fired)
                = Some (q', fired @ expected_runs ops [] (due_timers now q)) \<and>
    timers_ok q' \<and> (\<forall>t \<in> set (timers q'). now < fst t)"
  using assms(1)
proof (induction "length (due_timers now q)" arbitrary: q fired rule: less_induct)
  case less
  show ?case
  proof (cases "timers q")
    case Nil
    then show ?thesis using less.prems by (subst runTimers.simps) (simp add: due_timers_def)
  next
    case (Cons t ts)
    obtain due i a where t: "t = (due, i, a)" by (cases t)
    show ?thesis
    proof (cases "due \<le> now")
      case False
      then show ?thesis using less.prems sorted_none_due[OF less.prems Cons] Cons t by (subst runTimers.simps) simp
    next
      case True
      let ?q = "q\<lparr>timers := ts\<rparr>" and ?r = "fold timer_apply (ops a) (q\<lparr>timers := ts\<rparr>)"
      have d: "due_timers now q = t # due_timers now ?q" using True by (simp add: due_timers_def Cons t)
      have r: "due_timers now ?r = filter (\<lambda>t. fst (snd t) \<notin> set (cancelled_ids (ops a))) (due_timers now ?q)"
        using assms(2) timer_applies_due by blast
      have "timers_ok ?r" using timer_applies_ok[OF pop_ok[OF less.prems Cons]] by simp
      moreover have "length (due_timers now ?r) < length (due_timers now q)"
        by (simp add: d r le_imp_less_Suc)
      ultimately obtain q' where q':
        "runTimers (\<lambda>a. fold timer_apply (ops a)) now (?r, fired @ [i])
           = Some (q', (fired @ [i]) @ expected_runs ops [] (due_timers now ?r))"
        "timers_ok q'" "\<forall>t \<in> set (timers q'). now < fst t" using less.hyps by blast
      moreover have "expected_runs ops [] (due_timers now q) = i # expected_runs ops [] (due_timers now ?r)"
        using expected_runs_filter[of ops "cancelled_ids (ops a)" "[]"] by (simp add: d r t)
      moreover have "runTimers (\<lambda>a. fold timer_apply (ops a)) now (q, fired)
          = runTimers (\<lambda>a. fold timer_apply (ops a)) now (?r, fired @ [i])"
        by (subst runTimers.simps) (simp add: Cons t True)
      ultimately show ?thesis by simp
    qed
  qed
qed

theorem due_timers_run_once_in_order_witness:
  "\<exists>q'. runTimers (\<lambda>a. fold timer_apply (ex_timer_ops a)) 10 (ex_timers, []) = Some (q', [1, 3]) \<and> (\<forall>t \<in> set (timers q'). 10 < fst t)"
proof -
  have "timers_ok ex_timers" by (simp add: ex_timers_def addTimer_ok new_timers_ok)
  moreover have "\<forall>a. list_all (adds_later 10) (ex_timer_ops a)" by (simp add: ex_timer_ops_def)
  moreover have "expected_runs ex_timer_ops [] (due_timers 10 ex_timers) = [1, 3]"
    by (simp add: ex_timers_def ex_timer_ops_def due_timers_def addTimer_def new_timers_def Let_def)
  ultimately show ?thesis
    using due_timers_run_once_in_order[of ex_timers 10 ex_timer_ops "[]"] by auto
qed

text \<open>
  An event collected from epoll is delivered only to the handler that was registered for its
  descriptor when the batch began, even when earlier handlers of the batch close descriptors and register new ones under
  the same number.
\<close>

lemma events_reach_their_own_registration:
  assumes "unat (nextGeneration s) + k * length evs < 2 ^ 32" and "\<forall>h e. length (ops h e) \<le> k"
    and "list_all (\<lambda>ev. (ucast (drop_bit 32 (fst ev)) :: u32) < nextGeneration s) evs"
    and "dispatch ops evs s = (s', calls)" and "(fd, h, m) \<in> set calls"
  shows "\<exists>r. registrations s fd = Some r \<and> reg_handler r = h"
  using dispatch_since[OF since_refl assms(2,1,3), of fd h m] assms(4,5) by simp

text \<open>
  A timer 25 to 49 days ahead makes \<open>nextTimeoutMs\<close> narrow its distance to a negative \<open>int\<close>: a poll that
  asks not to wait then waits without limit.
\<close>

lemma far_timer_blocks_poll:
  assumes "timers q = (due, x) # ts" and "2 ^ 31 \<le> due - now" and "due - now < 2 ^ 32"
  shows "nextTimeoutMs now 0 q < 0"
proof -
  have "due - now + 2 ^ 31 = (due - now - 2 ^ 31) + 2 ^ 32" by simp
  then have "(due - now + 2 ^ 31) mod 2 ^ 32 = due - now - 2 ^ 31"
    using assms(2,3) by (simp only: mod_add_self2) simp
  then show ?thesis using assms by (simp add: nextTimeoutMs_def Let_def wrap32_def)
qed

end
