(* ===== verification/HL_Http.thy ===== *)
theory HL_Http
  imports HL_Types HL_Json
begin

text \<open>
  URLs and HTTP responses (\<open>include/hl/net/Url.h\<close>, \<open>src/net/Url.cpp\<close>, \<open>include/hl/net/HttpCodec.h\<close>,
  \<open>src/net/HttpCodec.cpp\<close>): \<open>Url::parse\<close> and the incremental response parser with its
  fixed-length, chunked and read-until-close bodies. \<open>std::from_chars\<close> and the searches of
  \<open>std::string_view\<close> are written out; positions are \<open>nat\<close> and \<open>npos\<close> is \<open>None\<close>. Allocation is outside the model: the
  \<open>body.reserve(length)\<close> of a response with a huge \<open>Content-Length\<close>, which throws, is not a branch of \<open>body_phase\<close>.
\<close>

section \<open>Searching and numbers\<close>

fun find_sub :: "string \<Rightarrow> string \<Rightarrow> nat option" where
  "find_sub pat [] = (if pat = [] then Some 0 else None)"
| "find_sub pat (c # s) = (if take (length pat) (c # s) = pat then Some 0 else map_option Suc (find_sub pat s))"

definition find_from :: "string \<Rightarrow> nat \<Rightarrow> string \<Rightarrow> nat option" where
  "find_from pat i s = map_option (\<lambda>k. i + k) (find_sub pat (drop i s))"

definition starts_with :: "string \<Rightarrow> string \<Rightarrow> bool" where
  "starts_with pre s \<longleftrightarrow> take (length pre) s = pre"

definition hex_value :: "char \<Rightarrow> nat option" where
  "hex_value c =
     (let n = (of_char c :: nat) in
      if 48 \<le> n \<and> n \<le> 57 then Some (n - 48)
      else if 97 \<le> n \<and> n \<le> 102 then Some (n - 87)
      else if 65 \<le> n \<and> n \<le> 70 then Some (n - 55) else None)"

definition digits_of :: "nat \<Rightarrow> string \<Rightarrow> nat list" where
  "digits_of base s =
     map (the \<circ> hex_value) (takeWhile (\<lambda>c. case hex_value c of Some d \<Rightarrow> d < base | None \<Rightarrow> False) s)"

text \<open>\<open>std::from_chars\<close> into an unsigned type of the given range; \<open>None\<close> is an error code.\<close>

definition from_chars :: "nat \<Rightarrow> nat \<Rightarrow> string \<Rightarrow> nat option" where
  "from_chars base bound s =
     (let ds = digits_of base s; v = foldl (\<lambda>a d. a * base + d) 0 ds
      in if ds = [] \<or> v \<ge> bound then None else Some v)"

text \<open>Into an \<open>int\<close>, which also takes a minus sign.\<close>

definition from_chars_int :: "string \<Rightarrow> int option" where
  "from_chars_int s =
     (case s of
        [] \<Rightarrow> None
      | c # t \<Rightarrow> if c = CHR ''-'' then map_option (\<lambda>n. - int n) (from_chars 10 (2 ^ 31 + 1) t)
                 else map_option int (from_chars 10 (2 ^ 31) s))"

text \<open>\<open>std::to_string\<close> of an \<open>int\<close>.\<close>

definition int_to_string :: "int \<Rightarrow> string" where
  "int_to_string i = (if i < 0 then CHR ''-'' # emit_int (nat (- i)) [] else emit_int (nat i) [])"

text \<open>\<open>include/hl/Version.h\<close>.\<close>

definition kVersionString :: string where
  "kVersionString = ''1.5.0''"

section \<open>URLs\<close>

record url =
  scheme :: string
  host :: string
  port :: u16
  path :: string
  secure :: bool

definition rfind_char :: "char \<Rightarrow> string \<Rightarrow> nat option" where
  "rfind_char c s = (if c \<in> set s then Some (length s - 1 - length (takeWhile (\<lambda>x. x \<noteq> c) (rev s))) else None)"

definition url_parse :: "string \<Rightarrow> url option" where
  "url_parse txt =
     (case find_sub ''://'' txt of None \<Rightarrow> None | Some schemeEnd \<Rightarrow>
        let sch = take schemeEnd txt;
            sec = (sch = ''https'' \<or> sch = ''wss'') in
        if \<not> sec \<and> sch \<noteq> ''http'' \<and> sch \<noteq> ''ws'' then None
        else
          let defaultPort = (if sec then 443 else 80);
              rest = drop (schemeEnd + 3) txt;
              pathStart = find_sub ''/'' rest;
              authority = (case pathStart of Some i \<Rightarrow> take i rest | None \<Rightarrow> rest);
              pth = (case pathStart of Some i \<Rightarrow> drop i rest | None \<Rightarrow> ''/'')
          in case rfind_char CHR '':'' authority of
               Some colon \<Rightarrow>
                 (case from_chars 10 (2 ^ 32) (drop (colon + 1) authority) of
                    None \<Rightarrow> None
                  | Some p \<Rightarrow>
                      if p = 0 \<or> p > 65535 then None
                      else if take colon authority = [] then None
                      else Some \<lparr>scheme = sch, host = take colon authority, port = word_of_nat p, path = pth, secure = sec\<rparr>)
             | None \<Rightarrow>
                 if authority = [] then None
                 else Some \<lparr>scheme = sch, host = authority, port = defaultPort, path = pth, secure = sec\<rparr>)"

section \<open>Responses\<close>

record httpResponse =
  http_status :: int
  http_body :: string
  keepAlive :: bool
  retryAfterSeconds :: int

definition no_response :: httpResponse where
  "no_response = \<lparr>http_status = 0, http_body = [], keepAlive = True, retryAfterSeconds = 0\<rparr>"

datatype http_result = NeedMore | Complete | HttpError

datatype phase = PHead | FixedBody | ChunkSize | ChunkData | ChunkDataCrlf | Trailer | UntilClose | Done

record http_parser =
  phase_of :: phase
  head_text :: string
  line_text :: string
  remaining :: nat
  response :: httpResponse
  http_error :: string

definition http_reset :: http_parser where
  "http_reset = \<lparr>phase_of = PHead, head_text = [], line_text = [], remaining = 0, response = no_response, http_error = []\<rparr>"

definition to_lower :: "char \<Rightarrow> char" where
  "to_lower c = (let n = (of_char c :: nat) in if 65 \<le> n \<and> n \<le> 90 then char_of (n + 32) else c)"

definition iequalsPrefix :: "string \<Rightarrow> string \<Rightarrow> bool" where
  "iequalsPrefix line nm \<longleftrightarrow> length nm \<le> length line \<and> map to_lower (take (length nm) line) = map to_lower nm"

definition http_trim :: "string \<Rightarrow> string" where
  "http_trim s =
     rev (dropWhile (\<lambda>c. c = CHR '' '' \<or> c = CHR 0x09 \<or> c = CHR 0x0D)
       (rev (dropWhile (\<lambda>c. c = CHR '' '' \<or> c = CHR 0x09) s)))"

definition containsTokenCi :: "string \<Rightarrow> string \<Rightarrow> bool" where
  "containsTokenCi val tok \<longleftrightarrow> find_sub tok (map to_lower val) \<noteq> None"

definition crlf :: string where
  "crlf = [CHR 0x0D, CHR 0x0A]"

text \<open>The flags and the length that the header lines set, with the response they change.\<close>

record head_state =
  hs_chunked :: bool
  hs_length :: "nat option"
  hs_response :: httpResponse

text \<open>One header line; \<open>None\<close> is the malformed \<open>Content-Length\<close>.\<close>

definition header_line :: "string \<Rightarrow> head_state \<Rightarrow> head_state option" where
  "header_line line hs =
     (if CHR '':'' \<notin> set line then Some hs
      else
        let val = http_trim (drop (length (takeWhile (\<lambda>c. c \<noteq> CHR '':'') line) + 1) line) in
        if iequalsPrefix line ''content-length:'' then
          (case from_chars 10 (2 ^ 64) val of None \<Rightarrow> None | Some v \<Rightarrow> Some (hs\<lparr>hs_length := Some v\<rparr>))
        else if iequalsPrefix line ''transfer-encoding:'' then Some (hs\<lparr>hs_chunked := containsTokenCi val ''chunked''\<rparr>)
        else if iequalsPrefix line ''retry-after:'' then
          (case from_chars 10 (2 ^ 64) val of
             None \<Rightarrow> Some hs
           | Some n \<Rightarrow> Some (hs\<lparr>hs_response := (hs_response hs)\<lparr>retryAfterSeconds := wrap32 (int n)\<rparr>\<rparr>))
        else if iequalsPrefix line ''connection:'' then
          Some (if containsTokenCi val ''close'' then hs\<lparr>hs_response := (hs_response hs)\<lparr>keepAlive := False\<rparr>\<rparr>
                else if containsTokenCi val ''keep-alive'' then hs\<lparr>hs_response := (hs_response hs)\<lparr>keepAlive := True\<rparr>\<rparr>
                else hs)
        else Some hs)"

text \<open>The header lines from a position on: each ends with a line break, an empty one ends the head. The flag is
  \<open>False\<close> after a malformed line.\<close>

function header_lines :: "string \<Rightarrow> head_state \<Rightarrow> head_state \<times> bool" where
  "header_lines rest hs =
     (case find_sub crlf rest of
        None \<Rightarrow> (hs, True)
      | Some eol \<Rightarrow>
          if eol = 0 then (hs, True)
          else case header_line (take eol rest) hs of
                 None \<Rightarrow> (hs, False)
               | Some hs \<Rightarrow> header_lines (drop (eol + 2) rest) hs)"
  by pat_completeness auto
termination
proof (relation "measure (\<lambda>(rest, hs). length rest)")
  fix rest :: string and hs hs' :: head_state and eol :: nat
  assume "find_sub crlf rest = Some eol" and "eol \<noteq> 0"
  then have "rest \<noteq> []" by (auto simp: crlf_def)
  then show "((drop (eol + 2) rest, hs'), (rest, hs)) \<in> measure (\<lambda>(rest, hs). length rest)" by simp
qed simp

declare header_lines.simps [simp del]

text \<open>The phase that reads the body, from the status code and the headers.\<close>

definition body_phase :: "int \<Rightarrow> head_state \<Rightarrow> http_parser \<Rightarrow> http_parser" where
  "body_phase code hs p =
     (if code = 204 \<or> code = 304 \<or> (code \<ge> 100 \<and> code < 200) then p\<lparr>phase_of := Done\<rparr>
      else if hs_chunked hs then p\<lparr>phase_of := ChunkSize\<rparr>
      else case hs_length hs of
             Some n \<Rightarrow> p\<lparr>remaining := n, phase_of := (if n = 0 then Done else FixedBody)\<rparr>
           | None \<Rightarrow> p\<lparr>response := (response p)\<lparr>keepAlive := False\<rparr>, phase_of := UntilClose\<rparr>)"

definition parseHead :: "http_parser \<Rightarrow> http_parser \<times> http_result" where
  "parseHead p =
     (let head = head_text p;
          eol = find_sub crlf head;
          statusLine = (case eol of Some i \<Rightarrow> take i head | None \<Rightarrow> head);
          rest = (case eol of Some i \<Rightarrow> drop (i + 2) head | None \<Rightarrow> drop 1 head) in
      if \<not> starts_with ''HTTP/1.'' statusLine \<or> length statusLine < 12
      then (p\<lparr>http_error := ''malformed status line''\<rparr>, HttpError)
      else case from_chars_int (take 3 (drop 9 statusLine)) of
        None \<Rightarrow> (p\<lparr>http_error := ''malformed status code''\<rparr>, HttpError)
      | Some code \<Rightarrow>
          let r = (response p)\<lparr>http_status := code, keepAlive := \<not> starts_with ''HTTP/1.0'' statusLine\<rparr> in
          case header_lines rest \<lparr>hs_chunked = False, hs_length = None, hs_response = r\<rparr> of
            (hs, False) \<Rightarrow> (p\<lparr>response := hs_response hs, http_error := ''bad content-length''\<rparr>, HttpError)
          | (hs, True) \<Rightarrow>
              (body_phase code hs (p\<lparr>response := hs_response hs\<rparr>), NeedMore))"

definition append_body :: "string \<Rightarrow> http_parser \<Rightarrow> http_parser" where
  "append_body s p = p\<lparr>response := (response p)\<lparr>http_body := http_body (response p) @ s\<rparr>\<rparr>"

text \<open>One turn of the loop on the unread bytes; \<open>None\<close> is an error return.\<close>

definition head_turn :: "string \<Rightarrow> http_parser \<Rightarrow> http_parser \<times> (string option)" where
  "head_turn xs p =
     (let before = length (head_text p);
          head = head_text p @ xs;
          searchFrom = (if before \<ge> 3 then before - 3 else 0) in
      case find_from (crlf @ crlf) searchFrom head of
        None \<Rightarrow> if length head > 64 * 1024 then (p\<lparr>head_text := head, http_error := ''response head too large''\<rparr>, None)
                else (p\<lparr>head_text := head\<rparr>, Some [])
      | Some e \<Rightarrow>
          let headLen = e + 4 in
          case parseHead (p\<lparr>head_text := take headLen head\<rparr>) of
            (p, HttpError) \<Rightarrow> (p, None)
          | (p, _) \<Rightarrow> (p, Some (drop (headLen - before) xs)))"

definition line_turn :: "char \<Rightarrow> http_parser \<Rightarrow> http_parser \<times> bool" where
  "line_turn c p =
     (if c \<noteq> CHR 0x0A then
        let p = p\<lparr>line_text := line_text p @ [c]\<rparr>
        in if length (line_text p) > 1024 then (p\<lparr>http_error := ''chunk header too long''\<rparr>, False) else (p, True)
      else
        let line = http_trim (line_text p) in
        if phase_of p = Trailer then (p\<lparr>phase_of := (if line = [] then Done else Trailer), line_text := []\<rparr>, True)
        else
          case from_chars 16 (2 ^ 64) (takeWhile (\<lambda>c. c \<noteq> CHR '';'') line) of
            None \<Rightarrow> (p\<lparr>http_error := ''bad chunk size''\<rparr>, False)
          | Some n \<Rightarrow>
              if n = 0 then (p\<lparr>line_text := [], phase_of := Trailer\<rparr>, True)
              else (p\<lparr>line_text := [], remaining := n, phase_of := ChunkData\<rparr>, True))"

definition body_turn :: "string \<Rightarrow> http_parser \<Rightarrow> http_parser \<times> string" where
  "body_turn xs p =
     (let k = min (remaining p) (length xs);
          p = append_body (take k xs) (p\<lparr>remaining := remaining p - k\<rparr>)
      in (if remaining p = 0
          then if phase_of p = FixedBody then p\<lparr>phase_of := Done\<rparr> else p\<lparr>phase_of := ChunkDataCrlf, remaining := 2\<rparr>
          else p, drop k xs))"

definition crlf_turn :: "http_parser \<Rightarrow> http_parser" where
  "crlf_turn p =
     (let r = (remaining p + 2 ^ 64 - 1) mod 2 ^ 64
      in p\<lparr>remaining := r, phase_of := (if r = 0 then ChunkSize else ChunkDataCrlf)\<rparr>)"

definition rank :: "phase \<Rightarrow> nat" where
  "rank ph = (if ph = FixedBody \<or> ph = ChunkData then 1 else 0)"

text \<open>Every turn reads a byte, or leaves a body phase that has nothing left to read.\<close>

lemma find_from_ge: "find_from pat i s = Some e \<Longrightarrow> i \<le> e"
  by (auto simp: find_from_def)

lemma head_turn_reads:
  assumes "head_turn xs p = (p', Some r)" and "xs \<noteq> []"
  shows "length r < length xs"
proof (cases "find_from (crlf @ crlf) (if 3 \<le> length (head_text p) then length (head_text p) - 3 else 0) (head_text p @ xs)")
  case None
  then show ?thesis using assms by (auto simp: head_turn_def Let_def split: if_splits)
next
  case (Some e)
  have "length (head_text p) < e + 4" using find_from_ge[OF Some] by (auto split: if_splits)
  moreover have "r = drop (e + 4 - length (head_text p)) xs"
    using assms Some by (auto simp: head_turn_def Let_def split: prod.splits http_result.splits)
  ultimately show ?thesis using assms(2) by (cases xs) auto
qed

lemma body_turn_reads:
  assumes "body_turn xs p = (p', r)" and "xs \<noteq> []" and "phase_of p = FixedBody \<or> phase_of p = ChunkData"
  shows "length r < length xs \<or> length r = length xs \<and> rank (phase_of p') < rank (phase_of p)"
  using assms by (auto simp: body_turn_def Let_def append_body_def rank_def min_def split: if_splits)

text \<open>
  The loop, with the bytes that belong to the next response. After an error \<open>consumed\<close> is not set; the
  unread bytes are empty then.
\<close>

function http_feed :: "string \<Rightarrow> http_parser \<Rightarrow> http_result \<times> http_parser \<times> string" where
  "http_feed xs p =
     (if xs = [] \<or> phase_of p = Done then (if phase_of p = Done then Complete else NeedMore, p, xs)
      else case phase_of p of
        PHead \<Rightarrow>
          (case head_turn xs p of (p, None) \<Rightarrow> (HttpError, p, []) | (p, Some r) \<Rightarrow> http_feed r p)
      | FixedBody \<Rightarrow> (case body_turn xs p of (p, r) \<Rightarrow> http_feed r p)
      | ChunkData \<Rightarrow> (case body_turn xs p of (p, r) \<Rightarrow> http_feed r p)
      | ChunkSize \<Rightarrow> (case line_turn (hd xs) p of (p, ok) \<Rightarrow> if ok then http_feed (tl xs) p else (HttpError, p, []))
      | Trailer \<Rightarrow> (case line_turn (hd xs) p of (p, ok) \<Rightarrow> if ok then http_feed (tl xs) p else (HttpError, p, []))
      | ChunkDataCrlf \<Rightarrow> http_feed (tl xs) (crlf_turn p)
      | UntilClose \<Rightarrow> http_feed [] (append_body xs p)
      | Done \<Rightarrow> (Complete, p, xs))"
  by pat_completeness auto
termination
proof (relation "inv_image (less_than <*lex*> less_than) (\<lambda>(xs, p). (length xs, rank (phase_of p)))")
  show "wf (inv_image (less_than <*lex*> less_than) (\<lambda>(xs, p). (length xs, rank (phase_of p))))" by auto
qed (auto dest!: body_turn_reads[OF sym] head_turn_reads[OF sym])

declare http_feed.simps [simp del]

definition finishOnClose :: "http_parser \<Rightarrow> http_result \<times> http_parser" where
  "finishOnClose p =
     (if phase_of p = UntilClose \<or> phase_of p = Done then (Complete, p\<lparr>phase_of := Done\<rparr>)
      else (HttpError, p\<lparr>http_error := ''connection closed mid-response''\<rparr>))"

section \<open>Searching\<close>

definition occurs_at :: "string \<Rightarrow> string \<Rightarrow> nat \<Rightarrow> bool" where
  "occurs_at pat s k \<longleftrightarrow> k \<le> length s \<and> take (length pat) (drop k s) = pat"

lemma occurs_at_Cons: "occurs_at pat (c # s) (Suc k) = occurs_at pat s k"
  by (simp add: occurs_at_def)

lemma find_sub_first:
  "find_sub pat s = Some k \<Longrightarrow> occurs_at pat s k \<and> (\<forall>j < k. \<not> occurs_at pat s j)"
proof (induction s arbitrary: k)
  case (Cons c s)
  show ?case
  proof (cases "take (length pat) (c # s) = pat")
    case True
    then show ?thesis using Cons.prems by (simp add: occurs_at_def)
  next
    case False
    then obtain k' where k: "k = Suc k'" "find_sub pat s = Some k'" using Cons.prems by auto
    have "\<not> occurs_at pat (c # s) j" if "j < k" for j
      using that False Cons.IH[OF k(2)] k(1) by (cases j) (auto simp: occurs_at_Cons, simp add: occurs_at_def)
    then show ?thesis using Cons.IH[OF k(2)] k(1) by (simp add: occurs_at_Cons)
  qed
qed (auto simp: occurs_at_def split: if_splits)

lemma find_sub_occurs: "occurs_at pat s k \<Longrightarrow> \<exists>j \<le> k. find_sub pat s = Some j"
proof (induction s arbitrary: k)
  case (Cons c s)
  show ?case
  proof (cases k)
    case 0
    then show ?thesis using Cons.prems by (simp add: occurs_at_def)
  next
    case (Suc k')
    from Cons.IH[of k'] Cons.prems Suc obtain j where "j \<le> k'" "find_sub pat s = Some j" by (auto simp: occurs_at_Cons)
    then show ?thesis using Suc by auto
  qed
qed (auto simp: occurs_at_def)

lemma find_sub_eq:
  "occurs_at pat s k \<Longrightarrow> (\<And>j. j < k \<Longrightarrow> \<not> occurs_at pat s j) \<Longrightarrow> find_sub pat s = Some k"
  using find_sub_occurs[of pat s k] find_sub_first[of pat s] by (metis order_le_less)

lemma find_sub_None: "find_sub pat s = None \<longleftrightarrow> (\<forall>k. \<not> occurs_at pat s k)"
  using find_sub_first[of pat s] find_sub_occurs[of pat s] by (metis not_Some_eq)

lemma occurs_at_append: "k + length pat \<le> length s \<Longrightarrow> occurs_at pat (s @ t) k = occurs_at pat s k"
  by (auto simp: occurs_at_def)

lemma occurs_at_fits: "occurs_at pat s k \<Longrightarrow> k + length pat \<le> length s"
  unfolding occurs_at_def by (metis add.commute add_le_mono1 diff_le_mono le_add_diff_inverse length_drop length_take min.cobounded1 min_def nat_le_linear)

text \<open>A search that skips the part already searched finds the same place.\<close>

lemma find_from_resume:
  assumes "find_sub pat h = None" and "length pat = 4"
  shows "find_from pat (if length h \<ge> 3 then length h - 3 else 0) (h @ xs) = find_sub pat (h @ xs)"
proof -
  define i where "i = (if length h \<ge> 3 then length h - 3 else 0)"
  have i: "i \<le> length h" by (simp add: i_def)
  have no: "\<not> occurs_at pat (h @ xs) j" if "j < i" for j
    using that assms occurs_at_append[of j pat h xs] by (auto simp: i_def find_sub_None split: if_splits)
  have shift: "occurs_at pat (drop i (h @ xs)) k \<longleftrightarrow> occurs_at pat (h @ xs) (i + k)" for k
    using i by (auto simp: occurs_at_def add.commute)
  show ?thesis
  proof (cases "find_sub pat (drop i (h @ xs))")
    case None
    then have "\<not> occurs_at pat (h @ xs) k" for k
      using no[of k] shift[of "k - i"] by (cases "k < i") (auto simp: find_sub_None)
    then have "find_sub pat (h @ xs) = None" by (simp add: find_sub_None)
    then show ?thesis unfolding find_from_def i_def[symmetric] None by simp
  next
    case (Some k)
    have "find_sub pat (h @ xs) = Some (i + k)"
    proof (rule find_sub_eq)
      show "occurs_at pat (h @ xs) (i + k)" using find_sub_first[OF Some] shift by simp
      fix j assume "j < i + k"
      then show "\<not> occurs_at pat (h @ xs) j"
        using no[of j] find_sub_first[OF Some] shift[of "j - i"] by (cases "j < i") auto
    qed
    then show ?thesis unfolding find_from_def i_def[symmetric] Some by simp
  qed
qed

section \<open>Feeding in pieces\<close>

definition blank_line :: string where
  "blank_line = crlf @ crlf"

definition http_ok :: "http_parser \<Rightarrow> bool" where
  "http_ok p \<longleftrightarrow> (phase_of p = PHead \<longrightarrow> find_sub blank_line (head_text p) = None)"

text \<open>
  The head of the response fits the limit of 64 KiB: the limit is checked only while the blank line has not arrived, so it
  counts the head without the last byte of the blank line.
\<close>

definition head_fits :: "http_parser \<Rightarrow> string \<Rightarrow> bool" where
  "head_fits p xs \<longleftrightarrow> (phase_of p = PHead \<longrightarrow>
     (case find_sub blank_line (head_text p @ xs) of
        None \<Rightarrow> length (head_text p @ xs) \<le> 64 * 1024
      | Some e \<Rightarrow> e + 3 \<le> 64 * 1024))"

text \<open>
  The owner of a parser feeds it what a socket delivers, until a response is complete or broken; the bytes behind a
  complete response are left over.
\<close>

fun feed_pieces :: "string list \<Rightarrow> http_parser \<Rightarrow> http_result \<times> http_parser \<times> string" where
  "feed_pieces [] p = http_feed [] p"
| "feed_pieces (piece # pieces) p =
     (case http_feed piece p of
        (NeedMore, q, r) \<Rightarrow> feed_pieces pieces q
      | (Complete, q, r) \<Rightarrow> (Complete, q, r @ concat pieces)
      | (HttpError, q, r) \<Rightarrow> (HttpError, q, r))"

lemma length_blank_line [simp]: "length blank_line = 4"
  by (simp add: blank_line_def crlf_def)

lemma head_turn_eq:
  assumes "http_ok p" and "phase_of p = PHead"
  shows "head_turn xs p = (case find_sub blank_line (head_text p @ xs) of
      None \<Rightarrow> if length (head_text p @ xs) > 64 * 1024
              then (p\<lparr>head_text := head_text p @ xs, http_error := ''response head too large''\<rparr>, None)
              else (p\<lparr>head_text := head_text p @ xs\<rparr>, Some [])
    | Some e \<Rightarrow> (case parseHead (p\<lparr>head_text := take (e + 4) (head_text p @ xs)\<rparr>) of
        (p', HttpError) \<Rightarrow> (p', None)
      | (p', _) \<Rightarrow> (p', Some (drop (e + 4 - length (head_text p)) xs))))"
  using find_from_resume[of blank_line "head_text p" xs] assms
  unfolding head_turn_def Let_def blank_line_def[symmetric] http_ok_def by simp

lemma body_turn_append:
  "body_turn (a @ b) p =
     (if remaining p > length a then body_turn b (fst (body_turn a p)) else (fst (body_turn a p), snd (body_turn a p) @ b))"
proof (cases "remaining p > length a")
  case True
  let ?p = "append_body a (p\<lparr>remaining := remaining p - length a\<rparr>)"
  have a: "body_turn a p = (?p, [])" using True by (simp add: body_turn_def Let_def append_body_def)
  have m: "min (remaining p) (length a + length b) = length a + min (remaining p - length a) (length b)" using True by simp
  have "take (length a + k) (a @ b) = a @ take k b" "drop (length a + k) (a @ b) = drop k b" for k by simp_all
  then show ?thesis using True unfolding a fst_conv body_turn_def Let_def length_append m
    by (auto simp: append_body_def min_def)
next
  case False
  then show ?thesis by (simp add: body_turn_def Let_def min_def)
qed

lemma body_phase_not_head: "phase_of (body_phase code hs p) \<noteq> PHead"
  by (simp add: body_phase_def split: option.split)

lemma parseHead_phase:
  assumes "parseHead p = (p', r)" and "r \<noteq> HttpError"
  shows "phase_of p' \<noteq> PHead"
proof -
  have "snd (parseHead p) = HttpError \<or> phase_of (fst (parseHead p)) \<noteq> PHead"
    unfolding parseHead_def Let_def
    by (simp add: body_phase_not_head split: option.split prod.split bool.split)
  then show ?thesis using assms by simp
qed

lemma http_feed_Nil [simp]: "http_feed [] p = (if phase_of p = Done then Complete else NeedMore, p, [])"
  by (simp add: http_feed.simps)

lemma http_feed_done: "phase_of p = Done \<Longrightarrow> http_feed xs p = (Complete, p, xs)"
  by (simp add: http_feed.simps)

definition feed_size :: "string \<Rightarrow> http_parser \<Rightarrow> nat" where
  "feed_size xs p = 2 * length xs + rank (phase_of p)"

definition feeds_on :: "string \<Rightarrow> string \<Rightarrow> http_parser \<Rightarrow> bool" where
  "feeds_on b a p \<longleftrightarrow> (case http_feed a p of (st, p', r) \<Rightarrow>
     (st = NeedMore \<longrightarrow> r = [] \<and> http_ok p' \<and> (head_fits p (a @ b) \<longrightarrow> head_fits p' b) \<and> http_feed (a @ b) p = http_feed b p') \<and>
     (st = Complete \<longrightarrow> http_feed (a @ b) p = (Complete, p', r @ b)) \<and>
     (st = HttpError \<longrightarrow> head_fits p (a @ b) \<longrightarrow> r = [] \<and> http_feed (a @ b) p = (HttpError, p', [])))"

lemma head_fits_body [simp]: "phase_of p \<noteq> PHead \<Longrightarrow> head_fits p xs"
  by (simp add: head_fits_def)

lemma feeds_on_step:
  "http_feed a p = http_feed a' q \<Longrightarrow> http_feed (a @ b) p = http_feed (a' @ b) q \<Longrightarrow> phase_of q \<noteq> PHead \<Longrightarrow>
   feeds_on b a' q \<Longrightarrow> feeds_on b a p"
  by (auto simp: feeds_on_def split: prod.splits)

text \<open>A piece that does not hold the end of a fitting head is not refused.\<close>

lemma head_fits_prefix:
  assumes "head_fits p (a @ b)" and "phase_of p = PHead" and "find_sub blank_line (head_text p @ a) = None"
  shows "length (head_text p @ a) \<le> 64 * 1024"
proof (cases "find_sub blank_line (head_text p @ a @ b)")
  case None
  then show ?thesis using assms(1,2) by (simp add: head_fits_def)
next
  case (Some e)
  have "length (head_text p @ a) < e + 4"
    using find_sub_first[OF Some] occurs_at_append[of e blank_line "head_text p @ a" b] assms(3)
    by (cases "e + 4 \<le> length (head_text p @ a)") (auto simp: find_sub_None)
  then show ?thesis using assms(1,2) Some by (simp add: head_fits_def)
qed

lemma feeds_on_head:
  assumes ok: "http_ok p" and ph: "phase_of p = PHead" and ne: "a \<noteq> []"
    and ih: "\<And>r q. length r < length a \<Longrightarrow> http_ok q \<Longrightarrow> feeds_on b r q"
  shows "feeds_on b a p"
proof (cases "find_sub blank_line (head_text p @ a)")
  case (Some e)
  have fits: "e + 4 \<le> length (head_text p @ a)" using find_sub_first[OF Some] occurs_at_fits[of blank_line "head_text p @ a" e] by simp
  have later: "length (head_text p) < e + 4"
    using find_sub_first[OF Some] occurs_at_append[of e blank_line "head_text p" a] ok ph
    by (cases "e + 4 \<le> length (head_text p)") (auto simp: http_ok_def find_sub_None)
  have Some': "find_sub blank_line (head_text p @ a @ b) = Some e"
    using find_sub_first[OF Some] occurs_at_append[of _ blank_line "head_text p @ a" b] fits
    by (intro find_sub_eq) auto
  have tk: "take (e + 4) (head_text p @ a @ b) = take (e + 4) (head_text p @ a)" using fits by simp
  obtain q res where pq: "parseHead (p\<lparr>head_text := take (e + 4) (head_text p @ a)\<rparr>) = (q, res)"
    by (cases "parseHead (p\<lparr>head_text := take (e + 4) (head_text p @ a)\<rparr>)")
  let ?r = "drop (e + 4 - length (head_text p)) a"
  have dr: "drop (e + 4 - length (head_text p)) (a @ b) = ?r @ b" using fits by simp
  have ta: "head_turn a p = (if res = HttpError then (q, None) else (q, Some ?r))"
    unfolding head_turn_eq[OF ok ph] Some option.case pq by (cases res) simp_all
  have tb: "head_turn (a @ b) p = (if res = HttpError then (q, None) else (q, Some (?r @ b)))"
    unfolding head_turn_eq[OF ok ph] Some' option.case tk pq dr by (cases res) simp_all
  note f = http_feed.simps[of a p] http_feed.simps[of "a @ b" p]
  show ?thesis
  proof (cases "res = HttpError")
    case True
    then show ?thesis using ph ne ta tb by (simp add: feeds_on_def f)
  next
    case False
    have q: "http_ok q" using parseHead_phase[OF pq False] by (simp add: http_ok_def)
    have "http_feed a p = http_feed ?r q" "http_feed (a @ b) p = http_feed (?r @ b) q"
      using ph ne ta tb False by (simp_all add: f del: drop_append)
    then show ?thesis using parseHead_phase[OF pq False]
      by (rule feeds_on_step) (use later ne q in \<open>intro ih; cases a; auto\<close>)
  qed
next
  case None
  show ?thesis
  proof (cases "length (head_text p @ a) > 64 * 1024")
    case True
    then have "\<not> head_fits p (a @ b)" using head_fits_prefix[OF _ ph None, of b] by auto
    then show ?thesis using True ok ph ne None by (simp add: feeds_on_def http_feed.simps[of a p] head_turn_eq)
  next
    case False
    let ?q = "p\<lparr>head_text := head_text p @ a\<rparr>"
    have q: "http_ok ?q" "phase_of ?q = PHead" using None ph by (simp_all add: http_ok_def)
    have fa: "http_feed a p = (NeedMore, ?q, [])" using ok ph ne None False by (simp add: http_feed.simps[of a p] head_turn_eq)
    have "http_feed (a @ b) p = http_feed b ?q"
    proof (cases "b = []")
      case False
      have "e + 4 > length (head_text p @ a)" if "find_sub blank_line (head_text p @ a @ b) = Some e" for e
        using find_sub_first[OF that] occurs_at_append[of e blank_line "head_text p @ a" b] None
        by (cases "e + 4 \<le> length (head_text p @ a)") (auto simp: find_sub_None)
      then have "head_turn (a @ b) p = head_turn b ?q"
        using ok ph q by (auto simp: head_turn_eq split: option.split prod.split http_result.split)
      then show ?thesis using ph q False ne by (simp add: http_feed.simps[of "a @ b" p] http_feed.simps[of b ?q])
    qed (use fa ph in simp)
    moreover have "head_fits p (a @ b) \<longrightarrow> head_fits ?q b" using ph by (simp add: head_fits_def split: option.split)
    ultimately show ?thesis using fa q by (simp add: feeds_on_def)
  qed
qed

lemma feeds_on_body:
  assumes ph: "phase_of p = FixedBody \<or> phase_of p = ChunkData" and ne: "a \<noteq> []"
    and ih: "\<And>r q. feed_size r q < feed_size a p \<Longrightarrow> http_ok q \<Longrightarrow> feeds_on b r q"
  shows "feeds_on b a p"
proof -
  obtain q r where t: "body_turn a p = (q, r)" by (cases "body_turn a p")
  have fa: "http_feed a p = http_feed r q" using ph ne t by (auto simp: http_feed.simps[of a p])
  show ?thesis
  proof (cases "remaining p > length a")
    case True
    have q: "r = []" "phase_of q = phase_of p" using t True by (auto simp: body_turn_def Let_def append_body_def)
    have fa': "http_feed a p = (NeedMore, q, [])" using fa q ph by auto
    have "body_turn (a @ b) p = body_turn b q" using body_turn_append[of a b p] True t by simp
    then have "http_feed (a @ b) p = http_feed b q" if "b \<noteq> []"
      using that q ph ne by (auto simp: http_feed.simps[of "a @ b" p] http_feed.simps[of b q])
    then show ?thesis using fa' q ph by (cases "b = []") (auto simp: feeds_on_def http_ok_def)
  next
    case False
    have "body_turn (a @ b) p = (q, r @ b)" using body_turn_append[of a b p] False t by simp
    then have "http_feed (a @ b) p = http_feed (r @ b) q" using ph ne by (auto simp: http_feed.simps[of "a @ b" p])
    moreover have "feed_size r q < feed_size a p"
      using body_turn_reads[OF t ne ph] by (auto simp: feed_size_def rank_def split: if_splits)
    moreover have "phase_of q \<noteq> PHead" using t ph by (auto simp: body_turn_def Let_def append_body_def split: if_splits)
    ultimately show ?thesis using fa ih by (intro feeds_on_step[of a p r q b]) (auto simp: http_ok_def)
  qed
qed

lemma feeds_on_line:
  assumes ph: "phase_of p = ChunkSize \<or> phase_of p = Trailer" and ne: "a \<noteq> []"
    and ih: "\<And>r q. length r < length a \<Longrightarrow> http_ok q \<Longrightarrow> feeds_on b r q"
  shows "feeds_on b a p"
proof -
  obtain q ok where t: "line_turn (hd a) p = (q, ok)" by (cases "line_turn (hd a) p")
  have f: "http_feed (a @ x) p = (if ok then http_feed (tl a @ x) q else (HttpError, q, []))" for x
    using ph ne t by (auto simp: http_feed.simps[of "a @ x" p])
  have "phase_of q \<noteq> PHead" using t ph by (auto simp: line_turn_def Let_def split: if_splits option.splits)
  then show ?thesis
  proof (cases ok)
    case True
    then show ?thesis using f[of b] f[of "[]"] ih[of "tl a" q] ne \<open>phase_of q \<noteq> PHead\<close>
      by (intro feeds_on_step[of a p "tl a" q b]) (auto simp: http_ok_def)
  qed (use f[of "[]"] f[of b] in \<open>simp add: feeds_on_def\<close>)
qed

lemma http_feed_in_pieces: "http_ok p \<Longrightarrow> feeds_on b a p"
proof (induction "feed_size a p" arbitrary: a p rule: less_induct)
  case less
  show ?case
  proof (cases "a = [] \<or> phase_of p = Done")
    case True
    then show ?thesis using less.prems by (cases "phase_of p = Done") (auto simp: feeds_on_def http_feed_done)
  next
    case False
    then have ne: "a \<noteq> []" "phase_of p \<noteq> Done" by auto
    have ih: "feeds_on b r q" if "length r < length a" "http_ok q" for r q
      using less.hyps[of r q] that by (simp add: feed_size_def rank_def split: if_splits)
    show ?thesis
    proof (cases "phase_of p")
      case PHead
      then show ?thesis using feeds_on_head[OF less.prems PHead ne(1) ih] by blast
    next
      case ChunkDataCrlf
      have "http_feed (a @ x) p = http_feed (tl a @ x) (crlf_turn p)" for x
        using ChunkDataCrlf ne by (simp add: http_feed.simps[of "a @ x" p])
      from this[of "[]"] this[of b] show ?thesis using ih[of "tl a" "crlf_turn p"] ne
        by (intro feeds_on_step[of a p "tl a" "crlf_turn p" b]) (auto simp: http_ok_def crlf_turn_def Let_def)
    next
      case UntilClose
      have "http_feed (a @ x) p = (NeedMore, append_body (a @ x) p, [])" for x
        using UntilClose ne by (simp add: http_feed.simps[of "a @ x" p]) (simp add: append_body_def)
      from this[of "[]"] this[of b] show ?thesis using UntilClose
        by (cases "b = []") (auto simp: feeds_on_def http_ok_def append_body_def http_feed.simps[of b])
    qed (use feeds_on_body[of p a b] feeds_on_line[of p a b] ne ih less.hyps in auto)
  qed
qed

lemma feed_pieces_whole:
  "http_ok p \<Longrightarrow> head_fits p (concat pieces) \<Longrightarrow> feed_pieces pieces p = http_feed (concat pieces) p"
proof (induction pieces arbitrary: p)
  case (Cons a pieces)
  obtain st q r where f: "http_feed a p = (st, q, r)" by (cases "http_feed a p")
  have "feeds_on (concat pieces) a p" by (rule http_feed_in_pieces[OF Cons.prems(1)])
  then show ?case using Cons.IH[of q] Cons.prems(2) by (cases st) (simp_all add: feeds_on_def f)
qed simp

text \<open>A complete response with the first bytes of the next one, cut into pieces in the middle of the line breaks.\<close>

definition ex_pieces :: "string list" where
  "ex_pieces = [''HTTP/1.1 2'', ''00 OK'' @ [CHR 0x0D], CHR 0x0A # ''Content-Length: 3'' @ [CHR 0x0D, CHR 0x0A, CHR 0x0D], [CHR 0x0A, CHR ''a''], ''bcHT'']"

lemma http_reset_ok: "http_ok http_reset"
  by (simp add: http_ok_def http_reset_def blank_line_def crlf_def)

lemma ex_pieces_fit: "head_fits http_reset (concat ex_pieces)"
  by (simp add: head_fits_def http_reset_def blank_line_def crlf_def ex_pieces_def)

section \<open>Bodies\<close>

lemma feed_line:
  assumes "phase_of p = ChunkSize \<or> phase_of p = Trailer" and "CHR 0x0A \<notin> set l" and "length (line_text p) + length l \<le> 1024"
  shows "http_feed (l @ CHR 0x0A # rest) p =
    (case line_turn (CHR 0x0A) (p\<lparr>line_text := line_text p @ l\<rparr>) of (q, ok) \<Rightarrow> if ok then http_feed rest q else (HttpError, q, []))"
  using assms
proof (induction l arbitrary: p)
  case Nil
  then show ?case by (auto simp: http_feed.simps[of "CHR 0x0A # rest" p] split: prod.split)
next
  case (Cons c l)
  let ?p = "p\<lparr>line_text := line_text p @ [c]\<rparr>"
  have "line_turn c p = (?p, True)" using Cons.prems by (auto simp: line_turn_def Let_def)
  then have "http_feed ((c # l) @ CHR 0x0A # rest) p = http_feed (l @ CHR 0x0A # rest) ?p"
    using Cons.prems(1) by (auto simp: http_feed.simps[of "c # l @ CHR 0x0A # rest" p])
  then show ?case using Cons.IH[of ?p] Cons.prems by simp
qed

definition chunk_line :: "string \<Rightarrow> nat \<Rightarrow> bool" where
  "chunk_line l n \<longleftrightarrow> CHR 0x0A \<notin> set l \<and> length l \<le> 1024 \<and>
     from_chars 16 (2 ^ 64) (takeWhile (\<lambda>c. c \<noteq> CHR '';'') (http_trim l)) = Some n"

definition chunk_text :: "string \<times> string \<Rightarrow> string" where
  "chunk_text c = fst c @ CHR 0x0A # snd c @ crlf"

lemma feed_chunk_line:
  assumes "phase_of p = ChunkSize" and "line_text p = []" and "chunk_line l n"
  shows "http_feed (l @ CHR 0x0A # rest) p =
    http_feed rest (if n = 0 then p\<lparr>phase_of := Trailer\<rparr> else p\<lparr>remaining := n, phase_of := ChunkData\<rparr>)"
proof -
  have e: "p\<lparr>line_text := []\<rparr> = p" using assms(2) by simp
  show ?thesis
    using feed_line[of p l rest] assms by (cases "n = 0") (simp_all add: chunk_line_def line_turn_def Let_def e)
qed

lemma feed_whole_body:
  assumes "phase_of p = FixedBody \<or> phase_of p = ChunkData" and "remaining p = length d" and "d \<noteq> []"
  shows "http_feed (d @ rest) p = http_feed rest (append_body d
    (if phase_of p = FixedBody then p\<lparr>remaining := 0, phase_of := Done\<rparr> else p\<lparr>remaining := 2, phase_of := ChunkDataCrlf\<rparr>))"
proof -
  have "body_turn (d @ rest) p = (append_body d
    (if phase_of p = FixedBody then p\<lparr>remaining := 0, phase_of := Done\<rparr> else p\<lparr>remaining := 2, phase_of := ChunkDataCrlf\<rparr>), rest)"
    using assms(2) by (simp add: body_turn_def Let_def append_body_def)
  then show ?thesis using assms by (auto simp: http_feed.simps[of "d @ rest" p])
qed

lemma feed_crlf:
  assumes "phase_of p = ChunkDataCrlf" and "remaining p = 2"
  shows "http_feed (crlf @ rest) p = http_feed rest (p\<lparr>remaining := 0, phase_of := ChunkSize\<rparr>)"
proof -
  have 1: "crlf_turn p = p\<lparr>remaining := 1\<rparr>" using assms by (simp add: crlf_turn_def Let_def)
  have 2: "crlf_turn (p\<lparr>remaining := 1\<rparr>) = p\<lparr>remaining := 0, phase_of := ChunkSize\<rparr>" by (simp add: crlf_turn_def Let_def)
  show ?thesis using assms 1 2
    by (simp add: crlf_def http_feed.simps[of "CHR 0x0D # _" p] http_feed.simps[of "CHR 0x0A # rest" "p\<lparr>remaining := Suc 0\<rparr>"])
qed

lemma feed_chunk:
  assumes "phase_of p = ChunkSize" and "line_text p = []" and "chunk_line l (length d)" and "d \<noteq> []"
  shows "http_feed (chunk_text (l, d) @ rest) p = http_feed rest (append_body d (p\<lparr>remaining := 0\<rparr>))"
proof -
  let ?q = "p\<lparr>remaining := length d, phase_of := ChunkData\<rparr>"
  have "http_feed (chunk_text (l, d) @ rest) p = http_feed (d @ crlf @ rest) ?q"
    using feed_chunk_line[OF assms(1-3), of "d @ crlf @ rest"] assms(4) by (simp add: chunk_text_def)
  also have "\<dots> = http_feed (crlf @ rest) (append_body d (?q\<lparr>remaining := 2, phase_of := ChunkDataCrlf\<rparr>))"
    using feed_whole_body[of ?q d "crlf @ rest"] assms(4) by simp
  also have "\<dots> = http_feed rest (append_body d (p\<lparr>remaining := 0\<rparr>))"
    using assms(1) by (subst feed_crlf) (auto simp: append_body_def intro!: arg_cong[of _ _ "http_feed rest"])
  finally show ?thesis .
qed

definition ex_line :: string where
  "ex_line = [CHR ''3'', CHR 0x0D]"

section \<open>Properties\<close>

text \<open>
  C35: the response parser does not depend on how the bytes arrive. However a stream of bytes is cut into pieces, feeding
  them one after the other, until a response is complete or an error is reported, gives the same verdict, the same
  response, the same error and the same left-over bytes as feeding them at once, when the head of the response fits the
  limit of 64 KiB.
\<close>

theorem feed_in_pieces:
  assumes "http_ok p" and "head_fits p (concat pieces)"
  shows "feed_pieces pieces p = http_feed (concat pieces) p"
  using assms by (rule feed_pieces_whole)

theorem feed_in_pieces_witness:
  "feed_pieces ex_pieces http_reset = http_feed (concat ex_pieces) http_reset \<and>
   fst (http_feed (concat ex_pieces) http_reset) = Complete \<and> snd (snd (http_feed (concat ex_pieces) http_reset)) = ''HT''"
proof -
  have "feed_pieces ex_pieces http_reset = http_feed (concat ex_pieces) http_reset"
    using http_reset_ok ex_pieces_fit by (rule feed_in_pieces)
  moreover have "fst (http_feed (concat ex_pieces) http_reset) = Complete \<and> snd (snd (http_feed (concat ex_pieces) http_reset)) = ''HT''"
    by (simp add: ex_pieces_def http_reset_def crlf_def http_feed.simps head_turn_def find_from_def parseHead_def Let_def starts_with_def
        from_chars_int_def from_chars_def digits_of_def hex_value_def header_lines.simps header_line_def http_trim_def iequalsPrefix_def
        to_lower_def body_phase_def body_turn_def append_body_def no_response_def) code_simp
  ultimately show ?thesis by blast
qed

text \<open>
  A head beyond the limit is accepted when it arrives at once and refused when its first part arrives alone: the limit
  is checked only when the blank line is missing.
\<close>

lemma long_head_depends_on_pieces:
  assumes "http_ok p" and "phase_of p = PHead" and "a \<noteq> []" and "find_sub blank_line (head_text p @ a) = None"
    and "64 * 1024 < length (head_text p @ a)"
  shows "fst (feed_pieces [a, b] p) = HttpError"
  using assms by (simp add: http_feed.simps[of a p] head_turn_eq)

text \<open>
  A chunked body is the chunks joined: from the start of a chunked body the parser reads every
  chunk, completes at the empty chunk and the blank line, and leaves the bytes of the next response.
\<close>

lemma chunked_body_is_joined:
  assumes "phase_of p = ChunkSize" and "line_text p = []" and "chunk_line l0 0"
    and "\<forall>c \<in> set parts. snd c \<noteq> [] \<and> chunk_line (fst c) (length (snd c))"
  shows "\<exists>q. http_feed (concat (map chunk_text parts) @ l0 @ CHR 0x0A # crlf @ rest) p = (Complete, q, rest) \<and>
    response q = (response p)\<lparr>http_body := http_body (response p) @ concat (map snd parts)\<rparr>"
  using assms(1,2,4)
proof (induction parts arbitrary: p)
  case Nil
  let ?q = "p\<lparr>phase_of := Trailer\<rparr>"
  have "http_feed (crlf @ rest) ?q = http_feed rest (?q\<lparr>phase_of := Done, line_text := []\<rparr>)"
    using feed_line[of ?q "[CHR 0x0D]" rest] Nil(2) by (simp add: crlf_def line_turn_def http_trim_def)
  then show ?case using feed_chunk_line[OF Nil(1,2) assms(3), of "crlf @ rest"] by (simp add: http_feed_done)
next
  case (Cons c parts)
  let ?q = "append_body (snd c) (p\<lparr>remaining := 0\<rparr>)"
  have "http_feed (concat (map chunk_text (c # parts)) @ l0 @ CHR 0x0A # crlf @ rest) p =
    http_feed (concat (map chunk_text parts) @ l0 @ CHR 0x0A # crlf @ rest) ?q"
    using feed_chunk[OF Cons.prems(1,2), of "fst c" "snd c"] Cons.prems(3) by simp
  moreover have "phase_of ?q = ChunkSize" "line_text ?q = []" using Cons.prems by (simp_all add: append_body_def)
  ultimately show ?case using Cons.IH[of ?q] Cons.prems(3) by (auto simp: append_body_def)
qed

end
