(* ===== verification/HL_HttpClient.thy ===== *)
theory HL_HttpClient
  imports HL_Tls HL_EventLoop HL_Http "HOL-Library.Multiset"
begin

text \<open>
  The HTTP client (\<open>include/hl/net/HttpClient.h\<close>, \<open>src/net/HttpClient.cpp\<close>): one origin, one keep-alive
  connection, a queue of requests of which at most the first is on the wire.

  \<^item> The client owns a stream of \<open>HL_Tls\<close>, a response parser of \<open>HL_Http\<close> and timers in a queue of
    \<open>HL_EventLoop\<close>. A timer field holds the id of the timer, 0 when there is none.
  \<^item> A request's callback is a number, the position of the request among all that were posted; calling it is an
    output of the step. Another output is the number of a request that is handed to the stream.
  \<^item> A method runs to the next call that may come back to the client: a callback of the owner, or a call of the
    stream that can call the listener. As in \<open>HL_Tls\<close> the rest of the method stays on a stack of calls.
\<close>

section \<open>State\<close>

record httpClientOptions =
  requestTimeoutMs :: int
  idleTimeoutMs :: int
  defaultRateLimitPauseMs :: int

record request =
  req_wire :: string
  callback :: nat
  written :: bool
  connectAttempts :: nat

datatype http_timer = PauseTimer | RequestTimer | IdleTimer

record http_client =
  hc_url :: url
  hc_options :: httpClientOptions
  stream :: "char tls"
  parser :: http_parser
  queue :: "request list"
  connecting :: bool
  dispatching :: bool
  staged :: string
  rateLimitHits :: u64
  pausedUntilMs :: int
  pauseTimer :: nat
  requestTimer :: nat
  idleTimer :: nat
  hc_timers :: "http_timer timer_queue"

datatype http_call =
    OnStream "char tls_call"
  | PostJson string string
  | CancelAll string
  | TimerFires nat
  | Pump
  | CompleteHead error httpResponse
  | CallBack nat error httpResponse
  | CallBackReturns
  | ArmRequestTimer
  | ProcessBytes string
  | MoreBytes string
  | StagedBytes

datatype http_output = Handed nat | Called nat error httpResponse

type_synonym http_result3 = "http_client \<times> http_call list \<times> http_output list"

record http_env =
  he_now :: int
  he_sys :: "char sys"

text \<open>The constructor; \<open>None\<close> is the exception for an invalid base URL.\<close>

definition new_http_client :: "string \<Rightarrow> httpClientOptions \<Rightarrow> tlsOptions \<Rightarrow> http_client option" where
  "new_http_client baseUrl opts tls_opts =
     (case url_parse baseUrl of
        None \<Rightarrow> None
      | Some u \<Rightarrow>
          if scheme u \<noteq> ''http'' \<and> scheme u \<noteq> ''https'' then None
          else Some \<lparr>hc_url = (if path u = ''/'' then u\<lparr>path := []\<rparr> else u), hc_options = opts, stream = new_tls tls_opts,
                 parser = http_reset, queue = [], connecting = False, dispatching = False, staged = [],
                 rateLimitHits = 0, pausedUntilMs = 0, pauseTimer = 0, requestTimer = 0, idleTimer = 0,
                 hc_timers = new_timers\<rparr>)"

section \<open>Timers\<close>

definition set_timer :: "http_timer \<Rightarrow> nat \<Rightarrow> http_client \<Rightarrow> http_client" where
  "set_timer k i c =
     (case k of PauseTimer \<Rightarrow> c\<lparr>pauseTimer := i\<rparr> | RequestTimer \<Rightarrow> c\<lparr>requestTimer := i\<rparr> | IdleTimer \<Rightarrow> c\<lparr>idleTimer := i\<rparr>)"

definition timer_id :: "http_timer \<Rightarrow> http_client \<Rightarrow> nat" where
  "timer_id k c = (case k of PauseTimer \<Rightarrow> pauseTimer c | RequestTimer \<Rightarrow> requestTimer c | IdleTimer \<Rightarrow> idleTimer c)"

definition arm :: "http_timer \<Rightarrow> int \<Rightarrow> http_env \<Rightarrow> http_client \<Rightarrow> http_client" where
  "arm k delay e c =
     (case addTimer (he_now e) delay k (hc_timers c) of (q, i) \<Rightarrow> set_timer k i (c\<lparr>hc_timers := q\<rparr>))"

definition disarm :: "http_timer \<Rightarrow> http_client \<Rightarrow> http_client" where
  "disarm k c =
     (if timer_id k c \<noteq> 0 then set_timer k 0 (c\<lparr>hc_timers := cancelTimer (timer_id k c) (hc_timers c)\<rparr>) else c)"

definition disarmTimers :: "http_client \<Rightarrow> http_client" where
  "disarmTimers c = disarm IdleTimer (disarm RequestTimer (disarm PauseTimer c))"

definition armIdleTimer :: "http_env \<Rightarrow> http_client \<Rightarrow> http_client" where
  "armIdleTimer e c =
     (if idleTimer c \<noteq> 0 \<or> \<not> tls_isOpen (stream c) then c else arm IdleTimer (idleTimeoutMs (hc_options c)) e c)"

section \<open>Sending\<close>

definition post_wire :: "http_client \<Rightarrow> string \<Rightarrow> string \<Rightarrow> string" where
  "post_wire c pth body =
     ''POST '' @ path (hc_url c) @ pth @ '' HTTP/1.1'' @ crlf @ ''Host: '' @ host (hc_url c) @ crlf @
     ''User-Agent: hyperliquid-cpp/'' @ kVersionString @ crlf @ ''Accept: application/json'' @ crlf @
     ''Content-Type: application/json'' @ crlf @ ''Connection: keep-alive'' @ crlf @
     ''Content-Length: '' @ emit_int (length body) [] @ crlf @ crlf @ body"

definition postJson :: "nat \<Rightarrow> string \<Rightarrow> string \<Rightarrow> http_client \<Rightarrow> http_result3" where
  "postJson n pth body c =
     (c\<lparr>queue := queue c @ [\<lparr>req_wire = post_wire c pth body, callback = n, written = False, connectAttempts = 0\<rparr>]\<rparr>,
      [Pump], [])"

definition transport :: "string \<Rightarrow> error" where
  "transport m = \<lparr>err_kind = Transport, httpStatus = 0, message = m\<rparr>"

text \<open>The first request is handed to the stream, and its deadline is set when the stream has returned.\<close>

definition write_head :: "http_env \<Rightarrow> http_client \<Rightarrow> http_result3" where
  "write_head e c =
     (let c = disarm IdleTimer c; r = hd (queue c);
          c = c\<lparr>queue := (hd (queue c))\<lparr>written := True\<rparr> # tl (queue c), parser := http_reset\<rparr>;
          (t, cs) = fst (tls_send (he_sys e) (req_wire r) (stream c))
      in (c\<lparr>stream := t\<rparr>, map OnStream cs @ [ArmRequestTimer], [Handed (callback r)]))"

definition pump :: "http_env \<Rightarrow> http_client \<Rightarrow> http_result3" where
  "pump e c =
     (if queue c = [] then (armIdleTimer e c, [], [])
      else if \<not> tls_isOpen (stream c) then
        if connecting c then (c, [], [])
        else
          let c = c\<lparr>connecting := True, parser := http_reset\<rparr>;
              (t, ok) = tls_connect (he_sys e) (secure (hc_url c)) (stream c);
              c = c\<lparr>stream := t\<rparr>
          in if ok then (c, [], [])
             else (c\<lparr>connecting := False\<rparr>,
                   [CompleteHead (transport (''connect to '' @ host (hc_url c) @ '' failed'')) no_response], [])
      else if written (hd (queue c)) then (c, [], [])
      else if pausedUntilMs c \<noteq> 0 \<and> pausedUntilMs c - he_now e > 0 then
        (if pauseTimer c = 0 then arm PauseTimer (pausedUntilMs c - he_now e) e c else c, [], [])
      else write_head e (c\<lparr>pausedUntilMs := 0\<rparr>))"

definition completeHead :: "error \<Rightarrow> httpResponse \<Rightarrow> http_client \<Rightarrow> http_result3" where
  "completeHead err resp c =
     (let c = disarm RequestTimer c in
      case queue c of
        [] \<Rightarrow> (c, [], [])
      | r # rs \<Rightarrow> (c\<lparr>queue := rs\<rparr>, [CallBack (callback r) err resp, Pump], []))"

section \<open>Receiving\<close>

definition onTlsConnected :: "http_client \<Rightarrow> http_result3" where
  "onTlsConnected c = (c\<lparr>connecting := False\<rparr>, [Pump], [])"

definition onTlsData :: "string \<Rightarrow> http_client \<Rightarrow> http_result3" where
  "onTlsData bytes c =
     (if dispatching c then (c\<lparr>staged := staged c @ bytes\<rparr>, [], [])
      else (c\<lparr>dispatching := True\<rparr>, [ProcessBytes bytes, StagedBytes], []))"

text \<open>The loop over the bytes that arrived during a callback.\<close>

definition staged_bytes :: "http_client \<Rightarrow> http_result3" where
  "staged_bytes c =
     (if staged c \<noteq> [] then (c\<lparr>staged := []\<rparr>, [ProcessBytes (staged c), StagedBytes], [])
      else (c\<lparr>dispatching := False\<rparr>, [], []))"

definition rate_limited :: "http_env \<Rightarrow> httpResponse \<Rightarrow> http_client \<Rightarrow> http_client" where
  "rate_limited e r c =
     (if http_status r = 429 then
        let pause = (if retryAfterSeconds r > 0 then retryAfterSeconds r * 1000 else defaultRateLimitPauseMs (hc_options c))
        in c\<lparr>rateLimitHits := rateLimitHits c + 1, pausedUntilMs := he_now e + pause\<rparr>
      else c)"

definition response_error :: "httpResponse \<Rightarrow> error" where
  "response_error r =
     (if http_status r < 200 \<or> http_status r \<ge> 300
      then \<lparr>err_kind = Http, httpStatus = http_status r, message = ''HTTP '' @ int_to_string (http_status r)\<rparr> else no_error)"

definition processBytes :: "http_env \<Rightarrow> string \<Rightarrow> http_client \<Rightarrow> http_result3" where
  "processBytes e bytes c =
     (if bytes = [] then (c, [], [])
      else if queue c = [] \<or> \<not> written (hd (queue c)) then (c\<lparr>stream := tls_close (stream c)\<rparr>, [Pump], [])
      else case http_feed bytes (parser c) of
        (HttpError, p, rest) \<Rightarrow>
          (c\<lparr>parser := p, stream := tls_close (stream c)\<rparr>,
           [CompleteHead \<lparr>err_kind = Parse, httpStatus = 0, message = ''HTTP parse error: '' @ http_error p\<rparr> no_response], [])
      | (NeedMore, p, rest) \<Rightarrow> (c\<lparr>parser := p\<rparr>, [], [])
      | (Complete, p, rest) \<Rightarrow>
          let r = response p; c = c\<lparr>parser := http_reset\<rparr>;
              c = (if keepAlive r then c else c\<lparr>stream := tls_close (stream c)\<rparr>);
              c = rate_limited e r c
          in (c, [CompleteHead (response_error r) r, MoreBytes rest], []))"

definition more_bytes :: "http_env \<Rightarrow> string \<Rightarrow> http_client \<Rightarrow> http_result3" where
  "more_bytes e rest c = (if tls_isOpen (stream c) then processBytes e rest c else (c, [], []))"

definition onTlsClosed :: "http_env \<Rightarrow> string \<Rightarrow> http_client \<Rightarrow> http_result3" where
  "onTlsClosed e reason c =
     (let c = disarmTimers (c\<lparr>connecting := False, staged := []\<rparr>) in
      case queue c of
        [] \<Rightarrow> (c, [], [])
      | r # rs \<Rightarrow>
          if written r then
            case finishOnClose (parser c) of
              (st, p) \<Rightarrow>
                if st = Complete \<and> http_status (response p) \<noteq> 0
                then (c\<lparr>parser := p\<lparr>response := (response p)\<lparr>http_body := []\<rparr>\<rparr>\<rparr>, [CompleteHead no_error (response p)], [])
                else (c\<lparr>parser := p\<rparr>, [CompleteHead (transport (''connection closed: '' @ reason)) no_response], [])
          else if connectAttempts r \<ge> 3 then (c, [CompleteHead (transport (''connect failed: '' @ reason)) no_response], [])
          else
            let r = r\<lparr>connectAttempts := connectAttempts r + 1\<rparr>
            in (c\<lparr>queue := r # rs, pausedUntilMs := he_now e + 50 * int (connectAttempts r)\<rparr>, [Pump], []))"

definition http_cancelAll :: "string \<Rightarrow> http_client \<Rightarrow> http_result3" where
  "http_cancelAll reason c =
     (let c = disarmTimers c
      in (c\<lparr>stream := tls_close (stream c), connecting := False, queue := []\<rparr>,
          map (\<lambda>r. CallBack (callback r) (transport reason) no_response) (queue c), []))"

text \<open>A timer leaves the queue of the loop and runs its closure.\<close>

definition timer_fires :: "nat \<Rightarrow> http_client \<Rightarrow> http_result3" where
  "timer_fires i c =
     (case filter (\<lambda>t. fst (snd t) = i) (timers (hc_timers c)) of
        [] \<Rightarrow> (c, [], [])
      | (due, j, k) # ts \<Rightarrow>
          let c = set_timer k 0 (c\<lparr>hc_timers := cancelTimer i (hc_timers c)\<rparr>) in
          case k of
            PauseTimer \<Rightarrow> (c\<lparr>pausedUntilMs := 0\<rparr>, [Pump], [])
          | RequestTimer \<Rightarrow>
              (c\<lparr>stream := tls_close (stream c)\<rparr>,
               [CompleteHead \<lparr>err_kind = Timeout, httpStatus = 0, message = ''HTTP request timed out''\<rparr> no_response], [])
          | IdleTimer \<Rightarrow> (if queue c = [] then c\<lparr>stream := tls_close (stream c)\<rparr> else c, [], []))"

section \<open>Runs\<close>

text \<open>One call of the stack; \<open>n\<close> requests have been posted before it.\<close>

fun http_step :: "http_env \<Rightarrow> nat \<Rightarrow> http_call \<Rightarrow> http_client \<Rightarrow> http_result3" where
  "http_step e n (OnStream (Callback TlsConnected)) c = onTlsConnected c"
| "http_step e n (OnStream (Callback (TlsData bytes))) c = onTlsData bytes c"
| "http_step e n (OnStream (Callback (TlsClosed reason))) c = onTlsClosed e reason c"
| "http_step e n (OnStream call) c = (case tls_step (he_sys e) call (stream c) of (t, cs) \<Rightarrow> (c\<lparr>stream := t\<rparr>, map OnStream cs, []))"
| "http_step e n (PostJson pth body) c = postJson n pth body c"
| "http_step e n (CancelAll reason) c = http_cancelAll reason c"
| "http_step e n (TimerFires i) c = timer_fires i c"
| "http_step e n Pump c = pump e c"
| "http_step e n (CompleteHead err resp) c = completeHead err resp c"
| "http_step e n (CallBack i err resp) c = (c, [CallBackReturns], [Called i err resp])"
| "http_step e n CallBackReturns c = (c, [], [])"
| "http_step e n ArmRequestTimer c = (arm RequestTimer (requestTimeoutMs (hc_options c)) e c, [], [])"
| "http_step e n (ProcessBytes bytes) c = processBytes e bytes c"
| "http_step e n (MoreBytes bytes) c = more_bytes e bytes c"
| "http_step e n StagedBytes c = staged_bytes c"

text \<open>The calls that come from outside: the owner's, and the event loop's.\<close>

fun http_offered :: "http_call \<Rightarrow> http_client \<Rightarrow> bool" where
  "http_offered (PostJson pth body) c = True"
| "http_offered (CancelAll reason) c = True"
| "http_offered (TimerFires i) c = (i \<in> (fst \<circ> snd) ` set (timers (hc_timers c)))"
| "http_offered (OnStream (IoEvent events)) c = (registered (stream c) \<noteq> None)"
| "http_offered (OnStream ConnectTimeout) c = (connectTimer (stream c) \<noteq> None)"
| "http_offered _ c = False"

definition posts :: "http_call \<Rightarrow> nat" where
  "posts call = (case call of PostJson pth body \<Rightarrow> 1 | _ \<Rightarrow> 0)"

inductive http_run :: "http_call list \<Rightarrow> http_client \<Rightarrow> http_output list \<Rightarrow> nat \<Rightarrow> bool" where
  start: "new_http_client baseUrl opts tls_opts = Some c \<Longrightarrow> http_run [] c [] 0"
| call: "http_run cs c log n \<Longrightarrow> cs = [] \<or> hd cs = CallBackReturns \<Longrightarrow> http_offered d c \<Longrightarrow> http_run (d # cs) c log n"
| step: "http_run (d # cs) c log n \<Longrightarrow> http_step e n d c = (c', ds, out) \<Longrightarrow> http_run (ds @ cs) c' (log @ out) (n + posts d)"

section \<open>What a step does to the queue\<close>

named_theorems hc_frame \<open>fields of the client that the timer operations keep\<close>

lemma set_timer_frame [hc_frame]:
  "queue (set_timer k i c) = queue c" "stream (set_timer k i c) = stream c" "connecting (set_timer k i c) = connecting c"
  "pausedUntilMs (set_timer k i c) = pausedUntilMs c" "hc_timers (set_timer k i c) = hc_timers c" "parser (set_timer k i c) = parser c"
  by (cases k; simp add: set_timer_def)+

lemma arm_frame [hc_frame]:
  "queue (arm k d e c) = queue c" "stream (arm k d e c) = stream c" "connecting (arm k d e c) = connecting c"
  by (simp_all add: arm_def case_prod_beta hc_frame)

lemma disarm_frame [hc_frame]:
  "queue (disarm k c) = queue c" "stream (disarm k c) = stream c" "connecting (disarm k c) = connecting c" "parser (disarm k c) = parser c"
  by (simp_all add: disarm_def hc_frame)

lemma disarmTimers_frame [hc_frame]:
  "queue (disarmTimers c) = queue c" "stream (disarmTimers c) = stream c" "connecting (disarmTimers c) = connecting c"
  by (simp_all add: disarmTimers_def hc_frame)

lemma armIdleTimer_frame [hc_frame]:
  "queue (armIdleTimer e c) = queue c" "stream (armIdleTimer e c) = stream c" "connecting (armIdleTimer e c) = connecting c"
  by (simp_all add: armIdleTimer_def hc_frame)

lemma rate_limited_frame [hc_frame]:
  "queue (rate_limited e r c) = queue c" "stream (rate_limited e r c) = stream c" "connecting (rate_limited e r c) = connecting c"
  by (simp_all add: rate_limited_def Let_def)

text \<open>The queue as its owner sees it: the number of each request, and whether it was handed to the stream.\<close>

definition entries :: "http_client \<Rightarrow> (nat \<times> bool) list" where
  "entries c = map (\<lambda>r. (callback r, written r)) (queue c)"

fun due_calls :: "http_call list \<Rightarrow> nat list" where
  "due_calls [] = []"
| "due_calls (CallBack i err resp # cs) = i # due_calls cs"
| "due_calls (c # cs) = due_calls cs"

lemma due_calls_append [simp]: "due_calls (cs @ ds) = due_calls cs @ due_calls ds"
  by (induction cs rule: due_calls.induct) simp_all

lemma due_calls_stream [simp]: "due_calls (map OnStream cs) = []"
  by (induction cs) simp_all

lemma due_calls_callbacks [simp]: "due_calls (map (\<lambda>r. CallBack (f r) e s) rs) = map f rs"
  by (induction rs) simp_all

fun called :: "http_output list \<Rightarrow> nat list" where
  "called [] = []"
| "called (Called i err resp # os) = i # called os"
| "called (Handed i # os) = called os"

fun handed :: "http_output list \<Rightarrow> nat list" where
  "handed [] = []"
| "handed (Called i err resp # os) = handed os"
| "handed (Handed i # os) = i # handed os"

lemma called_append [simp]: "called (os @ ps) = called os @ called ps"
  by (induction os rule: called.induct) simp_all

lemma handed_append [simp]: "handed (os @ ps) = handed os @ handed ps"
  by (induction os rule: handed.induct) simp_all

text \<open>
  The queue as an abstract machine: a step posts, hands over the first request, takes it out to call it back, takes
  all out, calls one back, or leaves the queue alone.
\<close>

inductive queue_step ::
  "nat \<Rightarrow> http_call \<Rightarrow> (nat \<times> bool) list \<Rightarrow> (nat \<times> bool) list \<Rightarrow> nat list \<Rightarrow> http_output list \<Rightarrow> bool" for n where
  keep: "posts d = 0 \<Longrightarrow> due_calls [d] = [] \<Longrightarrow> queue_step n d q q [] []"
| post: "queue_step n (PostJson pth body) q (q @ [(n, False)]) [] []"
| hand: "posts d = 0 \<Longrightarrow> due_calls [d] = [] \<Longrightarrow> queue_step n d ((i, False) # q) ((i, True) # q) [] [Handed i]"
| take: "posts d = 0 \<Longrightarrow> due_calls [d] = [] \<Longrightarrow> queue_step n d ((i, w) # q) q [i] []"
| take_all: "posts d = 0 \<Longrightarrow> due_calls [d] = [] \<Longrightarrow> queue_step n d q [] (map fst q) []"
| call: "queue_step n (CallBack i err resp) q q [] [Called i err resp]"

definition refines :: "nat \<Rightarrow> http_call \<Rightarrow> http_client \<Rightarrow> http_result3 \<Rightarrow> bool" where
  "refines n d c r \<longleftrightarrow> queue_step n d (entries c) (entries (fst r)) (due_calls (fst (snd r))) (snd (snd r))"

lemma refines_keep:
  "posts d = 0 \<Longrightarrow> due_calls [d] = [] \<Longrightarrow> entries c' = entries c \<Longrightarrow> due_calls ds = [] \<Longrightarrow> refines n d c (c', ds, [])"
  by (simp add: refines_def queue_step.keep)

lemma entries_same: "queue c' = queue c \<Longrightarrow> entries c' = entries c"
  by (simp add: entries_def)

lemma refines_completeHead:
  assumes "posts d = 0" and "due_calls [d] = []" and "queue c' = queue c"
  shows "refines n d c (completeHead err resp c')"
proof (cases "queue c")
  case Nil
  then show ?thesis using assms by (auto simp: completeHead_def Let_def hc_frame intro!: refines_keep entries_same)
next
  case (Cons r rs)
  have "queue_step n d ((callback r, written r) # map (\<lambda>r. (callback r, written r)) rs) (map (\<lambda>r. (callback r, written r)) rs) [callback r] []"
    using assms(1,2) by (rule queue_step.take)
  then show ?thesis using Cons assms(3) by (simp add: refines_def completeHead_def Let_def entries_def hc_frame)
qed

lemma refines_write_head:
  assumes "posts d = 0" and "due_calls [d] = []" and "queue c = r # rs" and "\<not> written r" and "queue c' = queue c"
  shows "refines n d c (write_head e c')"
proof -
  have "queue_step n d ((callback r, False) # map (\<lambda>r. (callback r, written r)) rs) ((callback r, True) # map (\<lambda>r. (callback r, written r)) rs)
    [] [Handed (callback r)]"
    using assms(1,2) by (rule queue_step.hand)
  then show ?thesis using assms(3-5) by (simp add: refines_def write_head_def Let_def entries_def hc_frame case_prod_beta)
qed

lemma refines_pump:
  assumes "posts d = 0" and "due_calls [d] = []"
  shows "refines n d c (pump e c)"
proof (cases "queue c")
  case Nil
  then show ?thesis using assms by (auto simp: pump_def hc_frame intro!: refines_keep entries_same)
next
  case (Cons r rs)
  then show ?thesis using assms
    by (auto simp: pump_def Let_def case_prod_beta hc_frame intro!: refines_keep entries_same refines_write_head)
qed

lemma refines_bytes:
  assumes "posts d = 0" and "due_calls [d] = []"
  shows "refines n d c (processBytes e bytes c)"
proof -
  obtain st p rest where f: "http_feed bytes (parser c) = (st, p, rest)" by (cases "http_feed bytes (parser c)")
  show ?thesis using assms
    by (cases st) (auto simp: processBytes_def f Let_def hc_frame intro!: refines_keep entries_same)
qed

lemma refines_closed:
  assumes "posts d = 0" and "due_calls [d] = []"
  shows "refines n d c (onTlsClosed e reason c)"
proof (cases "queue c")
  case Nil
  then show ?thesis using assms by (auto simp: onTlsClosed_def Let_def hc_frame intro!: refines_keep entries_same)
next
  case (Cons r rs)
  then show ?thesis using assms
    by (auto simp: onTlsClosed_def Let_def hc_frame entries_def case_prod_beta intro!: refines_keep)
qed

lemma refines_cancel:
  assumes "posts d = 0" and "due_calls [d] = []"
  shows "refines n d c (http_cancelAll reason c)"
proof -
  have "map fst (entries c) = map callback (queue c)" by (simp add: entries_def)
  then show ?thesis using queue_step.take_all[OF assms, of n "entries c"]
    by (simp add: refines_def http_cancelAll_def Let_def entries_def hc_frame comp_def)
qed

lemma refines_timer:
  assumes "posts d = 0" and "due_calls [d] = []"
  shows "refines n d c (timer_fires i c)"
  using assms by (auto simp: timer_fires_def Let_def hc_frame split: list.splits http_timer.splits intro!: refines_keep entries_same)

lemma refines_post: "refines n (PostJson pth body) c (postJson n pth body c)"
  using queue_step.post[of n pth body "entries c"] by (simp add: refines_def postJson_def entries_def)

lemma refines_call: "refines n (CallBack i err resp) c (c, [CallBackReturns], [Called i err resp])"
  by (simp add: refines_def queue_step.call)

lemma http_step_refines: "refines n d c (http_step e n d c)"
  by (cases "(e, n, d, c)" rule: http_step.cases)
    (auto simp: posts_def onTlsConnected_def onTlsData_def staged_bytes_def more_bytes_def hc_frame case_prod_beta
      refines_post refines_call intro!: refines_keep refines_pump refines_bytes refines_closed refines_cancel refines_timer
      refines_completeHead entries_same)

section \<open>Every request is handed over at most once and called back exactly once\<close>

definition accounted :: "nat list \<Rightarrow> (nat \<times> bool) list \<Rightarrow> http_output list \<Rightarrow> nat \<Rightarrow> bool" where
  "accounted due q log n \<longleftrightarrow>
     mset (called log) + mset due + mset (map fst q) = mset [0..<n] \<and>
     sorted_wrt (<) (map fst q) \<and> sorted_wrt (<) (handed log) \<and> (\<forall>i \<in> set (handed log). i < n) \<and>
     (\<forall>x \<in> set (tl q). \<not> snd x) \<and> (\<forall>x \<in> set q. \<not> snd x \<longrightarrow> (\<forall>j \<in> set (handed log). j < fst x))"

lemma accounted_bound: "accounted due q log n \<Longrightarrow> x \<in> set q \<Longrightarrow> fst x < n"
proof -
  assume a: "accounted due q log n" and x: "x \<in> set q"
  then have "fst x \<in># mset (called log) + mset due + mset (map fst q)" by auto
  then have "fst x \<in># mset [0..<n]" using a unfolding accounted_def by metis
  then show "fst x < n" by simp
qed

lemma queue_step_accounted:
  assumes "queue_step n d q q' due out" and "accounted (due_calls [d] @ due_calls cs) q log n"
  shows "accounted (due @ due_calls cs) q' (log @ out) (n + posts d)"
  using assms
proof cases
  case (post pth body)
  then show ?thesis using assms(2) accounted_bound[OF assms(2)]
    by (cases q) (auto simp: accounted_def posts_def sorted_wrt_append ac_simps)
next
  case (hand i qs)
  then show ?thesis using assms(2) accounted_bound[OF assms(2), of "(i, False)"] by (auto simp: accounted_def sorted_wrt_append)
next
  case (take i w)
  then show ?thesis using assms(2) by (cases q') (auto simp: accounted_def ac_simps)
next
  case (call i err resp)
  then show ?thesis using assms(2) by (auto simp: accounted_def posts_def ac_simps)
qed (auto simp: accounted_def ac_simps)

lemma http_run_accounted: "http_run cs c log n \<Longrightarrow> accounted (due_calls cs) (entries c) log n"
proof (induction rule: http_run.induct)
  case (start baseUrl opts tls_opts c)
  then show ?case by (auto simp: accounted_def entries_def new_http_client_def split: option.splits if_splits)
next
  case (call cs c log n d)
  then have "due_calls (d # cs) = due_calls cs" by (cases "(d, c)" rule: http_offered.cases) auto
  then show ?case using call by simp
next
  case (step d cs c log n e c' ds out)
  have "queue_step n d (entries c) (entries c') (due_calls ds) out"
    using http_step_refines[of n d c e] step.hyps(2) by (simp add: refines_def)
  moreover have "accounted (due_calls [d] @ due_calls cs) (entries c) log n" using step.IH due_calls_append[of "[d]" cs] by simp
  ultimately show ?case using queue_step_accounted by simp
qed

end
