(* ===== verification/HL_HttpRuns.thy ===== *)
theory HL_HttpRuns
  imports HL_HttpClient
begin

text \<open>
  Runs of the HTTP client of \<open>HL_HttpClient\<close>: its timers are the ones the event loop holds, a queue that is not empty
  waits for something that will happen, and scripted runs that show where the client falls short of it.
\<close>

section \<open>Timers of the client\<close>

definition pending :: "http_timer \<Rightarrow> nat \<Rightarrow> http_client \<Rightarrow> bool" where
  "pending k i c \<longleftrightarrow> (\<exists>due. (due, i, k) \<in> set (timers (hc_timers c)))"

definition timers_inv :: "http_client \<Rightarrow> bool" where
  "timers_inv c \<longleftrightarrow> timers_ok (hc_timers c) \<and> (\<forall>k. timer_id k c \<noteq> 0 \<longrightarrow> pending k (timer_id k c) c)"

lemma timer_id_set [simp]: "timer_id k (set_timer k' i c) = (if k = k' then i else timer_id k c)"
  by (cases k; cases k') (simp_all add: timer_id_def set_timer_def)

lemma timer_id_timers [simp]: "timer_id k (c\<lparr>hc_timers := q\<rparr>) = timer_id k c"
  by (cases k) (simp_all add: timer_id_def)

lemma arm_timers: "timers_inv c \<Longrightarrow> timers_inv (arm k d e c) \<and> timer_id k (arm k d e c) \<noteq> 0"
  using addTimer_ok[of "hc_timers c" "he_now e" d k] addTimer_id[of "hc_timers c" "he_now e" d k]
  by (auto simp: timers_inv_def arm_def case_prod_beta hc_frame pending_def) (auto simp: addTimer_def Let_def)

lemma cancel_timers:
  assumes "timers_inv c" and "(d, i, k) \<in> set (timers (hc_timers c))"
  shows "timers_inv (set_timer k 0 (c\<lparr>hc_timers := cancelTimer i (hc_timers c)\<rparr>))"
  unfolding timers_inv_def
proof (intro conjI allI impI)
  let ?c = "set_timer k 0 (c\<lparr>hc_timers := cancelTimer i (hc_timers c)\<rparr>)"
  show "timers_ok (hc_timers ?c)" using assms(1) by (simp add: timers_inv_def hc_frame cancelTimer_ok)
  fix j assume j: "timer_id j ?c \<noteq> 0"
  then have "j \<noteq> k" "timer_id j ?c = timer_id j c" by (simp_all split: if_splits)
  moreover have "pending j (timer_id j c) c" using assms(1) j by (auto simp: timers_inv_def split: if_splits)
  moreover have "timer_id j c \<noteq> i"
    using calculation timer_ids_unique[OF _ assms(2)] assms(1) by (auto simp: timers_inv_def pending_def)
  ultimately show "pending j (timer_id j ?c) ?c" by (auto simp: pending_def hc_frame cancelTimer_def)
qed

lemma disarm_timers: "timers_inv c \<Longrightarrow> timers_inv (disarm k c)"
proof (cases "timer_id k c = 0")
  case False
  assume a: "timers_inv c"
  then obtain d where "(d, timer_id k c, k) \<in> set (timers (hc_timers c))" using False by (auto simp: timers_inv_def pending_def)
  then show ?thesis using cancel_timers[OF a] False by (simp add: disarm_def)
qed (simp add: disarm_def)

lemma disarmTimers_timers: "timers_inv c \<Longrightarrow> timers_inv (disarmTimers c)"
  by (simp add: disarmTimers_def disarm_timers)

lemma timers_inv_cong:
  "hc_timers c' = hc_timers c \<Longrightarrow> pauseTimer c' = pauseTimer c \<Longrightarrow> requestTimer c' = requestTimer c \<Longrightarrow> idleTimer c' = idleTimer c \<Longrightarrow>
   timers_inv c' = timers_inv c"
proof -
  assume a: "hc_timers c' = hc_timers c" "pauseTimer c' = pauseTimer c" "requestTimer c' = requestTimer c" "idleTimer c' = idleTimer c"
  have "\<And>k. timer_id k c' = timer_id k c" using a by (simp add: timer_id_def split: http_timer.splits)
  then show ?thesis using a by (simp add: timers_inv_def pending_def)
qed

section \<open>A queue that is not empty waits for something\<close>

definition completing :: "http_call list \<Rightarrow> bool" where
  "completing cs \<longleftrightarrow> (\<exists>err resp. CompleteHead err resp \<in> set cs)"

definition waits :: "http_call list \<Rightarrow> http_client \<Rightarrow> bool" where
  "waits cs c \<longleftrightarrow> queue c = [] \<or> Pump \<in> set cs \<or> completing cs \<or> connecting c \<or> pauseTimer c \<noteq> 0 \<or> written (hd (queue c))"

definition deadline :: "http_call list \<Rightarrow> http_client \<Rightarrow> bool" where
  "deadline cs c \<longleftrightarrow> queue c = [] \<or> \<not> written (hd (queue c)) \<or> requestTimer c \<noteq> 0 \<or> ArmRequestTimer \<in> set cs \<or> completing cs"

definition connects :: "http_call list \<Rightarrow> http_client \<Rightarrow> bool" where
  "connects cs c \<longleftrightarrow> connecting c \<longrightarrow>
     t_state (stream c) \<noteq> SIdle \<and> (t_state (stream c) = SOpen \<longrightarrow> OnStream (Callback TlsConnected) \<in> set cs)"

definition parts_ok :: "http_client \<Rightarrow> bool" where
  "parts_ok c \<longleftrightarrow> tls_inv (stream c) \<and> timers_inv c"

lemma completing_append [simp]: "completing (cs @ ds) \<longleftrightarrow> completing cs \<or> completing ds"
  by (auto simp: completing_def)

lemma completing_Cons [simp]: "completing (c # cs) \<longleftrightarrow> (\<exists>err resp. c = CompleteHead err resp) \<or> completing cs"
  by (auto simp: completing_def)

lemma completing_Nil [simp]: "\<not> completing []"
  by (simp add: completing_def)

lemma timer_id_kinds [simp]:
  "timer_id PauseTimer c = pauseTimer c" "timer_id RequestTimer c = requestTimer c" "timer_id IdleTimer c = idleTimer c"
  by (simp_all add: timer_id_def)

lemma timers_inv_update [simp]:
  "timers_inv (c\<lparr>stream := t\<rparr>) = timers_inv c" "timers_inv (c\<lparr>queue := q\<rparr>) = timers_inv c"
  "timers_inv (c\<lparr>connecting := b\<rparr>) = timers_inv c" "timers_inv (c\<lparr>parser := p\<rparr>) = timers_inv c"
  "timers_inv (c\<lparr>staged := s\<rparr>) = timers_inv c" "timers_inv (c\<lparr>dispatching := b\<rparr>) = timers_inv c"
  "timers_inv (c\<lparr>pausedUntilMs := i\<rparr>) = timers_inv c" "timers_inv (c\<lparr>rateLimitHits := w\<rparr>) = timers_inv c"
  by (rule timers_inv_cong; simp)+

lemma parts_ok_arm: "parts_ok c \<Longrightarrow> parts_ok (arm k d e c)"
  by (simp add: parts_ok_def arm_timers hc_frame)

lemma parts_ok_disarm: "parts_ok c \<Longrightarrow> parts_ok (disarm k c) \<and> parts_ok (disarmTimers c)"
  by (simp add: parts_ok_def disarm_timers disarmTimers_timers hc_frame)

lemma parts_ok_timer: "parts_ok c \<Longrightarrow> parts_ok (fst (timer_fires i c))"
proof (cases "filter (\<lambda>t. fst (snd t) = i) (timers (hc_timers c))")
  case (Cons x xs)
  assume a: "parts_ok c"
  obtain d j k where x: "x = (d, j, k)" by (cases x)
  have "x \<in> set (filter (\<lambda>t. fst (snd t) = i) (timers (hc_timers c)))" using Cons by simp
  then have m: "(d, i, k) \<in> set (timers (hc_timers c))" by (auto simp: x)
  have "parts_ok (set_timer k 0 (c\<lparr>hc_timers := cancelTimer i (hc_timers c)\<rparr>))"
    using cancel_timers[OF _ m] a by (simp add: parts_ok_def hc_frame)
  then show ?thesis by (cases k) (auto simp: timer_fires_def Cons x Let_def parts_ok_def tls_close_inv)
qed (simp add: timer_fires_def)

lemma parts_ok_write: "parts_ok c \<Longrightarrow> parts_ok (fst (write_head e c))"
  using parts_ok_disarm[of c IdleTimer] tls_send_inv[of "he_sys e" "req_wire (hd (queue c))" "stream c"]
  by (cases "tls_send (he_sys e) (req_wire (hd (queue c))) (stream c)")
    (auto simp: write_head_def Let_def parts_ok_def hc_frame split: prod.splits)

lemma parts_ok_pump: "parts_ok c \<Longrightarrow> parts_ok (fst (pump e c))"
  using parts_ok_write[of "c\<lparr>pausedUntilMs := 0\<rparr>" e] parts_ok_arm[of c] tls_connect_inv[of "he_sys e" "secure (hc_url c)" "stream c"]
  by (cases "tls_connect (he_sys e) (secure (hc_url c)) (stream c)")
    (auto simp: pump_def Let_def armIdleTimer_def parts_ok_def split: prod.splits)

lemma parts_ok_completeHead: "parts_ok c \<Longrightarrow> parts_ok (fst (completeHead err resp c))"
  using parts_ok_disarm[of c RequestTimer] by (auto simp: completeHead_def Let_def parts_ok_def split: list.splits)

lemma parts_ok_bytes: "parts_ok c \<Longrightarrow> parts_ok (fst (processBytes e bytes c))"
  by (auto simp: processBytes_def parts_ok_def Let_def rate_limited_def tls_close_inv split: prod.splits http_result.splits)

lemma parts_ok_closed: "parts_ok c \<Longrightarrow> parts_ok (fst (onTlsClosed e reason c))"
  using parts_ok_disarm[of "c\<lparr>connecting := False, staged := []\<rparr>"]
  by (auto simp: onTlsClosed_def Let_def parts_ok_def split: list.splits prod.splits)

lemma parts_ok_cancel: "parts_ok c \<Longrightarrow> parts_ok (fst (http_cancelAll reason c))"
  using parts_ok_disarm[of c] by (auto simp: http_cancelAll_def Let_def parts_ok_def tls_close_inv hc_frame)

lemma parts_ok_stream: "parts_ok c \<Longrightarrow> parts_ok (c\<lparr>stream := fst (tls_step e d (stream c))\<rparr>)"
  using tls_step_inv[of e d "stream c"] by (cases "tls_step e d (stream c)") (auto simp: parts_ok_def)

lemma parts_ok_update [simp]:
  "parts_ok (c\<lparr>queue := q\<rparr>) = parts_ok c" "parts_ok (c\<lparr>connecting := b\<rparr>) = parts_ok c"
  "parts_ok (c\<lparr>staged := s\<rparr>) = parts_ok c" "parts_ok (c\<lparr>dispatching := b\<rparr>) = parts_ok c"
  by (simp_all add: parts_ok_def)

lemma parts_ok_step: "parts_ok c \<Longrightarrow> parts_ok (fst (http_step e n d c))"
  by (cases "(e, n, d, c)" rule: http_step.cases)
    (auto simp: parts_ok_timer parts_ok_pump parts_ok_completeHead parts_ok_bytes parts_ok_closed parts_ok_cancel parts_ok_arm
      parts_ok_stream onTlsConnected_def onTlsData_def staged_bytes_def more_bytes_def postJson_def case_prod_beta
      simp del: tls_step.simps)

section \<open>Steps keep the queue waiting\<close>

text \<open>The effect of a result on the three conditions, under the calls \<open>cs\<close> that stay on the stack.\<close>

definition progresses :: "http_call list \<Rightarrow> http_result3 \<Rightarrow> bool" where
  "progresses cs r \<longleftrightarrow> waits (fst (snd r) @ cs) (fst r) \<and> deadline (fst (snd r) @ cs) (fst r) \<and> connects (fst (snd r) @ cs) (fst r)"

lemmas progress_defs = progresses_def waits_def deadline_def connects_def

lemma write_head_progresses:
  assumes "connects cs c" and "queue c \<noteq> []"
  shows "progresses cs (write_head e c)"
proof -
  have "announces (stream c) (fst (tls_send (he_sys e) (req_wire (hd (queue c))) (stream c)))" by (rule announces_send)
  then show ?thesis using assms
    by (auto simp: write_head_def Let_def progress_defs hc_frame announces_def split: prod.splits)
qed

lemma pump_progresses:
  assumes "deadline cs c" and "connects cs c" and "parts_ok c"
  shows "progresses cs (pump e c)"
proof (cases "queue c = []")
  case True
  then show ?thesis using assms by (simp add: pump_def progress_defs hc_frame)
next
  case False
  show ?thesis
  proof (cases "tls_isOpen (stream c)")
    case closed: False
    obtain t ok where t: "tls_connect (he_sys e) (secure (hc_url c)) (stream c) = (t, ok)" by fastforce
    have "t_state t = SConnecting \<or> t_state t = SClosed" using tls_connect_state[of "he_sys e" "secure (hc_url c)" "stream c"] by (simp add: t)
    then show ?thesis using assms False closed by (auto simp: pump_def Let_def t progress_defs)
  next
    case True
    have w: "progresses cs (write_head e (c\<lparr>pausedUntilMs := 0\<rparr>))"
      using assms(2) False by (intro write_head_progresses) (simp_all add: connects_def)
    have "pauseTimer (arm PauseTimer (pausedUntilMs c - he_now e) e c) \<noteq> 0"
      using arm_timers[of c PauseTimer] assms(3) by (simp add: parts_ok_def)
    moreover have "requestTimer (arm PauseTimer (pausedUntilMs c - he_now e) e c) = requestTimer c"
      by (simp add: arm_def set_timer_def case_prod_beta)
    ultimately show ?thesis using assms(1,2) False True w by (auto simp: pump_def progress_defs hc_frame)
  qed
qed

lemma disarm_ids [hc_frame]:
  "pauseTimer (disarm RequestTimer c) = pauseTimer c" "requestTimer (disarm IdleTimer c) = requestTimer c"
  "pauseTimer (disarm IdleTimer c) = pauseTimer c"
  by (simp_all add: disarm_def set_timer_def)

lemma completeHead_progresses:
  assumes "connects cs c" and "\<forall>r \<in> set (tl (queue c)). \<not> written r"
  shows "progresses cs (completeHead err resp c)"
  using assms by (cases "queue c") (auto simp: completeHead_def Let_def progress_defs hc_frame hd_in_set)

lemma closed_progresses: "progresses cs (onTlsClosed e reason c)"
  by (auto simp: onTlsClosed_def Let_def progress_defs hc_frame split: list.splits prod.splits)

lemma cancel_progresses: "progresses cs (http_cancelAll reason c)"
  by (simp add: http_cancelAll_def Let_def progress_defs)

lemma bytes_progresses:
  assumes "progresses cs (c, [], [])"
  shows "progresses cs (processBytes e bytes c)"
proof -
  obtain st p rest where f: "http_feed bytes (parser c) = (st, p, rest)" by (cases "http_feed bytes (parser c)")
  show ?thesis using assms
    by (cases st) (auto simp: processBytes_def f Let_def progress_defs tls_close_def rate_limited_def)
qed

lemma timer_progresses:
  assumes "progresses cs (c, [], [])"
  shows "progresses cs (timer_fires i c)"
proof (cases "filter (\<lambda>t. fst (snd t) = i) (timers (hc_timers c))")
  case (Cons x xs)
  obtain d j k where "x = (d, j, k)" by (cases x)
  then show ?thesis using assms Cons
    by (cases k) (auto simp: timer_fires_def Let_def progress_defs set_timer_def tls_close_def)
qed (use assms in \<open>simp add: timer_fires_def\<close>)

lemma stream_progresses:
  assumes "progresses cs (c, [], [])"
  shows "progresses cs (c\<lparr>stream := fst (tls_step e d (stream c))\<rparr>, map OnStream (snd (tls_step e d (stream c))), [])"
  using assms announces_step[of "stream c" e d] by (auto simp: progress_defs announces_def)

lemma post_progresses:
  assumes "progresses cs (c, [], [])"
  shows "progresses cs (postJson n pth body c)"
  using assms by (cases "queue c") (auto simp: postJson_def progress_defs)

definition client_ok :: "http_call list \<Rightarrow> http_client \<Rightarrow> bool" where
  "client_ok cs c \<longleftrightarrow> waits cs c \<and> deadline cs c \<and> connects cs c \<and> parts_ok c"

lemma client_ok_step:
  assumes "client_ok (d # cs) c" and "\<forall>r \<in> set (tl (queue c)). \<not> written r"
  shows "progresses cs (http_step e n d c)"
proof -
  have p: "parts_ok c" using assms(1) by (simp add: client_ok_def)
  have neutral: "progresses cs (c, [], [])"
    if "d \<noteq> Pump" "\<forall>err resp. d \<noteq> CompleteHead err resp" "d \<noteq> ArmRequestTimer" "d \<noteq> OnStream (Callback TlsConnected)"
    using assms(1) that by (auto simp: client_ok_def progress_defs)
  show ?thesis
  proof (cases d)
    case (OnStream x)
    show ?thesis
    proof (cases "\<exists>ev. x = Callback ev")
      case True
      then obtain ev where ev: "d = OnStream (Callback ev)" using OnStream by auto
      show ?thesis
      proof (cases ev)
        case TlsConnected
        then show ?thesis using assms(1) ev by (auto simp: onTlsConnected_def client_ok_def progress_defs)
      next
        case (TlsData bytes)
        then show ?thesis using neutral ev by (auto simp: onTlsData_def progress_defs)
      qed (simp add: ev closed_progresses)
    next
      case False
      then have "http_step e n d c =
        (c\<lparr>stream := fst (tls_step (he_sys e) x (stream c))\<rparr>, map OnStream (snd (tls_step (he_sys e) x (stream c))), [])"
        by (cases x) (auto simp: OnStream case_prod_beta simp del: tls_step.simps)
      then show ?thesis using stream_progresses neutral False by (auto simp: OnStream)
    qed
  next
    case ArmRequestTimer
    have "requestTimer (arm RequestTimer (requestTimeoutMs (hc_options c)) e c) \<noteq> 0"
      using arm_timers[of c RequestTimer] p by (simp add: parts_ok_def)
    moreover have "pauseTimer (arm RequestTimer (requestTimeoutMs (hc_options c)) e c) = pauseTimer c"
      by (simp add: arm_def set_timer_def case_prod_beta)
    ultimately show ?thesis using assms(1) by (auto simp: ArmRequestTimer client_ok_def progress_defs hc_frame)
  next
    case (CallBack i err resp)
    then show ?thesis using neutral by (auto simp: progress_defs)
  next
    case StagedBytes
    then show ?thesis using neutral by (auto simp: staged_bytes_def progress_defs)
  next
    case Pump
    then show ?thesis using assms(1) by (auto simp: client_ok_def connects_def deadline_def intro!: pump_progresses)
  next
    case (CompleteHead err resp)
    then show ?thesis using assms by (auto simp: client_ok_def connects_def intro!: completeHead_progresses)
  qed (use neutral in \<open>auto simp: cancel_progresses more_bytes_def intro: bytes_progresses timer_progresses post_progresses\<close>)
qed

lemma http_run_client_ok: "http_run cs c log n \<Longrightarrow> client_ok cs c"
proof (induction rule: http_run.induct)
  case (start baseUrl opts tls_opts c)
  then show ?case
    by (auto simp: client_ok_def progress_defs parts_ok_def timers_inv_def timer_id_def new_http_client_def new_timers_ok new_tls_inv
        split: option.splits if_splits http_timer.splits)
next
  case (call cs c log n d)
  then show ?case by (auto simp: client_ok_def progress_defs)
next
  case (step d cs c log n e c' ds out)
  have "\<forall>x \<in> set (tl (entries c)). \<not> snd x" using http_run_accounted[OF step.hyps(1)] by (simp add: accounted_def)
  then have "\<forall>r \<in> set (tl (queue c)). \<not> written r" by (simp add: entries_def map_tl[symmetric])
  from client_ok_step[OF step.IH this, of e n] parts_ok_step[of c e n d] step show ?case
    by (simp add: client_ok_def progresses_def)
qed

section \<open>Scripted runs\<close>

text \<open>A run as a script: an outside call, or one step of the call on top of the stack.\<close>

datatype script = Outside http_call | Step http_env

type_synonym http_config = "http_call list \<times> http_client \<times> http_output list \<times> nat"

fun play :: "script list \<Rightarrow> http_config \<Rightarrow> http_config option" where
  "play [] cfg = Some cfg"
| "play (Outside d # ss) (cs, c, log, n) =
     (if (cs = [] \<or> hd cs = CallBackReturns) \<and> http_offered d c then play ss (d # cs, c, log, n) else None)"
| "play (Step e # ss) (cs, c, log, n) =
     (case cs of
        [] \<Rightarrow> None
      | d # cs \<Rightarrow> (case http_step e n d c of (c', ds, out) \<Rightarrow> play ss (ds @ cs, c', log @ out, n + posts d)))"

lemma play_run: "play ss (cs, c, log, n) = Some (cs', c', log', n') \<Longrightarrow> http_run cs c log n \<Longrightarrow> http_run cs' c' log' n'"
proof (induction ss arbitrary: cs c log n)
  case (Cons s ss)
  show ?case
  proof (cases s)
    case (Outside d)
    then have "play ss (d # cs, c, log, n) = Some (cs', c', log', n')" "http_run (d # cs) c log n"
      using Cons.prems by (auto split: if_splits intro: http_run.call)
    then show ?thesis by (rule Cons.IH)
  next
    case (Step e)
    then obtain d ds where cs: "cs = d # ds" using Cons.prems(1) by (cases cs) auto
    obtain c1 es out where st: "http_step e n d c = (c1, es, out)" by (cases "http_step e n d c")
    have "play ss (es @ ds, c1, log @ out, n + posts d) = Some (cs', c', log', n')" using Cons.prems(1) Step by (simp add: cs st)
    then show ?thesis using http_run.step[OF Cons.prems(2)[unfolded cs] st] by (rule Cons.IH)
  qed
qed simp

definition ex_http_options :: httpClientOptions where
  "ex_http_options = \<lparr>requestTimeoutMs = 10000, idleTimeoutMs = 50000, defaultRateLimitPauseMs = 1000\<rparr>"

definition ex_client :: http_client where
  "ex_client = the (new_http_client ''http://h'' ex_http_options \<lparr>connectTimeoutMs = 5000, maxOutboxBytes = 0\<rparr>)"

definition ex_env :: "(nat \<Rightarrow> attempt) \<Rightarrow> write_result list \<Rightarrow> http_env" where
  "ex_env att ws = \<lparr>he_now = 7, he_sys = \<lparr>sys_resolve = Some [16, 28], sys_attempt = att, sys_error = None, sys_context = None,
     sys_handshake = HsDone, sys_writes = ws, sys_read = ReadAgain\<rparr>\<rparr>"

lemma ex_client_start: "http_run [] ex_client [] 0"
proof -
  have "\<exists>c. new_http_client ''http://h'' ex_http_options \<lparr>connectTimeoutMs = 5000, maxOutboxBytes = 0\<rparr> = Some c"
    by (simp add: new_http_client_def url_parse_def rfind_char_def)
  then show ?thesis unfolding ex_client_def by (metis http_run.start option.sel)
qed

definition reaches :: "script list \<Rightarrow> (http_client \<Rightarrow> http_output list \<Rightarrow> nat \<Rightarrow> bool) \<Rightarrow> bool" where
  "reaches ss P = (case play ss ([], ex_client, [], 0) of None \<Rightarrow> False | Some (cs, c, log, n) \<Rightarrow> cs = [] \<and> P c log n)"

lemma reaches_run:
  assumes "reaches ss P"
  obtains c log n where "http_run [] c log n" "P c log n"
proof (cases "play ss ([], ex_client, [], 0)")
  case (Some cfg)
  obtain cs c log n where "cfg = (cs, c, log, n)" by (cases cfg)
  then have r: "play ss ([], ex_client, [], 0) = Some ([], c, log, n)" "P c log n" using assms Some by (simp_all add: reaches_def)
  from play_run[OF r(1) ex_client_start] r(2) show thesis by (rule that)
qed (use assms in \<open>simp add: reaches_def\<close>)

text \<open>The first address accepts the attempt and then times out; the second one fails at once.\<close>

definition stall_script :: "script list" where
  "stall_script =
     [Outside (PostJson ''/info'' ''{}''), Step (ex_env (\<lambda>_. Started) []), Step (ex_env (\<lambda>_. Started) []),
      Outside (OnStream ConnectTimeout), Step (ex_env (\<lambda>_. ConnectFails) [])]"

text \<open>
  The stream fails while the first request is handed over; a second request is posted while the deadline of the first
  one is still armed.
\<close>

definition stale_timer_script :: "script list" where
  "stale_timer_script =
     (let e = Step (ex_env (\<lambda>_. Started) []); f = Step (ex_env (\<lambda>_. Started) [WriteFails ''broken pipe'']) in
      [Outside (PostJson ''/info'' ''{}''), e, e, Outside (OnStream (IoEvent EPOLLOUT)), e, e, f, e, e, e, e, e, e, e,
       Outside (PostJson ''/info'' ''{}''), e, e, Outside (TimerFires 1), e, e, e, e, e])"

definition requests_timed_out :: "http_output list \<Rightarrow> nat list" where
  "requests_timed_out log = List.map_filter (\<lambda>x. case x of Called i err resp \<Rightarrow> if err_kind err = Timeout then Some i else None | Handed i \<Rightarrow> None) log"

text \<open>Two requests over one connection, both answered.\<close>

definition ok_script :: "script list" where
  "ok_script =
     (let e = Step (ex_env (\<lambda>_. Started) [Wrote 1000]) in
      [Outside (PostJson ''/info'' ''{}''), e, e, Outside (PostJson ''/info'' ''[]''), e, e,
       Outside (OnStream (IoEvent EPOLLOUT)), e, e, e, e, e])"

lemma ok_run: "\<exists>c log n. http_run [] c log n \<and> (map callback (queue c) = [0, 1] \<and> handed log = [0] \<and> n = 2 \<and> t_state (stream c) = SOpen)"
proof -
  have "reaches ok_script (\<lambda>c log n. map callback (queue c) = [0, 1] \<and> handed log = [0] \<and> n = 2 \<and> t_state (stream c) = SOpen)" by code_simp
  then show ?thesis by (rule reaches_run) (intro exI, rule conjI)
qed

section \<open>Properties\<close>

text \<open>
  Requests go out at most once and in the order they were posted: whatever the network, the timers
  and the callbacks do, the requests handed to the stream are numbered in increasing order, so that none is replayed.
\<close>

lemma requests_handed_over_in_order:
  assumes "http_run cs c log n"
  shows "sorted_wrt (<) (handed log)"
  using http_run_accounted[OF assms] by (simp add: accounted_def)

text \<open>
  C12: between two turns of the event loop every posted request either waits in the queue or was called
  back exactly once.
\<close>

theorem requests_called_back_once:
  assumes "http_run [] c log n"
  shows "distinct (called log) \<and> distinct (map callback (queue c)) \<and> set (called log) \<inter> set (map callback (queue c)) = {} \<and>
    set (called log) \<union> set (map callback (queue c)) = {0..<n}"
proof -
  have m: "mset (called log @ map callback (queue c)) = mset [0..<n]"
    using http_run_accounted[OF assms] by (simp add: accounted_def entries_def comp_def)
  have "distinct (called log @ map callback (queue c))" using mset_eq_imp_distinct_iff[OF m] by simp
  moreover have "set (called log @ map callback (queue c)) = {0..<n}" using mset_eq_setD[OF m] by simp
  ultimately show ?thesis by auto
qed

theorem requests_called_back_once_witness:
  "\<exists>c log n. http_run [] c log n \<and> set (called log) \<union> set (map callback (queue c)) = {0..<2}"
proof -
  obtain c log where r: "http_run [] c log 2" using ok_run by auto
  have "set (called log) \<union> set (map callback (queue c)) = {0..<2}" using requests_called_back_once[OF r] by simp
  with r show ?thesis by (intro exI conjI)
qed

text \<open>
  C22: a queue that is not empty never waits for nothing: between two turns of the event loop the connect
  timer, the pause timer or the deadline of the request on the wire is armed, unless the stream was closed without a
  report while the client was connecting.
\<close>

theorem queue_never_stalls:
  assumes "http_run [] c log n" and "queue c \<noteq> []" and "\<not> (connecting c \<and> t_state (stream c) = SClosed)"
  shows "connecting c \<and> connectTimer (stream c) \<noteq> None \<or>
    (\<exists>due i. (due, i, PauseTimer) \<in> set (timers (hc_timers c))) \<or>
    written (hd (queue c)) \<and> (\<exists>due i. (due, i, RequestTimer) \<in> set (timers (hc_timers c)))"
proof -
  have ok: "waits [] c" "deadline [] c" "connects [] c" "tls_inv (stream c)" "timers_inv c"
    using http_run_client_ok[OF assms(1)] by (simp_all add: client_ok_def parts_ok_def)
  have "timer_id k c \<noteq> 0 \<Longrightarrow> \<exists>due. (due, timer_id k c, k) \<in> set (timers (hc_timers c))" for k
    using ok(5) by (auto simp: timers_inv_def pending_def)
  from this[of PauseTimer] this[of RequestTimer] ok(1-4) assms(2,3) show ?thesis
    by (cases "t_state (stream c)") (auto simp: waits_def deadline_def connects_def tls_inv_def)
qed

theorem queue_never_stalls_witness:
  "\<exists>c log n. http_run [] c log n \<and> queue c \<noteq> [] \<and> (\<exists>k due i. (due, i, k) \<in> set (timers (hc_timers c)))"
proof -
  obtain c log n where r: "http_run [] c log n" "map callback (queue c) = [0, 1]" "t_state (stream c) = SOpen" using ok_run by auto
  have q: "queue c \<noteq> []" using r(2) by auto
  moreover have "connectTimer (stream c) = None" using http_run_client_ok[OF r(1)] r(3) by (simp add: client_ok_def parts_ok_def tls_inv_def)
  ultimately have "\<exists>k due i. (due, i, k) \<in> set (timers (hc_timers c))" using queue_never_stalls[OF r(1)] r(3) by auto
  with r(1) q show ?thesis by (intro exI[of _ c] exI[of _ log] exI[of _ n] conjI)
qed

text \<open>
  The exception does happen: with two addresses of which the first times out and the second
  fails at once, the client waits for a connection with no timer and no socket left, and the request is never called
  back.
\<close>

lemma silent_failover_stalls_the_queue:
  "\<exists>c log n. http_run [] c log n \<and> map callback (queue c) = [0] \<and> connecting c \<and> timers (hc_timers c) = [] \<and>
     registered (stream c) = None \<and> connectTimer (stream c) = None"
proof -
  have "reaches stall_script (\<lambda>c log n. map callback (queue c) = [0] \<and> connecting c \<and> timers (hc_timers c) = [] \<and>
     registered (stream c) = None \<and> connectTimer (stream c) = None)"
    by code_simp
  then show ?thesis by (rule reaches_run) (intro exI, rule conjI)
qed

text \<open>
  When the stream fails while a request is handed over, \<open>pump\<close> arms the deadline after the
  request was called back; the timer then fails a later request that was never handed to the stream.
\<close>

lemma stale_timer_fails_a_later_request:
  "\<exists>c log n. http_run [] c log n \<and> handed log = [0] \<and> requests_timed_out log = [1]"
proof -
  have "reaches stale_timer_script (\<lambda>c log n. handed log = [0] \<and> requests_timed_out log = [1])" by code_simp
  then show ?thesis by (rule reaches_run) (intro exI, rule conjI)
qed

end
