(* ===== verification/HL_Scalar.thy ===== *)
theory HL_Scalar
  imports HL_Types
begin

unbundle bit_operations_syntax

text \<open>
  Arithmetic modulo the order of the secp256k1 group (\<open>src/crypto/Scalar.h\<close>): byte conversion, subtraction with
  borrow, the 192-bit column accumulator, the reduction of 512-bit products, multiplication, addition and the
  inverse by a fixed-window power.

  \<^item> A number is an array of four 64-bit limbs, least significant first: a list of \<open>u64\<close>. \<open>U128\<close> is a 128-bit word.
  \<^item> \<open>limbs_val\<close> is the number that a list of limbs stands for; the theorems are about it.
\<close>

section \<open>Limbs\<close>

type_synonym u128 = "128 word"

definition kOrderN :: "u64 list" where
  "kOrderN = [0xBFD25E8CD0364141, 0xBAAEDCE6AF48A03B, 0xFFFFFFFFFFFFFFFE, 0xFFFFFFFFFFFFFFFF]"

definition kOrderHalf :: "u64 list" where
  "kOrderHalf = [0xDFE92F46681B20A0, 0x5D576E7357A4501D, 0xFFFFFFFFFFFFFFFF, 0x7FFFFFFFFFFFFFFF]"

definition kC0 :: u64 where "kC0 = 0x402DA1732FC9BEBF"
definition kC1 :: u64 where "kC1 = 0x4551231950B75FC4"

definition be_word :: "u8 list \<Rightarrow> u64" where
  "be_word bs = foldl (\<lambda>v b. push_bit 8 v OR ucast b) 0 bs"

definition fromBytes :: "u8 list \<Rightarrow> u64 list" where
  "fromBytes be = map (\<lambda>i. be_word (take 8 (drop ((3 - i) * 8) be))) [0..<4]"

definition word_be :: "u64 \<Rightarrow> u8 list" where
  "word_be v = map (\<lambda>b. ucast (drop_bit (8 * (7 - b)) v)) [0..<8]"

definition toBytes :: "u64 list \<Rightarrow> u8 list" where
  "toBytes l = concat (map (\<lambda>i. word_be (l ! (3 - i))) [0..<4])"

fun sub_loop :: "u64 list \<Rightarrow> u64 list \<Rightarrow> u64 \<Rightarrow> u64 list \<times> u64" where
  "sub_loop (a # as) (b # bs) borrow =
     (let d = (ucast a - ucast b - ucast borrow :: u128);
          (r, bo) = sub_loop as bs (ucast (drop_bit 64 d) AND 1)
      in (ucast d # r, bo))"
| "sub_loop _ _ borrow = ([], borrow)"

text \<open>The difference and the borrow that is left.\<close>

definition limbs_sub :: "u64 list \<Rightarrow> u64 list \<Rightarrow> u64 list \<times> u64" where
  "limbs_sub a b = sub_loop a b 0"

definition pick :: "u64 \<Rightarrow> u64 list \<Rightarrow> u64 list \<Rightarrow> u64 list" where
  "pick keepA a t = map2 (\<lambda>x y. (x AND keepA) OR (y AND NOT keepA)) a t"

definition condSubN :: "u64 list \<Rightarrow> u64 list" where
  "condSubN a = (let (t, borrow) = limbs_sub a kOrderN in pick (0 - borrow) a t)"

definition lessThan :: "u64 list \<Rightarrow> u64 list \<Rightarrow> bool" where
  "lessThan a b \<longleftrightarrow> snd (limbs_sub a b) \<noteq> 0"

section \<open>The column accumulator\<close>

record acc =
  w0 :: u64
  w1 :: u64
  w2 :: u64

definition acc_zero :: acc where
  "acc_zero = \<lparr>w0 = 0, w1 = 0, w2 = 0\<rparr>"

definition acc_mul :: "u64 \<Rightarrow> u64 \<Rightarrow> acc \<Rightarrow> acc" where
  "acc_mul a b c =
     (let t = (ucast a * ucast b :: u128); lo = (ucast t :: u64); hi = (ucast (drop_bit 64 t) :: u64);
          v0 = w0 c + lo; hi = hi + of_bool (v0 < lo); v1 = w1 c + hi
      in \<lparr>w0 = v0, w1 = v1, w2 = w2 c + of_bool (v1 < hi)\<rparr>)"

definition acc_add :: "u64 \<Rightarrow> acc \<Rightarrow> acc" where
  "acc_add a c =
     (let v0 = w0 c + a; over = (of_bool (v0 < a) :: u64); v1 = w1 c + over
      in \<lparr>w0 = v0, w1 = v1, w2 = w2 c + of_bool (v1 < over)\<rparr>)"

definition acc_extract :: "acc \<Rightarrow> u64 \<times> acc" where
  "acc_extract c = (w0 c, \<lparr>w0 = w1 c, w1 = w2 c, w2 = 0\<rparr>)"

section \<open>Reduction\<close>

text \<open>Stages 1 and 2: the seven limbs \<open>m\<close> of the folded number, then the five limbs \<open>p\<close>.\<close>

definition reduce_stage1 :: "u64 list \<Rightarrow> u64 list" where
  "reduce_stage1 l =
     (let h0 = l ! 4; h1 = l ! 5; h2 = l ! 6; h3 = l ! 7;
          (m0, a) = acc_extract (acc_mul h0 kC0 (acc_add (l ! 0) acc_zero));
          (m1, a) = acc_extract (acc_mul h0 kC1 (acc_mul h1 kC0 (acc_add (l ! 1) a)));
          (m2, a) = acc_extract (acc_add h0 (acc_mul h1 kC1 (acc_mul h2 kC0 (acc_add (l ! 2) a))));
          (m3, a) = acc_extract (acc_add h1 (acc_mul h2 kC1 (acc_mul h3 kC0 (acc_add (l ! 3) a))));
          (m4, a) = acc_extract (acc_add h2 (acc_mul h3 kC1 a));
          (m5, a) = acc_extract (acc_add h3 a);
          (m6, a) = acc_extract a
      in [m0, m1, m2, m3, m4, m5, m6])"

definition reduce_stage2 :: "u64 list \<Rightarrow> u64 list" where
  "reduce_stage2 m =
     (let m4 = m ! 4; m5 = m ! 5; m6 = m ! 6;
          (p0, a) = acc_extract (acc_mul m4 kC0 (acc_add (m ! 0) acc_zero));
          (p1, a) = acc_extract (acc_mul m4 kC1 (acc_mul m5 kC0 (acc_add (m ! 1) a)));
          (p2, a) = acc_extract (acc_add m4 (acc_mul m5 kC1 (acc_mul m6 kC0 (acc_add (m ! 2) a))));
          (p3, a) = acc_extract (acc_add m5 (acc_mul m6 kC1 (acc_add (m ! 3) a)));
          (p4, a) = acc_extract (acc_add m6 a)
      in [p0, p1, p2, p3, p4])"

definition high :: "u128 \<Rightarrow> u128" where
  "high t = ucast (ucast (drop_bit 64 t) :: u64)"

text \<open>Stage 3: the last fold, and the fold of its carry.\<close>

definition reduce_stage3 :: "u64 list \<Rightarrow> u64 list" where
  "reduce_stage3 p =
     (let p4 = p ! 4;
          t = (ucast (p ! 0) + ucast p4 * ucast kC0 :: u128); r0 = (ucast t :: u64);
          t = ucast (p ! 1) + ucast p4 * ucast kC1 + high t; r1 = (ucast t :: u64);
          t = ucast (p ! 2) + ucast p4 + high t; r2 = (ucast t :: u64);
          t = ucast (p ! 3) + high t; r3 = (ucast t :: u64);
          overflow = (ucast (drop_bit 64 t) :: u64);
          t = ucast r0 + ucast (overflow * kC0); r0 = (ucast t :: u64);
          t = ucast r1 + ucast (overflow * kC1) + high t; r1 = (ucast t :: u64);
          t = ucast r2 + ucast overflow + high t; r2 = (ucast t :: u64)
      in [r0, r1, r2, r3 + ucast (drop_bit 64 t)])"

definition reduce512 :: "u64 list \<Rightarrow> u64 list" where
  "reduce512 l = condSubN (reduce_stage3 (reduce_stage2 (reduce_stage1 l)))"

section \<open>Modular operations\<close>

text \<open>One row of the product: the inner loop over the limbs of \<open>b\<close> from column \<open>i\<close> on.\<close>

fun mul_row :: "u64 \<Rightarrow> u64 list \<Rightarrow> u64 list \<Rightarrow> u64 \<Rightarrow> u64 list" where
  "mul_row x (b # bs) (p # ps) carry =
     (let t = (ucast x * ucast b + ucast p + ucast carry :: u128)
      in ucast t # mul_row x bs ps (ucast (drop_bit 64 t)))"
| "mul_row x _ ps carry = (case ps of [] \<Rightarrow> [] | p # ps \<Rightarrow> carry # ps)"

fun mul_rows :: "u64 list \<Rightarrow> u64 list \<Rightarrow> u64 list \<Rightarrow> u64 list" where
  "mul_rows [] b product = product"
| "mul_rows (x # xs) b product =
     (case mul_row x b product 0 of [] \<Rightarrow> [] | p # ps \<Rightarrow> p # mul_rows xs b ps)"

definition mulMod :: "u64 list \<Rightarrow> u64 list \<Rightarrow> u64 list" where
  "mulMod a b = reduce512 (mul_rows a b (replicate 8 0))"

fun add_loop :: "u64 list \<Rightarrow> u64 list \<Rightarrow> u64 \<Rightarrow> u64 list \<times> u64" where
  "add_loop (a # as) (b # bs) carry =
     (let t = (ucast a + ucast b + ucast carry :: u128);
          (s, co) = add_loop as bs (ucast (drop_bit 64 t))
      in (ucast t # s, co))"
| "add_loop _ _ carry = ([], carry)"

definition addMod :: "u64 list \<Rightarrow> u64 list \<Rightarrow> u64 list" where
  "addMod a b =
     (let (sum, carry) = add_loop a b 0; (diff, borrow) = limbs_sub sum kOrderN
      in pick (0 - (borrow AND (1 XOR carry))) sum diff)"

definition reduce256 :: "u64 list \<Rightarrow> u64 list" where
  "reduce256 a = condSubN a"

fun power_table :: "u64 list \<Rightarrow> nat \<Rightarrow> u64 list list" where
  "power_table a 0 = [[1, 0, 0, 0]]"
| "power_table a (Suc i) = (let t = power_table a i in t @ [mulMod (last t) a])"

text \<open>The masked table lookup.\<close>

definition masked_lookup :: "u64 list list \<Rightarrow> u64 \<Rightarrow> u64 list" where
  "masked_lookup table digit =
     foldl (\<lambda>factor i. map2 (\<lambda>f t. f OR (t AND (0 - of_bool (word_of_nat i = digit)))) factor (table ! i)) [0, 0, 0, 0] [0..<16]"

definition window_digit :: "u64 list \<Rightarrow> nat \<Rightarrow> u64" where
  "window_digit e w = drop_bit ((w mod 16) * 4) (e ! (w div 16)) AND 0xF"

fun inv_windows :: "u64 list list \<Rightarrow> u64 list \<Rightarrow> nat \<Rightarrow> u64 list \<Rightarrow> u64 list" where
  "inv_windows table e 0 result = result"
| "inv_windows table e (Suc w) result =
     (let sq = ((\<lambda>r. mulMod r r) ^^ 4) result
      in inv_windows table e w (mulMod sq (masked_lookup table (window_digit e w))))"

definition invMod :: "u64 list \<Rightarrow> u64 list" where
  "invMod a = inv_windows (power_table a 15) (fst (limbs_sub kOrderN [2, 0, 0, 0])) 64 [1, 0, 0, 0]"

definition limbs_isZero :: "u64 list \<Rightarrow> bool" where
  "limbs_isZero a \<longleftrightarrow> a ! 0 OR a ! 1 OR a ! 2 OR a ! 3 = 0"

section \<open>The value of limbs\<close>

fun limbs_val :: "u64 list \<Rightarrow> int" where
  "limbs_val [] = 0"
| "limbs_val (a # as) = uint a + 2 ^ 64 * limbs_val as"

lemma uint64_bounds: "0 \<le> uint (a :: u64)" "uint (a :: u64) < 2 ^ 64"
  using uint_lt2p[of a] by simp_all

lemma limbs_val_bounds: "0 \<le> limbs_val l \<and> limbs_val l < 2 ^ (64 * length l)"
proof (induction l)
  case (Cons a as)
  have "limbs_val as + 1 \<le> 2 ^ (64 * length as)" using Cons by simp
  then have "2 ^ 64 * (limbs_val as + 1) \<le> 2 ^ 64 * 2 ^ (64 * length as)" by (intro mult_left_mono) simp_all
  then show ?case using Cons uint64_bounds[of a] by (simp add: power_add algebra_simps)
qed simp

lemma uint_ucast_up [simp]: "uint (ucast (a :: u64) :: u128) = uint a"
  by (simp add: unsigned_ucast_eq take_bit_int_eq_self uint64_bounds order_less_le_trans[OF uint64_bounds(2)])

lemma uint_low: "uint (ucast (t :: u128) :: u64) = uint t mod 2 ^ 64"
  by (simp add: unsigned_ucast_eq take_bit_eq_mod)

lemma uint_high: "uint (ucast (drop_bit 64 (t :: u128)) :: u64) = uint t div 2 ^ 64"
proof -
  have "uint t < 2 ^ 128" using uint_lt2p[of t] by simp
  then have "uint t div 2 ^ 64 < 2 ^ 64" by (simp add: div_less_iff_less_mult)
  moreover have "uint (drop_bit 64 t) = uint t div 2 ^ 64" by (simp add: drop_bit_eq_div uint_div)
  ultimately show ?thesis by (simp add: unsigned_ucast_eq take_bit_eq_mod pos_imp_zdiv_nonneg_iff)
qed

lemma high_eq: "uint (high t) = uint t div 2 ^ 64"
  by (simp add: high_def uint_high)

lemma sub_step:
  fixes a b c :: u64
  defines "d \<equiv> (ucast a - ucast b - ucast c :: u128)"
  assumes "uint c \<le> 1"
  shows "uint (ucast d :: u64) = uint a - uint b - uint c + 2 ^ 64 * uint (ucast (drop_bit 64 d) AND 1 :: u64)"
    and "uint (ucast (drop_bit 64 d) AND 1 :: u64) \<le> 1"
proof -
  let ?v = "uint a - uint b - uint c"
  have d: "uint d = ?v mod 2 ^ 128" by (simp add: d_def uint_word_ariths mod_simps)
  have v: "- (2 ^ 64) \<le> ?v" "?v < 2 ^ 64" using uint64_bounds[of a] uint64_bounds[of b] assms(2) uint64_bounds[of c] by linarith+
  have one: "uint (ucast (drop_bit 64 d) AND 1 :: u64) = uint d div 2 ^ 64 mod 2"
    by (simp only: and_one_eq uint_mod uint_high) simp
  show "uint (ucast (drop_bit 64 d) AND 1 :: u64) \<le> 1" by (simp add: one)
  show "uint (ucast d :: u64) = ?v + 2 ^ 64 * uint (ucast (drop_bit 64 d) AND 1 :: u64)"
  proof (cases "?v < 0")
    case True
    then have m: "uint d = ?v + 2 ^ 128" unfolding d using v(1) by (intro int_mod_pos_eq[where q = "-1"]) simp_all
    have "uint d div 2 ^ 64 = 2 ^ 64 - 1"
      unfolding m using v True by (intro int_div_pos_eq[where r = "?v + 2 ^ 64"]) simp_all
    moreover have "uint d mod 2 ^ 64 = ?v + 2 ^ 64"
      unfolding m using v True by (intro int_mod_pos_eq[where q = "2 ^ 64 - 1"]) simp_all
    ultimately show ?thesis by (simp add: uint_low one)
  next
    case False
    then have "uint d = ?v" using v(2) d by (simp add: mod_pos_pos_trivial)
    then show ?thesis using False v(2) by (simp add: uint_low one)
  qed
qed

lemma sub_loop_val:
  assumes "length as = length bs" and "uint c \<le> 1" and "sub_loop as bs c = (r, bo)"
  shows "limbs_val r = limbs_val as - limbs_val bs - uint c + 2 ^ (64 * length as) * uint bo \<and> uint bo \<le> 1 \<and> length r = length as"
  using assms
proof (induction as bs c arbitrary: r bo rule: sub_loop.induct)
  case (1 a as b bs c)
  let ?d = "ucast a - ucast b - ucast c :: u128"
  let ?c = "ucast (drop_bit 64 ?d) AND 1 :: u64"
  obtain r' bo' where r': "sub_loop as bs ?c = (r', bo')" by fastforce
  have r: "r = ucast ?d # r'" "bo = bo'" using "1.prems"(3) r' by (simp_all add: Let_def)
  note s = sub_step[OF "1.prems"(2), of a b]
  have "limbs_val r' = limbs_val as - limbs_val bs - uint ?c + 2 ^ (64 * length as) * uint bo' \<and> uint bo' \<le> 1 \<and> length r' = length as"
    using "1.IH"[OF refl _ s(2) r'] "1.prems"(1) by simp
  then show ?case using s(1) by (simp add: r power_add algebra_simps)
qed auto

definition order_n :: int where
  "order_n = 0xFFFFFFFFFFFFFFFFFFFFFFFFFFFFFFFEBAAEDCE6AF48A03BBFD25E8CD0364141"

lemma kOrderN_val: "limbs_val kOrderN = order_n" "length kOrderN = 4"
  by (simp_all add: kOrderN_def order_n_def)

lemma limbs_sub_val:
  assumes "length a = length b" and "limbs_sub a b = (r, bo)"
  shows "limbs_val r = limbs_val a - limbs_val b + 2 ^ (64 * length a) * uint bo \<and> length r = length a \<and>
    bo = of_bool (limbs_val a < limbs_val b)"
proof -
  have s: "limbs_val r = limbs_val a - limbs_val b + 2 ^ (64 * length a) * uint bo" "uint bo \<le> 1" "length r = length a"
    using sub_loop_val[of a b 0 r bo] assms by (simp_all add: limbs_sub_def)
  have "0 \<le> uint bo" by simp
  then consider "uint bo = 0" | "uint bo = 1" using s(2) by linarith
  then show ?thesis
  proof cases
    case 1
    then have "bo = 0" by (simp add: uint_0_iff)
    then show ?thesis using s limbs_val_bounds[of r] by simp
  next
    case 2
    then have "bo = 1" by (simp add: word_uint_eq_iff)
    then show ?thesis using s limbs_val_bounds[of r] by simp
  qed
qed

lemma pick_all: "length a = length t \<Longrightarrow> pick (- 1) a t = a" "length a = length t \<Longrightarrow> pick 0 a t = t"
  by (induction a t rule: list_induct2) (simp_all add: pick_def)

lemma condSubN_val:
  assumes "length a = 4"
  shows "limbs_val (condSubN a) = (if limbs_val a < order_n then limbs_val a else limbs_val a - order_n) \<and> length (condSubN a) = 4"
proof -
  obtain t bo where t: "limbs_sub a kOrderN = (t, bo)" by fastforce
  show ?thesis using limbs_sub_val[OF _ t] assms by (auto simp: condSubN_def t kOrderN_val pick_all)
qed

lemma condSubN_mod:
  assumes "length a = 4"
  shows "limbs_val (condSubN a) = limbs_val a mod order_n"
proof -
  have "limbs_val a < 2 ^ 256" "0 \<le> limbs_val a" using limbs_val_bounds[of a] assms by simp_all
  then have "limbs_val a < 2 * order_n" by (simp add: order_n_def)
  then show ?thesis using condSubN_val[OF assms] \<open>0 \<le> limbs_val a\<close>
    by (auto simp: mod_pos_pos_trivial not_less intro!: int_mod_pos_eq[where q = 1, symmetric])
qed

section \<open>The accumulator\<close>

definition acc_val :: "acc \<Rightarrow> int" where
  "acc_val c = uint (w0 c) + 2 ^ 64 * uint (w1 c) + 2 ^ 128 * uint (w2 c)"

lemma carry_out: "uint (x + y) + 2 ^ 64 * of_bool (x + y < y) = uint x + uint (y :: u64)"
proof -
  have s: "uint (x + y) = (uint x + uint y) mod 2 ^ 64" by (simp add: uint_word_ariths)
  show ?thesis
  proof (cases "uint x + uint y < 2 ^ 64")
    case True
    then have "uint (x + y) = uint x + uint y" using s by (simp add: mod_pos_pos_trivial)
    then show ?thesis by (simp add: word_less_def)
  next
    case False
    then have "uint (x + y) = uint x + uint y - 2 ^ 64"
      unfolding s using uint64_bounds[of x] uint64_bounds[of y] by (intro int_mod_pos_eq[where q = 1]) simp_all
    then show ?thesis using uint64_bounds(2)[of x] by (simp add: word_less_def)
  qed
qed

lemma of_bool_word [simp]: "uint (of_bool b :: u64) = of_bool b"
  by simp

lemma acc_val_nonneg: "0 \<le> acc_val c"
  by (simp add: acc_val_def)

lemma w2_bound:
  assumes "acc_val c < 2 ^ 190"
  shows "uint (w2 c) < 2 ^ 62"
proof -
  have "0 \<le> uint (w0 c) + 2 ^ 64 * uint (w1 c)" by simp
  then have "2 ^ 128 * uint (w2 c) < 2 ^ 190" using assms unfolding acc_val_def by linarith
  then show ?thesis by simp
qed

lemma acc_add_val:
  assumes "acc_val c < 2 ^ 190"
  shows "acc_val (acc_add a c) = acc_val c + uint a"
proof -
  let ?v0 = "w0 c + a" let ?o = "of_bool (?v0 < a) :: u64" let ?v1 = "w1 c + ?o"
  have "uint (w2 c + of_bool (?v1 < ?o)) = uint (w2 c) + of_bool (?v1 < ?o)"
    using w2_bound[OF assms] by (subst uint_add_lem[THEN iffD1]) (auto simp: of_bool_def)
  moreover note carry_out[of "w0 c" a] carry_out[of "w1 c" ?o]
  ultimately show ?thesis by (simp add: acc_add_def acc_val_def Let_def)
qed

lemma product_bound: "uint a * uint (b :: u64) \<le> (2 ^ 64 - 1) * (2 ^ 64 - 1)" if "True" for a :: u64
  using uint64_bounds[of a] uint64_bounds[of b] by (intro mult_mono) simp_all

lemma uint_product: "uint (ucast a * ucast b :: u128) = uint a * uint (b :: u64)" for a :: u64
proof -
  have "uint a * uint b < 2 ^ 128" using product_bound[of a b] by simp
  then show ?thesis by (simp add: uint_word_ariths mod_pos_pos_trivial)
qed

lemma acc_mul_val:
  assumes "acc_val c < 2 ^ 190"
  shows "acc_val (acc_mul a b c) = acc_val c + uint a * uint b"
proof -
  let ?t = "ucast a * ucast b :: u128"
  let ?lo = "ucast ?t :: u64" and ?h = "ucast (drop_bit 64 ?t) :: u64"
  let ?v0 = "w0 c + ?lo" let ?hi = "?h + of_bool (?v0 < ?lo)" let ?v1 = "w1 c + ?hi"
  have t: "uint a * uint b = uint ?lo + 2 ^ 64 * uint ?h"
    by (simp only: uint_low[of ?t] uint_high[of ?t] uint_product) simp
  have "uint ?h < 2 ^ 64 - 1"
  proof -
    have "2 ^ 64 * uint ?h \<le> uint a * uint b" using t uint64_bounds(1)[of ?lo] by linarith
    then show ?thesis using product_bound[of a b] by simp
  qed
  then have h: "uint ?hi = uint ?h + of_bool (?v0 < ?lo)"
    by (subst uint_add_lem[THEN iffD1]) (auto simp: of_bool_def)
  have "uint (w2 c + of_bool (?v1 < ?hi)) = uint (w2 c) + of_bool (?v1 < ?hi)"
    using w2_bound[OF assms] by (subst uint_add_lem[THEN iffD1]) (auto simp: of_bool_def)
  then show ?thesis using carry_out[of "w0 c" ?lo] carry_out[of "w1 c" ?hi] h t
    by (simp add: acc_mul_def acc_val_def Let_def)
qed

lemma acc_extract_val:
  assumes "acc_extract c = (m, c')"
  shows "acc_val c = uint m + 2 ^ 64 * acc_val c' \<and> acc_val c' < 2 ^ 128"
proof -
  have "m = w0 c" "c' = \<lparr>w0 = w1 c, w1 = w2 c, w2 = 0\<rparr>" using assms by (simp_all add: acc_extract_def)
  then show ?thesis using uint64_bounds[of "w1 c"] uint64_bounds[of "w2 c"] by (simp add: acc_val_def algebra_simps)
qed

lemma acc_zero_val: "acc_val acc_zero = 0"
  by (simp add: acc_val_def acc_zero_def)

section \<open>The three stages\<close>

definition fold_c :: int where
  "fold_c = 0x14551231950B75FC4402DA1732FC9BEBF"

lemma order_fold: "order_n + fold_c = 2 ^ 256"
  by (simp add: order_n_def fold_c_def)

lemmas column = acc_add_val acc_mul_val

text \<open>A column whose digit is extracted: the digit and the carry make up the old carry and the summands.\<close>

lemma column1: "acc_val a < 2 ^ 130 \<Longrightarrow> acc_extract (acc_add x a) = (m, a') \<Longrightarrow>
    uint m + 2 ^ 64 * acc_val a' = acc_val a + uint x \<and> acc_val a' < 2 ^ 128"
  using acc_extract_val[of "acc_add x a" m a'] acc_add_val[of a x] by simp

lemma kC_val: "uint kC0 = 0x402DA1732FC9BEBF" "uint kC1 = 0x4551231950B75FC4"
  by (simp_all add: kC0_def kC1_def)

lemma acc_add_step: "acc_val c = v \<Longrightarrow> v < 2 ^ 189 \<Longrightarrow> acc_val (acc_add a c) = v + uint a"
  by (simp add: acc_add_val)

lemma acc_mul_step: "acc_val c = v \<Longrightarrow> v < 2 ^ 189 \<Longrightarrow> acc_val (acc_mul a b c) = v + uint a * uint b"
  by (simp add: acc_mul_val)

lemma stage1:
  assumes "reduce_stage1 [l0, l1, l2, l3, h0, h1, h2, h3] = m"
  shows "limbs_val m = limbs_val [l0, l1, l2, l3] + limbs_val [h0, h1, h2, h3] * fold_c \<and> length m = 7"
proof -
  note b = uint64_bounds(2)[of l0] uint64_bounds(2)[of l1] uint64_bounds(2)[of l2] uint64_bounds(2)[of l3]
    uint64_bounds(2)[of h0] uint64_bounds(2)[of h1] uint64_bounds(2)[of h2] uint64_bounds(2)[of h3]
  obtain m0 a0 where x0: "acc_extract (acc_mul h0 kC0 (acc_add l0 acc_zero)) = (m0, a0)" by fastforce
  obtain m1 a1 where x1: "acc_extract (acc_mul h0 kC1 (acc_mul h1 kC0 (acc_add l1 a0))) = (m1, a1)" by fastforce
  obtain m2 a2 where x2: "acc_extract (acc_add h0 (acc_mul h1 kC1 (acc_mul h2 kC0 (acc_add l2 a1)))) = (m2, a2)" by fastforce
  obtain m3 a3 where x3: "acc_extract (acc_add h1 (acc_mul h2 kC1 (acc_mul h3 kC0 (acc_add l3 a2)))) = (m3, a3)" by fastforce
  obtain m4 a4 where x4: "acc_extract (acc_add h2 (acc_mul h3 kC1 a3)) = (m4, a4)" by fastforce
  obtain m5 a5 where x5: "acc_extract (acc_add h3 a4) = (m5, a5)" by fastforce
  obtain m6 a6 where x6: "acc_extract a5 = (m6, a6)" by fastforce
  have m: "m = [m0, m1, m2, m3, m4, m5, m6]"
    using assms by (simp add: reduce_stage1_def Let_def x0 x1 x2 x3 x4 x5 x6)
  have e0: "acc_val (acc_mul h0 kC0 (acc_add l0 acc_zero)) = 0 + uint l0 + uint h0 * uint kC0"
    using b by (intro acc_mul_step acc_add_step acc_zero_val) (simp_all add: kC_val)
  note y0 = acc_extract_val[OF x0, unfolded e0]
  have e1: "acc_val (acc_mul h0 kC1 (acc_mul h1 kC0 (acc_add l1 a0))) = acc_val a0 + uint l1 + uint h1 * uint kC0 + uint h0 * uint kC1"
    using b y0 by (intro acc_mul_step acc_add_step refl) (simp_all add: kC_val)
  note y1 = acc_extract_val[OF x1, unfolded e1]
  have e2: "acc_val (acc_add h0 (acc_mul h1 kC1 (acc_mul h2 kC0 (acc_add l2 a1)))) =
    acc_val a1 + uint l2 + uint h2 * uint kC0 + uint h1 * uint kC1 + uint h0"
    using b y1 by (intro acc_mul_step acc_add_step refl) (simp_all add: kC_val)
  note y2 = acc_extract_val[OF x2, unfolded e2]
  have e3: "acc_val (acc_add h1 (acc_mul h2 kC1 (acc_mul h3 kC0 (acc_add l3 a2)))) =
    acc_val a2 + uint l3 + uint h3 * uint kC0 + uint h2 * uint kC1 + uint h1"
    using b y2 by (intro acc_mul_step acc_add_step refl) (simp_all add: kC_val)
  note y3 = acc_extract_val[OF x3, unfolded e3]
  have e4: "acc_val (acc_add h2 (acc_mul h3 kC1 a3)) = acc_val a3 + uint h3 * uint kC1 + uint h2"
    using b y3 by (intro acc_mul_step acc_add_step refl) (simp_all add: kC_val)
  note y4 = acc_extract_val[OF x4, unfolded e4]
  have e5: "acc_val (acc_add h3 a4) = acc_val a4 + uint h3"
    using b y4 by (intro acc_add_step refl) simp_all
  note y5 = acc_extract_val[OF x5, unfolded e5] and y6 = acc_extract_val[OF x6]
  have total: "limbs_val [l0, l1, l2, l3] + limbs_val [h0, h1, h2, h3] * fold_c = limbs_val m + 2 ^ 448 * acc_val a6"
    using y0 y1 y2 y3 y4 y5 y6 by (simp add: m kC_val fold_c_def)
  have "limbs_val [l0, l1, l2, l3] < 2 ^ 256" "limbs_val [h0, h1, h2, h3] < 2 ^ 256"
    using limbs_val_bounds[of "[l0, l1, l2, l3]"] limbs_val_bounds[of "[h0, h1, h2, h3]"] by simp_all
  then have "limbs_val [l0, l1, l2, l3] + limbs_val [h0, h1, h2, h3] * fold_c < 2 ^ 448"
    by (simp add: fold_c_def)
  then have "2 ^ 448 * acc_val a6 < 2 ^ 448 * 1"
    using total limbs_val_bounds[of m] by linarith
  then have "acc_val a6 = 0" using acc_val_nonneg[of a6] by simp
  then show ?thesis using total by (simp add: m)
qed

lemma stage2:
  assumes "reduce_stage2 [m0, m1, m2, m3, m4, m5, m6] = p" and "limbs_val [m4, m5, m6] \<le> fold_c + 1"
  shows "limbs_val p = limbs_val [m0, m1, m2, m3] + limbs_val [m4, m5, m6] * fold_c \<and> length p = 5"
proof -
  note b = uint64_bounds(2)[of m0] uint64_bounds(2)[of m1] uint64_bounds(2)[of m2] uint64_bounds(2)[of m3]
    uint64_bounds(2)[of m4] uint64_bounds(2)[of m5] uint64_bounds(2)[of m6]
  obtain p0 a0 where x0: "acc_extract (acc_mul m4 kC0 (acc_add m0 acc_zero)) = (p0, a0)" by fastforce
  obtain p1 a1 where x1: "acc_extract (acc_mul m4 kC1 (acc_mul m5 kC0 (acc_add m1 a0))) = (p1, a1)" by fastforce
  obtain p2 a2 where x2: "acc_extract (acc_add m4 (acc_mul m5 kC1 (acc_mul m6 kC0 (acc_add m2 a1)))) = (p2, a2)" by fastforce
  obtain p3 a3 where x3: "acc_extract (acc_add m5 (acc_mul m6 kC1 (acc_add m3 a2))) = (p3, a3)" by fastforce
  obtain p4 a4 where x4: "acc_extract (acc_add m6 a3) = (p4, a4)" by fastforce
  have p: "p = [p0, p1, p2, p3, p4]"
    using assms(1) by (simp add: reduce_stage2_def Let_def x0 x1 x2 x3 x4)
  have e0: "acc_val (acc_mul m4 kC0 (acc_add m0 acc_zero)) = 0 + uint m0 + uint m4 * uint kC0"
    using b by (intro acc_mul_step acc_add_step acc_zero_val) (simp_all add: kC_val)
  note y0 = acc_extract_val[OF x0, unfolded e0]
  have e1: "acc_val (acc_mul m4 kC1 (acc_mul m5 kC0 (acc_add m1 a0))) = acc_val a0 + uint m1 + uint m5 * uint kC0 + uint m4 * uint kC1"
    using b y0 by (intro acc_mul_step acc_add_step refl) (simp_all add: kC_val)
  note y1 = acc_extract_val[OF x1, unfolded e1]
  have e2: "acc_val (acc_add m4 (acc_mul m5 kC1 (acc_mul m6 kC0 (acc_add m2 a1)))) =
    acc_val a1 + uint m2 + uint m6 * uint kC0 + uint m5 * uint kC1 + uint m4"
    using b y1 by (intro acc_mul_step acc_add_step refl) (simp_all add: kC_val)
  note y2 = acc_extract_val[OF x2, unfolded e2]
  have e3: "acc_val (acc_add m5 (acc_mul m6 kC1 (acc_add m3 a2))) = acc_val a2 + uint m3 + uint m6 * uint kC1 + uint m5"
    using b y2 by (intro acc_mul_step acc_add_step refl) (simp_all add: kC_val)
  note y3 = acc_extract_val[OF x3, unfolded e3]
  have e4: "acc_val (acc_add m6 a3) = acc_val a3 + uint m6"
    using b y3 by (intro acc_add_step refl) simp_all
  note y4 = acc_extract_val[OF x4, unfolded e4]
  have total: "limbs_val [m0, m1, m2, m3] + limbs_val [m4, m5, m6] * fold_c = limbs_val p + 2 ^ 320 * acc_val a4"
    using y0 y1 y2 y3 y4 by (simp add: p kC_val fold_c_def)
  have "limbs_val [m0, m1, m2, m3] < 2 ^ 256" using limbs_val_bounds[of "[m0, m1, m2, m3]"] by simp
  then have "limbs_val [m0, m1, m2, m3] + limbs_val [m4, m5, m6] * fold_c < 2 ^ 320"
    using assms(2) by (simp add: fold_c_def)
  then have "2 ^ 320 * acc_val a4 < 2 ^ 320 * 1" using total limbs_val_bounds[of p] by linarith
  then have "acc_val a4 = 0" using acc_val_nonneg[of a4] by simp
  then show ?thesis using total by (simp add: p)
qed

text \<open>A 128-bit sum that does not overflow, split into its two halves.\<close>

lemma split128:
  assumes "uint (t :: u128) = v"
  shows "uint (ucast t :: u64) + 2 ^ 64 * uint (ucast (drop_bit 64 t) :: u64) = v" and "uint (high t) = uint (ucast (drop_bit 64 t) :: u64)"
  unfolding high_eq uint_high[of t] uint_low[of t] using assms by simp_all

lemma uint_add128: "uint x + uint y < 2 ^ 128 \<Longrightarrow> uint (x + y :: u128) = uint x + uint y"
  by (simp add: uint_word_ariths mod_pos_pos_trivial)

lemma mult_small: "uint (c :: u64) \<le> 1 \<Longrightarrow> uint (c * k) = uint c * uint (k :: u64)"
proof -
  assume "uint c \<le> 1"
  moreover have "0 \<le> uint c" by simp
  ultimately consider "uint c = 0" | "uint c = 1" by linarith
  then show ?thesis
  proof cases
    case 1
    then have "c = 0" by (simp add: uint_0_iff)
    then show ?thesis by simp
  next
    case 2
    then have "c = 1" by (simp add: word_uint_eq_iff)
    then show ?thesis by simp
  qed
qed

lemma stage3:
  assumes "reduce_stage3 [p0, p1, p2, p3, p4] = r" and "uint p4 \<le> 7"
  shows "\<exists>ov. limbs_val r = limbs_val [p0, p1, p2, p3] + uint p4 * fold_c - ov * order_n" and "length r = 4"
proof -
  note b = uint64_bounds(2)[of p0] uint64_bounds(2)[of p1] uint64_bounds(2)[of p2] uint64_bounds(2)[of p3] assms(2)
  define t0 where "t0 = (ucast p0 + ucast p4 * ucast kC0 :: u128)"
  define t1 where "t1 = (ucast p1 + ucast p4 * ucast kC1 + high t0 :: u128)"
  define t2 where "t2 = (ucast p2 + ucast p4 + high t1 :: u128)"
  define t3 where "t3 = (ucast p3 + high t2 :: u128)"
  define ov where "ov = (ucast (drop_bit 64 t3) :: u64)"
  define s0 where "s0 = (ucast (ucast t0 :: u64) + ucast (ov * kC0) :: u128)"
  define s1 where "s1 = (ucast (ucast t1 :: u64) + ucast (ov * kC1) + high s0 :: u128)"
  define s2 where "s2 = (ucast (ucast t2 :: u64) + ucast ov + high s1 :: u128)"
  have r: "r = [ucast s0, ucast s1, ucast s2, ucast t3 + ucast (drop_bit 64 s2)]"
    unfolding assms(1)[symmetric] reduce_stage3_def Let_def t0_def t1_def t2_def t3_def ov_def s0_def s1_def s2_def by simp
  then show "length r = 4" by simp
  let ?h = "\<lambda>t :: u128. uint (ucast (drop_bit 64 t) :: u64)" and ?l = "\<lambda>t :: u128. uint (ucast t :: u64)"
  have v0: "uint t0 = uint p0 + uint p4 * uint kC0"
    using b by (simp add: t0_def uint_add128 uint_product kC_val)
  note q0 = split128[OF v0]
  have v1: "uint t1 = uint p1 + uint p4 * uint kC1 + ?h t0"
    using b q0 uint64_bounds(2)[of "ucast (drop_bit 64 t0)"] by (simp add: t1_def uint_add128 uint_product kC_val)
  note q1 = split128[OF v1]
  have v2: "uint t2 = uint p2 + uint p4 + ?h t1"
    using b q1 uint64_bounds(2)[of "ucast (drop_bit 64 t1)"] by (simp add: t2_def uint_add128)
  note q2 = split128[OF v2]
  have v3: "uint t3 = uint p3 + ?h t2"
    using b q2 uint64_bounds(2)[of "ucast (drop_bit 64 t2)"] by (simp add: t3_def uint_add128)
  note q3 = split128(1)[OF v3, folded ov_def]
  define X where "X = ?l t0 + 2 ^ 64 * ?l t1 + 2 ^ 128 * ?l t2 + 2 ^ 192 * ?l t3"
  have X: "limbs_val [p0, p1, p2, p3] + uint p4 * fold_c = X + 2 ^ 256 * uint ov"
    using q0(1) q1(1) q2(1) q3 by (simp add: X_def kC_val fold_c_def)
  have X0: "0 \<le> X" by (simp add: X_def)
  have top: "limbs_val [p0, p1, p2, p3] < 2 ^ 256" using limbs_val_bounds[of "[p0, p1, p2, p3]"] by simp
  have small: "uint p4 * fold_c \<le> 7 * fold_c" using assms(2) by (simp add: fold_c_def)
  have ov: "uint ov \<le> 1"
  proof (rule ccontr)
    assume "\<not> uint ov \<le> 1"
    then have "2 ^ 256 * 2 \<le> 2 ^ 256 * uint ov" by simp
    then have "limbs_val [p0, p1, p2, p3] + uint p4 * fold_c \<ge> 2 ^ 256 * 2" using X X0 by linarith
    then show False using top small by (simp add: fold_c_def)
  qed
  have u0: "uint s0 = ?l t0 + uint ov * uint kC0"
    using uint64_bounds(2)[of "ucast t0"] ov by (simp add: s0_def uint_add128 mult_small kC_val)
  note z0 = split128[OF u0]
  have u1: "uint s1 = ?l t1 + uint ov * uint kC1 + ?h s0"
    using uint64_bounds(2)[of "ucast t1"] uint64_bounds(2)[of "ucast (drop_bit 64 s0)"] ov z0
    by (simp add: s1_def uint_add128 mult_small kC_val)
  note z1 = split128[OF u1]
  have u2: "uint s2 = ?l t2 + uint ov + ?h s1"
    using uint64_bounds(2)[of "ucast t2"] uint64_bounds(2)[of "ucast (drop_bit 64 s1)"] ov z1
    by (simp add: s2_def uint_add128)
  note z2 = split128[OF u2]
  have Y: "?l s0 + 2 ^ 64 * ?l s1 + 2 ^ 128 * ?l s2 + 2 ^ 192 * (?l t3 + ?h s2) = X + uint ov * fold_c"
    using z0(1) z1(1) z2(1) by (simp add: X_def kC_val fold_c_def)
  have "X + uint ov * fold_c < 2 ^ 256"
  proof (cases "uint ov = 0")
    case True
    have "X < 2 ^ 256"
      using uint64_bounds(2)[of "ucast t0"] uint64_bounds(2)[of "ucast t1"] uint64_bounds(2)[of "ucast t2"] uint64_bounds(2)[of "ucast t3"]
      by (simp add: X_def)
    then show ?thesis by (simp add: True)
  next
    case False
    moreover have "0 \<le> uint ov" by simp
    ultimately have "uint ov = 1" using ov by linarith
    then show ?thesis using X top small by (simp add: fold_c_def)
  qed
  moreover have "0 \<le> ?l s0 + 2 ^ 64 * ?l s1 + 2 ^ 128 * ?l s2" by simp
  ultimately have "2 ^ 192 * (?l t3 + ?h s2) < 2 ^ 256" using Y by linarith
  then have "?l t3 + ?h s2 < 2 ^ 64" by simp
  then have "uint (ucast t3 + ucast (drop_bit 64 s2) :: u64) = ?l t3 + ?h s2"
    by (simp add: uint_word_ariths mod_pos_pos_trivial)
  then have "limbs_val r = X + uint ov * fold_c" using Y by (simp add: r)
  then have "limbs_val r = limbs_val [p0, p1, p2, p3] + uint p4 * fold_c - uint ov * order_n"
    using X by (simp add: fold_c_def order_n_def)
  then show "\<exists>ov. limbs_val r = limbs_val [p0, p1, p2, p3] + uint p4 * fold_c - ov * order_n" by blast
qed

lemma fold_mod: "(x + y * 2 ^ 256) mod order_n = (x + y * fold_c) mod order_n"
proof -
  have "x + y * 2 ^ 256 = (x + y * fold_c) + y * order_n" unfolding order_fold[symmetric] by (simp only: algebra_simps)
  then have "(x + y * 2 ^ 256) mod order_n = ((x + y * fold_c) + y * order_n) mod order_n" by (rule arg_cong)
  also have "\<dots> = (x + y * fold_c) mod order_n" by (rule mod_mult_self1)
  finally show ?thesis .
qed

lemma split4: "limbs_val (a # b # c # d # es) = limbs_val [a, b, c, d] + limbs_val es * 2 ^ 256"
  by simp

lemma reduce512_mod:
  assumes "length l = 8"
  shows "limbs_val (reduce512 l) = limbs_val l mod order_n \<and> length (reduce512 l) = 4"
proof -
  obtain l0 l1 l2 l3 h0 h1 h2 h3 where l: "l = [l0, l1, l2, l3, h0, h1, h2, h3]"
    using assms by (auto simp: eval_nat_numeral length_Suc_conv)
  define m where "m = reduce_stage1 l"
  have m: "limbs_val m = limbs_val [l0, l1, l2, l3] + limbs_val [h0, h1, h2, h3] * fold_c" "length m = 7"
    using stage1[OF refl, of l0 l1 l2 l3 h0 h1 h2 h3] by (simp_all only: m_def l)
  obtain m0 m1 m2 m3 m4 m5 m6 where ms: "m = [m0, m1, m2, m3, m4, m5, m6]"
    using m(2) by (auto simp: eval_nat_numeral length_Suc_conv)
  have lo: "limbs_val [l0, l1, l2, l3] < 2 ^ 256" "limbs_val [h0, h1, h2, h3] < 2 ^ 256" "0 \<le> limbs_val [m0, m1, m2, m3]"
    using limbs_val_bounds[of "[l0, l1, l2, l3]"] limbs_val_bounds[of "[h0, h1, h2, h3]"] limbs_val_bounds[of "[m0, m1, m2, m3]"] by simp_all
  have "limbs_val [m4, m5, m6] * 2 ^ 256 < (fold_c + 1) * 2 ^ 256"
    using m(1) lo unfolding ms split4[of m0 m1 m2 m3 "[m4, m5, m6]"] by (simp add: fold_c_def del: limbs_val.simps)
  then have hi: "limbs_val [m4, m5, m6] \<le> fold_c + 1" by simp
  define p where "p = reduce_stage2 m"
  have p: "limbs_val p = limbs_val [m0, m1, m2, m3] + limbs_val [m4, m5, m6] * fold_c" "length p = 5"
    using stage2[OF refl hi, of m0 m1 m2 m3] by (simp_all only: p_def ms)
  obtain p0 p1 p2 p3 p4 where ps: "p = [p0, p1, p2, p3, p4]"
    using p(2) by (auto simp: eval_nat_numeral length_Suc_conv)
  have "limbs_val [m0, m1, m2, m3] < 2 ^ 256" "0 \<le> limbs_val [p0, p1, p2, p3]"
    using limbs_val_bounds[of "[m0, m1, m2, m3]"] limbs_val_bounds[of "[p0, p1, p2, p3]"] by simp_all
  then have "limbs_val [p4] * 2 ^ 256 < 8 * 2 ^ 256"
    using p(1) hi unfolding ps split4[of p0 p1 p2 p3 "[p4]"] by (simp add: fold_c_def del: limbs_val.simps)
  then have p4: "uint p4 \<le> 7" by simp
  define r where "r = reduce_stage3 p"
  obtain ov where r: "limbs_val r = limbs_val [p0, p1, p2, p3] + uint p4 * fold_c - ov * order_n" "length r = 4"
    using stage3[OF refl p4, of p0 p1 p2 p3] by (auto simp only: r_def ps)
  have "limbs_val r mod order_n = (limbs_val [p0, p1, p2, p3] + uint p4 * fold_c) mod order_n"
    unfolding r(1) by (simp add: mod_diff_right_eq[symmetric])
  also have "\<dots> = limbs_val p mod order_n"
    unfolding ps split4[of p0 p1 p2 p3 "[p4]"] using fold_mod[of "limbs_val [p0, p1, p2, p3]" "uint p4"] by (simp del: limbs_val.simps add: limbs_val.simps(1) limbs_val.simps(2)[of p4 "[]"])
  also have "\<dots> = limbs_val m mod order_n" unfolding p(1) ms split4[of m0 m1 m2 m3 "[m4, m5, m6]"] by (rule fold_mod[symmetric])
  also have "\<dots> = limbs_val l mod order_n" unfolding m(1) l split4[of l0 l1 l2 l3 "[h0, h1, h2, h3]"] by (rule fold_mod[symmetric])
  finally show ?thesis using condSubN_mod[OF r(2)] condSubN_val[OF r(2)] by (simp add: reduce512_def r_def p_def m_def)
qed

section \<open>Products\<close>

lemma row_step:
  fixes x b p c :: u64
  defines "t \<equiv> (ucast x * ucast b + ucast p + ucast c :: u128)"
  shows "uint (ucast t :: u64) + 2 ^ 64 * uint (ucast (drop_bit 64 t) :: u64) = uint x * uint b + uint p + uint c"
proof -
  have "uint x * uint b + uint p + uint c < 2 ^ 128"
    using product_bound[of x b] uint64_bounds(2)[of p] uint64_bounds(2)[of c] by simp
  moreover have "uint x * uint b + uint p < 2 ^ 128" using product_bound[of x b] uint64_bounds(2)[of p] by simp
  ultimately have "uint t = uint x * uint b + uint p + uint c"
    unfolding t_def by (subst uint_add128, simp add: uint_add128 uint_product)+ (simp add: uint_add128 uint_product)
  then show ?thesis by (rule split128(1))
qed

lemma mul_row_val:
  assumes "length bs < length ps" and "ps ! length bs = 0"
  shows "limbs_val (mul_row x bs ps c) = limbs_val ps + uint x * limbs_val bs + uint c \<and> length (mul_row x bs ps c) = length ps \<and>
    drop (Suc (length bs)) (mul_row x bs ps c) = drop (Suc (length bs)) ps"
  using assms
proof (induction bs arbitrary: ps c)
  case Nil
  then show ?case by (cases ps) auto
next
  case (Cons b bs)
  obtain p qs where ps: "ps = p # qs" using Cons.prems by (cases ps) auto
  let ?t = "ucast x * ucast b + ucast p + ucast c :: u128"
  have "limbs_val (mul_row x bs qs (ucast (drop_bit 64 ?t))) =
      limbs_val qs + uint x * limbs_val bs + uint (ucast (drop_bit 64 ?t) :: u64) \<and>
    length (mul_row x bs qs (ucast (drop_bit 64 ?t))) = length qs \<and>
    drop (Suc (length bs)) (mul_row x bs qs (ucast (drop_bit 64 ?t))) = drop (Suc (length bs)) qs"
    using Cons.prems by (intro Cons.IH) (simp_all add: ps)
  then show ?case using row_step[of x b p c] by (simp add: ps Let_def algebra_simps)
qed

lemma mul_rows_val:
  assumes "length as + length b \<le> length ps" and "\<forall>i. length b \<le> i \<and> i < length ps \<longrightarrow> ps ! i = 0"
  shows "limbs_val (mul_rows as b ps) = limbs_val ps + limbs_val as * limbs_val b \<and> length (mul_rows as b ps) = length ps"
  using assms
proof (induction as arbitrary: ps)
  case (Cons x as)
  let ?r = "mul_row x b ps 0"
  have r: "limbs_val ?r = limbs_val ps + uint x * limbs_val b" "length ?r = length ps"
    "drop (Suc (length b)) ?r = drop (Suc (length b)) ps"
    using mul_row_val[of b ps x 0] Cons.prems by simp_all
  obtain q qs where q: "?r = q # qs" using r(2) Cons.prems(1) by (cases ?r) auto
  have "qs ! i = 0" if "length b \<le> i" "i < length qs" for i
  proof -
    have "qs ! i = drop (Suc (length b)) ?r ! (i - length b)" using that by (simp add: q)
    also have "\<dots> = ps ! Suc i" using that r(2) unfolding r(3) by (simp add: q)
    finally show ?thesis using Cons.prems(2) that r(2) by (simp add: q)
  qed
  then have "limbs_val (mul_rows as b qs) = limbs_val qs + limbs_val as * limbs_val b \<and> length (mul_rows as b qs) = length qs"
    using Cons.prems(1) r(2) by (intro Cons.IH) (auto simp: q)
  then show ?case using r(1,2) by (simp add: q algebra_simps)
qed simp

lemma limbs_val_zeros [simp]: "limbs_val (replicate n 0) = 0"
  by (induction n) simp_all

lemma mulMod_mod:
  assumes "length a = 4" and "length b = 4"
  shows "limbs_val (mulMod a b) = limbs_val a * limbs_val b mod order_n \<and> length (mulMod a b) = 4"
proof -
  have "limbs_val (mul_rows a b (replicate 8 0)) = limbs_val a * limbs_val b" "length (mul_rows a b (replicate 8 0)) = 8"
    using mul_rows_val[of a b "replicate 8 0"] assms by simp_all
  then show ?thesis using reduce512_mod[of "mul_rows a b (replicate 8 0)"] by (simp add: mulMod_def)
qed

section \<open>Sums\<close>

lemma add_loop_val:
  assumes "length as = length bs" and "add_loop as bs c = (s, co)" and "uint c \<le> 1"
  shows "limbs_val s + 2 ^ (64 * length as) * uint co = limbs_val as + limbs_val bs + uint c \<and> uint co \<le> 1 \<and> length s = length as"
  using assms
proof (induction as bs c arbitrary: s co rule: add_loop.induct)
  case (1 a as b bs c)
  let ?t = "ucast a + ucast b + ucast c :: u128"
  obtain s' co' where s': "add_loop as bs (ucast (drop_bit 64 ?t)) = (s', co')" by fastforce
  have s: "s = ucast ?t # s'" "co = co'" using "1.prems"(2) s' by (simp_all add: Let_def)
  have v: "uint ?t = uint a + uint b + uint c"
    using uint64_bounds(2)[of a] uint64_bounds(2)[of b] "1.prems"(3) by (simp add: uint_add128)
  note t = split128(1)[OF v]
  have "2 ^ 64 * uint (ucast (drop_bit 64 ?t) :: u64) < 2 ^ 64 * 2"
    using t uint64_bounds[of "ucast ?t"] uint64_bounds(2)[of a] uint64_bounds(2)[of b] "1.prems"(3) by linarith
  then have "uint (ucast (drop_bit 64 ?t) :: u64) \<le> 1" by simp
  then have "limbs_val s' + 2 ^ (64 * length as) * uint co' = limbs_val as + limbs_val bs + uint (ucast (drop_bit 64 ?t) :: u64) \<and>
    uint co' \<le> 1 \<and> length s' = length as"
    using "1.IH"[OF refl _ s'] "1.prems"(1) by simp
  then show ?case using t by (simp add: s power_add algebra_simps)
qed auto

lemma addMod_mod:
  assumes "length a = 4" and "length b = 4" and "limbs_val a < order_n" and "limbs_val b < order_n"
  shows "limbs_val (addMod a b) = (limbs_val a + limbs_val b) mod order_n \<and> length (addMod a b) = 4"
proof -
  obtain s c where s: "add_loop a b 0 = (s, c)" by fastforce
  obtain d bo where d: "limbs_sub s kOrderN = (d, bo)" by fastforce
  have sv: "limbs_val s + 2 ^ 256 * uint c = limbs_val a + limbs_val b" "uint c \<le> 1" "length s = 4"
    using add_loop_val[OF _ s] assms by simp_all
  have dv: "limbs_val d = limbs_val s - order_n + 2 ^ 256 * uint bo" "bo = of_bool (limbs_val s < order_n)" "length d = 4"
    using limbs_sub_val[OF _ d] sv(3) by (simp_all add: kOrderN_val)
  have ab: "0 \<le> limbs_val a + limbs_val b" "limbs_val a + limbs_val b < 2 * order_n"
    using assms limbs_val_bounds[of a] limbs_val_bounds[of b] by simp_all
  have "0 \<le> uint c" by simp
  then consider "uint c = 0" | "uint c = 1" using sv(2) by linarith
  then show ?thesis
  proof cases
    case 1
    then have c: "c = 0" by (simp add: uint_0_iff)
    show ?thesis
    proof (cases "limbs_val s < order_n")
      case True
      then show ?thesis using sv dv ab c
        by (simp add: addMod_def s d Let_def pick_all mod_pos_pos_trivial)
    next
      case False
      then have "(limbs_val a + limbs_val b) mod order_n = limbs_val s - order_n"
        using sv(1) c ab by (intro int_mod_pos_eq[where q = 1]) (simp_all add: order_n_def)
      then show ?thesis using sv dv False c by (simp add: addMod_def s d Let_def pick_all)
    qed
  next
    case 2
    then have c: "c = 1" by (simp add: word_uint_eq_iff)
    have lt: "limbs_val s < order_n" using sv(1) ab(2) 2 by (simp add: order_n_def)
    then have "(limbs_val a + limbs_val b) mod order_n = limbs_val s + 2 ^ 256 - order_n"
      using sv(1) 2 ab limbs_val_bounds[of s] by (intro int_mod_pos_eq[where q = 1]) (simp_all add: order_n_def)
    then show ?thesis using sv dv lt c by (simp add: addMod_def s d Let_def pick_all)
  qed
qed

section \<open>Powers\<close>

text \<open>A list of four limbs that stands for a power of \<open>a\<close> modulo the order.\<close>

definition is_power :: "u64 list \<Rightarrow> nat \<Rightarrow> u64 list \<Rightarrow> bool" where
  "is_power a k r \<longleftrightarrow> length r = 4 \<and> limbs_val r = limbs_val a ^ k mod order_n"

lemma is_power_0: "is_power a 0 [1, 0, 0, 0]"
  by (simp add: is_power_def order_n_def)

lemma is_power_mul: "is_power a i r \<Longrightarrow> is_power a j s \<Longrightarrow> is_power a (i + j) (mulMod r s)"
  using mulMod_mod[of r s] by (simp add: is_power_def power_add mod_mult_eq)

lemma is_power_1: "length a = 4 \<Longrightarrow> is_power a i r \<Longrightarrow> is_power a (Suc i) (mulMod r a)"
  using mulMod_mod[of r a] by (simp add: is_power_def mod_mult_left_eq mult.commute[of "limbs_val a"])

lemma power_table_entry:
  assumes "length a = 4"
  shows "length (power_table a i) = Suc i \<and> (\<forall>j \<le> i. is_power a j (power_table a i ! j))"
proof (induction i)
  case 0
  then show ?case by (simp add: is_power_0)
next
  case (Suc i)
  have "last (power_table a i) = power_table a i ! i" using Suc by (metis diff_Suc_1 last_conv_nth length_0_conv nat.simps(3))
  then have "is_power a (Suc i) (mulMod (last (power_table a i)) a)" using Suc is_power_1[OF assms] by simp
  then show ?case using Suc by (auto simp: Let_def nth_append le_Suc_eq)
qed

lemma masked_miss: "length f = length t \<Longrightarrow> map2 (\<lambda>x y. x OR (y AND (0 - of_bool False))) f t = (f :: u64 list)"
  by (induction f t rule: list_induct2) simp_all

lemma masked_hit: "length f = length t \<Longrightarrow> set f \<subseteq> {0} \<Longrightarrow> map2 (\<lambda>x y. x OR (y AND (0 - of_bool True))) f t = (t :: u64 list)"
  by (induction f t rule: list_induct2) simp_all

lemma masked_prefix:
  fixes digit :: u64
  assumes "\<forall>j < 16. length (table ! j) = 4" and "k \<le> 16"
  shows "foldl (\<lambda>factor i. map2 (\<lambda>f t. f OR (t AND (0 - of_bool (word_of_nat i = digit)))) factor (table ! i)) [0, 0, 0, 0] [0..<k] =
    (if unat digit < k then table ! unat digit else [0, 0, 0, 0 :: u64])"
  using assms(2)
proof (induction k)
  case (Suc k)
  have eq: "word_of_nat k = (digit :: u64) \<longleftrightarrow> unat digit = k"
    using Suc.prems by (auto simp: unat_of_nat word_unat_eq_iff)
  show ?case
  proof (cases "unat digit = k")
    case True
    then show ?thesis using Suc masked_hit[of "[0, 0, 0, 0]" "table ! k"] assms(1) by (simp add: eq)
  next
    case False
    then have "length (if unat digit < k then table ! unat digit else [0, 0, 0, 0]) = length (table ! k)"
      using assms(1) Suc.prems by simp
    from masked_miss[OF this] Suc False show ?thesis by (simp add: eq less_Suc_eq)
  qed
qed simp

lemma masked_lookup_nth:
  assumes "\<forall>j < 16. length (table ! j) = 4" and "unat digit < 16"
  shows "masked_lookup table digit = table ! unat digit"
  using masked_prefix[OF assms(1), of 16 digit] assms(2) by (simp add: masked_lookup_def)

lemma limb_digit: "j < length l \<Longrightarrow> limbs_val l div 2 ^ (64 * j) mod 2 ^ 64 = uint (l ! j)"
proof (induction j arbitrary: l)
  case 0
  then obtain a as where "l = a # as" by (cases l) auto
  then show ?case using uint64_bounds[of a] by (simp add: mod_pos_pos_trivial)
next
  case (Suc j)
  then obtain a as where l: "l = a # as" by (cases l) auto
  have "limbs_val l div 2 ^ (64 * Suc j) = limbs_val l div 2 ^ 64 div 2 ^ (64 * j)"
    by (simp add: zdiv_zmult2_eq[symmetric] power_add)
  moreover have "limbs_val l div 2 ^ 64 = limbs_val as"
    unfolding l using uint64_bounds[of a] by (intro int_div_pos_eq[where r = "uint a"]) simp_all
  ultimately show ?case using Suc by (simp add: l)
qed

lemma window_digit_val:
  assumes "length e = 4" and "w < 64"
  shows "uint (window_digit e w) = limbs_val e div 16 ^ w mod 16"
proof -
  let ?j = "w div 16" and ?k = "w mod 16"
  have "(16 :: int) ^ w = 2 ^ (64 * ?j) * 2 ^ (4 * ?k)"
  proof -
    have "(16 :: int) ^ w = 2 ^ (4 * w)" by (simp add: power_mult)
    also have "4 * w = 64 * ?j + 4 * ?k" using div_mult_mod_eq[of w 16] by linarith
    finally show ?thesis by (simp only: power_add)
  qed
  then have "limbs_val e div 16 ^ w mod 16 = limbs_val e div 2 ^ (64 * ?j) div 2 ^ (4 * ?k) mod 16"
    by (simp add: zdiv_zmult2_eq)
  also have "\<dots> = (limbs_val e div 2 ^ (64 * ?j) mod 2 ^ 64) div 2 ^ (4 * ?k) mod 16"
  proof -
    have "4 + 4 * ?k \<le> 64" by simp
    then have "take_bit 4 (drop_bit (4 * ?k) (take_bit 64 x)) = take_bit 4 (drop_bit (4 * ?k) x)" for x :: int
      by (simp add: take_bit_drop_bit min_def)
    then show ?thesis by (simp add: take_bit_eq_mod drop_bit_eq_div)
  qed
  also have "\<dots> = uint (e ! ?j) div 2 ^ (4 * ?k) mod 16" using assms by (subst limb_digit) auto
  also have "\<dots> = uint (window_digit e w)"
  proof -
    have "uint (window_digit e w) = uint (drop_bit (?k * 4) (e ! ?j)) AND mask 4"
      unfolding window_digit_def uint_and by (simp add: mask_eq_exp_minus_1)
    also have "\<dots> = take_bit 4 (drop_bit (?k * 4) (take_bit 64 (uint (e ! ?j))))"
      by (simp add: unsigned_drop_bit_eq take_bit_eq_mask[symmetric])
    also have "take_bit 64 (uint (e ! ?j)) = uint (e ! ?j)" by (rule take_bit_int_eq_self) (use uint64_bounds[of "e ! ?j"] in simp_all)
    finally show ?thesis by (simp add: take_bit_eq_mod drop_bit_eq_div mult.commute)
  qed
  finally show ?thesis by simp
qed

lemma inv_windows_power:
  assumes "length e = 4" and "\<forall>j < 16. is_power a j (table ! j)"
  shows "w \<le> 64 \<Longrightarrow> is_power a (nat (limbs_val e) div 16 ^ w) r \<Longrightarrow> is_power a (nat (limbs_val e)) (inv_windows table e w r)"
proof (induction w arbitrary: r)
  case (Suc w)
  let ?E = "nat (limbs_val e)" and ?d = "window_digit e w"
  have e0: "0 \<le> limbs_val e" using limbs_val_bounds by blast
  have d: "unat ?d = ?E div 16 ^ w mod 16"
    using window_digit_val[OF assms(1), of w] Suc.prems(1) e0
    by (simp add: unat_eq_nat_uint nat_mod_distrib nat_div_distrib nat_power_eq pos_imp_zdiv_nonneg_iff)
  have "is_power a (16 * (?E div 16 ^ Suc w)) (((\<lambda>r. mulMod r r) ^^ 4) r)"
  proof -
    have "is_power a (2 ^ i * (?E div 16 ^ Suc w)) (((\<lambda>r. mulMod r r) ^^ i) r)" for i
      using Suc.prems(2) is_power_mul by (induction i) (auto simp: mult_2 distrib_right)
    from this[of 4] show ?thesis by simp
  qed
  moreover have "is_power a (unat ?d) (masked_lookup table ?d)"
    using masked_lookup_nth[of table ?d] assms(2) by (simp add: d is_power_def)
  ultimately have "is_power a (16 * (?E div 16 ^ Suc w) + unat ?d) (mulMod (((\<lambda>r. mulMod r r) ^^ 4) r) (masked_lookup table ?d))"
    by (rule is_power_mul)
  moreover have "16 * (?E div 16 ^ Suc w) + unat ?d = ?E div 16 ^ w"
    by (simp add: d mult.commute[of 16 "16 ^ w"] div_mult2_eq)
  ultimately show ?case using Suc by (simp add: Let_def)
qed simp

lemma invMod_power:
  assumes "length a = 4"
  shows "limbs_val (invMod a) = limbs_val a ^ nat (order_n - 2) mod order_n \<and> length (invMod a) = 4"
proof -
  obtain e bo where e: "limbs_sub kOrderN [2, 0, 0, 0] = (e, bo)" by fastforce
  have ev: "limbs_val e = order_n - 2" "length e = 4"
    using limbs_sub_val[OF _ e] by (simp_all add: kOrderN_val) (simp_all add: order_n_def)
  have "nat (limbs_val e) div 16 ^ 64 = 0" by (simp add: ev order_n_def)
  then have "is_power a (nat (limbs_val e)) (inv_windows (power_table a 15) e 64 [1, 0, 0, 0])"
    using power_table_entry[OF assms, of 15] is_power_0[of a] by (intro inv_windows_power[OF ev(2)]) auto
  then show ?thesis by (simp add: invMod_def e is_power_def ev)
qed

section \<open>Bytes\<close>

lemma be_word_bit: "bit (be_word bs) n \<longleftrightarrow> n < 64 \<and> n div 8 < length bs \<and> bit (rev bs ! (n div 8)) (n mod 8)"
proof (induction bs arbitrary: n rule: rev_induct)
  case Nil
  then show ?case by (simp add: be_word_def)
next
  case (snoc b bs)
  have s: "be_word (bs @ [b]) = push_bit 8 (be_word bs) OR ucast b" by (simp add: be_word_def)
  show ?case
  proof (cases "n < 8")
    case True
    then show ?thesis by (simp add: s bit_simps)
  next
    case False
    define k where "k = n - 8"
    have n: "n = k + 8" using False by (simp add: k_def)
    have "\<not> bit b n" using False bit_imp_le_length[of b n] by auto
    moreover have "n div 8 = Suc (k div 8)" "n mod 8 = k mod 8" by (simp_all add: n)
    moreover have "bit (be_word (bs @ [b])) n \<longleftrightarrow> n < 64 \<and> bit (be_word bs) k \<or> n < 64 \<and> bit b n"
      using False by (auto simp: s bit_simps k_def)
    ultimately show ?thesis using snoc[of k] by (auto simp: n)
  qed
qed

lemma word_be_bit: "i < 8 \<Longrightarrow> bit (word_be v ! i) k \<longleftrightarrow> k < 8 \<and> bit v (8 * (7 - i) + k)"
  by (auto simp: word_be_def bit_simps)

lemma be_word_word_be: "be_word (word_be v) = v"
proof (rule bit_word_eqI)
  fix n assume "n < LENGTH(64)"
  then have n: "n < 64" "n div 8 < 8" by simp_all
  have len: "length (word_be v) = 8" by (simp add: word_be_def)
  have "8 * (7 - (7 - n div 8)) + n mod 8 = n" using n by simp
  then show "bit (be_word (word_be v)) n = bit v n"
    using n by (simp add: be_word_bit len rev_nth word_be_bit)
qed

lemma word_be_be_word:
  assumes "length bs = 8"
  shows "word_be (be_word bs) = bs"
proof (rule nth_equalityI)
  show len: "length (word_be (be_word bs)) = length bs" using assms by (simp add: word_be_def)
  fix i assume "i < length (word_be (be_word bs))"
  then have i: "i < 8" using len assms by simp
  show "word_be (be_word bs) ! i = bs ! i"
  proof (rule bit_word_eqI)
    fix k assume "k < LENGTH(8)"
    then have k: "k < 8" by simp
    have "(8 * (7 - i) + k) div 8 = 7 - i" "(8 * (7 - i) + k) mod 8 = k" "8 * (7 - i) + k < 64" using k i by simp_all
    then show "bit (word_be (be_word bs) ! i) k = bit (bs ! i) k"
      using i k assms by (simp add: word_be_bit be_word_bit rev_nth)
  qed
qed

lemma upt4: "[0..<4] = [0, 1, 2, 3 :: nat]"
  by (simp add: upt_rec)

lemma toBytes_fromBytes: "length be = 32 \<Longrightarrow> toBytes (fromBytes be) = be"
proof -
  assume len: "length be = 32"
  have cut4: "take 8 be @ take 8 (drop 8 be) @ take 8 (drop 16 be) @ take 8 (drop 24 be) = be"
    using append_take_drop_id[of 8 be] append_take_drop_id[of 8 "drop 8 be"] append_take_drop_id[of 8 "drop 16 be"] len by simp
  show ?thesis using len cut4 by (simp add: toBytes_def fromBytes_def upt4 word_be_be_word)
qed

lemma fromBytes_toBytes: "length l = 4 \<Longrightarrow> fromBytes (toBytes l) = l"
proof -
  assume "length l = 4"
  then obtain a b c d where l: "l = [a, b, c, d]" by (auto simp: eval_nat_numeral length_Suc_conv)
  have "length (word_be x) = 8" for x by (simp add: word_be_def)
  then show ?thesis by (simp add: toBytes_def fromBytes_def upt4 l be_word_word_be)
qed

lemma addMod_is_sum:
  assumes "length a = 4" and "length b = 4" and "limbs_val a < order_n" and "limbs_val b < order_n"
  shows "limbs_val (addMod a b) = (limbs_val a + limbs_val b) mod order_n"
  using addMod_mod[OF assms] by blast

section \<open>Properties\<close>

text \<open>
  C9: \<open>mulMod\<close>, schoolbook multiplication of four limbs by four followed by the three folds of the 512-bit
  product and one conditional subtraction, gives the product modulo the order of the group, for all operands.
\<close>

theorem mulMod_is_product:
  assumes "length a = 4" and "length b = 4"
  shows "limbs_val (mulMod a b) = limbs_val a * limbs_val b mod order_n"
  using mulMod_mod[OF assms] by blast

theorem mulMod_is_product_witness: "limbs_val (mulMod [5, 0, 0, 1] [7, 0, 0, 0]) = (5 + 2 ^ 192) * 7 mod order_n"
  using mulMod_is_product[of "[5, 0, 0, 1]" "[7, 0, 0, 0]"] by simp

text \<open>
  \<open>invMod\<close>, the fixed-window ladder over the constant exponent with its masked table lookups, gives
  the operand raised to the order minus two, modulo the order.
\<close>

lemma invMod_is_power:
  assumes "length a = 4"
  shows "limbs_val (invMod a) = limbs_val a ^ nat (order_n - 2) mod order_n"
  using invMod_power[OF assms] by blast

end
