(* ===== verification/HL_Keccak.thy ===== *)
theory HL_Keccak
  imports HL_Types
begin

unbundle bit_operations_syntax

text \<open>
  Keccak-256 (\<open>include/hl/crypto/Keccak.h\<close>, \<open>src/crypto/Keccak.cpp\<close>): the unrolled permutation, the incremental
  absorption with its block buffer, and the padding. The state is a list of 25 lanes, the buffer a list of 136 bytes.

  The reference is the specification of Keccak-f[1600] by its five steps on lanes at coordinates, with the offsets of
  its rotation table, and the sponge over the padded message.
\<close>

section \<open>The permutation\<close>

definition kRoundConstants :: "u64 list" where
  "kRoundConstants =
    [0x0000000000000001, 0x0000000000008082, 0x800000000000808a, 0x8000000080008000,
     0x000000000000808b, 0x0000000080000001, 0x8000000080008081, 0x8000000000008009,
     0x000000000000008a, 0x0000000000000088, 0x0000000080008009, 0x000000008000000a,
     0x000000008000808b, 0x800000000000008b, 0x8000000000008089, 0x8000000000008003,
     0x8000000000008002, 0x8000000000000080, 0x000000000000800a, 0x800000008000000a,
     0x8000000080008081, 0x8000000000008080, 0x0000000080000001, 0x8000000080008008]"

text \<open>One round, as the loop body unrolls it.\<close>

definition keccak_round :: "u64 list \<Rightarrow> u64 \<Rightarrow> u64 list" where
  "keccak_round s rc =
     (let c0 = s ! 0 XOR s ! 5 XOR s ! 10 XOR s ! 15 XOR s ! 20; c1 = s ! 1 XOR s ! 6 XOR s ! 11 XOR s ! 16 XOR s ! 21;
          c2 = s ! 2 XOR s ! 7 XOR s ! 12 XOR s ! 17 XOR s ! 22; c3 = s ! 3 XOR s ! 8 XOR s ! 13 XOR s ! 18 XOR s ! 23;
          c4 = s ! 4 XOR s ! 9 XOR s ! 14 XOR s ! 19 XOR s ! 24; d0 = c4 XOR word_rotl 1 (c1); d1 = c0 XOR word_rotl 1 (c2);
          d2 = c1 XOR word_rotl 1 (c3); d3 = c2 XOR word_rotl 1 (c4); d4 = c3 XOR word_rotl 1 (c0); b0 = (s ! 0 XOR d0);
          b1 = word_rotl 44 (s ! 6 XOR d1); b2 = word_rotl 43 (s ! 12 XOR d2); b3 = word_rotl 21 (s ! 18 XOR d3);
          b4 = word_rotl 14 (s ! 24 XOR d4); b5 = word_rotl 28 (s ! 3 XOR d3); b6 = word_rotl 20 (s ! 9 XOR d4);
          b7 = word_rotl 3 (s ! 10 XOR d0); b8 = word_rotl 45 (s ! 16 XOR d1); b9 = word_rotl 61 (s ! 22 XOR d2);
          b10 = word_rotl 1 (s ! 1 XOR d1); b11 = word_rotl 6 (s ! 7 XOR d2); b12 = word_rotl 25 (s ! 13 XOR d3);
          b13 = word_rotl 8 (s ! 19 XOR d4); b14 = word_rotl 18 (s ! 20 XOR d0); b15 = word_rotl 27 (s ! 4 XOR d4);
          b16 = word_rotl 36 (s ! 5 XOR d0); b17 = word_rotl 10 (s ! 11 XOR d1); b18 = word_rotl 15 (s ! 17 XOR d2);
          b19 = word_rotl 56 (s ! 23 XOR d3); b20 = word_rotl 62 (s ! 2 XOR d2); b21 = word_rotl 55 (s ! 8 XOR d3);
          b22 = word_rotl 39 (s ! 14 XOR d4); b23 = word_rotl 41 (s ! 15 XOR d0); b24 = word_rotl 2 (s ! 21 XOR d1)
      in [(b0 XOR (NOT b1 AND b2)) XOR rc, b1 XOR (NOT b2 AND b3), b2 XOR (NOT b3 AND b4),
         b3 XOR (NOT b4 AND b0), b4 XOR (NOT b0 AND b1), b5 XOR (NOT b6 AND b7),
         b6 XOR (NOT b7 AND b8), b7 XOR (NOT b8 AND b9), b8 XOR (NOT b9 AND b5),
         b9 XOR (NOT b5 AND b6), b10 XOR (NOT b11 AND b12), b11 XOR (NOT b12 AND b13),
         b12 XOR (NOT b13 AND b14), b13 XOR (NOT b14 AND b10), b14 XOR (NOT b10 AND b11),
         b15 XOR (NOT b16 AND b17), b16 XOR (NOT b17 AND b18), b17 XOR (NOT b18 AND b19),
         b18 XOR (NOT b19 AND b15), b19 XOR (NOT b15 AND b16), b20 XOR (NOT b21 AND b22),
         b21 XOR (NOT b22 AND b23), b22 XOR (NOT b23 AND b24), b23 XOR (NOT b24 AND b20),
         b24 XOR (NOT b20 AND b21)])"

definition keccakF1600 :: "u64 list \<Rightarrow> u64 list" where
  "keccakF1600 s = foldl keccak_round s kRoundConstants"

section \<open>Absorbing\<close>

definition kRate :: nat where
  "kRate = 136"

text \<open>\<open>memcpy\<close> of eight bytes into a lane of a little-endian host.\<close>

definition lane_of :: "u8 list \<Rightarrow> u64" where
  "lane_of bs = foldr (\<lambda>b w. push_bit 8 w OR ucast b) bs 0"

definition lane_bytes :: "u64 \<Rightarrow> u8 list" where
  "lane_bytes w = map (\<lambda>i. ucast (drop_bit (8 * i) w)) [0..<8]"

definition absorbBlock :: "u64 list \<Rightarrow> u8 list \<Rightarrow> u64 list" where
  "absorbBlock st block =
     keccakF1600 (foldl (\<lambda>s i. s[i := s ! i XOR lane_of (take 8 (drop (8 * i) block))]) st [0..<kRate div 8])"

record keccak256_state =
  k_state :: "u64 list"
  k_buffer :: "u8 list"
  k_buffered :: nat

definition new_keccak256 :: keccak256_state where
  "new_keccak256 = \<lparr>k_state = replicate 25 0, k_buffer = replicate kRate 0, k_buffered = 0\<rparr>"

text \<open>\<open>memcpy\<close> into the buffer at a position.\<close>

definition copy_into :: "u8 list \<Rightarrow> nat \<Rightarrow> u8 list \<Rightarrow> u8 list" where
  "copy_into buf i bs = take i buf @ bs @ drop (i + length bs) buf"

function absorb_loop :: "u64 list \<Rightarrow> u8 list \<Rightarrow> u64 list \<times> u8 list" where
  "absorb_loop st data =
     (if kRate \<le> length data then absorb_loop (absorbBlock st data) (drop kRate data) else (st, data))"
  by pat_completeness auto
termination
  by (relation "measure (\<lambda>(st, data). length data)") (auto simp: kRate_def)

declare absorb_loop.simps [simp del]

text \<open>The part of \<open>update\<close> that fills a started block; the rest of the input is returned.\<close>

definition fill_block :: "u8 list \<Rightarrow> keccak256_state \<Rightarrow> keccak256_state \<times> u8 list" where
  "fill_block data k =
     (if k_buffered k \<noteq> 0 then
        let n = min (length data) (kRate - k_buffered k);
            k = k\<lparr>k_buffer := copy_into (k_buffer k) (k_buffered k) (take n data), k_buffered := k_buffered k + n\<rparr>
        in (if k_buffered k = kRate then k\<lparr>k_state := absorbBlock (k_state k) (k_buffer k), k_buffered := 0\<rparr> else k,
            drop n data)
      else (k, data))"

definition keccak_update :: "u8 list \<Rightarrow> keccak256_state \<Rightarrow> keccak256_state" where
  "keccak_update data k =
     (let (k, data) = fill_block data k; (st, data) = absorb_loop (k_state k) data; k = k\<lparr>k_state := st\<rparr>
      in if data \<noteq> [] then k\<lparr>k_buffer := copy_into (k_buffer k) 0 data, k_buffered := length data\<rparr> else k)"

definition finalize :: "keccak256_state \<Rightarrow> u8 list" where
  "finalize k =
     (let buf = copy_into (k_buffer k) (k_buffered k) (replicate (kRate - k_buffered k) 0);
          buf = buf[k_buffered k := buf ! k_buffered k XOR 0x01];
          buf = buf[kRate - 1 := buf ! (kRate - 1) XOR 0x80]
      in take 32 (concat (map lane_bytes (absorbBlock (k_state k) buf))))"

definition keccak256 :: "u8 list \<Rightarrow> u8 list" where
  "keccak256 data = finalize (keccak_update data new_keccak256)"

section \<open>The reference permutation\<close>

text \<open>The lane at column \<open>x\<close> and row \<open>y\<close>, both modulo 5.\<close>

definition lane :: "u64 list \<Rightarrow> nat \<Rightarrow> nat \<Rightarrow> u64" where
  "lane s x y = s ! (x mod 5 + 5 * (y mod 5))"

definition lanes :: "(nat \<Rightarrow> nat \<Rightarrow> u64) \<Rightarrow> u64 list" where
  "lanes f = map (\<lambda>i. f (i mod 5) (i div 5)) [0..<25]"

definition parity :: "u64 list \<Rightarrow> nat \<Rightarrow> u64" where
  "parity s x = lane s x 0 XOR lane s x 1 XOR lane s x 2 XOR lane s x 3 XOR lane s x 4"

definition column_mix :: "u64 list \<Rightarrow> nat \<Rightarrow> u64" where
  "column_mix s x = parity s (x + 4) XOR word_rotl 1 (parity s (x + 1))"

definition theta :: "u64 list \<Rightarrow> u64 list" where
  "theta s = lanes (\<lambda>x y. lane s x y XOR column_mix s x)"

text \<open>The rotation offsets: \<open>(t + 1)(t + 2) / 2\<close> along the walk \<open>(x, y) \<mapsto> (y, 2x + 3y)\<close> from \<open>(1, 0)\<close>.\<close>

fun rho_walk :: "nat \<Rightarrow> nat \<times> nat \<Rightarrow> nat \<Rightarrow> ((nat \<times> nat) \<times> nat) list" where
  "rho_walk 0 p t = []"
| "rho_walk (Suc n) p t =
     (p, ((t + 1) * (t + 2) div 2) mod 64) # rho_walk n (snd p, (2 * fst p + 3 * snd p) mod 5) (t + 1)"

definition rho_offset :: "nat \<Rightarrow> nat \<Rightarrow> nat" where
  "rho_offset x y = (case map_of (rho_walk 24 (1, 0) 0) (x, y) of None \<Rightarrow> 0 | Some r \<Rightarrow> r)"

definition rho :: "u64 list \<Rightarrow> u64 list" where
  "rho s = lanes (\<lambda>x y. word_rotl (rho_offset x y) (lane s x y))"

definition pi_step :: "u64 list \<Rightarrow> u64 list" where
  "pi_step s = lanes (\<lambda>x y. lane s (x + 3 * y) x)"

definition chi :: "u64 list \<Rightarrow> u64 list" where
  "chi s = lanes (\<lambda>x y. lane s x y XOR (NOT (lane s (x + 1) y) AND lane s (x + 2) y))"

definition iota :: "u64 \<Rightarrow> u64 list \<Rightarrow> u64 list" where
  "iota rc s = s[0 := s ! 0 XOR rc]"

text \<open>The round constants from the linear feedback shift register of the specification, \<open>x^8 + x^6 + x^5 + x^4 + 1\<close>.\<close>

fun lfsr_step :: "bool list \<Rightarrow> bool list" where
  "lfsr_step [r0, r1, r2, r3, r4, r5, r6, r7] = [r7, r0, r1, r2, r3 \<noteq> r7, r4 \<noteq> r7, r5 \<noteq> r7, r6]"
| "lfsr_step r = r"

fun lfsr_bits :: "nat \<Rightarrow> bool list \<Rightarrow> bool list" where
  "lfsr_bits 0 r = []"
| "lfsr_bits (Suc n) r = hd r # lfsr_bits n (lfsr_step r)"

fun constant_of_bits :: "nat \<Rightarrow> bool list \<Rightarrow> int" where
  "constant_of_bits j [] = 0"
| "constant_of_bits j (b # bs) = (if b then 2 ^ (2 ^ j - 1) else 0) + constant_of_bits (Suc j) bs"

fun constants_of_bits :: "nat \<Rightarrow> bool list \<Rightarrow> u64 list" where
  "constants_of_bits 0 bs = []"
| "constants_of_bits (Suc n) bs = word_of_int (constant_of_bits 0 (take 7 bs)) # constants_of_bits n (drop 7 bs)"

definition round_constants :: "u64 list" where
  "round_constants = constants_of_bits 24 (lfsr_bits 168 [True, False, False, False, False, False, False, False])"

definition ref_round :: "u64 list \<Rightarrow> u64 \<Rightarrow> u64 list" where
  "ref_round s rc = iota rc (chi (pi_step (rho (theta s))))"

definition ref_f1600 :: "u64 list \<Rightarrow> u64 list" where
  "ref_f1600 s = foldl ref_round s round_constants"

lemma round_constants_eq: "round_constants = kRoundConstants"
  by code_simp

lemma rho_table:
  "map (\<lambda>i. rho_offset (i mod 5) (i div 5)) [0..<25] =
     [0, 1, 62, 28, 27, 36, 44, 6, 55, 20, 3, 10, 43, 25, 39, 41, 45, 15, 21, 8, 18, 2, 61, 56, 14]"
  by code_simp

lemma lane_lanes: "lane (lanes f) x y = f (x mod 5) (y mod 5)"
proof -
  have "x mod 5 + 5 * (y mod 5) < 25" by presburger
  then show ?thesis by (simp add: lane_def lanes_def)
qed

lemma upt25: "[0..<25] = [0, 1, 2, 3, 4, 5, 6, 7, 8, 9, 10, 11, 12, 13, 14, 15, 16, 17, 18, 19, 20, 21, 22, 23, 24 :: nat]"
  by (simp add: upt_rec)

lemma rho_offsets:
  "rho_offset 0 0 = 0" "rho_offset (Suc 0) 0 = 1" "rho_offset 2 0 = 62" "rho_offset 3 0 = 28" "rho_offset 4 0 = 27"
  "rho_offset 0 (Suc 0) = 36" "rho_offset (Suc 0) (Suc 0) = 44" "rho_offset 2 (Suc 0) = 6" "rho_offset 3 (Suc 0) = 55" "rho_offset 4 (Suc 0) = 20"
  "rho_offset 0 2 = 3" "rho_offset (Suc 0) 2 = 10" "rho_offset 2 2 = 43" "rho_offset 3 2 = 25" "rho_offset 4 2 = 39"
  "rho_offset 0 3 = 41" "rho_offset (Suc 0) 3 = 45" "rho_offset 2 3 = 15" "rho_offset 3 3 = 21" "rho_offset 4 3 = 8"
  "rho_offset 0 4 = 18" "rho_offset (Suc 0) 4 = 2" "rho_offset 2 4 = 61" "rho_offset 3 4 = 56" "rho_offset 4 4 = 14"
  using rho_table by (simp_all add: upt25)

lemma mixes:
  "s ! 4 XOR s ! 9 XOR s ! 14 XOR s ! 19 XOR s ! 24 = parity s 4" "s ! 0 XOR s ! 5 XOR s ! 10 XOR s ! 15 XOR s ! 20 = parity s 0"
  "s ! 1 XOR s ! 6 XOR s ! 11 XOR s ! 16 XOR s ! 21 = parity s 1" "s ! 2 XOR s ! 7 XOR s ! 12 XOR s ! 17 XOR s ! 22 = parity s 2"
  "s ! 3 XOR s ! 8 XOR s ! 13 XOR s ! 18 XOR s ! 23 = parity s 3"
  by (simp_all add: parity_def lane_def)

lemma parity_mod: "parity s (x mod 5) = parity s x"
  by (simp add: parity_def lane_def)

lemma column_mixes:
  "parity s 4 XOR word_rotl 1 (parity s 1) = column_mix s 0" "parity s 0 XOR word_rotl 1 (parity s 2) = column_mix s (Suc 0)"
  "parity s 1 XOR word_rotl 1 (parity s 3) = column_mix s 2" "parity s 2 XOR word_rotl 1 (parity s 4) = column_mix s 3"
  "parity s 3 XOR word_rotl 1 (parity s 0) = column_mix s 4"
  using parity_mod[of s 5] parity_mod[of s 6] parity_mod[of s 7] parity_mod[of s 8]
  by (simp_all add: column_mix_def numeral_2_eq_2[symmetric])

lemma rotl_none [simp]: "word_rotl 0 w = (w :: u64)"
  by (rule bit_word_eqI) (simp add: bit_word_rotl_iff)

lemma keccak_round_mix:
  "keccak_round s rc =
    (let b = (\<lambda>r x y. word_rotl r (lane s x y XOR column_mix s x));
       b0 = b 0 0 0; b1 = b 44 (Suc 0) (Suc 0); b2 = b 43 2 2; b3 = b 21 3 3; b4 = b 14 4 4;
       b5 = b 28 3 0; b6 = b 20 4 (Suc 0); b7 = b 3 0 2; b8 = b 45 (Suc 0) 3; b9 = b 61 2 4;
       b10 = b 1 (Suc 0) 0; b11 = b 6 2 (Suc 0); b12 = b 25 3 2; b13 = b 8 4 3; b14 = b 18 0 4;
       b15 = b 27 4 0; b16 = b 36 0 (Suc 0); b17 = b 10 (Suc 0) 2; b18 = b 15 2 3; b19 = b 56 3 4;
       b20 = b 62 2 0; b21 = b 55 3 (Suc 0); b22 = b 39 4 2; b23 = b 41 0 3; b24 = b 2 (Suc 0) 4
     in [(b0 XOR (NOT b1 AND b2)) XOR rc, b1 XOR (NOT b2 AND b3), b2 XOR (NOT b3 AND b4), b3 XOR (NOT b4 AND b0), b4 XOR (NOT b0 AND b1),
         b5 XOR (NOT b6 AND b7), b6 XOR (NOT b7 AND b8), b7 XOR (NOT b8 AND b9), b8 XOR (NOT b9 AND b5), b9 XOR (NOT b5 AND b6),
         b10 XOR (NOT b11 AND b12), b11 XOR (NOT b12 AND b13), b12 XOR (NOT b13 AND b14), b13 XOR (NOT b14 AND b10), b14 XOR (NOT b10 AND b11),
         b15 XOR (NOT b16 AND b17), b16 XOR (NOT b17 AND b18), b17 XOR (NOT b18 AND b19), b18 XOR (NOT b19 AND b15), b19 XOR (NOT b15 AND b16),
         b20 XOR (NOT b21 AND b22), b21 XOR (NOT b22 AND b23), b22 XOR (NOT b23 AND b24), b23 XOR (NOT b24 AND b20), b24 XOR (NOT b20 AND b21)])"
  unfolding keccak_round_def Let_def mixes column_mixes lane_def by simp

definition bent :: "u64 list \<Rightarrow> nat \<Rightarrow> nat \<Rightarrow> u64" where
  "bent s x y = word_rotl (rho_offset x y) (lane s x y XOR column_mix s x)"

lemma column_mix_mod: "column_mix s (x mod 5) = column_mix s x"
  using parity_mod[of s "x mod 5 + 4"] parity_mod[of s "x + 4"] parity_mod[of s "x mod 5 + 1"] parity_mod[of s "x + 1"]
  by (simp add: column_mix_def mod_simps)

lemma lane_mod: "lane s (x mod 5) (y mod 5) = lane s x y"
  by (simp add: lane_def)

lemma pi_rho_theta: "lane (pi_step (rho (theta s))) x y = bent s ((x + 3 * y) mod 5) (x mod 5)"
proof -
  have "(x mod 5 + 3 * (y mod 5)) mod 5 = (x mod 5 + (3 * (y mod 5)) mod 5) mod 5" by (simp only: mod_add_right_eq)
  also have "\<dots> = (x mod 5 + (3 * y) mod 5) mod 5" by (simp only: mod_mult_right_eq)
  also have "\<dots> = (x + 3 * y) mod 5" by (simp only: mod_add_eq)
  finally have e: "(x mod 5 + 3 * (y mod 5)) mod 5 = (x + 3 * y) mod 5" .
  show ?thesis unfolding pi_step_def rho_def theta_def lane_lanes bent_def by (simp only: e mod_mod_trivial)
qed

lemma round_is_reference: "keccak_round s rc = ref_round s rc"
  unfolding keccak_round_mix ref_round_def chi_def pi_rho_theta iota_def lanes_def upt25
  by (simp add: Let_def bent_def rho_offsets numeral_2_eq_2[symmetric])

lemma f1600_is_reference: "keccakF1600 s = ref_f1600 s"
proof -
  have "keccak_round = ref_round" by (intro ext round_is_reference)
  then show ?thesis by (simp add: keccakF1600_def ref_f1600_def round_constants_eq)
qed

section \<open>The sponge\<close>

text \<open>The reference: blocks of the padded message are mixed into the first 17 lanes and permuted.\<close>

definition ref_absorb :: "u64 list \<Rightarrow> u8 list \<Rightarrow> u64 list" where
  "ref_absorb st block = ref_f1600 (map (\<lambda>i. if i < 17 then st ! i XOR lane_of (take 8 (drop (8 * i) block)) else st ! i) [0..<25])"

function ref_sponge :: "u64 list \<Rightarrow> u8 list \<Rightarrow> u64 list" where
  "ref_sponge st bs = (if bs = [] then st else ref_sponge (ref_absorb st (take 136 bs)) (drop 136 bs))"
  by pat_completeness auto
termination
  by (relation "measure (\<lambda>(st, bs). length bs)") auto

declare ref_sponge.simps [simp del]

definition pad :: "u8 list \<Rightarrow> u8 list" where
  "pad m =
     (let n = 135 - length m mod 136
      in if n = 0 then m @ [0x81] else m @ 0x01 # replicate (n - 1) 0 @ [0x80])"

definition ref_keccak256 :: "u8 list \<Rightarrow> u8 list" where
  "ref_keccak256 m = take 32 (concat (map lane_bytes (ref_sponge (replicate 25 0) (pad m))))"

lemma mix_lanes:
  "k \<le> length st \<Longrightarrow> foldl (\<lambda>s i. s[i := s ! i XOR f i]) st [0..<k] = map (\<lambda>i. if i < k then st ! i XOR f i else st ! i) [0..<length st]"
proof (induction k)
  case 0
  then show ?case by (simp add: map_nth)
next
  case (Suc k)
  then show ?case by (auto intro!: nth_equalityI simp: nth_list_update less_Suc_eq)
qed

lemma absorbBlock_ref:
  assumes "length st = 25"
  shows "absorbBlock st block = ref_absorb st (take 136 block)"
proof -
  have "take 8 (drop (8 * i) (take 136 block)) = take 8 (drop (8 * i) block)" if "i < 17" for i
    using that by (simp add: drop_take min_def)
  then have eq: "map (\<lambda>i. if i < 17 then st ! i XOR lane_of (take 8 (drop (8 * i) block)) else st ! i) [0..<25] =
    map (\<lambda>i. if i < 17 then st ! i XOR lane_of (take 8 (drop (8 * i) (take 136 block))) else st ! i) [0..<25]"
    by (intro map_cong) simp_all
  have "absorbBlock st block = ref_f1600 (map (\<lambda>i. if i < 17 then st ! i XOR lane_of (take 8 (drop (8 * i) block)) else st ! i) [0..<25])"
    using mix_lanes[of 17 st "\<lambda>i. lane_of (take 8 (drop (8 * i) block))"] assms
    by (simp add: absorbBlock_def f1600_is_reference kRate_def)
  then show ?thesis by (simp only: eq ref_absorb_def)
qed

lemma length_ref_round: "length (ref_round s rc) = 25"
  by (simp add: ref_round_def iota_def chi_def lanes_def)

lemma length_f1600: "length s = 25 \<Longrightarrow> length (ref_f1600 s) = 25"
proof -
  have "length s = 25 \<Longrightarrow> length (foldl ref_round s rcs) = 25" for rcs
    by (induction rcs arbitrary: s) (simp_all add: length_ref_round)
  then show "length s = 25 \<Longrightarrow> length (ref_f1600 s) = 25" by (simp add: ref_f1600_def)
qed

lemma length_ref_absorb: "length (ref_absorb st b) = 25"
  by (simp add: ref_absorb_def length_f1600)

lemma absorb_loop_short: "length data < 136 \<Longrightarrow> absorb_loop st data = (st, data)"
  by (simp add: absorb_loop.simps[of st] kRate_def)

lemma absorb_loop_block:
  "136 \<le> length data \<Longrightarrow> length st = 25 \<Longrightarrow> absorb_loop st data = absorb_loop (ref_absorb st (take 136 data)) (drop 136 data)"
  by (simp add: absorb_loop.simps[of st data] kRate_def absorbBlock_ref)

lemma absorb_loop_props:
  "length st = 25 \<Longrightarrow> length (fst (absorb_loop st data)) = 25 \<and> length (snd (absorb_loop st data)) = length data mod 136"
proof (induction "length data" arbitrary: st data rule: less_induct)
  case less
  show ?case
  proof (cases "136 \<le> length data")
    case True
    then show ?thesis using less.hyps[of "drop 136 data" "ref_absorb st (take 136 data)"] less.prems
      by (simp add: absorb_loop_block length_ref_absorb le_mod_geq)
  qed (simp add: absorb_loop_short less.prems)
qed

lemma absorb_loop_append:
  "length st = 25 \<Longrightarrow> absorb_loop st (a @ b) = absorb_loop (fst (absorb_loop st a)) (snd (absorb_loop st a) @ b)"
proof (induction "length a" arbitrary: st a rule: less_induct)
  case less
  show ?case
  proof (cases "136 \<le> length a")
    case True
    then show ?thesis using less.hyps[of "drop 136 a" "ref_absorb st (take 136 a)"] less.prems
      by (simp add: absorb_loop_block length_ref_absorb)
  qed (simp add: absorb_loop_short)
qed

text \<open>A hasher that has taken in the message \<open>m\<close>.\<close>

definition absorbed :: "u8 list \<Rightarrow> keccak256_state \<Rightarrow> bool" where
  "absorbed m k \<longleftrightarrow> length (k_buffer k) = 136 \<and> k_buffered k < 136 \<and>
     absorb_loop (replicate 25 0) m = (k_state k, take (k_buffered k) (k_buffer k))"

lemma absorbed_new: "absorbed [] new_keccak256"
  by (simp add: absorbed_def new_keccak256_def absorb_loop_short kRate_def)

lemma length_copy_into [simp]: "i + length bs \<le> length buf \<Longrightarrow> length (copy_into buf i bs) = length buf"
  by (simp add: copy_into_def)

lemma take_copy_into: "i + length bs \<le> length buf \<Longrightarrow> take (i + length bs) (copy_into buf i bs) = take i buf @ bs"
  by (simp add: copy_into_def)

lemma fill_block_absorb:
  assumes "length (k_buffer k) = 136" and "k_buffered k < 136" and "length (k_state k) = 25"
    and "fill_block data k = (k', rest)"
  shows "length (k_buffer k') = 136 \<and> k_buffered k' < 136 \<and> length (k_state k') = 25 \<and>
    (k_buffered k' = 0 \<or> rest = []) \<and>
    absorb_loop (k_state k) (take (k_buffered k) (k_buffer k) @ data) = absorb_loop (k_state k') (take (k_buffered k') (k_buffer k') @ rest)"
proof (cases "k_buffered k = 0")
  case True
  then show ?thesis using assms by (auto simp: fill_block_def)
next
  case False
  let ?n = "min (length data) (136 - k_buffered k)"
  let ?buf = "copy_into (k_buffer k) (k_buffered k) (take ?n data)"
  have n: "k_buffered k + length (take ?n data) \<le> length (k_buffer k)" using assms(1,2) by simp
  have buf: "length ?buf = 136" "take (k_buffered k + ?n) ?buf = take (k_buffered k) (k_buffer k) @ take ?n data"
    using length_copy_into[OF n] take_copy_into[OF n] assms(1) by (simp_all add: min_def split: if_splits)
  have split: "take (k_buffered k) (k_buffer k) @ data = take (k_buffered k + ?n) ?buf @ drop ?n data"
    by (simp add: buf(2))
  show ?thesis
  proof (cases "k_buffered k + ?n = 136")
    case True
    have r: "k' = k\<lparr>k_buffer := ?buf, k_buffered := 0, k_state := absorbBlock (k_state k) ?buf\<rparr>" "rest = drop ?n data"
      using assms(4) False True by (auto simp: fill_block_def kRate_def Let_def)
    have "absorb_loop (k_state k) (?buf @ drop ?n data) = absorb_loop (ref_absorb (k_state k) ?buf) (drop ?n data)"
      using absorb_loop_block[of "?buf @ drop ?n data" "k_state k"] buf(1) assms(3) by simp
    moreover have "take (k_buffered k + ?n) ?buf = ?buf" using True buf(1) by simp
    ultimately show ?thesis using buf(1) assms(3) by (simp add: r split absorbBlock_ref length_ref_absorb)
  next
    case part: False
    then have "?n = length data" using assms(2) by (simp add: min_def split: if_splits)
    then have r: "k' = k\<lparr>k_buffer := ?buf, k_buffered := k_buffered k + ?n\<rparr>" "rest = []"
      using assms(4) False part by (auto simp: fill_block_def kRate_def Let_def)
    show ?thesis using buf(1) assms(2,3) part split \<open>?n = length data\<close> by (simp add: r)
  qed
qed

lemma update_absorbed:
  assumes "absorbed m k"
  shows "absorbed (m @ data) (keccak_update data k)"
proof -
  have k: "length (k_buffer k) = 136" "k_buffered k < 136" "absorb_loop (replicate 25 0) m = (k_state k, take (k_buffered k) (k_buffer k))"
    using assms by (simp_all add: absorbed_def)
  have st: "length (k_state k) = 25" using absorb_loop_props[of "replicate 25 0" m] k(3) by simp
  obtain k1 rest where f: "fill_block data k = (k1, rest)" by fastforce
  obtain s2 r2 where l: "absorb_loop (k_state k1) rest = (s2, r2)" by fastforce
  note k1 = fill_block_absorb[OF k(1,2) st f]
  have all: "absorb_loop (replicate 25 0) (m @ data) = absorb_loop (k_state k1) (take (k_buffered k1) (k_buffer k1) @ rest)"
    using absorb_loop_append[of "replicate 25 0" m data] k(3) k1 by simp
  have u: "keccak_update data k =
    (if r2 \<noteq> [] then k1\<lparr>k_state := s2, k_buffer := copy_into (k_buffer k1) 0 r2, k_buffered := length r2\<rparr> else k1\<lparr>k_state := s2\<rparr>)"
    by (simp add: keccak_update_def f l Let_def)
  have r2: "length r2 < 136" using absorb_loop_props[of "k_state k1" rest] k1 l by simp
  show ?thesis
  proof (cases "rest = []")
    case True
    then have "s2 = k_state k1" "r2 = []" using l by (simp_all add: absorb_loop_short)
    then show ?thesis using all k1 True absorb_loop_short[of "take (k_buffered k1) (k_buffer k1)" "k_state k1"]
      by (simp add: u absorbed_def)
  next
    case False
    then have "k_buffered k1 = 0" using k1 by blast
    then show ?thesis using all k1 l r2 take_copy_into[of 0 r2 "k_buffer k1"] by (auto simp: u absorbed_def)
  qed
qed

lemma updates_absorbed: "absorbed m k \<Longrightarrow> absorbed (m @ concat chunks) (fold keccak_update chunks k)"
proof (induction chunks arbitrary: m k)
  case (Cons c cs)
  from Cons.IH[OF update_absorbed[OF Cons.prems, of c]] show ?case by simp
qed simp

lemma ref_sponge_absorb_loop:
  "length st = 25 \<Longrightarrow> 136 dvd length bs \<Longrightarrow> ref_sponge st bs = fst (absorb_loop st bs)"
proof (induction "length bs" arbitrary: st bs rule: less_induct)
  case less
  show ?case
  proof (cases "bs = []")
    case True
    then show ?thesis by (simp add: ref_sponge.simps[of st] absorb_loop_short)
  next
    case False
    then have len: "136 \<le> length bs" using less.prems(2) by (simp add: dvd_imp_le)
    then have "136 dvd length (drop 136 bs)" using less.prems(2) by simp
    then show ?thesis using less.hyps[of "drop 136 bs" "ref_absorb st (take 136 bs)"] len less.prems(1) False
      by (simp add: ref_sponge.simps[of st bs] absorb_loop_block length_ref_absorb)
  qed
qed

text \<open>The block that \<open>finalize\<close> absorbs is the buffered rest of the message with the padding of the specification.\<close>

lemma final_block:
  assumes "length buf = 136" and "j < 136"
  shows "(let b = copy_into buf j (replicate (136 - j) 0); b = b[j := b ! j XOR 0x01] in b[135 := b ! 135 XOR 0x80]) =
    (if j = 135 then take j buf @ [0x81] else take j buf @ 0x01 # replicate (134 - j) 0 @ [0x80 :: u8])"
proof -
  have c: "copy_into buf j (replicate (136 - j) 0) = take j buf @ replicate (136 - j) 0" using assms by (simp add: copy_into_def)
  show ?thesis
  proof (cases "j = 135")
    case True
    then show ?thesis using assms by (simp add: copy_into_def Let_def list_update_append nth_append)
  next
    case False
    then have j: "j < 135" using assms(2) by simp
    then have "136 - j = Suc (Suc (134 - j))" by simp
    then have r: "replicate (136 - j) (0 :: u8) = 0 # replicate (134 - j) 0 @ [0]"
      by (simp add: replicate_append_same)
    have "length (take j buf) = j" using assms by simp
    moreover have "copy_into buf j (replicate (136 - j) 0) = take j buf @ 0 # replicate (134 - j) 0 @ [0]" unfolding c by (simp only: r)
    ultimately show ?thesis using j by (simp add: Let_def list_update_append nth_append split: nat.split) auto
  qed
qed

lemma finalize_block:
  assumes "length (k_buffer k) = 136" and "k_buffered k < 136"
  shows "finalize k = take 32 (concat (map lane_bytes (absorbBlock (k_state k)
    (if k_buffered k = 135 then take (k_buffered k) (k_buffer k) @ [0x81]
     else take (k_buffered k) (k_buffer k) @ 0x01 # replicate (134 - k_buffered k) 0 @ [0x80 :: u8]))))"
proof -
  have "finalize k = take 32 (concat (map lane_bytes (absorbBlock (k_state k)
    (let b = copy_into (k_buffer k) (k_buffered k) (replicate (136 - k_buffered k) 0);
         b = b[k_buffered k := b ! k_buffered k XOR 0x01] in b[135 := b ! 135 XOR 0x80]))))"
    by (simp add: finalize_def kRate_def Let_def)
  then show ?thesis by (simp only: final_block[OF assms])
qed

lemma rest_completes_block: "n = L mod 136 \<Longrightarrow> L + (136 - n) = 136 * (L div 136 + 1)" for L n :: nat
proof -
  assume n: "n = L mod 136"
  obtain q where q: "q = L div 136" by simp
  have "n < 136" "L = 136 * q + n" using n q by simp_all
  then show ?thesis using q by simp
qed

lemma pad_eq:
  assumes "n = length m mod 136"
  shows "pad m = (if n = 135 then m @ [0x81] else m @ 0x01 # replicate (134 - n) 0 @ [0x80])"
proof -
  have "n < 136" using assms by simp
  then show ?thesis using assms by (auto simp: pad_def Let_def)
qed

lemma keccak256_chunks: "keccak256 data = finalize (fold keccak_update [data] new_keccak256)"
  by (simp add: keccak256_def)

lemma finalize_chunks:
  "finalize (fold keccak_update chunks new_keccak256) = ref_keccak256 (concat chunks)"
proof -
  let ?m = "concat chunks" and ?k = "fold keccak_update chunks new_keccak256"
  have "absorbed ?m ?k" using updates_absorbed[OF absorbed_new, of chunks] by simp
  then have k: "length (k_buffer ?k) = 136" "k_buffered ?k < 136"
    "absorb_loop (replicate 25 0) ?m = (k_state ?k, take (k_buffered ?k) (k_buffer ?k))"
    by (simp_all add: absorbed_def)
  have st: "length (k_state ?k) = 25" and n: "k_buffered ?k = length ?m mod 136"
    using absorb_loop_props[of "replicate 25 0" ?m] k by simp_all
  let ?j = "k_buffered ?k" and ?t = "take (k_buffered ?k) (k_buffer ?k)"
  let ?p = "if ?j = 135 then [0x81] else 0x01 # replicate (134 - ?j) 0 @ [0x80 :: u8]"
  have p: "pad ?m = ?m @ ?p" using pad_eq[OF n] by simp
  have len: "length (?t @ ?p) = 136" using k(1,2) by simp
  have "length (pad ?m) = 136 * (length ?m div 136 + 1)"
  proof -
    have "length ?p = 136 - ?j" using k(2) by (cases "?j = 135") auto
    then have "length (pad ?m) = length ?m + (136 - ?j)" by (simp only: p length_append)
    then show ?thesis by (simp only: rest_completes_block[OF n])
  qed
  then have "136 dvd length (pad ?m)" by simp
  then have "ref_sponge (replicate 25 0) (pad ?m) = fst (absorb_loop (replicate 25 0) (?m @ ?p))"
    using ref_sponge_absorb_loop[of "replicate 25 0" "pad ?m"] by (simp add: p)
  also have "\<dots> = fst (absorb_loop (k_state ?k) (?t @ ?p))"
    using absorb_loop_append[of "replicate 25 0" ?m ?p] k(3) by simp
  also have "\<dots> = absorbBlock (k_state ?k) (?t @ ?p)"
    using absorb_loop_block[of "?t @ ?p" "k_state ?k"] len st by (simp add: absorb_loop_short absorbBlock_ref)
  finally have s: "ref_sponge (replicate 25 0) (pad ?m) = absorbBlock (k_state ?k) (?t @ ?p)" .
  have "finalize ?k = take 32 (concat (map lane_bytes (absorbBlock (k_state ?k) (?t @ ?p))))"
    using finalize_block[OF k(1,2)] by simp
  then show ?thesis by (simp add: ref_keccak256_def s)
qed

section \<open>Properties\<close>

text \<open>
  C10: the incremental hash equals the specification: however a message is split over calls of \<open>update\<close>,
  \<open>finalize\<close> gives the first 32 bytes of the sponge over the padded message, with the permutation of the Keccak
  specification (theta, rho, pi, chi and iota on lanes at coordinates).
\<close>

theorem keccak256_is_sponge:
  "finalize (fold keccak_update chunks new_keccak256) = ref_keccak256 (concat chunks)"
  by (rule finalize_chunks)

end
