(* ===== verification/HL_Signer.thy ===== *)
theory HL_Signer
  imports HL_Scalar HL_Keccak HL_Actions "HOL-Library.Monad_Syntax"
begin

unbundle bit_operations_syntax

text \<open>
  Signing of actions (\<open>include/hl/crypto/Signer.h\<close>, \<open>src/crypto/Signer.cpp\<close>): the hash of an action, the EIP-712 digest,
  the pool of precomputed nonces and both ways to sign.

  \<^item> libsecp256k1 and OpenSSL are parameters: \<open>pubkey\<close> gives the uncompressed public key of a secret (65 bytes),
    \<open>seckey_verify\<close> accepts a secret, \<open>sign_recoverable\<close> gives the compact signature and the recovery id, \<open>hmac\<close> is
    HMAC-SHA256 and \<open>rand\<close> the bytes of the system's generator.
  \<^item> The pool is shared by threads. \<open>push\<close> and \<open>pop\<close> hold a spin lock for their whole effect and are atomic here; the
    relaxed load of \<open>size\<close> ahead of the lock may give an older value, so it is an argument of \<open>pop\<close>.
  \<^item> Wiping memory has no effect on a value that is not used again. A slot that was handed out holds zeros.
\<close>

section \<open>Hashes\<close>

definition putBe64 :: "u64 \<Rightarrow> u8 list" where
  "putBe64 v = map (\<lambda>i. ucast (drop_bit (8 * i) v)) (rev [0..<8])"

definition updateBe64 :: "u64 \<Rightarrow> keccak256_state \<Rightarrow> keccak256_state" where
  "updateBe64 v k = keccak_update (putBe64 v) k"

definition keccak256_str :: "string \<Rightarrow> u8 list" where
  "keccak256_str s = keccak256 (map of_char s)"

record eip712Constants =
  domainSeparator :: "u8 list"
  agentTypeHash :: "u8 list"
  sourceMainnet :: "u8 list"
  sourceTestnet :: "u8 list"

definition eip712 :: eip712Constants where
  "eip712 =
     (let domain = new_keccak256;
          domain = keccak_update (keccak256_str ''EIP712Domain(string name,string version,uint256 chainId,address verifyingContract)'') domain;
          domain = keccak_update (keccak256_str ''Exchange'') domain;
          domain = keccak_update (keccak256_str ''1'') domain;
          domain = keccak_update (replicate 24 0 @ putBe64 1337) domain;
          domain = keccak_update (replicate 32 0) domain
      in \<lparr>domainSeparator = finalize domain, agentTypeHash = keccak256_str ''Agent(string source,bytes32 connectionId)'',
          sourceMainnet = keccak256_str ''a'', sourceTestnet = keccak256_str ''b''\<rparr>)"

definition actionHash :: "u8 list \<Rightarrow> address option \<Rightarrow> u64 \<Rightarrow> u64 option \<Rightarrow> u8 list" where
  "actionHash msgpackAction vlt nonce expiresAfter =
     (let k = keccak_update msgpackAction new_keccak256;
          k = updateBe64 nonce k;
          k = (case vlt of Some a \<Rightarrow> keccak_update a (keccak_update [0x01] k) | None \<Rightarrow> keccak_update [0x00] k);
          k = (case expiresAfter of Some t \<Rightarrow> updateBe64 t (keccak_update [0x00] k) | None \<Rightarrow> k)
      in finalize k)"

definition agentDigest :: "u8 list \<Rightarrow> bool \<Rightarrow> u8 list" where
  "agentDigest connectionId mainnet =
     (let structHasher = keccak_update (agentTypeHash eip712) new_keccak256;
          structHasher = keccak_update (if mainnet then sourceMainnet eip712 else sourceTestnet eip712) structHasher;
          structHash = finalize (keccak_update connectionId structHasher);
          digest = keccak_update [0x19, 0x01] new_keccak256;
          digest = keccak_update (domainSeparator eip712) digest
      in finalize (keccak_update structHash digest))"

section \<open>The pool of nonces\<close>

record nonceEntry =
  ne_r :: "u64 list"
  ne_kInv :: "u64 list"
  ne_rd :: "u64 list"
  ne_recid :: u8

definition no_entry :: nonceEntry where
  "no_entry = \<lparr>ne_r = [0, 0, 0, 0], ne_kInv = [0, 0, 0, 0], ne_rd = [0, 0, 0, 0], ne_recid = 0\<rparr>"

record noncePool =
  ring :: "nonceEntry list"
  np_mask :: u64
  np_head :: u64
  np_tail :: u64
  np_size :: u64
  np_stop :: bool
  forkGeneration :: u64
  np_counter :: u64
  refilling :: bool

definition np_push :: "nonceEntry \<Rightarrow> noncePool \<Rightarrow> noncePool \<times> bool" where
  "np_push e p =
     (if np_tail p - np_head p > np_mask p then (p, False)
      else
        let p = p\<lparr>ring := (ring p)[unat (np_tail p AND np_mask p) := e], np_tail := np_tail p + 1\<rparr>
        in (p\<lparr>np_size := np_tail p - np_head p\<rparr>, True))"

text \<open>\<open>seen\<close> is what the relaxed load of \<open>size\<close> returned.\<close>

definition np_pop :: "u64 \<Rightarrow> noncePool \<Rightarrow> noncePool \<times> nonceEntry option" where
  "np_pop seen p =
     (if seen = 0 \<or> np_head p = np_tail p then (p, None)
      else
        let i = unat (np_head p AND np_mask p); e = ring p ! i;
            p = p\<lparr>ring := (ring p)[i := no_entry], np_head := np_head p + 1\<rparr>
        in (p\<lparr>np_size := np_tail p - np_head p\<rparr>, Some e))"

definition counter_bytes :: "u64 \<Rightarrow> u8 list" where
  "counter_bytes c = map (\<lambda>i. ucast (drop_bit (8 * i) c)) [0..<8]"

definition produceNonce ::
  "(u8 list \<Rightarrow> u8 list \<Rightarrow> u8 list option) \<Rightarrow> (u8 list \<Rightarrow> u8 list option) \<Rightarrow> u8 list option \<Rightarrow> u8 list \<Rightarrow> u64 list \<Rightarrow> u64 \<Rightarrow> nonceEntry option" where
  "produceNonce hmac pubkey rand key d counter =
     do {
       rnd \<leftarrow> rand;
       kBytes \<leftarrow> hmac key (rnd @ counter_bytes counter);
       let k = fromBytes kBytes;
       if \<not> limbs_isZero k \<and> lessThan k kOrderN then do {
         ser \<leftarrow> pubkey kBytes;
         let x = fromBytes (take 32 (drop 1 ser));
         if lessThan x kOrderN
         then Some \<lparr>ne_r = x, ne_kInv = invMod k, ne_rd = mulMod x d, ne_recid = ser ! 64 AND 1\<rparr>
         else None
       } else None
     }"

text \<open>The loop of \<open>refill\<close>. The bytes that are drawn are told apart by the counter of their attempt.\<close>

fun refill_loop ::
  "(u64 \<Rightarrow> nonceEntry option) \<Rightarrow> u64 \<Rightarrow> nat \<Rightarrow> u64 \<Rightarrow> noncePool \<Rightarrow> noncePool \<times> u64" where
  "refill_loop produce maxCount 0 added p = (p, added)"
| "refill_loop produce maxCount (Suc attemptsLeft) added p =
     (if \<not> (added < maxCount \<and> np_size p \<le> np_mask p \<and> \<not> np_stop p) then (p, added)
      else
        let r = produce (np_counter p); p = p\<lparr>np_counter := np_counter p + 1\<rparr> in
        case r of
          None \<Rightarrow> refill_loop produce maxCount attemptsLeft added p
        | Some e \<Rightarrow>
            (case np_push e p of
               (p, False) \<Rightarrow> (p, added)
             | (p, True) \<Rightarrow> refill_loop produce maxCount attemptsLeft (added + 1) p))"

definition np_refill ::
  "(u8 list \<Rightarrow> u8 list \<Rightarrow> u8 list option) \<Rightarrow> (u8 list \<Rightarrow> u8 list option) \<Rightarrow> (u64 \<Rightarrow> u8 list option) \<Rightarrow> u8 list \<Rightarrow> u64 \<Rightarrow>
   noncePool \<Rightarrow> noncePool \<times> u64" where
  "np_refill hmac pubkey rand key maxCount p =
     (if refilling p then (p, 0)
      else
        let d = fromBytes key;
            (p, added) = refill_loop (\<lambda>c. produceNonce hmac pubkey (rand c) key d c) maxCount (unat (4 * maxCount + 8)) 0 (p\<lparr>refilling := True\<rparr>)
        in (p\<lparr>refilling := False\<rparr>, added))"

section \<open>The signer\<close>

record signer_state =
  sg_key :: "u8 list"
  sg_address :: address
  sg_pool :: "noncePool option"
  precomputedCount :: u64
  deterministicCount :: u64

datatype signer_error = KeyNotHex | ContextFailed | KeyNotScalar | PubkeyFailed

definition new_signer ::
  "bool \<Rightarrow> (u8 list \<Rightarrow> bool) \<Rightarrow> (u8 list \<Rightarrow> u8 list option) \<Rightarrow> string \<Rightarrow> signer_error + signer_state" where
  "new_signer context_ok seckey_verify pubkey privateKeyHex =
     (case fromHex privateKeyHex 32 of
        None \<Rightarrow> Inl KeyNotHex
      | Some key \<Rightarrow>
          if \<not> context_ok then Inl ContextFailed
          else if \<not> seckey_verify key then Inl KeyNotScalar
          else case pubkey key of
            None \<Rightarrow> Inl PubkeyFailed
          | Some uncompressed \<Rightarrow>
              Inr \<lparr>sg_key = key, sg_address = drop 12 (keccak256 (take 64 (drop 1 uncompressed))), sg_pool = None,
                precomputedCount = 0, deterministicCount = 0\<rparr>)"

definition disableNoncePool :: "signer_state \<Rightarrow> signer_state" where
  "disableNoncePool s = s\<lparr>sg_pool := None\<rparr>"

text \<open>The loop that rounds the capacity up; \<open>None\<close> when it does not end.\<close>

partial_function (option) pow2_loop :: "u64 \<Rightarrow> u64 \<Rightarrow> u64 option" where
  "pow2_loop capacity pow2 = (if pow2 < capacity then pow2_loop capacity (push_bit 1 pow2) else Some pow2)"

definition enableNoncePool :: "bool \<Rightarrow> u64 \<Rightarrow> u64 \<Rightarrow> signer_state \<Rightarrow> (signer_error + signer_state) option" where
  "enableNoncePool context_ok gForkGeneration capacity s =
     (let s = disableNoncePool s in
      if capacity = 0 then Some (Inr s)
      else do {
        pow2 \<leftarrow> pow2_loop capacity 1;
        Some (if \<not> context_ok then Inl ContextFailed
          else Inr (s\<lparr>sg_pool := Some \<lparr>ring = replicate (unat pow2) no_entry, np_mask = pow2 - 1, np_head = 0, np_tail = 0,
            np_size = 0, np_stop = False, forkGeneration = gForkGeneration, np_counter = 0, refilling = False\<rparr>\<rparr>))
      })"

definition refillNonces ::
  "(u8 list \<Rightarrow> u8 list \<Rightarrow> u8 list option) \<Rightarrow> (u8 list \<Rightarrow> u8 list option) \<Rightarrow> (u64 \<Rightarrow> u8 list option) \<Rightarrow> u64 \<Rightarrow> signer_state \<Rightarrow> signer_state \<times> u64" where
  "refillNonces hmac pubkey rand maxCount s =
     (case sg_pool s of
        None \<Rightarrow> (s, 0)
      | Some p \<Rightarrow> (case np_refill hmac pubkey rand (sg_key s) maxCount p of (p, added) \<Rightarrow> (s\<lparr>sg_pool := Some p\<rparr>, added)))"

definition noncePoolSize :: "signer_state \<Rightarrow> u64" where
  "noncePoolSize s = (case sg_pool s of None \<Rightarrow> 0 | Some p \<Rightarrow> np_size p)"

definition signingStats :: "signer_state \<Rightarrow> u64 \<times> u64" where
  "signingStats s = (precomputedCount s, deterministicCount s)"

definition onForkChild :: "u64 \<Rightarrow> u64" where
  "onForkChild gForkGeneration = gForkGeneration + 1"

text \<open>The signature from a precomputed nonce; none when the scalar is zero.\<close>

definition online_sign :: "nonceEntry \<Rightarrow> u8 list \<Rightarrow> signature option" where
  "online_sign e digest =
     (let z = reduce256 (fromBytes digest);
          sScalar = mulMod (ne_kInv e) (addMod z (ne_rd e))
      in if limbs_isZero sScalar then None
         else
           let negated = fst (limbs_sub kOrderN sScalar);
               high = lessThan kOrderHalf sScalar;
               sScalar = pick (0 - of_bool high) negated sScalar
           in Some \<lparr>sig_r = toBytes (ne_r e), sig_s = toBytes sScalar, sig_v = 27 + (ne_recid e XOR of_bool high)\<rparr>)"

definition deterministic_sign ::
  "(u8 list \<Rightarrow> u8 list \<Rightarrow> (u8 list \<times> int) option) \<Rightarrow> u8 list \<Rightarrow> signer_state \<Rightarrow> signature option \<times> signer_state" where
  "deterministic_sign sign_recoverable digest s =
     (map_option (\<lambda>(compact, recid). \<lparr>sig_r = take 32 compact, sig_s = take 32 (drop 32 compact), sig_v = word_of_int (27 + recid)\<rparr>)
        (sign_recoverable digest (sg_key s)),
      s\<lparr>deterministicCount := deterministicCount s + 1\<rparr>)"

text \<open>No signature is the exception that signing failed.\<close>

definition signDigest ::
  "(u8 list \<Rightarrow> u8 list \<Rightarrow> (u8 list \<times> int) option) \<Rightarrow> u64 \<Rightarrow> u64 \<Rightarrow> u8 list \<Rightarrow> signer_state \<Rightarrow> signature option \<times> signer_state" where
  "signDigest sign_recoverable gForkGeneration seen digest s =
     (case sg_pool s of
        None \<Rightarrow> deterministic_sign sign_recoverable digest s
      | Some p \<Rightarrow>
          if forkGeneration p \<noteq> gForkGeneration then deterministic_sign sign_recoverable digest s
          else case np_pop seen p of
            (p, None) \<Rightarrow> deterministic_sign sign_recoverable digest (s\<lparr>sg_pool := Some p\<rparr>)
          | (p, Some e) \<Rightarrow>
              let s = s\<lparr>sg_pool := Some p\<rparr> in
              case online_sign e digest of
                Some sig \<Rightarrow> (Some sig, s\<lparr>precomputedCount := precomputedCount s + 1\<rparr>)
              | None \<Rightarrow> deterministic_sign sign_recoverable digest s)"

definition signL1Action ::
  "(u8 list \<Rightarrow> u8 list \<Rightarrow> (u8 list \<times> int) option) \<Rightarrow> u64 \<Rightarrow> u64 \<Rightarrow> u8 list \<Rightarrow> address option \<Rightarrow> u64 \<Rightarrow> u64 option \<Rightarrow> bool \<Rightarrow>
   signer_state \<Rightarrow> signature option \<times> signer_state" where
  "signL1Action sign_recoverable gForkGeneration seen msgpackAction vlt nonce expiresAfter mainnet s =
     signDigest sign_recoverable gForkGeneration seen (agentDigest (actionHash msgpackAction vlt nonce expiresAfter) mainnet) s"

section \<open>The pool as a queue\<close>

text \<open>A queue with a bounded \<open>push\<close> and a \<open>pop\<close> that may be refused, as its users see it.\<close>

fun queue_exec :: "('e \<Rightarrow> 'q \<Rightarrow> 'q \<times> bool) \<Rightarrow> ('o \<Rightarrow> 'q \<Rightarrow> 'q \<times> 'e option) \<Rightarrow> ('e + 'o) list \<Rightarrow> 'q \<Rightarrow> 'e list \<times> 'e list \<times> 'q" where
  "queue_exec push pop [] q = ([], [], q)"
| "queue_exec push pop (Inl e # ops) q =
     (case push e q of (q, taken) \<Rightarrow>
        (case queue_exec push pop ops q of (ins, outs, q) \<Rightarrow> (if taken then e # ins else ins, outs, q)))"
| "queue_exec push pop (Inr x # ops) q =
     (case pop x q of (q, r) \<Rightarrow>
        (case queue_exec push pop ops q of (ins, outs, q) \<Rightarrow> (ins, case r of None \<Rightarrow> outs | Some e \<Rightarrow> e # outs, q)))"

locale bounded_queue =
  fixes push :: "'e \<Rightarrow> 'q \<Rightarrow> 'q \<times> bool" and pop :: "'o \<Rightarrow> 'q \<Rightarrow> 'q \<times> 'e option"
    and content :: "'q \<Rightarrow> 'e list" and ok :: "'q \<Rightarrow> bool" and room :: "'q \<Rightarrow> nat"
  assumes push_law: "ok q \<Longrightarrow> push e q = (q', taken) \<Longrightarrow>
      ok q' \<and> room q' = room q \<and> taken = (length (content q) < room q) \<and> content q' = (if taken then content q @ [e] else content q)"
    and pop_law: "ok q \<Longrightarrow> pop x q = (q', r) \<Longrightarrow>
      ok q' \<and> room q' = room q \<and> content q = (case r of None \<Rightarrow> [] | Some e \<Rightarrow> [e]) @ content q'"
    and bounded: "ok q \<Longrightarrow> length (content q) \<le> room q"
begin

lemma handed_out_in_order:
  "ok q \<Longrightarrow> queue_exec push pop ops q = (ins, outs, q') \<Longrightarrow>
     ok q' \<and> room q' = room q \<and> content q @ ins = outs @ content q'"
proof (induction ops arbitrary: q ins outs)
  case (Cons x ops)
  show ?case
  proof (cases x)
    case (Inl e)
    obtain q1 taken where p: "push e q = (q1, taken)" by fastforce
    obtain ins' where i: "queue_exec push pop ops q1 = (ins', outs, q')" "ins = (if taken then e # ins' else ins')"
      using Cons.prems(2) by (auto simp: Inl p split: prod.splits)
    note l = push_law[OF Cons.prems(1) p]
    from Cons.IH[OF _ i(1)] l show ?thesis by (auto simp: i(2) split: if_splits)
  next
    case (Inr y)
    obtain q1 r where p: "pop y q = (q1, r)" by fastforce
    obtain outs' where i: "queue_exec push pop ops q1 = (ins, outs', q')" "outs = (case r of None \<Rightarrow> outs' | Some e \<Rightarrow> e # outs')"
      using Cons.prems(2) by (auto simp: Inr p split: prod.splits)
    note l = pop_law[OF Cons.prems(1) p]
    from Cons.IH[OF _ i(1)] l show ?thesis by (cases r) (auto simp: i(2))
  qed
qed simp

end

section \<open>The ring\<close>

definition np_count :: "noncePool \<Rightarrow> nat" where
  "np_count p = unat (np_tail p - np_head p)"

definition np_content :: "noncePool \<Rightarrow> nonceEntry list" where
  "np_content p = map (\<lambda>i. ring p ! ((unat (np_head p) + i) mod length (ring p))) [0..<np_count p]"

definition np_ok :: "noncePool \<Rightarrow> bool" where
  "np_ok p \<longleftrightarrow> (\<exists>k \<le> 63. np_mask p = 2 ^ k - 1 \<and> length (ring p) = 2 ^ k) \<and> np_count p \<le> length (ring p)"

lemma masked_index:
  assumes "k \<le> 63"
  shows "unat ((h + of_nat i) AND (2 ^ k - 1 :: u64)) = (unat h + i) mod 2 ^ k"
proof -
  have m: "(2 ^ k - 1 :: u64) = mask k" by (simp add: mask_eq_exp_minus_1)
  have "(2::nat) ^ k dvd 2 ^ 64" using assms by (intro le_imp_power_dvd) simp
  then have "(unat h + i) mod 2 ^ 64 mod 2 ^ k = (unat h + i) mod 2 ^ k" by (rule mod_mod_cancel)
  moreover have "unat (h + of_nat i) = (unat h + i) mod 2 ^ 64"
    by (simp add: unat_word_ariths unsigned_of_nat take_bit_eq_mod mod_add_right_eq)
  moreover have "unat (take_bit k (h + of_nat i)) = unat (h + of_nat i) mod 2 ^ k" 
    using unsigned_take_bit_eq[of k "h + of_nat i", where ?'a = nat] unfolding take_bit_eq_mod[where ?'a = nat] .
  ultimately show ?thesis unfolding m take_bit_eq_mask[symmetric] by simp
qed

lemma np_okE:
  assumes "np_ok p"
  obtains k where "k \<le> 63" "np_mask p = 2 ^ k - 1" "length (ring p) = 2 ^ k" "np_count p \<le> 2 ^ k"
  using assms by (auto simp: np_ok_def)

lemma tail_eq: "np_tail p = np_head p + of_nat (np_count p)"
  by (simp add: np_count_def)

lemma small_index:
  assumes "n \<le> 2 ^ k" and "k \<le> 63"
  shows "unat (of_nat n :: u64) = n"
proof -
  have "(2::nat) ^ k \<le> 2 ^ 63" using assms(2) by (intro power_increasing) simp_all
  then show ?thesis using assms(1) by (simp add: unsigned_of_nat take_bit_nat_eq_self)
qed

lemma unat_pow2: "i \<le> 63 \<Longrightarrow> unat (2 ^ i :: u64) = 2 ^ i"
  using small_index[of "2 ^ i" i] by simp

lemma unat_pow2_minus: "i \<le> 63 \<Longrightarrow> unat (2 ^ i - 1 :: u64) = 2 ^ i - 1"
  using unat_pow2[of i] by (subst unat_minus_one) (auto simp del: unat_0_iff)

lemma ring_apart:
  assumes "i < j" and "j < i + N" and "0 < N"
  shows "(h + i) mod N \<noteq> (h + j) mod (N::nat)"
proof
  assume "(h + i) mod N = (h + j) mod N"
  then have "N dvd (h + j) - (h + i)" using assms(1) by (metis add_le_mono less_imp_le mod_eq_dvd_iff_nat order_refl)
  then have "N \<le> j - i" using assms(1) by (intro dvd_imp_le) simp_all
  then show False using assms(1,2) by simp
qed

lemma np_push_ring:
  assumes "np_ok p" and "np_push e p = (p', taken)"
  shows "np_ok p' \<and> length (ring p') = length (ring p) \<and> taken = (length (np_content p) < length (ring p)) \<and>
    np_content p' = (if taken then np_content p @ [e] else np_content p)"
proof -
  obtain k where k: "k \<le> 63" "np_mask p = 2 ^ k - 1" "length (ring p) = 2 ^ k" "np_count p \<le> 2 ^ k" by (rule np_okE[OF assms(1)])
  let ?n = "np_count p" and ?h = "unat (np_head p)"
  have full: "(np_mask p < np_tail p - np_head p) \<longleftrightarrow> ?n = 2 ^ k"
    using unat_pow2_minus[OF k(1)] k(4) by (auto simp: word_less_nat_alt k(2) np_count_def)
  show ?thesis
  proof (cases "?n = 2 ^ k")
    case True
    then show ?thesis using assms full k by (simp add: np_push_def np_content_def)
  next
    case False
    then have n: "?n < 2 ^ k" using k(4) by simp
    have i: "unat (np_tail p AND np_mask p) = (?h + ?n) mod 2 ^ k" unfolding tail_eq k(2) by (rule masked_index[OF k(1)])
    have p': "ring p' = (ring p)[(?h + ?n) mod 2 ^ k := e]" "np_head p' = np_head p" "np_mask p' = np_mask p" "np_tail p' = np_tail p + 1" taken
      using assms(2) False by (auto simp: np_push_def full Let_def i)
    have "np_tail p' - np_head p' = of_nat (Suc ?n)" by (simp add: p' tail_eq[of p])
    then have c: "np_count p' = Suc ?n" using small_index[of "Suc ?n" k] n k(1) by (simp add: np_count_def)
    have same: "ring p' ! ((?h + j) mod 2 ^ k) = ring p ! ((?h + j) mod 2 ^ k)" if "j < ?n" for j
      using ring_apart[of j ?n "2 ^ k" ?h] that n by (simp add: p'(1))
    have new: "ring p' ! ((?h + ?n) mod 2 ^ k) = e" by (simp add: p'(1) k(3))
    have "np_content p' = np_content p @ [e]" unfolding np_content_def c using same new by (simp add: p' k(3))
    moreover have "np_ok p'" using k n by (auto simp: np_ok_def p' c intro!: exI[of _ k])
    ultimately show ?thesis using n p'(5) by (simp add: p'(1) k(3) np_content_def)
  qed
qed

lemma np_pop_ring:
  assumes "np_ok p" and "np_pop seen p = (p', r)"
  shows "np_ok p' \<and> length (ring p') = length (ring p) \<and> np_content p = (case r of None \<Rightarrow> [] | Some e \<Rightarrow> [e]) @ np_content p'"
proof (cases "seen = 0 \<or> np_head p = np_tail p")
  case True
  then show ?thesis using assms by (auto simp: np_pop_def)
next
  case False
  obtain k where k: "k \<le> 63" "np_mask p = 2 ^ k - 1" "length (ring p) = 2 ^ k" "np_count p \<le> 2 ^ k" by (rule np_okE[OF assms(1)])
  let ?h = "unat (np_head p)"
  obtain n where n: "np_count p = Suc n" using False by (cases "np_count p") (auto simp: np_count_def unat_eq_0)
  have i: "unat (np_head p AND np_mask p) = ?h mod 2 ^ k" using masked_index[OF k(1), of "np_head p" 0] by (simp add: k(2))
  have p': "ring p' = (ring p)[?h mod 2 ^ k := no_entry]" "np_head p' = np_head p + 1" "np_mask p' = np_mask p" "np_tail p' = np_tail p"
    "r = Some (ring p ! (?h mod 2 ^ k))"
    using assms(2) False by (auto simp: np_pop_def Let_def i)
  have "np_tail p' - np_head p' = of_nat n" by (simp add: p' tail_eq[of p] n)
  then have c: "np_count p' = n" using small_index[of n k] n k(1,4) by (simp add: np_count_def)
  have h': "(unat (np_head p') + j) mod 2 ^ k = (?h + Suc j) mod 2 ^ k" for j
  proof -
    have "(unat (np_head p') + j) mod 2 ^ k = unat ((np_head p' + of_nat j) AND (2 ^ k - 1))" by (rule masked_index[OF k(1), symmetric])
    also have "\<dots> = unat ((np_head p + of_nat (Suc j)) AND (2 ^ k - 1))" by (simp add: p'(2) add.assoc)
    finally show ?thesis by (simp only: masked_index[OF k(1)])
  qed
  have same: "ring p' ! ((?h + Suc j) mod 2 ^ k) = ring p ! ((?h + Suc j) mod 2 ^ k)" if "j < n" for j
    using ring_apart[of 0 "Suc j" "2 ^ k" ?h] that n k(4) by (simp add: p'(1))
  have "np_content p = ring p ! (?h mod 2 ^ k) # map (\<lambda>i. ring p ! ((?h + Suc i) mod 2 ^ k)) [0..<n]"
    unfolding np_content_def n k(3) by (simp only: upt_conv_Cons[OF zero_less_Suc] map_Suc_upt[symmetric] list.map map_map comp_def) simp
  moreover have "np_content p' = map (\<lambda>i. ring p ! ((?h + Suc i) mod 2 ^ k)) [0..<n]"
    unfolding np_content_def c using same h' by (simp add: p'(1) k(3))
  moreover have "np_ok p'" using k n by (auto simp: np_ok_def p' c intro!: exI[of _ k])
  ultimately show ?thesis by (simp add: p' k(3))
qed

interpretation pool: bounded_queue np_push np_pop np_content np_ok "\<lambda>p. length (ring p)"
proof
  show "np_ok q \<Longrightarrow> length (np_content q) \<le> length (ring q)" for q by (simp add: np_content_def np_ok_def)
qed (use np_push_ring np_pop_ring in blast)+

section \<open>The capacity\<close>

lemma pow2_step: "i < 63 \<Longrightarrow> push_bit 1 (2 ^ i :: u64) = 2 ^ Suc i"
  by (simp add: push_bit_eq_mult)

lemma pow2_loop_ends:
  assumes "i \<le> 63" and "unat capacity \<le> 2 ^ 63" and "i = 0 \<or> 2 ^ (i - 1) < unat capacity" and "0 < unat capacity"
  shows "\<exists>k \<le> 63. pow2_loop capacity (2 ^ i) = Some (2 ^ k) \<and> unat capacity \<le> 2 ^ k \<and> 2 ^ k < 2 * unat capacity"
  using assms
proof (induction "63 - i" arbitrary: i)
  case 0
  then have "i = 63" by simp
  then have "\<not> (2 ^ i < capacity)" using 0 unat_pow2[of 63] by (simp add: word_less_nat_alt)
  moreover have "(2::nat) ^ 63 < 2 * unat capacity" using 0 \<open>i = 63\<close> by simp
  moreover have "pow2_loop capacity (2 ^ i) = Some (2 ^ i)" using calculation(1) by (subst pow2_loop.simps) simp
  ultimately show ?case using 0 \<open>i = 63\<close> by (intro exI[of _ 63]) simp
next
  case (Suc n)
  show ?case
  proof (cases "2 ^ i < capacity")
    case True
    then have "2 ^ i < unat capacity" using unat_pow2[OF Suc.prems(1)] by (simp add: word_less_nat_alt)
    then have "\<exists>k \<le> 63. pow2_loop capacity (2 ^ Suc i) = Some (2 ^ k) \<and> unat capacity \<le> 2 ^ k \<and> 2 ^ k < 2 * unat capacity"
      using Suc.hyps(2) Suc.prems by (intro Suc.hyps(1)) simp_all
    then show ?thesis using True pow2_step[of i] Suc.hyps(2) by (simp add: pow2_loop.simps[of capacity "2 ^ i"] mult.commute)
  next
    case False
    then have "unat capacity \<le> 2 ^ i" using unat_pow2[OF Suc.prems(1)] by (simp add: word_less_nat_alt)
    moreover have "(2::nat) ^ i < 2 * unat capacity" using Suc.prems(3,4) by (cases i) auto
    ultimately show ?thesis using False Suc.prems(1) by (intro exI[of _ i]) (simp add: pow2_loop.simps[of capacity "2 ^ i"])
  qed
qed

definition pow2_or_zero :: "u64 \<Rightarrow> bool" where
  "pow2_or_zero p \<longleftrightarrow> p = 0 \<or> (\<exists>i \<le> 63. p = 2 ^ i)"

lemma pow2_or_zero_double: "pow2_or_zero p \<Longrightarrow> pow2_or_zero (push_bit 1 p)"
proof (cases "p = 0 \<or> p = 2 ^ 63")
  case True
  then show ?thesis by (auto simp: pow2_or_zero_def push_bit_eq_mult)
next
  case False
  assume "pow2_or_zero p"
  then obtain i where "i \<le> 63" "p = 2 ^ i" using False by (auto simp: pow2_or_zero_def)
  then have "i < 63" using False by (cases "i = 63") auto
  then show ?thesis using pow2_step[of i] \<open>p = 2 ^ i\<close> unfolding pow2_or_zero_def by (intro disjI2 exI[of _ "Suc i"]) simp
qed

lemma pow2_loop_result:
  assumes "pow2_loop capacity p = Some r"
  shows "pow2_or_zero p \<longrightarrow> \<not> r < capacity \<and> pow2_or_zero r"
proof (rule pow2_loop.raw_induct[OF _ assms, where P = "\<lambda>c p r. pow2_or_zero p \<longrightarrow> \<not> r < c \<and> pow2_or_zero r"])
  fix loop c p r
  assume ih: "\<And>c p r. loop c p = Some r \<Longrightarrow> pow2_or_zero p \<longrightarrow> \<not> r < c \<and> pow2_or_zero r"
    and body: "(if p < c then loop c (push_bit 1 p) else Some p) = Some r"
  show "pow2_or_zero p \<longrightarrow> \<not> r < c \<and> pow2_or_zero r"
    using ih[of c "push_bit 1 p" r] body pow2_or_zero_double[of p] by (cases "p < c") auto
qed

lemma pow2_loop_runs_on: "2 ^ 63 < unat capacity \<Longrightarrow> pow2_loop capacity 1 = None"
proof (rule ccontr)
  assume c: "2 ^ 63 < unat capacity" and "pow2_loop capacity 1 \<noteq> None"
  then obtain r where "pow2_loop capacity 1 = Some r" by blast
  moreover have "pow2_or_zero 1" unfolding pow2_or_zero_def by (intro disjI2 exI[of _ 0]) simp
  ultimately have "\<not> r < capacity" "r = 0 \<or> (\<exists>i \<le> 63. r = 2 ^ i)" using pow2_loop_result[of capacity 1 r] by (auto simp: pow2_or_zero_def)
  moreover have "unat (2 ^ i :: u64) \<le> 2 ^ 63" if "i \<le> 63" for i
    using unat_pow2[OF that] power_increasing[OF that, of "2::nat"] by simp
  ultimately show False using c by (force simp: word_less_nat_alt)
qed

section \<open>Scalars of a signature\<close>

lemma lessThan_val: "length a = length b \<Longrightarrow> lessThan a b \<longleftrightarrow> limbs_val a < limbs_val b"
  using limbs_sub_val[of a b "fst (limbs_sub a b)" "snd (limbs_sub a b)"] by (simp add: lessThan_def)

lemma isZero_val: "length a = 4 \<Longrightarrow> limbs_isZero a \<longleftrightarrow> limbs_val a = 0"
proof -
  assume "length a = 4"
  then obtain a0 a1 a2 a3 where a: "a = [a0, a1, a2, a3]" by (auto simp: eval_nat_numeral length_Suc_conv)
  have "limbs_val a = 0 \<longleftrightarrow> uint a0 = 0 \<and> uint a1 = 0 \<and> uint a2 = 0 \<and> uint a3 = 0"
    using uint64_bounds(1)[of a0] uint64_bounds(1)[of a1] uint64_bounds(1)[of a2] uint64_bounds(1)[of a3] unfolding a by (auto simp: add_nonneg_eq_0_iff)
  then show ?thesis by (auto simp: limbs_isZero_def a or_eq_0_iff uint_0_iff)
qed

lemma kOrderHalf_val: "limbs_val kOrderHalf = order_n div 2" "length kOrderHalf = 4"
  by (simp_all add: kOrderHalf_def order_n_def)

lemma length_fromBytes [simp]: "length (fromBytes b) = 4"
  by (simp add: fromBytes_def)

lemma mod_order_bounds: "0 \<le> x mod order_n" "x mod order_n < order_n"
  by (simp_all add: order_n_def)

text \<open>The scalar before normalisation.\<close>

definition raw_scalar :: "nonceEntry \<Rightarrow> u8 list \<Rightarrow> u64 list" where
  "raw_scalar e digest = mulMod (ne_kInv e) (addMod (reduce256 (fromBytes digest)) (ne_rd e))"

definition entry_ok :: "nonceEntry \<Rightarrow> bool" where
  "entry_ok e \<longleftrightarrow> length (ne_r e) = 4 \<and> length (ne_kInv e) = 4 \<and> length (ne_rd e) = 4 \<and> limbs_val (ne_rd e) < order_n \<and> (ne_recid e = 0 \<or> ne_recid e = 1)"

lemma raw_scalar_val:
  assumes "entry_ok e"
  shows "limbs_val (raw_scalar e digest) = limbs_val (ne_kInv e) * (limbs_val (fromBytes digest) + limbs_val (ne_rd e)) mod order_n"
    and "length (raw_scalar e digest) = 4"
proof -
  let ?z = "reduce256 (fromBytes digest)"
  have z: "limbs_val ?z = limbs_val (fromBytes digest) mod order_n" "length ?z = 4"
    using condSubN_mod[of "fromBytes digest"] condSubN_val[of "fromBytes digest"] by (simp_all add: reduce256_def)
  have rd: "length (ne_rd e) = 4" "limbs_val (ne_rd e) < order_n" "length (ne_kInv e) = 4" using assms by (simp_all add: entry_ok_def)
  have "limbs_val ?z < order_n" by (simp add: z mod_order_bounds)
  note a = addMod_mod[OF z(2) rd(1) this rd(2)]
  note m = mulMod_mod[OF rd(3) conjunct2[OF a]]
  show "length (raw_scalar e digest) = 4" using m by (simp add: raw_scalar_def)
  have "limbs_val (raw_scalar e digest) =
      limbs_val (ne_kInv e) * ((limbs_val (fromBytes digest) mod order_n + limbs_val (ne_rd e)) mod order_n) mod order_n"
    using m a by (simp add: raw_scalar_def z)
  then show "limbs_val (raw_scalar e digest) = limbs_val (ne_kInv e) * (limbs_val (fromBytes digest) + limbs_val (ne_rd e)) mod order_n"
    by (simp only: mod_mult_right_eq mod_add_left_eq)
qed

lemma online_sign_None: "entry_ok e \<Longrightarrow> online_sign e digest = None \<longleftrightarrow> limbs_val (raw_scalar e digest) = 0"
  using isZero_val[OF raw_scalar_val(2)] by (simp add: online_sign_def raw_scalar_def Let_def)

lemma online_sign_val:
  assumes "entry_ok e" and "online_sign e digest = Some sig"
  defines "s0 \<equiv> limbs_val (raw_scalar e digest)" and "s \<equiv> limbs_val (fromBytes (sig_s sig))"
  shows "fromBytes (sig_r sig) = ne_r e" and "s = (if order_n div 2 < s0 then order_n - s0 else s0)" and "0 < s0" and "s0 < order_n"
    and "sig_v sig = 27 + (ne_recid e XOR of_bool (order_n div 2 < s0))"
proof -
  let ?l = "raw_scalar e digest"
  have l: "length ?l = 4" by (rule raw_scalar_val(2)[OF assms(1)])
  show s0: "s0 < order_n" unfolding s0_def raw_scalar_val(1)[OF assms(1)] by (rule mod_order_bounds)
  have nz: "\<not> limbs_isZero ?l" using assms(2) by (auto simp: online_sign_def raw_scalar_def Let_def split: if_splits)
  then show "0 < s0" using limbs_val_bounds[of ?l] isZero_val[OF l] unfolding s0_def by linarith
  obtain neg bo where n: "limbs_sub kOrderN ?l = (neg, bo)" by fastforce
  have neg: "limbs_val neg = order_n - s0" "length neg = 4"
    using limbs_sub_val[OF _ n] kOrderN_val l s0 by (simp_all add: s0_def)
  have h: "lessThan kOrderHalf ?l \<longleftrightarrow> order_n div 2 < s0" using lessThan_val[of kOrderHalf ?l] l by (simp add: kOrderHalf_val s0_def)
  let ?high = "order_n div 2 < s0"
  have sig: "sig = \<lparr>sig_r = toBytes (ne_r e), sig_s = toBytes (pick (0 - of_bool ?high) neg ?l), sig_v = 27 + (ne_recid e XOR of_bool ?high)\<rparr>"
    using assms(2) nz h n by (simp add: online_sign_def raw_scalar_def Let_def)
  show "fromBytes (sig_r sig) = ne_r e" using assms(1) by (simp add: sig fromBytes_toBytes entry_ok_def)
  show "sig_v sig = 27 + (ne_recid e XOR of_bool ?high)" by (simp add: sig)
  have "pick (0 - of_bool ?high) neg ?l = (if ?high then neg else ?l)" using pick_all[of neg ?l] neg(2) l by simp
  then show "s = (if ?high then order_n - s0 else s0)" using neg l by (simp add: s_def sig fromBytes_toBytes s0_def)
qed

lemma produced_entry:
  assumes "produceNonce hmac pubkey (Some rnd) key (fromBytes key) counter = Some e" and "hmac key (rnd @ counter_bytes counter) = Some kBytes"
  shows "entry_ok e \<and> limbs_val (ne_r e) < order_n \<and> ne_kInv e = invMod (fromBytes kBytes) \<and> ne_rd e = mulMod (ne_r e) (fromBytes key)"
proof -
  obtain ser where e: "pubkey kBytes = Some ser" "lessThan (fromBytes (take 32 (drop 1 ser))) kOrderN"
    "e = \<lparr>ne_r = fromBytes (take 32 (drop 1 ser)), ne_kInv = invMod (fromBytes kBytes), ne_rd = mulMod (fromBytes (take 32 (drop 1 ser))) (fromBytes key),
      ne_recid = ser ! 64 AND 1\<rparr>"
    using assms by (auto simp: produceNonce_def bind_eq_Some_conv Let_def split: if_splits)
  have "ser ! 64 AND 1 = of_bool (odd (ser ! 64))" by (simp only: and_one_eq mod_2_eq_odd)
  then show ?thesis using e invMod_power[of "fromBytes kBytes"] mulMod_mod[of "fromBytes (take 32 (drop 1 ser))" "fromBytes key"]
      lessThan_val[of "fromBytes (take 32 (drop 1 ser))" kOrderN]
    by (simp add: entry_ok_def kOrderN_val mod_order_bounds)
qed

lemma recid_flip: "r = 0 \<or> r = 1 \<Longrightarrow> (27 + (r XOR of_bool b) = (27 + r :: u8)) = (\<not> b) \<and> (27 + (r XOR of_bool b) = 27 \<or> 27 + (r XOR of_bool b) = (28 :: u8))"
  by (cases b) auto

lemma inverse_cancels:
  assumes "K ^ nat (order_n - 1) mod order_n = (1 :: int)"
  shows "(K ^ nat (order_n - 2) mod order_n) * y mod order_n * K mod order_n = y mod order_n"
proof -
  have e: "nat (order_n - 1) = Suc (nat (order_n - 2))" by (simp add: order_n_def)
  have "(K ^ nat (order_n - 2) mod order_n) * y mod order_n * K mod order_n = K ^ nat (order_n - 2) * y * K mod order_n"
    by (simp only: mod_mult_left_eq)
  also have "\<dots> = (K ^ nat (order_n - 1) mod order_n) * y mod order_n"
    unfolding mod_mult_left_eq e by (simp only: power_Suc mult_ac)
  finally show ?thesis using assms by simp
qed

lemma negated_product: "(n - s) * k mod n = - (s * k) mod (n :: int)"
proof -
  have "(n - s) * k = - (s * k) + k * n" by (simp only: algebra_simps)
  then have "(n - s) * k mod n = (- (s * k) + k * n) mod n" by (rule arg_cong)
  also have "\<dots> = - (s * k) mod n" by (rule mod_mult_self1)
  finally show ?thesis .
qed

section \<open>What is hashed\<close>

lemma hash_chunks:
  "finalize (keccak_update a new_keccak256) = ref_keccak256 a"
  "finalize (keccak_update b (keccak_update a new_keccak256)) = ref_keccak256 (a @ b)"
  "finalize (keccak_update c (keccak_update b (keccak_update a new_keccak256))) = ref_keccak256 (a @ b @ c)"
  "finalize (keccak_update d (keccak_update c (keccak_update b (keccak_update a new_keccak256)))) = ref_keccak256 (a @ b @ c @ d)"
  "finalize (keccak_update f (keccak_update d (keccak_update c (keccak_update b (keccak_update a new_keccak256))))) = ref_keccak256 (a @ b @ c @ d @ f)"
  "finalize (keccak_update g (keccak_update f (keccak_update d (keccak_update c (keccak_update b (keccak_update a new_keccak256)))))) =
     ref_keccak256 (a @ b @ c @ d @ f @ g)"
  using finalize_chunks[of "[a]"] finalize_chunks[of "[a, b]"] finalize_chunks[of "[a, b, c]"] finalize_chunks[of "[a, b, c, d]"]
    finalize_chunks[of "[a, b, c, d, f]"] finalize_chunks[of "[a, b, c, d, f, g]"] by simp_all

lemma keccak256_ref: "keccak256 m = ref_keccak256 m"
  by (simp add: keccak256_def hash_chunks)

text \<open>The bytes that an action hash covers.\<close>

definition signed_bytes :: "u8 list \<Rightarrow> address option \<Rightarrow> u64 \<Rightarrow> u64 option \<Rightarrow> u8 list" where
  "signed_bytes m vlt nonce expiresAfter =
     m @ putBe64 nonce @ (case vlt of None \<Rightarrow> [0] | Some a \<Rightarrow> 1 # a) @ (case expiresAfter of None \<Rightarrow> [] | Some t \<Rightarrow> 0 # putBe64 t)"

lemma actionHash_ref: "actionHash m vlt nonce t = ref_keccak256 (signed_bytes m vlt nonce t)"
  by (cases vlt; cases t) (simp_all add: actionHash_def updateBe64_def hash_chunks signed_bytes_def)

lemma putBe64_word_be: "putBe64 v = word_be v"
  by (simp add: putBe64_def word_be_def upt_rec)

lemma putBe64_eq [simp]: "putBe64 v = putBe64 w \<longleftrightarrow> v = w" "length (putBe64 v) = 8"
  by (metis be_word_word_be putBe64_word_be) (simp add: putBe64_def)

definition vault_ok :: "address option \<Rightarrow> bool" where
  "vault_ok v \<longleftrightarrow> (case v of None \<Rightarrow> True | Some a \<Rightarrow> length a = 20)"

lemma signed_bytes_determine:
  assumes "mp_ok m" and "mp_ok m'" and "vault_ok v" and "vault_ok v'"
    and "signed_bytes (mp_write m []) v n t = signed_bytes (mp_write m' []) v' n' t'"
  shows "m = m' \<and> v = v' \<and> n = n' \<and> t = t'"
proof -
  let ?r = "\<lambda>v n t. putBe64 n @ (case v of None \<Rightarrow> [0] | Some a \<Rightarrow> 1 # a) @ (case t of None \<Rightarrow> [] | Some t \<Rightarrow> 0 # putBe64 t)"
  let ?d = "max (mp_depth m) (mp_depth m')"
  have "mp_decode ?d (signed_bytes (mp_write m []) v n t) = Some (m, ?r v n t)"
    unfolding signed_bytes_def by (rule mp_decode_write[OF assms(1)]) simp
  moreover have "mp_decode ?d (signed_bytes (mp_write m' []) v' n' t') = Some (m', ?r v' n' t')"
    unfolding signed_bytes_def by (rule mp_decode_write[OF assms(2)]) simp
  ultimately have "Some (m, ?r v n t) = Some (m', ?r v' n' t')" using assms(5) by metis
  then have m: "m = m'" and r: "?r v n t = ?r v' n' t'" by simp_all
  have n: "n = n'" and r2: "(case v of None \<Rightarrow> [0] | Some a \<Rightarrow> 1 # a) @ (case t of None \<Rightarrow> [] | Some t \<Rightarrow> 0 # putBe64 t) =
      (case v' of None \<Rightarrow> [0] | Some a \<Rightarrow> 1 # a) @ (case t' of None \<Rightarrow> [] | Some t \<Rightarrow> 0 # putBe64 t)"
    using r append_eq_append_conv[of "putBe64 n" "putBe64 n'"] by auto
  show ?thesis
  proof (cases v; cases v')
    fix a a' assume v: "v = Some a" "v' = Some a'"
    then have "length a = length a'" using assms(3,4) by (simp add: vault_ok_def)
    then show ?thesis using m n r2 v by (auto split: option.splits)
  qed (use m n r2 in \<open>auto split: option.splits\<close>)
qed

text \<open>The digest by the specification of typed structured data.\<close>

definition eip712_domain :: "u8 list" where
  "eip712_domain = ref_keccak256
     (ref_keccak256 (map of_char ''EIP712Domain(string name,string version,uint256 chainId,address verifyingContract)'') @
      ref_keccak256 (map of_char ''Exchange'') @ ref_keccak256 (map of_char ''1'') @ (replicate 30 0 @ [0x05, 0x39]) @ replicate 32 0)"

definition eip712_agent :: "bool \<Rightarrow> u8 list \<Rightarrow> u8 list" where
  "eip712_agent mainnet connectionId = ref_keccak256
     (ref_keccak256 (map of_char ''Agent(string source,bytes32 connectionId)'') @
      ref_keccak256 (map of_char (if mainnet then ''a'' else ''b'')) @ connectionId)"

lemma chain_id: "replicate 24 0 @ putBe64 1337 = replicate 30 0 @ [0x05, 0x39]"
  by code_simp

section \<open>Runs of the pool\<close>

lemma produce_push:
  assumes "np_ok p"
  shows "refill_loop produce maxCount n added p = (p', added') \<Longrightarrow>
    np_ok p' \<and> length (ring p') = length (ring p) \<and> np_mask p' = np_mask p \<and>
    (\<exists>is. sorted_wrt (<) is \<and> set is \<subseteq> {..<n} \<and> added' = added + of_nat (length is) \<and>
      (\<exists>es. map Some es = map (\<lambda>i. produce (np_counter p + of_nat i)) is \<and> np_content p' = np_content p @ es))"
  using assms
proof (induction n arbitrary: added p)
  case 0
  then show ?case by (auto intro!: exI[of _ "[]"])
next
  case (Suc n)
  let ?p = "p\<lparr>np_counter := np_counter p + 1\<rparr>"
  have same: "np_content ?p = np_content p" "np_ok ?p = np_ok p" by (simp_all add: np_content_def np_ok_def np_count_def)
  have stop: ?case if "p' = p \<or> p' = ?p" "added' = added"
    using that Suc.prems(2) same by (auto intro!: exI[of _ "[]"])
  have shift: "sorted_wrt (<) is \<Longrightarrow> sorted_wrt (<) (map Suc is)" for "is" by (simp add: sorted_wrt_map)
  show ?case
  proof (cases "added < maxCount \<and> np_size p \<le> np_mask p \<and> \<not> np_stop p")
    case True
    show ?thesis
    proof (cases "produce (np_counter p)")
      case None
      then have "refill_loop produce maxCount n added ?p = (p', added')" using Suc.prems(1) True by (simp add: Let_def)
      from Suc.IH[OF this] same Suc.prems(2) obtain "is" es where r: "np_ok p'" "length (ring p') = length (ring p)" "np_mask p' = np_mask p"
        "sorted_wrt (<) is" "set is \<subseteq> {..<n}" "added' = added + of_nat (length is)"
        "map Some es = map (\<lambda>i. produce (np_counter p + 1 + of_nat i)) is" "np_content p' = np_content p @ es" by auto
      then show ?thesis by (intro conjI exI[of _ "map Suc is"] exI[of _ es]) (auto simp: shift comp_def add.assoc)
    next
      case (Some e)
      obtain q taken where q: "np_push e ?p = (q, taken)" by fastforce
      note l = np_push_ring[of ?p, unfolded same, OF Suc.prems(2) q]
      have cm: "np_counter q = np_counter p + 1" "np_mask q = np_mask p" using q by (auto simp: np_push_def Let_def split: if_splits)
      show ?thesis
      proof (cases taken)
        case False
        then have "p' = q" "added' = added" using Suc.prems(1) True Some q by (simp_all add: Let_def)
        moreover have "q = ?p" using q False by (auto simp: np_push_def Let_def split: if_splits)
        ultimately show ?thesis using stop by simp
      next
        case t: True
        then have "refill_loop produce maxCount n (added + 1) q = (p', added')" using Suc.prems(1) True Some q by (simp add: Let_def)
        from Suc.IH[OF this] l t cm obtain "is" es where r: "np_ok p'" "length (ring p') = length (ring p)" "np_mask p' = np_mask p"
          "sorted_wrt (<) is" "set is \<subseteq> {..<n}" "added' = added + 1 + of_nat (length is)"
          "map Some es = map (\<lambda>i. produce (np_counter p + 1 + of_nat i)) is" "np_content p' = np_content p @ e # es" by auto
        then show ?thesis using Some
          by (intro conjI exI[of _ "0 # map Suc is"] exI[of _ "e # es"]) (auto simp: shift comp_def add.assoc)
      qed
    qed
  qed (use Suc.prems(1) stop in auto)
qed

text \<open>
  A refill adds fresh entries behind the others, each from its own value of the counter.
\<close>

lemma refill_adds:
  assumes "np_ok p" and "np_refill hmac pubkey rand key maxCount p = (p', added)"
  shows "np_ok p' \<and> length (ring p') = length (ring p) \<and>
    (\<exists>is es. sorted_wrt (<) is \<and> added = of_nat (length is) \<and> length is = length es \<and> np_content p' = np_content p @ es \<and>
      map Some es = map (\<lambda>i. let c = np_counter p + of_nat i in produceNonce hmac pubkey (rand c) key (fromBytes key) c) is)"
proof (cases "refilling p")
  case True
  then show ?thesis using assms by (auto simp: np_refill_def intro!: exI[of _ "[]"])
next
  case False
  let ?f = "\<lambda>c. produceNonce hmac pubkey (rand c) key (fromBytes key) c"
  have same: "np_content (p\<lparr>refilling := b\<rparr>) = np_content p" "np_ok (p\<lparr>refilling := b\<rparr>) = np_ok p" for b p
    by (simp_all add: np_content_def np_ok_def np_count_def)
  obtain q where q: "refill_loop ?f maxCount (unat (4 * maxCount + 8)) 0 (p\<lparr>refilling := True\<rparr>) = (q, added)" "p' = q\<lparr>refilling := False\<rparr>"
    using assms(2) False by (auto simp: np_refill_def Let_def split: prod.splits)
  from produce_push[OF _ q(1)] assms(1) same obtain "is" es where r: "np_ok q" "length (ring q) = length (ring p)"
    "sorted_wrt (<) is" "added = of_nat (length is)" "map Some es = map (\<lambda>i. ?f (np_counter p + of_nat i)) is" "np_content q = np_content p @ es"
    by auto
  moreover have "length is = length es" using arg_cong[OF r(5), of length] by simp
  ultimately show ?thesis using same by (auto simp: q(2) Let_def intro!: exI[of _ "is"] exI[of _ es])
qed

lemma new_pool_ok:
  assumes "enableNoncePool True g capacity s = Some (Inr s')" and "0 < capacity" and "unat capacity \<le> 2 ^ 63"
  shows "\<exists>p. sg_pool s' = Some p \<and> np_ok p \<and> np_content p = [] \<and> forkGeneration p = g \<and>
    unat capacity \<le> length (ring p) \<and> length (ring p) < 2 * unat capacity"
proof -
  have c: "0 < unat capacity" using assms(2) by (simp add: word_less_nat_alt)
  obtain k where k: "k \<le> 63" "pow2_loop capacity 1 = Some (2 ^ k)" "unat capacity \<le> 2 ^ k" "2 ^ k < 2 * unat capacity"
    using pow2_loop_ends[of 0 capacity] assms(3) c by auto
  have "capacity \<noteq> 0" using c by auto
  then have s': "sg_pool s' = Some \<lparr>ring = replicate (unat (2 ^ k :: u64)) no_entry, np_mask = 2 ^ k - 1, np_head = 0, np_tail = 0, np_size = 0,
      np_stop = False, forkGeneration = g, np_counter = 0, refilling = False\<rparr>"
    using assms(1) k(2) by (auto simp: enableNoncePool_def Let_def)
  show ?thesis unfolding s' using k unat_pow2[OF k(1)]
    by (auto simp: np_ok_def np_count_def np_content_def intro!: exI[of _ k])
qed

text \<open>In a forked child the pool is left alone.\<close>

lemma child_leaves_pool:
  assumes "sg_pool s = Some p" and "forkGeneration p = g"
  shows "signDigest sr (onForkChild g) seen digest s = deterministic_sign sr digest s"
  using assms by (simp add: signDigest_def onForkChild_def)

section \<open>Examples\<close>

definition ex_one :: "u8 list" where
  "ex_one = replicate 31 0 @ [1]"

definition ex_point :: "u8 list" where
  "ex_point = 4 # ex_one @ replicate 32 0"

definition ex_nonce :: nonceEntry where
  "ex_nonce = \<lparr>ne_r = [1, 0, 0, 0], ne_kInv = invMod [1, 0, 0, 0], ne_rd = mulMod [1, 0, 0, 0] [1, 0, 0, 0], ne_recid = 0\<rparr>"

lemma ex_one_limbs: "fromBytes ex_one = [1, 0, 0, 0]" "fromBytes (take 32 (drop 1 ex_point)) = [1, 0, 0, 0]" "ex_point ! 64 = 0"
  by code_simp+

lemma ex_less: "lessThan [1, 0, 0, 0] kOrderN" "\<not> limbs_isZero [1, 0, 0, 0]"
  by code_simp+

lemma ex_produced:
  "produceNonce (\<lambda>key m. Some ex_one) (\<lambda>k. Some ex_point) (Some []) ex_one (fromBytes ex_one) 0 = Some ex_nonce"
  by (simp add: produceNonce_def ex_one_limbs[simplified] ex_less ex_nonce_def Let_def)

lemma ex_signed: "online_sign ex_nonce (replicate 31 0 @ [5]) \<noteq> None"
proof -
  have e: "entry_ok ex_nonce" using produced_entry[OF ex_produced] by simp
  have k: "limbs_val (ne_kInv ex_nonce) = 1" "limbs_val (ne_rd ex_nonce) = 1"
    using invMod_power[of "[1, 0, 0, 0]"] mulMod_mod[of "[1, 0, 0, 0]" "[1, 0, 0, 0]"] by (simp_all add: ex_nonce_def order_n_def)
  have "fromBytes (replicate 31 0 @ [5]) = [5, 0, 0, 0]" by code_simp
  then have "limbs_val (raw_scalar ex_nonce (replicate 31 0 @ [5])) = 6" by (simp add: raw_scalar_val[OF e] k order_n_def)
  then show ?thesis using online_sign_None[OF e, of "replicate 31 0 @ [5]"] by simp
qed

definition ex_signer_state :: signer_state where
  "ex_signer_state = \<lparr>sg_key = ex_one, sg_address = replicate 20 0, sg_pool = None, precomputedCount = 0, deterministicCount = 0\<rparr>"

definition ex_pool :: noncePool where
  "ex_pool = \<lparr>ring = replicate 4 no_entry, np_mask = 3, np_head = 0, np_tail = 0, np_size = 0, np_stop = False, forkGeneration = 7,
     np_counter = 0, refilling = False\<rparr>"

lemma ex_enabled: "enableNoncePool True 7 3 ex_signer_state = Some (Inr (ex_signer_state\<lparr>sg_pool := Some ex_pool\<rparr>))"
proof -
  have "pow2_loop 3 1 = Some 4" by (simp add: pow2_loop.simps push_bit_eq_mult)
  then show ?thesis by (simp add: enableNoncePool_def disableNoncePool_def ex_signer_state_def ex_pool_def)
qed

section \<open>Properties\<close>

text \<open>
  C3: a signature from a precomputed nonce satisfies the equation of ECDSA: with the nonce \<open>k\<close>, the key \<open>d\<close> and the digest
  \<open>z\<close>, \<open>s * k\<close> is \<open>z + r * d\<close> modulo the order of the group, or its negation when the recovery id is flipped; \<open>s\<close> is not
  zero and in the lower half, and \<open>v\<close> is 27 or 28. The hypothesis \<open>fermat\<close> holds for every nonce since the order is prime.
\<close>

theorem pooled_signature_verifies:
  assumes "produceNonce hmac pubkey (Some rnd) key (fromBytes key) counter = Some e" and "hmac key (rnd @ counter_bytes counter) = Some kBytes"
    and fermat: "limbs_val (fromBytes kBytes) ^ nat (order_n - 1) mod order_n = 1"
    and "online_sign e digest = Some sig"
  defines "k \<equiv> limbs_val (fromBytes kBytes)" and "d \<equiv> limbs_val (fromBytes key)" and "z \<equiv> limbs_val (fromBytes digest)"
    and "r \<equiv> limbs_val (fromBytes (sig_r sig))" and "s \<equiv> limbs_val (fromBytes (sig_s sig))"
  shows "0 < s \<and> s \<le> order_n div 2 \<and> r < order_n \<and> (sig_v sig = 27 \<or> sig_v sig = 28) \<and>
    s * k mod order_n = (if sig_v sig = 27 + ne_recid e then z + r * d else - (z + r * d)) mod order_n"
proof -
  note e = produced_entry[OF assms(1,2)]
  have ok: "entry_ok e" using e by blast
  note v = online_sign_val[OF ok assms(4)]
  let ?s0 = "limbs_val (raw_scalar e digest)" and ?high = "order_n div 2 < limbs_val (raw_scalar e digest)"
  have r: "r = limbs_val (ne_r e)" by (simp add: r_def v(1))
  have rd: "limbs_val (ne_rd e) = r * d mod order_n"
    using e mulMod_mod[of "ne_r e" "fromBytes key"] by (simp add: entry_ok_def r d_def)
  have "?s0 = (k ^ nat (order_n - 2) mod order_n) * (z + r * d mod order_n) mod order_n"
    using invMod_power[of "fromBytes kBytes"] conjunct1[OF conjunct2[OF conjunct2[OF e]]]
    unfolding raw_scalar_val(1)[OF ok] rd z_def k_def by simp
  then have "?s0 = (k ^ nat (order_n - 2) mod order_n) * (z + r * d) mod order_n"
    by (metis mod_add_right_eq mod_mult_right_eq)
  then have sk: "?s0 * k mod order_n = (z + r * d) mod order_n"
    using inverse_cancels[OF fermat, of "z + r * d"] by (simp add: k_def)
  have flip: "(sig_v sig = 27 + ne_recid e) = (\<not> ?high)" "sig_v sig = 27 \<or> sig_v sig = 28"
    using recid_flip[of "ne_recid e" ?high] ok v(5) by (auto simp: entry_ok_def)
  have neg: "- (?s0 * k) mod order_n = - (z + r * d) mod order_n" using sk by (metis mod_minus_eq)
  have "s * k mod order_n = (if ?high then - (z + r * d) else z + r * d) mod order_n"
    using v(2) sk negated_product[of order_n ?s0 k] neg by (cases ?high) (simp_all add: s_def)
  moreover have "0 < s" "s \<le> order_n div 2" using v(2-4) by (auto simp: s_def order_n_def split: if_splits)
  ultimately show ?thesis using flip e by (simp add: r)
qed

theorem pooled_signature_verifies_witness:
  "\<exists>sig. online_sign ex_nonce (replicate 31 0 @ [5]) = Some sig \<and> 0 < limbs_val (fromBytes (sig_s sig)) \<and>
     limbs_val (fromBytes (sig_s sig)) \<le> order_n div 2"
proof -
  obtain sig where s: "online_sign ex_nonce (replicate 31 0 @ [5]) = Some sig" using ex_signed by blast
  have "limbs_val (fromBytes ex_one) ^ nat (order_n - 1) mod order_n = 1" by (simp add: ex_one_limbs order_n_def)
  from pooled_signature_verifies[OF ex_produced refl this s] s show ?thesis by blast
qed

text \<open>
  C15: the ring of the nonce pool is a queue, under any interleaving of producers and signers and with 64-bit counters that
  wrap around: what was handed out, followed by what the pool still holds, is what was put in. No nonce is handed out
  twice, and the capacity is at least the one asked for and less than twice that.
\<close>

theorem pool_hands_out_once:
  assumes "enableNoncePool True g capacity s = Some (Inr s')" and "0 < capacity" and "unat capacity \<le> 2 ^ 63" and "sg_pool s' = Some p"
    and "queue_exec np_push np_pop ops p = (pushed, popped, p')"
  shows "pushed = popped @ np_content p' \<and> length (np_content p') \<le> length (ring p) \<and>
    unat capacity \<le> length (ring p) \<and> length (ring p) < 2 * unat capacity"
proof -
  have p: "np_ok p" "np_content p = []" "unat capacity \<le> length (ring p)" "length (ring p) < 2 * unat capacity"
    using new_pool_ok[OF assms(1-3)] assms(4) by auto
  from pool.handed_out_in_order[OF p(1) assms(5)] p pool.bounded[of p'] show ?thesis by auto
qed

theorem pool_hands_out_once_witness:
  "\<exists>pushed popped p'. queue_exec np_push np_pop [Inl ex_nonce, Inr 0, Inr 1, Inl no_entry, Inr 5, Inr 5] ex_pool = (pushed, popped, p') \<and>
     pushed = popped @ np_content p'"
proof -
  obtain pushed popped p' where q: "queue_exec np_push np_pop [Inl ex_nonce, Inr 0, Inr 1, Inl no_entry, Inr 5, Inr 5] ex_pool = (pushed, popped, p')"
    by (metis prod_cases3)
  have "pushed = popped @ np_content p'"
    using pool_hands_out_once[OF ex_enabled _ _ _ q] by simp
  then show ?thesis using q by blast
qed

text \<open>
  C17: the signed hash binds the request: two requests with the same action hash agree in the action, the vault, the nonce and
  the expiry, unless their signed bytes are a collision of Keccak-256.
\<close>

theorem action_hash_binds:
  assumes "mp_ok m" and "mp_ok m'" and "vault_ok v" and "vault_ok v'"
    and "actionHash (mp_write m []) v n t = actionHash (mp_write m' []) v' n' t'"
  shows "m = m' \<and> v = v' \<and> n = n' \<and> t = t' \<or>
    signed_bytes (mp_write m []) v n t \<noteq> signed_bytes (mp_write m' []) v' n' t' \<and>
    ref_keccak256 (signed_bytes (mp_write m []) v n t) = ref_keccak256 (signed_bytes (mp_write m' []) v' n' t')"
  using signed_bytes_determine[OF assms(1-4)] assms(5) by (auto simp: actionHash_ref)

theorem action_hash_binds_witness:
  "mp_ok (MMap []) \<and> vault_ok (Some (replicate 20 7)) \<and>
   actionHash (mp_write (MMap []) []) (Some (replicate 20 7)) 1 (Some 2) = actionHash (mp_write (MMap []) []) (Some (replicate 20 7)) 1 (Some 2) \<and>
   (actionHash (mp_write (MMap []) []) None 1 None = actionHash (mp_write (MMap []) []) None 2 None) =
     (signed_bytes (mp_write (MMap []) []) None 1 None \<noteq> signed_bytes (mp_write (MMap []) []) None 2 None \<and>
      ref_keccak256 (signed_bytes (mp_write (MMap []) []) None 1 None) = ref_keccak256 (signed_bytes (mp_write (MMap []) []) None 2 None))"
proof -
  have "vault_ok (Some (replicate 20 7))" "vault_ok None" "mp_ok (MMap [])" by (simp_all add: vault_ok_def)
  then show ?thesis
    using action_hash_binds[of "MMap []" "MMap []" None None 1 None 2 None]
      action_hash_binds[of "MMap []" "MMap []" "Some (replicate 20 7)" "Some (replicate 20 7)" 1 "Some 2" 1 "Some 2"]
    by (auto simp: actionHash_ref simp del: mp_write.simps)
qed

text \<open>
  C36: the digest that is signed is the one of the EIP-712 specification for the domain and the agent structure of the venue,
  over the documented bytes of the action.
\<close>

theorem agentDigest_is_eip712:
  "agentDigest (actionHash m vlt nonce t) mainnet =
     ref_keccak256 ([0x19, 0x01] @ eip712_domain @ eip712_agent mainnet (ref_keccak256 (signed_bytes m vlt nonce t)))"
  by (simp add: agentDigest_def eip712_def Let_def keccak256_str_def keccak256_ref hash_chunks actionHash_ref eip712_agent_def eip712_domain_def chain_id)

text \<open>
  Setting up the pool ends exactly when the capacity is at most 2 to the power 63; above it the doubling wraps to zero
  and the loop never ends.
\<close>

lemma enableNoncePool_ends:
  "(\<exists>r. enableNoncePool context_ok g capacity s = Some r) \<longleftrightarrow> unat capacity \<le> 2 ^ 63"
proof (cases "capacity = 0")
  case False
  then have c: "0 < unat capacity" by (simp add: unat_gt_0)
  show ?thesis
  proof (cases "unat capacity \<le> 2 ^ 63")
    case True
    then show ?thesis using pow2_loop_ends[of 0 capacity] c False by (auto simp: enableNoncePool_def Let_def)
  next
    case too_big: False
    then show ?thesis using pow2_loop_runs_on[of capacity] False by (simp add: enableNoncePool_def Let_def not_le)
  qed
qed (simp add: enableNoncePool_def)

end
