(* ===== verification/HL_WsClient.thy ===== *)
theory HL_WsClient
  imports HL_Tls HL_Http HL_WsCodec
begin

unbundle bit_operations_syntax

text \<open>
  The WebSocket client (\<open>include/hl/net/WebSocketClient.h\<close>, \<open>src/net/WebSocketClient.cpp\<close>): the upgrade
  handshake, the frames it sends with their masks, the control frames it answers, and the end of a connection.

  \<^item> The client owns a stream of \<open>HL_Tls\<close> and a frame decoder of \<open>HL_WsCodec\<close>. As for the stream, a method runs to
    its next call that may come back to the client, and the rest of it stays on a stack of calls.
  \<^item> The decoding loop is on the stack too: one turn delivers at most one event, and the test that follows the
    callback sees what the callback did to the decoder.
  \<^item> \<open>SHA1\<close> and \<open>RAND_bytes\<close> are OpenSSL's: a parameter, and a field of the environment of a step.
\<close>

section \<open>State\<close>

datatype ws_state = WsIdle | WsConnecting | WsUpgrading | WsOpen | WsClosed

record webSocketOptions =
  ws_tls :: tlsOptions
  maxMessageBytes :: nat
  extraHeaders :: string

record ws_client =
  ws_options :: webSocketOptions
  ws_stream :: "u8 tls"
  ws_decoder :: decoder
  ws_url :: url
  ws_state :: ws_state
  handshakeKey :: string
  upgradeBuffer :: string
  rng :: u64

record ws_env =
  we_now :: int
  we_sys :: "u8 sys"
  we_random :: "u8 list option"

datatype ws_notice = WsOpened | WsText "u8 list" | WsEnded string

datatype ws_call =
    OnTls "u8 tls_call"
  | WsNotify ws_notice
  | WsFail string
  | WsCloseRest
  | DecodeTurn u64
  | AfterEvent u64
  | FeedReturns decode_status
  | Leftover "u8 list"

type_synonym ws_result = "ws_client \<times> ws_call list"

text \<open>A \<open>std::string\<close> and the bytes of the stream.\<close>

definition bytes_of :: "string \<Rightarrow> u8 list" where
  "bytes_of s = map of_char s"

definition chars_of :: "u8 list \<Rightarrow> string" where
  "chars_of bs = map (\<lambda>b. char_of (unat b)) bs"

definition ws_isOpen :: "ws_client \<Rightarrow> bool" where
  "ws_isOpen w \<longleftrightarrow> ws_state w = WsOpen"

text \<open>The constructor, with the eight random bytes that seed the masks, none when \<open>RAND_bytes\<close> failed, and the wall
  clock.\<close>

definition new_ws_client :: "u64 option \<Rightarrow> int \<Rightarrow> webSocketOptions \<Rightarrow> ws_client" where
  "new_ws_client seed wallClockMs opts =
     \<lparr>ws_options = opts, ws_stream = new_tls (ws_tls opts), ws_decoder = new_decoder (maxMessageBytes opts),
      ws_url = \<lparr>scheme = [], host = [], port = 0, path = [], secure = False\<rparr>, ws_state = WsIdle,
      handshakeKey = [], upgradeBuffer = [],
      rng = (case seed of
               Some s \<Rightarrow> if s = 0 then 0x9E3779B97F4A7C15 XOR word_of_int wallClockMs else s
             | None \<Rightarrow> 0x9E3779B97F4A7C15 XOR word_of_int wallClockMs)\<rparr>"

section \<open>Sending\<close>

definition nextMask :: "u64 \<Rightarrow> u64 \<times> u32" where
  "nextMask r =
     (let r = r XOR drop_bit 12 r; r = r XOR push_bit 25 r; r = r XOR drop_bit 27 r
      in (r, ucast (drop_bit 32 (r * 0x2545F4914F6CDD1D))))"

definition opClose :: u8 where "opClose = 8"
definition opPing :: u8 where "opPing = 9"
definition opPong :: u8 where "opPong = 10"

definition sendFrame :: "ws_env \<Rightarrow> u8 \<Rightarrow> u8 list \<Rightarrow> ws_client \<Rightarrow> ws_result \<times> bool" where
  "sendFrame e opcode payload w =
     (if ws_state w \<noteq> WsOpen then ((w, []), False)
      else
        let (r, m) = nextMask (rng w);
            ((t, cs), ok) = tls_send (we_sys e) (encodeWsFrame opcode payload m []) (ws_stream w)
        in ((w\<lparr>rng := r, ws_stream := t\<rparr>, map OnTls cs), ok))"

definition sendText :: "ws_env \<Rightarrow> string \<Rightarrow> ws_client \<Rightarrow> ws_result \<times> bool" where
  "sendText e msg w = sendFrame e opText (bytes_of msg) w"

definition sendPing :: "ws_env \<Rightarrow> string \<Rightarrow> ws_client \<Rightarrow> ws_result \<times> bool" where
  "sendPing e payload w = sendFrame e opPing (bytes_of payload) w"

section \<open>Connecting and closing\<close>

definition ws_connect :: "ws_env \<Rightarrow> string \<Rightarrow> ws_client \<Rightarrow> ws_client \<times> bool" where
  "ws_connect e address w =
     (case url_parse address of
        None \<Rightarrow> (w, False)
      | Some u \<Rightarrow>
          if scheme u \<noteq> ''ws'' \<and> scheme u \<noteq> ''wss'' then (w, False)
          else
            let (t, ok) = tls_connect (we_sys e) (secure u) (ws_stream w);
                w = w\<lparr>ws_url := u, ws_decoder := decoder_reset (ws_decoder w), upgradeBuffer := [],
                      ws_state := WsConnecting, ws_stream := t\<rparr>
            in if ok then (w, True) else (w\<lparr>ws_state := WsClosed\<rparr>, False))"

definition ws_fail :: "string \<Rightarrow> ws_client \<Rightarrow> ws_result" where
  "ws_fail reason w =
     (if ws_state w = WsClosed then (w, [])
      else (w\<lparr>ws_state := WsClosed, ws_decoder := decoder_reset (ws_decoder w), ws_stream := tls_close (ws_stream w)\<rparr>,
            [WsNotify (WsEnded reason)]))"

text \<open>\<open>close\<close> up to the close frame, and what follows it.\<close>

definition ws_close :: "ws_env \<Rightarrow> ws_client \<Rightarrow> ws_result" where
  "ws_close e w =
     (if ws_state w = WsOpen
      then case sendFrame e opClose [0x03, 0xE8] w of ((w, cs), ok) \<Rightarrow> (w, cs @ [WsCloseRest])
      else (w, [WsCloseRest]))"

definition ws_close_rest :: "ws_client \<Rightarrow> ws_client" where
  "ws_close_rest w =
     w\<lparr>ws_state := WsClosed, ws_decoder := decoder_reset (ws_decoder w), ws_stream := tls_close (ws_stream w)\<rparr>"

section \<open>The upgrade\<close>

definition upgrade_request :: "ws_client \<Rightarrow> string" where
  "upgrade_request w =
     ''GET '' @ path (ws_url w) @ '' HTTP/1.1'' @ crlf @ ''Host: '' @ host (ws_url w) @ crlf @
     ''Upgrade: websocket'' @ crlf @ ''Connection: Upgrade'' @ crlf @
     ''Sec-WebSocket-Key: '' @ handshakeKey w @ crlf @ ''Sec-WebSocket-Version: 13'' @ crlf @
     ''User-Agent: hyperliquid-cpp/'' @ kVersionString @ crlf @
     (if extraHeaders (ws_options w) \<noteq> [] then extraHeaders (ws_options w) @ crlf else []) @ crlf"

definition ws_onTlsConnected :: "ws_env \<Rightarrow> ws_client \<Rightarrow> ws_result" where
  "ws_onTlsConnected e w =
     (case we_random e of
        None \<Rightarrow> ws_fail ''RAND_bytes failed: cannot build the WebSocket handshake key'' w
      | Some keyBytes \<Rightarrow>
          let w = w\<lparr>handshakeKey := base64Encode keyBytes\<rparr>;
              (t, cs) = fst (tls_send (we_sys e) (bytes_of (upgrade_request w)) (ws_stream w))
          in (w\<lparr>ws_state := WsUpgrading, ws_stream := t\<rparr>, map OnTls cs))"

definition trim_spaces :: "string \<Rightarrow> string" where
  "trim_spaces s = rev (dropWhile (\<lambda>c. c = CHR '' '') (rev (dropWhile (\<lambda>c. c = CHR '' '') s)))"

text \<open>The loop over the lines, on what is left of the headers.\<close>

function headerEquals :: "string \<Rightarrow> string \<Rightarrow> string \<Rightarrow> bool" where
  "headerEquals headers nm expected =
     (if headers = [] then False
      else
        let eol = find_sub crlf headers;
            line = (case eol of None \<Rightarrow> headers | Some i \<Rightarrow> take i headers)
        in if find_sub '':'' line = Some (length nm) \<and> map to_lower (take (length nm) line) = map to_lower nm
           then trim_spaces (drop (length nm + 1) line) = expected
           else case eol of None \<Rightarrow> False | Some i \<Rightarrow> headerEquals (drop (i + 2) headers) nm expected)"
  by pat_completeness auto
termination
  by (relation "measure (\<lambda>(headers, nm, expected). length headers)") auto

declare headerEquals.simps [simp del]

definition handleUpgradeResponse :: "(string \<Rightarrow> u8 list) \<Rightarrow> nat \<Rightarrow> ws_client \<Rightarrow> ws_result" where
  "handleUpgradeResponse sha1 headerEnd w =
     (let head = take (headerEnd + 2) (upgradeBuffer w) in
      if \<not> starts_with ''HTTP/1.1 101'' head
      then ws_fail (''WebSocket upgrade rejected: '' @
             (case find_sub crlf head of None \<Rightarrow> head | Some eol \<Rightarrow> take eol head)) w
      else if \<not> headerEquals head ''Sec-WebSocket-Accept'' (wsAcceptKey sha1 (handshakeKey w))
      then ws_fail ''WebSocket upgrade: bad Sec-WebSocket-Accept'' w
      else (w\<lparr>upgradeBuffer := [], ws_state := WsOpen\<rparr>,
            [WsNotify WsOpened, Leftover (bytes_of (drop (headerEnd + 4) (upgradeBuffer w)))]))"

section \<open>Receiving\<close>

text \<open>The head of \<open>feed\<close>, then its loop turn by turn.\<close>

definition ws_feed :: "u8 list \<Rightarrow> ws_client \<Rightarrow> ws_result" where
  "ws_feed bytes w =
     (let d = ws_decoder w in
      if decoding d then (w\<lparr>ws_decoder := d\<lparr>staging := staging d @ bytes\<rparr>\<rparr>, [FeedReturns DecodeOk])
      else (w\<lparr>ws_decoder := d\<lparr>decoding := True, buffer := buffer d @ bytes\<rparr>\<rparr>, [DecodeTurn (epoch d)]))"

definition ws_onTlsData :: "(string \<Rightarrow> u8 list) \<Rightarrow> u8 list \<Rightarrow> ws_client \<Rightarrow> ws_result" where
  "ws_onTlsData sha1 bytes w =
     (if ws_state w = WsUpgrading then
        let w = w\<lparr>upgradeBuffer := upgradeBuffer w @ chars_of bytes\<rparr> in
        if length (upgradeBuffer w) > 64 * 1024 then ws_fail ''WebSocket upgrade response too large'' w
        else case find_sub (crlf @ crlf) (upgradeBuffer w) of
               None \<Rightarrow> (w, [])
             | Some headerEnd \<Rightarrow> handleUpgradeResponse sha1 headerEnd w
      else if ws_state w \<noteq> WsOpen then (w, [])
      else ws_feed bytes w)"

definition ws_onTlsClosed :: "string \<Rightarrow> ws_client \<Rightarrow> ws_result" where
  "ws_onTlsClosed reason w =
     (if ws_state w = WsClosed \<or> ws_state w = WsIdle then (w, [])
      else (w\<lparr>ws_state := WsClosed\<rparr>, [WsNotify (WsEnded reason)]))"

definition close_reason :: "u8 list \<Rightarrow> string" where
  "close_reason payload =
     ''closed by server'' @
     (if length payload \<ge> 2 then
        '' (code '' @ int_to_string (int (unat (push_bit 8 (ucast (payload ! 0)) OR ucast (payload ! 1) :: u32))) @
        (if length payload > 2 then '': '' @ chars_of (drop 2 payload) else []) @ '')''
      else [])"

definition onWsControl :: "ws_env \<Rightarrow> u8 \<Rightarrow> u8 list \<Rightarrow> ws_client \<Rightarrow> ws_result" where
  "onWsControl e opcode payload w =
     (if opcode = opPing then fst (sendFrame e opPong payload w)
      else if opcode = opClose then
        case fst (sendFrame e opClose (take 2 payload) w) of (w, cs) \<Rightarrow> (w, cs @ [WsFail (close_reason payload)])
      else (w, []))"

definition ws_deliver :: "ws_env \<Rightarrow> ws_event \<Rightarrow> ws_client \<Rightarrow> ws_result" where
  "ws_deliver e ev w =
     (case ev of
        WsMessage opcode payload \<Rightarrow> if opcode = opText then (w, [WsNotify (WsText payload)]) else (w, [])
      | WsControl opcode payload \<Rightarrow> onWsControl e opcode payload w)"

text \<open>One turn of the loop: \<open>decode_one\<close> with a sink that does nothing reports the event, which is then delivered.\<close>

definition decode_turn :: "ws_env \<Rightarrow> u64 \<Rightarrow> ws_client \<Rightarrow> ws_result" where
  "decode_turn e ep w =
     (case decode_one (\<lambda>_. []) ep (take_staged (ws_decoder w), []) of
        (Some (Break st), d, evs) \<Rightarrow>
          (w\<lparr>ws_decoder := compact_buffer (d\<lparr>decoding := False, staging := []\<rparr>)\<rparr>, [FeedReturns st])
      | (x, d, []) \<Rightarrow> (w\<lparr>ws_decoder := d\<rparr>, [DecodeTurn ep])
      | (x, d, ev # evs) \<Rightarrow>
          (case ws_deliver e ev (w\<lparr>ws_decoder := d\<rparr>) of (w, cs) \<Rightarrow> (w, cs @ [AfterEvent ep])))"

definition after_event :: "u64 \<Rightarrow> ws_client \<Rightarrow> ws_result" where
  "after_event ep w =
     (if epoch (ws_decoder w) \<noteq> ep
      then (w\<lparr>ws_decoder := (ws_decoder w)\<lparr>decoding := False\<rparr>\<rparr>, [FeedReturns DecodeOk])
      else (w, [DecodeTurn ep]))"

definition feed_returns :: "decode_status \<Rightarrow> ws_client \<Rightarrow> ws_result" where
  "feed_returns st w =
     (if st \<noteq> DecodeOk \<and> ws_state w = WsOpen
      then ws_fail (if st = MessageTooBig then ''WebSocket message too big'' else ''WebSocket protocol error'') w
      else (w, []))"

section \<open>Steps\<close>

text \<open>One call of the stack. The listener's part of \<open>WsNotify\<close> is the owner's.\<close>

fun ws_step :: "(string \<Rightarrow> u8 list) \<Rightarrow> ws_env \<Rightarrow> ws_call \<Rightarrow> ws_client \<Rightarrow> ws_result" where
  "ws_step sha1 e (OnTls (Callback TlsConnected)) w = ws_onTlsConnected e w"
| "ws_step sha1 e (OnTls (Callback (TlsData bytes))) w = ws_onTlsData sha1 bytes w"
| "ws_step sha1 e (OnTls (Callback (TlsClosed reason))) w = ws_onTlsClosed reason w"
| "ws_step sha1 e (OnTls call) w = (case tls_step (we_sys e) call (ws_stream w) of (t, cs) \<Rightarrow> (w\<lparr>ws_stream := t\<rparr>, map OnTls cs))"
| "ws_step sha1 e (WsNotify ev) w = (w, [])"
| "ws_step sha1 e (WsFail reason) w = ws_fail reason w"
| "ws_step sha1 e WsCloseRest w = (ws_close_rest w, [])"
| "ws_step sha1 e (DecodeTurn ep) w = decode_turn e ep w"
| "ws_step sha1 e (AfterEvent ep) w = after_event ep w"
| "ws_step sha1 e (FeedReturns st) w = feed_returns st w"
| "ws_step sha1 e (Leftover bytes) w =
     (if ws_state w = WsOpen \<and> bytes \<noteq> [] then ws_onTlsData sha1 bytes w else (w, []))"

section \<open>How a step moves the stream\<close>

text \<open>The calls that are not the owner's, and the callbacks that report the beginning and the end of a connection.\<close>

fun tls_inner :: "'b tls_call \<Rightarrow> bool" where
  "tls_inner (Connect sec) = False"
| "tls_inner (Send bytes) = False"
| "tls_inner Close = False"
| "tls_inner (Callback TlsConnected) = False"
| "tls_inner (Callback (TlsClosed r)) = False"
| "tls_inner c = True"

definition dials :: "stream_state \<Rightarrow> bool" where
  "dials s \<longleftrightarrow> s = SConnecting \<or> s = SHandshaking"

definition tls_moves :: "'b tls \<Rightarrow> 'b tls_result \<Rightarrow> bool" where
  "tls_moves t r \<longleftrightarrow>
     list_all tls_inner (snd r) \<and>
       (t_state (fst r) = t_state t \<or> dials (t_state t) \<and> (dials (t_state (fst r)) \<or> t_state (fst r) = SClosed)) \<or>
     dials (t_state t) \<and> t_state (fst r) = SOpen \<and> (\<exists>cs. snd r = Callback TlsConnected # cs \<and> list_all tls_inner cs) \<or>
     (dials (t_state t) \<or> t_state t = SOpen) \<and> t_state (fst r) = SClosed \<and>
       (\<exists>m cs. snd r = Callback (TlsClosed m) # cs \<and> list_all tls_inner cs)"

lemma moves_same: "t_state s = t_state t \<Longrightarrow> list_all tls_inner cs \<Longrightarrow> tls_moves t (s, cs)"
  by (simp add: tls_moves_def)

lemma moves_fail:
  assumes "t_state s = t_state t \<or> dials (t_state t) \<and> (dials (t_state s) \<or> t_state s = SClosed)" and "t_state t \<noteq> SIdle"
  shows "tls_moves t (tls_fail r s)"
  using assms by (cases "t_state t") (auto simp: tls_fail_def tls_moves_def dials_def)

lemma moves_append: "tls_moves t (s, cs) \<Longrightarrow> list_all tls_inner ds \<Longrightarrow> tls_moves t (s, cs @ ds)"
  by (auto simp: tls_moves_def)

lemma moves_nextAddress: "dials (t_state t) \<Longrightarrow> t_state s = t_state t \<Longrightarrow> tls_moves t (nextAddress e r s)"
proof -
  assume a: "dials (t_state t)" "t_state s = t_state t"
  obtain u ok where u: "startAttempt e (closeSocket s) = (u, ok)" by fastforce
  have st: "t_state u = SConnecting \<or> t_state u = SClosed" using startAttempt_state[of e "closeSocket s"] by (simp add: u)
  have ne: "t_state t \<noteq> SIdle" using a by (auto simp: dials_def)
  have "t_state (closeSocket s) = t_state t" using a by (simp add: closeSocket_def)
  then show ?thesis using st a ne
    by (auto simp: nextAddress_def Let_def u dials_def intro!: moves_fail) (auto simp: tls_moves_def dials_def)
qed

lemma moves_open: "dials (t_state t) \<Longrightarrow> tls_moves t (becomes_open s)"
  by (simp add: tls_moves_def becomes_open_def)

lemma moves_doWrite: "t_state s = t_state t \<Longrightarrow> t_state t \<noteq> SIdle \<Longrightarrow> tls_moves t (doWrite e s)"
  by (auto simp: doWrite_def Let_def split: prod.splits option.splits dest!: write_loop_state intro!: moves_fail moves_same)

lemma moves_handshake: "dials (t_state t) \<Longrightarrow> dials (t_state s) \<Longrightarrow> tls_moves t (doHandshake e s)"
  by (auto simp: doHandshake_def Let_def moves_open split: handshake.splits intro!: moves_fail)
    (auto simp: tls_moves_def dials_def)

lemma moves_read:
  assumes "t_state s = t_state t"
  shows "tls_moves t (read_turn e k s)"
proof (cases "k = 0 \<or> t_state s \<noteq> SOpen")
  case False
  have "tls_moves t (tls_fail r s)" for r using assms False by (intro moves_fail) auto
  then have f: "tls_moves t (fst (tls_fail r s), snd (tls_fail r s) @ [ReadReturns])" for r
    by (intro moves_append) simp_all
  show ?thesis using assms False
    by (cases "sys_read e") (auto simp: read_turn_def case_prod_beta f intro!: moves_same)
qed (use assms in \<open>auto simp: read_turn_def intro!: moves_same\<close>)

lemma moves_io: "tls_moves t (onIoEvent e events t)"
proof (cases "t_state t")
  case SConnecting
  then show ?thesis
    by (auto simp: onIoEvent_def onConnectReady_def dials_def split: option.splits
        intro!: moves_handshake moves_nextAddress moves_open moves_fail)
next
  case SOpen
  have r: "tls_moves t (doRead e t)" using moves_read[of "t\<lparr>reading := True\<rparr>" t e 64] by (auto simp: doRead_def intro!: moves_same)
  show ?thesis using SOpen moves_append[of t "fst (doRead e t)" "snd (doRead e t)"] r
    by (auto simp: onIoEvent_def case_prod_beta intro!: moves_same)
next
  case SHandshaking
  then show ?thesis by (auto simp: onIoEvent_def dials_def intro!: moves_handshake)
qed (auto simp: onIoEvent_def intro!: moves_same)

lemma moves_timer: "tls_moves t (onConnectTimer e t)"
proof -
  have "tls_moves t (onConnectTimer e t)" if "dials (t_state t)"
    using that by (auto simp: onConnectTimer_def Let_def dials_def intro!: moves_nextAddress moves_fail)
  then show ?thesis by (cases "dials (t_state t)") (auto simp: onConnectTimer_def Let_def dials_def intro!: moves_same)
qed

lemma moves_send: "tls_moves t (fst (tls_send e bytes t))"
proof -
  have "t_state (compact_outbox t) = t_state t" by (simp add: compact_outbox_def)
  then show ?thesis by (auto simp: tls_send_def Let_def intro!: moves_same moves_doWrite moves_fail)
qed

lemma moves_step: "tls_inner d \<Longrightarrow> tls_moves t (tls_step e d t)"
  by (cases "(e, d, t)" rule: tls_step.cases)
    (auto simp: moves_io moves_timer moves_read intro!: moves_same moves_doWrite elim: tls_inner.elims)

lemma startAttempt_result: "startAttempt e t = (t', ok) \<Longrightarrow> t_state t' = (if ok then SConnecting else SClosed)"
proof (induction e t rule: startAttempt.induct)
  case (1 e t)
  show ?case using "1.prems" "1.IH"[OF _ refl refl] by (auto simp: startAttempt.simps[of e t] Let_def split: if_splits)
qed

lemma tls_connect_result: "tls_connect e sec t = (t', ok) \<Longrightarrow> t_state t' = (if ok then SConnecting else SClosed)"
  by (auto simp: tls_connect_def Let_def dest: startAttempt_result split: option.splits if_splits)

lemma send_calls: "snd (fst (tls_send e bytes t)) = [] \<or> (\<exists>m. snd (fst (tls_send e bytes t)) = [Callback (TlsClosed m)])"
  by (auto simp: tls_send_def Let_def doWrite_def tls_fail_def split: prod.splits option.splits)

section \<open>The client and its stream\<close>

definition ws_live :: "ws_client \<Rightarrow> bool" where
  "ws_live w \<longleftrightarrow> ws_state w = WsConnecting \<or> ws_state w = WsUpgrading \<or> ws_state w = WsOpen"

text \<open>The state of the stream that the state of the client stands for. A connecting client may have a stream that was
  closed without a callback.\<close>

definition linked :: "ws_client \<Rightarrow> bool" where
  "linked w \<longleftrightarrow>
     (case ws_state w of
        WsConnecting \<Rightarrow> dials (t_state (ws_stream w)) \<or> t_state (ws_stream w) = SClosed
      | WsUpgrading \<Rightarrow> t_state (ws_stream w) = SOpen
      | WsOpen \<Rightarrow> t_state (ws_stream w) = SOpen
      | _ \<Rightarrow> t_state (ws_stream w) = SIdle \<or> t_state (ws_stream w) = SClosed)"

text \<open>Calls that run as soon as they are made, and what holds when they run.\<close>

fun ws_urgent :: "ws_call \<Rightarrow> bool" where
  "ws_urgent (OnTls c) = (\<not> tls_inner c)"
| "ws_urgent (WsNotify (WsEnded r)) = True"
| "ws_urgent c = False"

fun ws_ready :: "ws_call \<Rightarrow> ws_client \<Rightarrow> bool" where
  "ws_ready (OnTls (Callback TlsConnected)) w \<longleftrightarrow> t_state (ws_stream w) = SOpen \<and> ws_state w = WsConnecting"
| "ws_ready (OnTls (Callback (TlsClosed r))) w \<longleftrightarrow> t_state (ws_stream w) = SClosed \<and> ws_live w"
| "ws_ready (WsNotify (WsEnded r)) w \<longleftrightarrow> t_state (ws_stream w) = SClosed \<and> ws_state w = WsClosed"
| "ws_ready c w \<longleftrightarrow> False"

fun ws_plain :: "ws_call \<Rightarrow> bool" where
  "ws_plain WsCloseRest = False"
| "ws_plain c = (\<not> ws_urgent c)"

definition ws_moves :: "ws_client \<Rightarrow> ws_result \<Rightarrow> bool" where
  "ws_moves w r \<longleftrightarrow>
     list_all ws_plain (snd r) \<and> linked (fst r) \<and>
       (ws_state (fst r) = ws_state w \<or> ws_state (fst r) = WsUpgrading \<and> ws_live w \<or>
        ws_live w \<and> ws_state (fst r) = WsOpen \<and> WsNotify WsOpened \<in> set (snd r)) \<or>
     (\<exists>c cs. snd r = c # cs \<and> list_all ws_plain cs \<and> ws_urgent c \<and> ws_ready c (fst r) \<and>
        (ws_state (fst r) = ws_state w \<or> ws_state (fst r) = WsUpgrading \<and> ws_live w \<or> (\<exists>m. c = WsNotify (WsEnded m))))"

lemma inner_plain: "list_all tls_inner cs \<Longrightarrow> list_all ws_plain (map OnTls cs)"
  by (induction cs) auto

lemma linked_live: "linked w \<Longrightarrow> \<not> ws_live w \<Longrightarrow> t_state (ws_stream w) = SIdle \<or> t_state (ws_stream w) = SClosed"
  by (cases "ws_state w") (auto simp: linked_def ws_live_def)

lemma linked_cong: "ws_state w' = ws_state w \<Longrightarrow> ws_stream w' = ws_stream w \<Longrightarrow> linked w' = linked w"
  by (cases "ws_state w") (simp_all add: linked_def)

lemma ws_moves_same: "linked w \<Longrightarrow> ws_state w' = ws_state w \<Longrightarrow> ws_stream w' = ws_stream w \<Longrightarrow> list_all ws_plain cs \<Longrightarrow> ws_moves w (w', cs)"
  using linked_cong[of w' w] by (simp add: ws_moves_def)

lemma ws_moves_fail:
  assumes "ws_state w' = ws_state w" and "ws_stream w' = ws_stream w" and "linked w"
  shows "ws_moves w (ws_fail r w')"
  using assms linked_cong[of w' w] by (auto simp: ws_fail_def ws_moves_def tls_close_def)

text \<open>A step of the stream under the client.\<close>

lemma ws_moves_stream:
  assumes "linked w" and "tls_moves (ws_stream w) (t, cs)" and "list_all ws_plain ds" and "ws_state w' = ws_state w"
  shows "ws_moves w (w'\<lparr>ws_stream := t\<rparr>, map OnTls cs @ ds)"
proof -
  consider (same) "list_all tls_inner cs" "t_state t = t_state (ws_stream w) \<or> dials (t_state (ws_stream w)) \<and> (dials (t_state t) \<or> t_state t = SClosed)"
    | (opens) cs' where "dials (t_state (ws_stream w))" "t_state t = SOpen" "cs = Callback TlsConnected # cs'" "list_all tls_inner cs'"
    | (ends) m cs' where "dials (t_state (ws_stream w)) \<or> t_state (ws_stream w) = SOpen" "t_state t = SClosed"
      "cs = Callback (TlsClosed m) # cs'" "list_all tls_inner cs'"
    using assms(2) by (auto simp: tls_moves_def)
  then show ?thesis
  proof cases
    case same
    then have "linked (w'\<lparr>ws_stream := t\<rparr>)"
      using assms(1,4) by (cases "ws_state w") (auto simp: linked_def dials_def)
    then show ?thesis using same assms(3,4) inner_plain[OF same(1)] by (simp add: ws_moves_def)
  next
    case opens
    then have "ws_state w = WsConnecting" using assms(1) by (cases "ws_state w") (auto simp: linked_def dials_def)
    then show ?thesis using opens assms(3,4) inner_plain[OF opens(4)] by (simp add: ws_moves_def)
  next
    case ends
    then have "ws_live w" using linked_live[OF assms(1)] by (cases "ws_live w") (auto simp: dials_def)
    then show ?thesis using ends assms(3,4) inner_plain[OF ends(4)] by (simp add: ws_moves_def ws_live_def)
  qed
qed

lemma sendFrame_moves:
  assumes "linked w" and "list_all ws_plain ds" and "sendFrame e op pl w = ((w', cs), ok)"
  shows "ws_moves w (w', cs @ ds)"
proof (cases "ws_state w = WsOpen")
  case True
  obtain r m where m: "nextMask (rng w) = (r, m)" by fastforce
  obtain t tcs ok' where t: "tls_send (we_sys e) (encodeWsFrame op pl m []) (ws_stream w) = ((t, tcs), ok')"
    using prod.exhaust by metis
  have "tls_moves (ws_stream w) (t, tcs)" using moves_send[of "ws_stream w" "we_sys e" "encodeWsFrame op pl m []"] by (simp add: t)
  from ws_moves_stream[OF assms(1) this assms(2), of "w\<lparr>rng := r\<rparr>"] show ?thesis
    using assms(3) True by (auto simp: sendFrame_def m t)
next
  case False
  then show ?thesis using assms by (auto simp: sendFrame_def intro!: ws_moves_same)
qed

lemma sendFrame_state: "sendFrame e op pl w = ((w', cs), ok) \<Longrightarrow> ws_state w' = ws_state w"
  by (auto simp: sendFrame_def Let_def split: if_splits prod.splits)

lemma sendFrame_calls: "sendFrame e op pl w = ((w', cs), ok) \<Longrightarrow> cs = [] \<or> (\<exists>m. cs = [OnTls (Callback (TlsClosed m))])"
  using send_calls[of "we_sys e" "encodeWsFrame op pl (snd (nextMask (rng w))) []" "ws_stream w"]
  by (auto simp: sendFrame_def Let_def split: if_splits prod.splits)

lemma data_moves:
  assumes "linked w"
  shows "ws_moves w (ws_onTlsData sha1 bytes w)"
proof (cases "ws_state w = WsUpgrading")
  case True
  define v where "v = w\<lparr>upgradeBuffer := upgradeBuffer w @ chars_of bytes\<rparr>"
  have f: "ws_moves w (ws_fail r v)" for r using assms by (intro ws_moves_fail) (simp_all add: v_def)
  have h: "ws_moves w (handleUpgradeResponse sha1 k v)" for k
    using assms True f by (auto simp: handleUpgradeResponse_def Let_def) (auto simp: ws_moves_def linked_def v_def ws_live_def)
  have "ws_moves w (v, [])" using assms by (intro ws_moves_same) (simp_all add: v_def)
  then show ?thesis using True f h by (simp add: ws_onTlsData_def v_def[symmetric] Let_def split: option.split)
next
  case False
  then show ?thesis using assms by (auto simp: ws_onTlsData_def ws_feed_def Let_def intro!: ws_moves_same)
qed

lemma deliver_moves:
  assumes "linked w" and "list_all ws_plain ds"
  shows "ws_moves w (fst (ws_deliver e ev w), snd (ws_deliver e ev w) @ ds)"
proof (cases ev)
  case (WsControl op pl)
  obtain w1 cs1 ok1 where 1: "sendFrame e opPong pl w = ((w1, cs1), ok1)" using prod.exhaust by metis
  obtain w2 cs2 ok2 where 2: "sendFrame e opClose (take 2 pl) w = ((w2, cs2), ok2)" using prod.exhaust by metis
  have p: "list_all ws_plain (WsFail (close_reason pl) # ds)" using assms(2) by simp
  show ?thesis using assms sendFrame_moves[OF assms 1] sendFrame_moves[OF assms(1) p 2]
    by (auto simp: ws_deliver_def WsControl onWsControl_def 1 2 intro!: ws_moves_same)
qed (use assms in \<open>auto simp: ws_deliver_def intro!: ws_moves_same\<close>)

lemma turn_moves:
  assumes "linked w"
  shows "ws_moves w (decode_turn e ep w)"
proof -
  obtain x d evs where d: "decode_one (\<lambda>_. []) ep (take_staged (ws_decoder w), []) = (x, d, evs)" by (cases "decode_one (\<lambda>_. []) ep (take_staged (ws_decoder w), [])")
  let ?w = "w\<lparr>ws_decoder := d\<rparr>"
  have l: "linked ?w" using assms linked_cong[of ?w w] by simp
  have m: "ws_moves w (fst (ws_deliver e ev ?w), snd (ws_deliver e ev ?w) @ [AfterEvent ep])" for ev
    using deliver_moves[OF l, of "[AfterEvent ep]" e ev] by (simp add: ws_moves_def ws_live_def)
  show ?thesis using assms m
    by (cases x; cases evs; cases "the x") (auto simp: decode_turn_def d case_prod_beta intro!: ws_moves_same)
qed

lemma connected_moves:
  assumes "ws_ready (OnTls (Callback TlsConnected)) w"
  shows "ws_moves w (ws_onTlsConnected e w)"
proof (cases "we_random e")
  case None
  then show ?thesis using assms by (simp add: ws_onTlsConnected_def ws_fail_def ws_moves_def tls_close_def)
next
  case (Some bs)
  define v where "v = w\<lparr>handshakeKey := base64Encode bs\<rparr>"
  obtain t cs where t: "fst (tls_send (we_sys e) (bytes_of (upgrade_request v)) (ws_stream v)) = (t, cs)" by fastforce
  have l: "linked (v\<lparr>ws_state := WsUpgrading\<rparr>)" using assms by (simp add: linked_def v_def)
  have "tls_moves (ws_stream v) (t, cs)" using moves_send[of "ws_stream v" "we_sys e"] by (metis t)
  then have "ws_moves (v\<lparr>ws_state := WsUpgrading\<rparr>) (v\<lparr>ws_state := WsUpgrading, ws_stream := t\<rparr>, map OnTls cs)"
    using ws_moves_stream[OF l, of t cs "[]" "v\<lparr>ws_state := WsUpgrading\<rparr>"] by simp
  then have "ws_moves w (v\<lparr>ws_state := WsUpgrading, ws_stream := t\<rparr>, map OnTls cs)"
    using assms by (auto simp: ws_moves_def ws_live_def)
  then show ?thesis using Some t by (simp add: ws_onTlsConnected_def v_def Let_def)
qed

text \<open>Every step of the client, from a state that fits the call.\<close>

lemma ws_step_moves:
  assumes "\<not> ws_urgent d \<and> linked w \<or> ws_ready d w" and "d \<noteq> WsCloseRest" and "\<And>ev. d \<noteq> WsNotify ev"
  shows "ws_moves w (ws_step sha1 e d w)"
proof (cases "ws_urgent d")
  case True
  then have r: "ws_ready d w" using assms(1) by simp
  show ?thesis
  proof (cases "d = OnTls (Callback TlsConnected)")
    case True
    then show ?thesis using connected_moves r by simp
  next
    case False
    then obtain m where "d = OnTls (Callback (TlsClosed m))" using r assms(3) by (cases "(d, w)" rule: ws_ready.cases) auto
    then show ?thesis using r by (auto simp: ws_onTlsClosed_def ws_moves_def ws_live_def)
  qed
next
  case False
  then have l: "linked w" using assms(1) by (cases "(d, w)" rule: ws_ready.cases) auto
  have s: "ws_moves w (w\<lparr>ws_stream := fst (tls_step (we_sys e) c (ws_stream w))\<rparr>, map OnTls (snd (tls_step (we_sys e) c (ws_stream w))))"
    if "tls_inner c" for c
    using ws_moves_stream[OF l, of "fst (tls_step (we_sys e) c (ws_stream w))" _ "[]" w] moves_step[OF that] by simp
  show ?thesis using False assms(2,3) l s
    by (cases "(sha1, e, d, w)" rule: ws_step.cases)
      (auto simp: data_moves turn_moves after_event_def feed_returns_def case_prod_beta simp del: tls_step.simps
        intro!: ws_moves_same ws_moves_fail)
qed

end
