(* ===== verification/HL_Session.thy ===== *)
theory HL_Session
  imports HL_WsClient HL_EventLoop
begin

text \<open>
  The self-healing WebSocket session (\<open>include/hl/net/WsSession.h\<close>, \<open>src/net/WsSession.cpp\<close>): heartbeats,
  detection of stale connections, reconnects with backoff and the subscriptions that are replayed on every connection.

  \<^item> The session owns a client of \<open>HL_WsClient\<close> and two timers in a queue of \<open>HL_EventLoop\<close>; a timer field holds the
    id of the timer, 0 when there is none.
  \<^item> A method runs to its next call that may come back to the session; the rest stays on the stack. The outputs are the
    calls of the listener, and the texts that the stream accepted.
  \<^item> Changing the subscriptions from a callback while the session iterates over them, or holds an iterator into them,
    is undefined in the code: such calls are not offered in a run.
\<close>

section \<open>State\<close>

record wsSessionOptions =
  ses_url :: string
  ses_ws :: webSocketOptions
  pingIntervalMs :: int
  staleTimeoutMs :: int
  reconnectMinDelayMs :: int
  reconnectMaxDelayMs :: int

datatype ses_timer = ReconnectTimer | HeartbeatTimer

record ws_session =
  ses_options :: wsSessionOptions
  ws :: ws_client
  subscriptions :: "string list"
  running :: bool
  nextDelayMs :: int
  lastRxMs :: int
  reconnects :: u64
  reconnectTimer :: nat
  heartbeatTimer :: nat
  ses_timers :: "ses_timer timer_queue"

datatype ses_call =
    OnWs ws_call
  | Start
  | Stop
  | Subscribe string
  | Unsubscribe string
  | ClearSubscriptions
  | SendRaw string
  | ReconnectNow string
  | SesTimer nat
  | Ended string
  | PushSubscription string
  | EraseSubscription string
  | UnsubscribeEach "string list"
  | Resubscribe "string list"
  | ArmHeartbeat
  | NotifyOpen
  | ScheduleReconnect
  | SessionReturns

datatype ses_output = SessionOpen | SessionMessage "u8 list" | SessionClosed string | TextHanded string

type_synonym ses_result = "ws_session \<times> ses_call list \<times> ses_output list"

definition new_session :: "u64 option \<Rightarrow> int \<Rightarrow> wsSessionOptions \<Rightarrow> ws_session" where
  "new_session seed wallClockMs opts =
     \<lparr>ses_options = opts, ws = new_ws_client seed wallClockMs (ses_ws opts), subscriptions = [], running = False,
      nextDelayMs = reconnectMinDelayMs opts, lastRxMs = 0, reconnects = 0, reconnectTimer = 0, heartbeatTimer = 0,
      ses_timers = new_timers\<rparr>"

section \<open>Timers\<close>

definition disarm_reconnect :: "ws_session \<Rightarrow> ws_session" where
  "disarm_reconnect s =
     (if reconnectTimer s \<noteq> 0
      then s\<lparr>ses_timers := cancelTimer (reconnectTimer s) (ses_timers s), reconnectTimer := 0\<rparr> else s)"

definition disarm_heartbeat :: "ws_session \<Rightarrow> ws_session" where
  "disarm_heartbeat s =
     (if heartbeatTimer s \<noteq> 0
      then s\<lparr>ses_timers := cancelTimer (heartbeatTimer s) (ses_timers s), heartbeatTimer := 0\<rparr> else s)"

definition ses_disarm :: "ws_session \<Rightarrow> ws_session" where
  "ses_disarm s = disarm_heartbeat (disarm_reconnect s)"

definition armHeartbeat :: "ws_env \<Rightarrow> ws_session \<Rightarrow> ws_session" where
  "armHeartbeat e s =
     (case addTimer (we_now e) (pingIntervalMs (ses_options s)) HeartbeatTimer (ses_timers s) of
        (q, i) \<Rightarrow> s\<lparr>ses_timers := q, heartbeatTimer := i\<rparr>)"

definition scheduleReconnect :: "ws_env \<Rightarrow> ws_session \<Rightarrow> ws_session" where
  "scheduleReconnect e s =
     (if \<not> running s \<or> reconnectTimer s \<noteq> 0 then s
      else
        case addTimer (we_now e) (nextDelayMs s) ReconnectTimer (ses_timers s) of
          (q, i) \<Rightarrow>
            s\<lparr>nextDelayMs := min (nextDelayMs s * 2) (reconnectMaxDelayMs (ses_options s)), ses_timers := q, reconnectTimer := i\<rparr>)"

section \<open>Connecting and closing\<close>

definition ses_connect :: "ws_env \<Rightarrow> ws_session \<Rightarrow> ws_session" where
  "ses_connect e s =
     (case ws_connect e (ses_url (ses_options s)) (ws s) of
        (w, ok) \<Rightarrow> if ok then s\<lparr>ws := w\<rparr> else scheduleReconnect e (s\<lparr>ws := w\<rparr>))"

definition ses_start :: "ws_env \<Rightarrow> ws_session \<Rightarrow> ws_session" where
  "ses_start e s =
     (if running s then s
      else ses_connect e (s\<lparr>running := True, nextDelayMs := reconnectMinDelayMs (ses_options s)\<rparr>))"

definition ses_close :: "ws_env \<Rightarrow> ses_call list \<Rightarrow> ws_session \<Rightarrow> ses_result" where
  "ses_close e rest s = (case ws_close e (ws s) of (w, cs) \<Rightarrow> (s\<lparr>ws := w\<rparr>, map OnWs cs @ rest, []))"

definition ses_stop :: "ws_env \<Rightarrow> ws_session \<Rightarrow> ses_result" where
  "ses_stop e s = ses_close e [] (ses_disarm (s\<lparr>running := False\<rparr>))"

text \<open>\<open>onWsClosed\<close>, up to the callback and after it.\<close>

definition onWsClosed :: "string \<Rightarrow> ws_session \<Rightarrow> ses_result" where
  "onWsClosed reason s = (ses_disarm s, [SessionReturns, ScheduleReconnect], [SessionClosed reason])"

definition reconnectNow :: "ws_env \<Rightarrow> string \<Rightarrow> ws_session \<Rightarrow> ses_result" where
  "reconnectNow e reason s =
     (if \<not> running s then (s, [], [])
      else
        let s = s\<lparr>nextDelayMs := reconnectMinDelayMs (ses_options s)\<rparr> in
        if ws_isOpen (ws s) then ses_close e [Ended reason] s
        else (scheduleReconnect e (ses_disarm (s\<lparr>ws := ws_close_rest (ws s)\<rparr>)), [], []))"

section \<open>Messages\<close>

text \<open>\<open>sendText\<close> of the client, then the rest of the method.\<close>

definition ses_send :: "ws_env \<Rightarrow> string \<Rightarrow> ses_call list \<Rightarrow> ws_session \<Rightarrow> ses_result" where
  "ses_send e msg rest s =
     (case sendText e msg (ws s) of
        ((w, cs), ok) \<Rightarrow> (s\<lparr>ws := w\<rparr>, map OnWs cs @ rest, if ok then [TextHanded msg] else []))"

definition subscribe_text :: "string \<Rightarrow> string" where
  "subscribe_text sub = ''{\"method\":\"subscribe\",\"subscription\":'' @ sub @ ''}''"

definition unsubscribe_text :: "string \<Rightarrow> string" where
  "unsubscribe_text sub = ''{\"method\":\"unsubscribe\",\"subscription\":'' @ sub @ ''}''"

definition ping_text :: string where
  "ping_text = ''{\"method\":\"ping\"}''"

definition subscribe :: "ws_env \<Rightarrow> string \<Rightarrow> ws_session \<Rightarrow> ses_result" where
  "subscribe e sub s =
     (if sub \<in> set (subscriptions s) then (s, [], [])
      else if ws_isOpen (ws s) then ses_send e (subscribe_text sub) [PushSubscription sub] s
      else (s, [PushSubscription sub], []))"

definition unsubscribe :: "ws_env \<Rightarrow> string \<Rightarrow> ws_session \<Rightarrow> ses_result" where
  "unsubscribe e sub s =
     (if sub \<notin> set (subscriptions s) then (s, [], [])
      else if ws_isOpen (ws s) then ses_send e (unsubscribe_text sub) [EraseSubscription sub] s
      else (s, [EraseSubscription sub], []))"

definition clearSubscriptions :: "ws_env \<Rightarrow> ws_session \<Rightarrow> ses_result" where
  "clearSubscriptions e s =
     (s\<lparr>subscriptions := []\<rparr>, if ws_isOpen (ws s) then [UnsubscribeEach (subscriptions s)] else [], [])"

definition onWsOpen :: "ws_env \<Rightarrow> ws_session \<Rightarrow> ses_result" where
  "onWsOpen e s =
     (s\<lparr>nextDelayMs := reconnectMinDelayMs (ses_options s), lastRxMs := we_now e\<rparr>,
      [Resubscribe (subscriptions s), ArmHeartbeat, NotifyOpen], [])"

definition onWsText :: "ws_env \<Rightarrow> u8 list \<Rightarrow> ws_session \<Rightarrow> ses_result" where
  "onWsText e msg s = (s\<lparr>lastRxMs := we_now e\<rparr>, [SessionReturns], [SessionMessage msg])"

section \<open>Timers that fire\<close>

definition reconnect_fires :: "ws_env \<Rightarrow> ws_session \<Rightarrow> ws_session" where
  "reconnect_fires e s =
     (let s = s\<lparr>reconnectTimer := 0\<rparr> in
      if running s \<and> \<not> ws_isOpen (ws s) then ses_connect e (s\<lparr>reconnects := reconnects s + 1\<rparr>) else s)"

definition heartbeat_fires :: "ws_env \<Rightarrow> ws_session \<Rightarrow> ses_result" where
  "heartbeat_fires e s =
     (let s = s\<lparr>heartbeatTimer := 0\<rparr> in
      if \<not> ws_isOpen (ws s) then (s, [], [])
      else if we_now e - lastRxMs s > staleTimeoutMs (ses_options s) then ses_close e [Ended ''stale connection''] s
      else ses_send e ping_text [ArmHeartbeat] s)"

definition ses_timer_fires :: "ws_env \<Rightarrow> nat \<Rightarrow> ws_session \<Rightarrow> ses_result" where
  "ses_timer_fires e i s =
     (case filter (\<lambda>t. fst (snd t) = i) (timers (ses_timers s)) of
        [] \<Rightarrow> (s, [], [])
      | (due, j, k) # ts \<Rightarrow>
          let s = s\<lparr>ses_timers := cancelTimer i (ses_timers s)\<rparr> in
          case k of ReconnectTimer \<Rightarrow> (reconnect_fires e s, [], []) | HeartbeatTimer \<Rightarrow> heartbeat_fires e s)"

section \<open>Runs\<close>

fun ses_step :: "(string \<Rightarrow> u8 list) \<Rightarrow> ws_env \<Rightarrow> ses_call \<Rightarrow> ws_session \<Rightarrow> ses_result" where
  "ses_step sha1 e (OnWs (WsNotify WsOpened)) s = onWsOpen e s"
| "ses_step sha1 e (OnWs (WsNotify (WsText msg))) s = onWsText e msg s"
| "ses_step sha1 e (OnWs (WsNotify (WsEnded reason))) s = onWsClosed reason s"
| "ses_step sha1 e (OnWs call) s = (case ws_step sha1 e call (ws s) of (w, cs) \<Rightarrow> (s\<lparr>ws := w\<rparr>, map OnWs cs, []))"
| "ses_step sha1 e Start s = (ses_start e s, [], [])"
| "ses_step sha1 e Stop s = ses_stop e s"
| "ses_step sha1 e (Subscribe sub) s = subscribe e sub s"
| "ses_step sha1 e (Unsubscribe sub) s = unsubscribe e sub s"
| "ses_step sha1 e ClearSubscriptions s = clearSubscriptions e s"
| "ses_step sha1 e (SendRaw msg) s = ses_send e msg [] s"
| "ses_step sha1 e (ReconnectNow reason) s = reconnectNow e reason s"
| "ses_step sha1 e (SesTimer i) s = ses_timer_fires e i s"
| "ses_step sha1 e (Ended reason) s = onWsClosed reason s"
| "ses_step sha1 e (PushSubscription sub) s = (s\<lparr>subscriptions := subscriptions s @ [sub]\<rparr>, [], [])"
| "ses_step sha1 e (EraseSubscription sub) s = (s\<lparr>subscriptions := remove1 sub (subscriptions s)\<rparr>, [], [])"
| "ses_step sha1 e (UnsubscribeEach []) s = (s, [], [])"
| "ses_step sha1 e (UnsubscribeEach (sub # subs)) s = ses_send e (unsubscribe_text sub) [UnsubscribeEach subs] s"
| "ses_step sha1 e (Resubscribe []) s = (s, [], [])"
| "ses_step sha1 e (Resubscribe (sub # subs)) s = ses_send e (subscribe_text sub) [Resubscribe subs] s"
| "ses_step sha1 e ArmHeartbeat s = (armHeartbeat e s, [], [])"
| "ses_step sha1 e NotifyOpen s = (s, [SessionReturns], [SessionOpen])"
| "ses_step sha1 e ScheduleReconnect s = (scheduleReconnect e s, [], [])"
| "ses_step sha1 e SessionReturns s = (s, [], [])"

text \<open>The frames that hold an iterator into the subscriptions.\<close>

fun iterates :: "ses_call \<Rightarrow> bool" where
  "iterates (Resubscribe subs) = True"
| "iterates (EraseSubscription sub) = True"
| "iterates call = False"

text \<open>The calls that come from outside: the owner's, and the event loop's.\<close>

fun ses_offered :: "ses_call \<Rightarrow> ses_call list \<Rightarrow> ws_session \<Rightarrow> bool" where
  "ses_offered Start cs s = True"
| "ses_offered Stop cs s = True"
| "ses_offered (Subscribe sub) cs s = (\<not> list_ex iterates cs)"
| "ses_offered (Unsubscribe sub) cs s = (\<not> list_ex iterates cs)"
| "ses_offered ClearSubscriptions cs s = (\<not> list_ex iterates cs)"
| "ses_offered (SendRaw msg) cs s = True"
| "ses_offered (ReconnectNow reason) cs s = True"
| "ses_offered (SesTimer i) cs s = (i \<in> (fst \<circ> snd) ` set (timers (ses_timers s)))"
| "ses_offered (OnWs (OnTls (IoEvent events))) cs s = (registered (ws_stream (ws s)) \<noteq> None)"
| "ses_offered (OnWs (OnTls ConnectTimeout)) cs s = (connectTimer (ws_stream (ws s)) \<noteq> None)"
| "ses_offered call cs s = False"

inductive ses_run :: "(string \<Rightarrow> u8 list) \<Rightarrow> wsSessionOptions \<Rightarrow> ses_call list \<Rightarrow> ws_session \<Rightarrow> ses_output list \<Rightarrow> bool"
  for sha1 opts where
  start: "ses_run sha1 opts [] (new_session seed wallClockMs opts) []"
| call: "ses_run sha1 opts cs s log \<Longrightarrow> cs = [] \<or> hd cs = SessionReturns \<Longrightarrow> ses_offered d cs s \<Longrightarrow>
    ses_run sha1 opts (d # cs) s log"
| step: "ses_run sha1 opts (d # cs) s log \<Longrightarrow> ses_step sha1 e d s = (s', ds, out) \<Longrightarrow>
    ses_run sha1 opts (ds @ cs) s' (log @ out)"

section \<open>The stack of the session\<close>

fun urgent :: "ses_call \<Rightarrow> bool" where
  "urgent (OnWs c) = ws_urgent c"
| "urgent (Ended r) = True"
| "urgent c = False"

fun ready :: "ses_call \<Rightarrow> ws_session \<Rightarrow> bool" where
  "ready (OnWs c) s = ws_ready c (ws s)"
| "ready (Ended r) s = (t_state (ws_stream (ws s)) = SClosed \<and> ws_state (ws s) = WsClosed)"
| "ready c s = False"

text \<open>No urgent call is left behind, but for the report that follows a close.\<close>

fun settled :: "ses_call list \<Rightarrow> bool" where
  "settled [] = True"
| "settled (OnWs WsCloseRest # Ended r # cs) = settled cs"
| "settled (c # cs) = (\<not> urgent c \<and> settled cs)"

text \<open>
  Whether the calls on the stack leave a session that is connected or will reconnect: the flags say whether the client
  is live now, and whether the reconnect timer is armed.
\<close>

fun covered :: "bool \<Rightarrow> bool \<Rightarrow> ses_call list \<Rightarrow> bool" where
  "covered a b [] = (a \<or> b)"
| "covered a b (SessionReturns # cs) = (a \<or> b \<or> covered False False cs)"
| "covered a b (ScheduleReconnect # cs) = True"
| "covered a b (Ended r # cs) = True"
| "covered a b (OnWs (WsNotify (WsEnded r)) # cs) = True"
| "covered a b (OnWs WsCloseRest # cs) = covered False b cs"
| "covered a b (c # cs) = covered a b cs"

fun guards :: "ses_call \<Rightarrow> bool" where
  "guards ScheduleReconnect = True"
| "guards (OnWs (WsNotify (WsEnded r))) = True"
| "guards (OnWs (OnTls (Callback (TlsClosed r)))) = True"
| "guards c = False"

fun sound :: "ses_call list \<Rightarrow> bool" where
  "sound [] = True"
| "sound (c # cs) = (sound cs \<and> (covered True False cs \<or> guards c \<and> (\<exists>cs'. cs = OnWs WsCloseRest # cs')))"

fun beats :: "ses_call \<Rightarrow> bool" where
  "beats ArmHeartbeat = True"
| "beats (OnWs (WsNotify WsOpened)) = True"
| "beats (OnWs WsCloseRest) = True"
| "beats c = False"

fun neutral :: "ses_call \<Rightarrow> bool" where
  "neutral SessionReturns = False"
| "neutral ScheduleReconnect = False"
| "neutral (Ended r) = False"
| "neutral (OnWs c) = ws_plain c"
| "neutral c = True"

lemma neutral_not_urgent: "neutral c \<Longrightarrow> \<not> urgent c"
proof (cases c)
  case (OnWs d)
  then show "neutral c \<Longrightarrow> ?thesis" by (cases d) auto
qed auto

lemma neutral_settled: "neutral c \<Longrightarrow> settled (c # cs) = settled cs"
  using neutral_not_urgent[of c] by (cases "c # cs" rule: settled.cases) auto

lemma neutral_covered: "neutral c \<Longrightarrow> covered a b (c # cs) = covered a b cs"
  by (cases "(a, b, c # cs)" rule: covered.cases) auto

lemma neutrals_settled: "list_all neutral ds \<Longrightarrow> settled (ds @ cs) = settled cs"
  by (induction ds) (simp_all add: neutral_settled)

lemma neutrals_covered: "list_all neutral ds \<Longrightarrow> covered a b (ds @ cs) = covered a b cs"
  by (induction ds) (simp_all add: neutral_covered)

lemma neutrals_sound: "list_all neutral ds \<Longrightarrow> sound cs \<Longrightarrow> covered True False cs \<Longrightarrow> sound (ds @ cs)"
  by (induction ds) (simp_all add: neutrals_covered)

lemma plain_neutral: "list_all ws_plain cs \<Longrightarrow> list_all neutral (map OnWs cs)"
  by (induction cs) auto

lemma covered_armed [simp]: "covered a True cs"
  by (induction a True cs rule: covered.induct) auto

lemma covered_mono: "covered a b cs \<Longrightarrow> (a \<longrightarrow> a') \<Longrightarrow> (b \<longrightarrow> b') \<Longrightarrow> covered a' b' cs"
proof (induction a b cs arbitrary: a' rule: covered.induct)
  case (6 a b cs)
  then show ?case using "6.IH"[of False] by simp
qed (auto)

lemma covered_cases: "covered True False cs \<Longrightarrow> a \<or> b \<Longrightarrow> covered a b cs"
  using covered_mono[of True False cs a b] by (cases b) auto

lemma settled_close: "settled cs \<Longrightarrow> settled (OnWs WsCloseRest # cs)"
  by (cases "OnWs WsCloseRest # cs" rule: settled.cases) auto

lemma settled_Cons: "settled (c # cs) \<Longrightarrow> c \<noteq> OnWs WsCloseRest \<Longrightarrow> \<not> urgent c \<and> settled cs"
  by (cases "c # cs" rule: settled.cases) auto

lemma opened_beats: "WsNotify WsOpened \<in> set wcs \<Longrightarrow> list_ex beats (map OnWs wcs)"
  by (induction wcs) auto

section \<open>The invariant of the stack\<close>

definition armed :: "ws_session \<Rightarrow> bool" where
  "armed s \<longleftrightarrow> reconnectTimer s \<noteq> 0"

definition in_turn :: "ses_call list \<Rightarrow> ws_session \<Rightarrow> bool" where
  "in_turn cs s \<longleftrightarrow> settled cs \<and> linked (ws s) \<or> (\<exists>d ds. cs = d # ds \<and> settled ds \<and> urgent d \<and> ready d s)"

definition stack_ok :: "ses_call list \<Rightarrow> ws_session \<Rightarrow> bool" where
  "stack_ok cs s \<longleftrightarrow> in_turn cs s \<and> sound cs \<and> (running s \<longrightarrow> covered (ws_live (ws s)) (armed s) cs) \<and>
     (ws_state (ws s) = WsOpen \<longrightarrow> heartbeatTimer s \<noteq> 0 \<or> list_ex beats cs)"

text \<open>The client moves under the stack, and the session adds calls of its own.\<close>

lemma moves_stack_ok:
  assumes "settled cs" and "sound cs" and "covered True False cs" and "running s' \<longrightarrow> covered (ws_live w) (armed s') cs"
    and "ws_state w = WsOpen \<longrightarrow> heartbeatTimer s' \<noteq> 0 \<or> list_ex beats (ds @ cs)"
    and "ws_moves w (ws s', wcs)" and "list_all neutral ds"
  shows "stack_ok (map OnWs wcs @ ds @ cs) s'"
proof -
  from assms(6) consider
    (plain) "list_all ws_plain wcs" "linked (ws s')" "ws_state (ws s') = ws_state w \<or> ws_state (ws s') = WsUpgrading \<and> ws_live w \<or>
        ws_live w \<and> ws_state (ws s') = WsOpen \<and> WsNotify WsOpened \<in> set wcs"
    | (urgent) c cs' where "wcs = c # cs'" "list_all ws_plain cs'" "ws_urgent c" "ws_ready c (ws s')"
      "ws_state (ws s') = ws_state w \<or> ws_state (ws s') = WsUpgrading \<and> ws_live w \<or> (\<exists>m. c = WsNotify (WsEnded m))"
    by (auto simp: ws_moves_def)
  then show ?thesis
  proof cases
    case plain
    then have n: "list_all neutral (map OnWs wcs @ ds)" using assms(7) plain_neutral by simp
    have c: "running s' \<longrightarrow> covered (ws_live (ws s')) (armed s') cs"
      using assms(4) covered_mono[of "ws_live w" "armed s'" cs "ws_live (ws s')" "armed s'"] plain(3) by (auto simp: ws_live_def)
    have b: "ws_state (ws s') = WsOpen \<longrightarrow> heartbeatTimer s' \<noteq> 0 \<or> list_ex beats (map OnWs wcs @ ds @ cs)"
      using assms(5) plain(3) opened_beats[of wcs] by auto
    show ?thesis using plain(2) c b assms(1) neutrals_settled[OF n, of cs] neutrals_covered[OF n, of _ _ cs] neutrals_sound[OF n assms(2,3)]
      by (simp add: stack_ok_def in_turn_def)
  next
    case urgent
    then have n: "list_all neutral (map OnWs cs' @ ds)" using assms(7) plain_neutral by simp
    have u: "urgent (OnWs c)" "ready (OnWs c) s'" using urgent by simp_all
    have s: "sound (OnWs c # map OnWs cs' @ ds @ cs)"
      using neutrals_sound[OF n assms(2,3)] neutrals_covered[OF n, of True False cs] assms(3) by simp
    have c: "running s' \<longrightarrow> covered (ws_live (ws s')) (armed s') (OnWs c # map OnWs cs' @ ds @ cs)"
    proof (cases "\<exists>m. c = WsNotify (WsEnded m)")
      case False
      then have "covered a b (OnWs c # map OnWs cs' @ ds @ cs) = covered a b cs" for a b
        using neutrals_covered[OF n, of a b cs] urgent(3) by (cases c rule: ws_urgent.cases) auto
      then show ?thesis
        using assms(4) covered_mono[of "ws_live w" "armed s'" cs "ws_live (ws s')" "armed s'"] urgent(5) False by (auto simp: ws_live_def)
    qed auto
    have b: "ws_state (ws s') = WsOpen \<longrightarrow> heartbeatTimer s' \<noteq> 0 \<or> list_ex beats (ds @ cs)"
      using assms(5) urgent(4,5) by auto
    show ?thesis using u s c b assms(1) neutrals_settled[OF n, of cs] by (auto simp: stack_ok_def in_turn_def urgent(1))
  qed
qed

section \<open>Steps keep the stack\<close>

text \<open>What holds under a call that is not urgent.\<close>

definition calm :: "ses_call list \<Rightarrow> ws_session \<Rightarrow> bool" where
  "calm cs s \<longleftrightarrow> settled cs \<and> sound cs \<and> covered True False cs \<and> linked (ws s) \<and>
     (running s \<longrightarrow> covered (ws_live (ws s)) (armed s) cs)"

definition beating :: "ses_call list \<Rightarrow> ws_session \<Rightarrow> bool" where
  "beating cs s \<longleftrightarrow> ws_state (ws s) = WsOpen \<longrightarrow> heartbeatTimer s \<noteq> 0 \<or> list_ex beats cs"

lemma calm_stack_ok: "calm cs s \<Longrightarrow> list_all neutral ds \<Longrightarrow> beating (ds @ cs) s \<Longrightarrow> stack_ok (ds @ cs) s"
  using neutrals_settled[of ds cs] neutrals_covered[of ds _ _ cs] neutrals_sound[of ds cs]
  by (simp add: calm_def beating_def stack_ok_def in_turn_def)

lemma stack_ok_calm:
  assumes "stack_ok (d # cs) s" and "neutral d"
  shows "calm cs s" and "beating (d # cs) s"
proof -
  have "\<not> guards d" using assms(2) by (cases d rule: guards.cases) auto
  then show "calm cs s" using assms neutral_not_urgent[OF assms(2)] neutral_settled[OF assms(2), of cs] neutral_covered[OF assms(2), of _ _ cs]
    by (auto simp: stack_ok_def calm_def in_turn_def)
  show "beating (d # cs) s" using assms(1) by (simp add: stack_ok_def beating_def)
qed

lemma ses_send_stack_ok:
  assumes "calm cs s" and "beating (ds @ cs) s" and "list_all neutral ds" and "ses_send e msg ds s = (s', ds', out)"
  shows "stack_ok (ds' @ cs) s'"
proof -
  obtain w wcs ok where w: "sendText e msg (ws s) = ((w, wcs), ok)" using prod.exhaust by metis
  then have "ws_moves (ws s) (w, wcs)"
    using sendFrame_moves[of "ws s" "[]" e opText "bytes_of msg" w wcs ok] assms(1) by (simp add: sendText_def calm_def)
  then have "stack_ok (map OnWs wcs @ ds @ cs) (s\<lparr>ws := w\<rparr>)"
    using assms(1,2,3) by (intro moves_stack_ok[where w = "ws s"]) (simp_all add: calm_def beating_def armed_def)
  then show ?thesis using assms(4) w by (auto simp: ses_send_def)
qed

text \<open>Closing the client: either the session has stopped, or the report follows.\<close>

lemma ses_close_stack_ok:
  assumes "calm cs s" and "\<not> running s \<and> rest = [] \<or> (\<exists>r. rest = [Ended r])" and "ses_close e rest s = (s', ds', out)"
  shows "stack_ok (ds' @ cs) s'"
proof -
  let ?R = "OnWs WsCloseRest # rest @ cs"
  have R: "settled ?R" "sound ?R" "running s \<longrightarrow> covered a b ?R" for a b
    using assms(1,2) settled_close[of cs] by (auto simp: calm_def)
  obtain w wcs ok where w: "sendFrame e opClose [0x03, 0xE8] (ws s) = ((w, wcs), ok)" using prod.exhaust by metis
  have st: "ws_state w = ws_state (ws s)" using sendFrame_state[OF w] .
  have l: "linked (ws s)" using assms(1) by (simp add: calm_def)
  note m = sendFrame_moves[OF l _ w, of "[]"]
  show ?thesis
  proof (cases "ws_state (ws s) = WsOpen \<and> wcs \<noteq> []")
    case True
    then obtain n where n: "wcs = [OnTls (Callback (TlsClosed n))]" using sendFrame_calls[OF w] by auto
    then have rd: "ws_ready (OnTls (Callback (TlsClosed n))) w" using m by (simp add: ws_moves_def)
    have "s' = s\<lparr>ws := w\<rparr> \<and> ds' = OnWs (OnTls (Callback (TlsClosed n))) # OnWs WsCloseRest # rest"
      using assms(3) True n w by (auto simp: ses_close_def ws_close_def)
    then show ?thesis using R rd by (auto simp: stack_ok_def in_turn_def armed_def)
  next
    case False
    then have "ds' = OnWs WsCloseRest # rest \<and> (s' = s \<or> s' = s\<lparr>ws := w\<rparr> \<and> wcs = [])"
      using assms(3) w by (cases "ws_state (ws s) = WsOpen") (auto simp: ses_close_def ws_close_def)
    moreover have "linked w" if "wcs = []" using m that by (simp add: ws_moves_def)
    ultimately show ?thesis using R l by (auto simp: stack_ok_def in_turn_def armed_def)
  qed
qed

lemma scheduleReconnect_fields:
  "ws (scheduleReconnect e s) = ws s" "running (scheduleReconnect e s) = running s"
  "heartbeatTimer (scheduleReconnect e s) = heartbeatTimer s" "subscriptions (scheduleReconnect e s) = subscriptions s"
  by (simp_all add: scheduleReconnect_def split: prod.split)

lemma addTimer_id_pos: "timers_ok q \<Longrightarrow> addTimer now d k q = (q', i) \<Longrightarrow> 0 < i"
  using addTimer_id[of q now d k] by simp

lemma scheduleReconnect_armed: "timers_ok (ses_timers s) \<Longrightarrow> running s \<Longrightarrow> armed (scheduleReconnect e s)"
  by (auto simp: scheduleReconnect_def armed_def dest: addTimer_id_pos split: prod.split)

lemma scheduleReconnect_keeps: "armed s \<Longrightarrow> armed (scheduleReconnect e s)"
  by (simp add: scheduleReconnect_def armed_def)

lemma ses_disarm_fields:
  "ws (ses_disarm s) = ws s" "running (ses_disarm s) = running s" "subscriptions (ses_disarm s) = subscriptions s"
  "nextDelayMs (ses_disarm s) = nextDelayMs s" "ses_options (ses_disarm s) = ses_options s"
  by (simp_all add: ses_disarm_def disarm_heartbeat_def disarm_reconnect_def)

lemma ws_connect_linked:
  assumes "linked w" and "ws_connect e u w = (w', ok)"
  shows "linked w'" and "ok \<Longrightarrow> ws_state w' = WsConnecting" and "ws_state w' = WsOpen \<Longrightarrow> ws_state w = WsOpen" and
    "tls_inv (ws_stream w) \<Longrightarrow> tls_inv (ws_stream w')"
proof -
  have *: "linked w' \<and> (ok \<longrightarrow> ws_state w' = WsConnecting) \<and> (ws_state w' = WsOpen \<longrightarrow> ws_state w = WsOpen) \<and>
      (tls_inv (ws_stream w) \<longrightarrow> tls_inv (ws_stream w'))"
  proof (cases "\<exists>v. url_parse u = Some v \<and> (scheme v = ''ws'' \<or> scheme v = ''wss'')")
    case True
    then obtain v where v: "url_parse u = Some v" "scheme v = ''ws'' \<or> scheme v = ''wss''" by blast
    obtain t b where t: "tls_connect (we_sys e) (secure v) (ws_stream w) = (t, b)" by fastforce
    have "t_state t = (if b then SConnecting else SClosed)" and "tls_inv t"
      using tls_connect_inv[OF t] tls_connect_result[OF t] by auto
    then show ?thesis using assms(2) v t by (cases b) (auto simp: ws_connect_def Let_def linked_def dials_def)
  next
    case False
    then show ?thesis using assms by (auto simp: ws_connect_def split: option.splits if_splits)
  qed
  show "linked w'" "ok \<Longrightarrow> ws_state w' = WsConnecting" "ws_state w' = WsOpen \<Longrightarrow> ws_state w = WsOpen"
    "tls_inv (ws_stream w) \<Longrightarrow> tls_inv (ws_stream w')"
    using * by auto
qed

lemma ended_stack_ok:
  assumes "stack_ok (d # cs) s" and "d = Ended r \<or> d = OnWs (WsNotify (WsEnded r))"
  shows "stack_ok ([SessionReturns, ScheduleReconnect] @ cs) (ses_disarm s)"
proof -
  have u: "urgent d" using assms(2) by auto
  moreover have "\<not> settled (d # cs)" using u assms(2) by (cases "d # cs" rule: settled.cases) auto
  ultimately have r: "settled cs" "ready d s" using assms(1) by (auto simp: stack_ok_def in_turn_def)
  then have "linked (ws s)" "ws_state (ws s) = WsClosed" using assms(2) by (auto simp: linked_def)
  moreover have "sound (ScheduleReconnect # cs)" using assms by (auto simp: stack_ok_def)
  ultimately show ?thesis using r(1) by (simp add: stack_ok_def in_turn_def ses_disarm_fields)
qed

lemma tls_ended_stack_ok:
  assumes "stack_ok (OnWs (OnTls (Callback (TlsClosed r))) # cs) s"
  shows "stack_ok (fst (snd (ses_step sha1 e (OnWs (OnTls (Callback (TlsClosed r)))) s)) @ cs)
    (fst (ses_step sha1 e (OnWs (OnTls (Callback (TlsClosed r)))) s))"
proof -
  have "settled cs" "ready (OnWs (OnTls (Callback (TlsClosed r)))) s" "sound (OnWs (WsNotify (WsEnded r)) # cs)"
    using assms by (auto simp: stack_ok_def in_turn_def)
  then show ?thesis by (auto simp: ws_onTlsClosed_def stack_ok_def in_turn_def ws_live_def)
qed

lemma close_rest_stack_ok:
  assumes "stack_ok (OnWs WsCloseRest # cs) s"
  shows "stack_ok cs (s\<lparr>ws := ws_close_rest (ws s)\<rparr>)"
proof -
  have st: "settled (OnWs WsCloseRest # cs)" using assms by (auto simp: stack_ok_def in_turn_def)
  then have "settled cs \<or> (\<exists>r cs'. cs = Ended r # cs' \<and> settled cs')"
    by (cases "OnWs WsCloseRest # cs" rule: settled.cases) auto
  moreover have "running s \<longrightarrow> covered False (armed s) cs" "sound cs" using assms by (auto simp: stack_ok_def)
  ultimately show ?thesis
    by (auto simp: stack_ok_def in_turn_def ws_close_rest_def linked_def tls_close_def ws_live_def armed_def)
qed

lemma ses_connect_stack_ok:
  assumes "calm cs (s\<lparr>running := r\<rparr>)" and "timers_ok (ses_timers s)" and "running s" and "beating cs s"
  shows "stack_ok cs (ses_connect e s)"
proof -
  obtain w ok where w: "ws_connect e (ses_url (ses_options s)) (ws s) = (w, ok)" by fastforce
  have l: "linked (ws s)" and R: "settled cs" "sound cs" "covered True False cs" using assms(1) by (simp_all add: calm_def)
  note c = ws_connect_linked[OF l w]
  have cov: "covered (ws_live (ws (ses_connect e s))) (armed (ses_connect e s)) cs"
    using c(2) assms(2,3) covered_mono[OF R(3), of True] scheduleReconnect_armed[of "s\<lparr>ws := w\<rparr>" e]
    by (cases ok) (simp_all add: ses_connect_def w ws_live_def)
  have "ws (ses_connect e s) = w" "heartbeatTimer (ses_connect e s) = heartbeatTimer s"
    by (simp_all add: ses_connect_def w scheduleReconnect_fields)
  then show ?thesis using R c(1,3) cov assms(4) by (auto simp: stack_ok_def in_turn_def beating_def)
qed

lemma start_stack_ok:
  assumes "calm cs s" and "timers_ok (ses_timers s)" and "beating cs s"
  shows "stack_ok cs (ses_start e s)"
proof (cases "running s")
  case True
  then show ?thesis using assms calm_stack_ok[of cs s "[]"] by (simp add: ses_start_def)
next
  case False
  let ?s = "s\<lparr>running := True, nextDelayMs := reconnectMinDelayMs (ses_options s)\<rparr>"
  have "calm cs (?s\<lparr>running := False\<rparr>)" using assms(1) by (simp add: calm_def)
  from ses_connect_stack_ok[OF this] show ?thesis using False assms(2,3) by (simp add: ses_start_def beating_def)
qed

lemma reconnect_fires_stack_ok:
  assumes "calm cs s" and "timers_ok (ses_timers s)" and "beating cs s"
  shows "stack_ok cs (reconnect_fires e (s\<lparr>ses_timers := cancelTimer i (ses_timers s)\<rparr>))"
proof (cases "running s \<and> \<not> ws_isOpen (ws s)")
  case True
  let ?s = "s\<lparr>ses_timers := cancelTimer i (ses_timers s), reconnectTimer := 0, reconnects := reconnects s + 1\<rparr>"
  have "calm cs (?s\<lparr>running := False\<rparr>)" using assms(1) by (simp add: calm_def)
  from ses_connect_stack_ok[OF this] show ?thesis
    using True assms(2,3) cancelTimer_ok[of "ses_timers s" i] by (simp add: reconnect_fires_def beating_def)
next
  case False
  then have "running s \<longrightarrow> covered (ws_live (ws s)) False cs"
    using assms(1) covered_mono[of True False cs True False] by (auto simp: calm_def ws_isOpen_def ws_live_def)
  then show ?thesis using False assms(1,3)
    by (auto simp: reconnect_fires_def Let_def stack_ok_def in_turn_def calm_def beating_def armed_def)
qed

lemma reconnectNow_stack_ok:
  assumes "calm cs s" and "timers_ok (ses_timers s)" and "beating cs s" and "reconnectNow e r s = (s', ds, out)"
    and "timers_ok (ses_timers (ses_disarm s))"
  shows "stack_ok (ds @ cs) s'"
proof (cases "running s")
  case True
  let ?s = "s\<lparr>nextDelayMs := reconnectMinDelayMs (ses_options s)\<rparr>"
  show ?thesis
  proof (cases "ws_isOpen (ws s)")
    case up: True
    have "calm cs ?s" using assms(1) by (simp add: calm_def armed_def)
    then show ?thesis using ses_close_stack_ok[of cs ?s "[Ended r]" e s' ds out] assms(4) True up by (simp add: reconnectNow_def)
  next
    case False
    let ?t = "ses_disarm (?s\<lparr>ws := ws_close_rest (ws s)\<rparr>)"
    have "timers_ok (ses_timers ?t)" using assms(5)
      by (simp add: ses_disarm_def disarm_heartbeat_def disarm_reconnect_def split: if_splits)
    then have "armed (scheduleReconnect e ?t)" using True by (intro scheduleReconnect_armed) (simp_all add: ses_disarm_fields)
    then show ?thesis using True False assms(1,4)
      by (auto simp: reconnectNow_def calm_def stack_ok_def in_turn_def scheduleReconnect_fields ses_disarm_fields
          ws_close_rest_def linked_def tls_close_def)
  qed
next
  case False
  then show ?thesis using assms calm_stack_ok[of cs s "[]"] by (auto simp: reconnectNow_def)
qed

lemma heartbeat_fires_stack_ok:
  assumes "calm cs s" and "heartbeat_fires e s = (s', ds, out)"
  shows "stack_ok (ds @ cs) s'"
proof -
  let ?s = "s\<lparr>heartbeatTimer := 0\<rparr>"
  have c: "calm cs ?s" using assms(1) by (simp add: calm_def armed_def)
  have n: "beating ([ArmHeartbeat] @ cs) ?s" by (simp add: beating_def)
  consider "\<not> ws_isOpen (ws s)" | "ws_isOpen (ws s)" "we_now e - lastRxMs s > staleTimeoutMs (ses_options s)"
    | "ws_isOpen (ws s)" "\<not> we_now e - lastRxMs s > staleTimeoutMs (ses_options s)" by blast
  then show ?thesis
  proof cases
    case 1
    then show ?thesis using calm_stack_ok[OF c, of "[]"] assms(2) by (auto simp: heartbeat_fires_def beating_def ws_isOpen_def)
  next
    case 2
    then show ?thesis using ses_close_stack_ok[OF c, of "[Ended ''stale connection'']"] assms(2) by (simp add: heartbeat_fires_def Let_def)
  next
    case 3
    then show ?thesis using ses_send_stack_ok[OF c n] assms(2) by (simp add: heartbeat_fires_def Let_def)
  qed
qed

lemma returns_stack_ok:
  assumes "stack_ok (SessionReturns # cs) s"
  shows "stack_ok cs s"
proof -
  have "settled cs" "linked (ws s)" "covered True False cs" "sound cs" using assms by (auto simp: stack_ok_def in_turn_def)
  moreover have "running s \<longrightarrow> covered (ws_live (ws s)) (armed s) cs"
    using assms covered_cases[OF calculation(3)] covered_mono[of False False cs] by (auto simp: stack_ok_def)
  ultimately show ?thesis using assms by (simp add: stack_ok_def in_turn_def)
qed

lemma scheduled_stack_ok:
  assumes "stack_ok (ScheduleReconnect # cs) s" and "timers_ok (ses_timers s)"
  shows "stack_ok cs (scheduleReconnect e s)"
proof -
  have "settled cs" "linked (ws s)" "sound cs" using assms(1) by (auto simp: stack_ok_def in_turn_def)
  then show ?thesis using assms scheduleReconnect_armed[of s e]
    by (auto simp: stack_ok_def in_turn_def scheduleReconnect_fields)
qed

lemma listener_stack_ok:
  assumes "calm cs s" and "beating cs s"
  shows "stack_ok (SessionReturns # cs) s"
  using assms by (cases "armed s"; cases "ws_live (ws s)") (auto simp: calm_def beating_def stack_ok_def in_turn_def)

section \<open>The timers of the session\<close>

text \<open>A timer field that is not 0 names a timer of the queue, and there is at most one reconnect timer.\<close>

definition held :: "nat \<Rightarrow> ses_timer \<Rightarrow> ws_session \<Rightarrow> bool" where
  "held i k s \<longleftrightarrow> (\<exists>due. (due, i, k) \<in> set (timers (ses_timers s)))"

definition timers_held :: "ws_session \<Rightarrow> bool" where
  "timers_held s \<longleftrightarrow> timers_ok (ses_timers s) \<and> (reconnectTimer s \<noteq> 0 \<longrightarrow> held (reconnectTimer s) ReconnectTimer s) \<and>
     (heartbeatTimer s \<noteq> 0 \<longrightarrow> held (heartbeatTimer s) HeartbeatTimer s) \<and>
     (\<forall>i. held i ReconnectTimer s \<longrightarrow> i = reconnectTimer s)"

lemma timers_heldI:
  "timers_ok (ses_timers s) \<Longrightarrow> (reconnectTimer s \<noteq> 0 \<Longrightarrow> held (reconnectTimer s) ReconnectTimer s) \<Longrightarrow>
   (heartbeatTimer s \<noteq> 0 \<Longrightarrow> held (heartbeatTimer s) HeartbeatTimer s) \<Longrightarrow>
   (\<And>i. held i ReconnectTimer s \<Longrightarrow> i = reconnectTimer s) \<Longrightarrow> timers_held s"
  by (auto simp: timers_held_def)

lemma timers_heldD:
  assumes "timers_held s"
  shows "timers_ok (ses_timers s)" and "reconnectTimer s \<noteq> 0 \<Longrightarrow> held (reconnectTimer s) ReconnectTimer s"
    and "heartbeatTimer s \<noteq> 0 \<Longrightarrow> held (heartbeatTimer s) HeartbeatTimer s" and "held i ReconnectTimer s \<Longrightarrow> i = reconnectTimer s"
  using assms by (auto simp: timers_held_def)

lemma addTimer_fresh: "timers_ok q \<Longrightarrow> addTimer now d k q = (q', i) \<Longrightarrow> timers_ok q' \<and> 0 < i"
  using addTimer_ok[of q now d k] addTimer_id_pos[of q now d k] by simp

lemma held_kinds: "timers_ok (ses_timers s) \<Longrightarrow> held i k s \<Longrightarrow> held i k' s \<Longrightarrow> k = k'"
  using timer_ids_unique by (fastforce simp: held_def)

lemma held_cong: "ses_timers s' = ses_timers s \<Longrightarrow> held i k s' = held i k s"
  by (simp add: held_def)

lemma timers_held_cong:
  "ses_timers s' = ses_timers s \<Longrightarrow> reconnectTimer s' = reconnectTimer s \<Longrightarrow> heartbeatTimer s' = heartbeatTimer s \<Longrightarrow>
   timers_held s' = timers_held s"
  by (simp add: timers_held_def held_def)

lemma armHeartbeat_held: "timers_held s \<Longrightarrow> timers_held (armHeartbeat e s) \<and> heartbeatTimer (armHeartbeat e s) \<noteq> 0"
proof -
  assume a: "timers_held s"
  obtain q i where q: "addTimer (we_now e) (pingIntervalMs (ses_options s)) HeartbeatTimer (ses_timers s) = (q, i)" by fastforce
  let ?s = "s\<lparr>ses_timers := q, heartbeatTimer := i\<rparr>"
  have h: "held j k ?s \<longleftrightarrow> j = i \<and> k = HeartbeatTimer \<or> held j k s" for j k
    using q by (auto simp: held_def addTimer_def Let_def)
  have "timers_ok q \<and> 0 < i" by (rule addTimer_fresh[OF timers_heldD(1)[OF a] q])
  moreover have "timers_held ?s"
  proof (rule timers_heldI)
    show "j = reconnectTimer ?s" if "held j ReconnectTimer ?s" for j using that h timers_heldD(4)[OF a, of j] by simp
  qed (use calculation timers_heldD(2)[OF a] h in auto)
  ultimately show ?thesis by (simp add: armHeartbeat_def q)
qed

lemma scheduleReconnect_held: "timers_held s \<Longrightarrow> timers_held (scheduleReconnect e s)"
proof (cases "\<not> running s \<or> reconnectTimer s \<noteq> 0")
  case False
  assume a: "timers_held s"
  obtain q i where q: "addTimer (we_now e) (nextDelayMs s) ReconnectTimer (ses_timers s) = (q, i)" by fastforce
  let ?s = "s\<lparr>nextDelayMs := min (nextDelayMs s * 2) (reconnectMaxDelayMs (ses_options s)), ses_timers := q, reconnectTimer := i\<rparr>"
  have h: "held j k ?s \<longleftrightarrow> j = i \<and> k = ReconnectTimer \<or> held j k s" for j k
    using q by (auto simp: held_def addTimer_def Let_def)
  have i: "timers_ok q \<and> 0 < i" by (rule addTimer_fresh[OF timers_heldD(1)[OF a] q])
  have none: "\<not> held j ReconnectTimer s" for j
  proof
    assume "held j ReconnectTimer s"
    then have "held 0 ReconnectTimer s" using timers_heldD(4)[OF a] False by auto
    then show False using timers_heldD(1)[OF a] by (auto simp: held_def timers_ok_def)
  qed
  have "timers_held ?s" by (rule timers_heldI) (use i none timers_heldD(3)[OF a] h in auto)
  then show ?thesis using False by (simp add: scheduleReconnect_def q)
qed (simp add: scheduleReconnect_def)

lemma cancelled_held:
  assumes "timers_held s" and "held i k s" and "reconnectTimer s' = (if k = ReconnectTimer then 0 else reconnectTimer s)"
    and "heartbeatTimer s' = (if k = HeartbeatTimer then 0 else heartbeatTimer s)" and "ses_timers s' = cancelTimer i (ses_timers s)"
  shows "timers_held s'"
proof (rule timers_heldI)
  have h: "held j k' s' \<longleftrightarrow> j \<noteq> i \<and> held j k' s" for j k' by (auto simp: held_def cancelTimer_def assms(5))
  have other: "j \<noteq> i" if "held j k' s" "k' \<noteq> k" for j k' using that assms(2) held_kinds[OF timers_heldD(1)[OF assms(1)], of i k k'] by auto
  show "timers_ok (ses_timers s')" using timers_heldD(1)[OF assms(1)] by (simp add: assms(5) cancelTimer_ok)
  show "held (reconnectTimer s') ReconnectTimer s'" if "reconnectTimer s' \<noteq> 0"
    using that assms(3) h other timers_heldD(2)[OF assms(1)] by (auto split: if_splits)
  show "held (heartbeatTimer s') HeartbeatTimer s'" if "heartbeatTimer s' \<noteq> 0"
    using that assms(4) h other timers_heldD(3)[OF assms(1)] by (auto split: if_splits)
  show "j = reconnectTimer s'" if "held j ReconnectTimer s'" for j
    using that h[of j] timers_heldD(4)[OF assms(1), of j] timers_heldD(4)[OF assms(1), of i] assms(2,3) by (auto split: if_splits)
qed

lemma disarm_reconnect_held: "timers_held s \<Longrightarrow> timers_held (disarm_reconnect s)"
  by (cases "reconnectTimer s = 0") (auto simp: disarm_reconnect_def dest: timers_heldD(2) intro: cancelled_held[of s "reconnectTimer s" ReconnectTimer])

lemma disarm_heartbeat_held: "timers_held s \<Longrightarrow> timers_held (disarm_heartbeat s)"
  by (cases "heartbeatTimer s = 0") (auto simp: disarm_heartbeat_def dest: timers_heldD(3) intro: cancelled_held[of s "heartbeatTimer s" HeartbeatTimer])

lemma ses_disarm_held: "timers_held s \<Longrightarrow> timers_held (ses_disarm s)"
  by (simp add: ses_disarm_def disarm_heartbeat_held disarm_reconnect_held)

section \<open>Every step keeps the session\<close>

definition parts_held :: "ws_session \<Rightarrow> bool" where
  "parts_held s \<longleftrightarrow> timers_held s \<and> tls_inv (ws_stream (ws s))"

lemma sendFrame_inv: "sendFrame e op pl w = ((w', cs), ok) \<Longrightarrow> tls_inv (ws_stream w) \<Longrightarrow> tls_inv (ws_stream w')"
  by (auto simp: sendFrame_def Let_def split: if_splits prod.splits dest: tls_send_inv)

lemma ws_fail_inv: "tls_inv (ws_stream w) \<Longrightarrow> tls_inv (ws_stream (fst (ws_fail r w)))"
  by (simp add: ws_fail_def tls_close_inv)

lemma data_inv: "tls_inv (ws_stream w) \<Longrightarrow> tls_inv (ws_stream (fst (ws_onTlsData sha1 bytes w)))"
  by (auto simp: ws_onTlsData_def handleUpgradeResponse_def ws_feed_def ws_fail_def Let_def tls_close_inv split: option.split)

lemma deliver_inv: "tls_inv (ws_stream w) \<Longrightarrow> tls_inv (ws_stream (fst (ws_deliver e ev w)))"
proof (cases ev)
  case (WsControl op pl)
  assume a: "tls_inv (ws_stream w)"
  obtain w1 cs1 ok1 where 1: "sendFrame e opPong pl w = ((w1, cs1), ok1)" using prod.exhaust by metis
  obtain w2 cs2 ok2 where 2: "sendFrame e opClose (take 2 pl) w = ((w2, cs2), ok2)" using prod.exhaust by metis
  show ?thesis using a sendFrame_inv[OF 1 a] sendFrame_inv[OF 2 a] by (simp add: ws_deliver_def WsControl onWsControl_def 1 2)
qed (simp add: ws_deliver_def)

lemma turn_inv: "tls_inv (ws_stream w) \<Longrightarrow> tls_inv (ws_stream (fst (decode_turn e ep w)))"
  using deliver_inv[of "w\<lparr>ws_decoder := d\<rparr>" for d]
  by (auto simp: decode_turn_def case_prod_beta split: prod.split option.split loop_exit.split list.split)

lemma connected_inv: "tls_inv (ws_stream w) \<Longrightarrow> tls_inv (ws_stream (fst (ws_onTlsConnected e w)))"
proof (cases "we_random e")
  case (Some bs)
  assume a: "tls_inv (ws_stream w)"
  obtain t cs ok where t: "tls_send (we_sys e) (bytes_of (upgrade_request (w\<lparr>handshakeKey := base64Encode bs\<rparr>))) (ws_stream w) = ((t, cs), ok)"
    using prod.exhaust by metis
  show ?thesis using Some t tls_send_inv[OF t a] by (simp add: ws_onTlsConnected_def Let_def)
qed (simp add: ws_onTlsConnected_def ws_fail_inv)

lemma ws_step_inv: "tls_inv (ws_stream w) \<Longrightarrow> tls_inv (ws_stream (fst (ws_step sha1 e d w)))"
  using tls_step_inv[of "we_sys e" _ "ws_stream w"]
  by (cases "(sha1, e, d, w)" rule: ws_step.cases)
    (auto simp: data_inv connected_inv ws_onTlsClosed_def ws_fail_inv ws_close_rest_def tls_close_inv turn_inv after_event_def
      feed_returns_def simp del: tls_step.simps split: prod.split)

lemma ses_send_parts: "parts_held s \<Longrightarrow> ses_send e msg ds s = (s', ds', out) \<Longrightarrow> parts_held s'"
  using timers_held_cong[of "s\<lparr>ws := w\<rparr>" s for w]
  by (auto simp: ses_send_def sendText_def parts_held_def split: prod.splits dest: sendFrame_inv)

lemma ses_close_parts:
  assumes "parts_held s" and "ses_close e rest s = (s', ds', out)"
  shows "parts_held s'"
proof -
  obtain w wcs ok where w: "sendFrame e opClose [0x03, 0xE8] (ws s) = ((w, wcs), ok)" using prod.exhaust by metis
  show ?thesis using assms w sendFrame_inv[OF w] timers_held_cong[of "s\<lparr>ws := v\<rparr>" s for v]
    by (cases "ws_state (ws s) = WsOpen") (auto simp: ses_close_def ws_close_def parts_held_def)
qed

lemma ses_connect_parts: 
  assumes "parts_held s" and "linked (ws s)"
  shows "parts_held (ses_connect e s)"
proof -
  obtain w ok where w: "ws_connect e (ses_url (ses_options s)) (ws s) = (w, ok)" by fastforce
  have "parts_held (s\<lparr>ws := w\<rparr>)"
    using assms ws_connect_linked(4)[OF assms(2) w] timers_held_cong[of "s\<lparr>ws := w\<rparr>" s] by (simp add: parts_held_def)
  then show ?thesis using scheduleReconnect_held[of "s\<lparr>ws := w\<rparr>" e]
    by (simp add: ses_connect_def w parts_held_def scheduleReconnect_fields)
qed

lemma parts_held_cong:
  "ses_timers s' = ses_timers s \<Longrightarrow> reconnectTimer s' = reconnectTimer s \<Longrightarrow> heartbeatTimer s' = heartbeatTimer s \<Longrightarrow>
   ws s' = ws s \<Longrightarrow> parts_held s' = parts_held s"
  using timers_held_cong[of s' s] by (simp add: parts_held_def)

lemma ses_disarm_parts: "parts_held s \<Longrightarrow> parts_held (ses_disarm s)"
  by (simp add: parts_held_def ses_disarm_held ses_disarm_fields)

lemma timer_fires_parts:
  assumes "parts_held s" and "linked (ws s)" and "ses_timer_fires e i s = (s', ds, out)"
  shows "parts_held s'"
proof (cases "filter (\<lambda>t. fst (snd t) = i) (timers (ses_timers s))")
  case (Cons x xs)
  obtain d j k where x: "x = (d, j, k)" by (cases x)
  have "x \<in> set (filter (\<lambda>t. fst (snd t) = i) (timers (ses_timers s)))" using Cons by simp
  then have m: "held i k s" by (auto simp: x held_def)
  let ?s = "s\<lparr>ses_timers := cancelTimer i (ses_timers s)\<rparr>"
  show ?thesis
  proof (cases k)
    case ReconnectTimer
    have p: "parts_held (?s\<lparr>reconnectTimer := 0\<rparr>)" "parts_held (?s\<lparr>reconnectTimer := 0, reconnects := reconnects s + 1\<rparr>)"
      using assms(1) cancelled_held[OF _ m] by (simp_all add: parts_held_def ReconnectTimer)
    then show ?thesis using assms(2,3) Cons x ReconnectTimer ses_connect_parts[OF p(2), of e]
      by (auto simp: ses_timer_fires_def reconnect_fires_def Let_def split: if_splits)
  next
    case HeartbeatTimer
    have p: "parts_held (?s\<lparr>heartbeatTimer := 0\<rparr>)"
      using assms(1) cancelled_held[OF _ m] by (simp add: parts_held_def HeartbeatTimer)
    then show ?thesis using assms(3) Cons x HeartbeatTimer ses_close_parts[OF p] ses_send_parts[OF p]
      by (auto simp: ses_timer_fires_def heartbeat_fires_def Let_def split: if_splits)
  qed
qed (use assms in \<open>simp add: ses_timer_fires_def\<close>)

lemma reconnectNow_parts: "parts_held s \<Longrightarrow> reconnectNow e r s = (s', ds, out) \<Longrightarrow> parts_held s'"
proof -
  assume a: "parts_held s" "reconnectNow e r s = (s', ds, out)"
  let ?s = "s\<lparr>nextDelayMs := reconnectMinDelayMs (ses_options s)\<rparr>"
  have p: "parts_held ?s" using a(1) parts_held_cong[of ?s s] by simp
  have "parts_held (?s\<lparr>ws := ws_close_rest (ws s)\<rparr>)"
    using p timers_held_cong[of "?s\<lparr>ws := ws_close_rest (ws s)\<rparr>" ?s] by (simp add: parts_held_def ws_close_rest_def tls_close_inv)
  from ses_disarm_parts[OF this] have "parts_held (scheduleReconnect e (ses_disarm (?s\<lparr>ws := ws_close_rest (ws s)\<rparr>)))"
    by (simp add: parts_held_def scheduleReconnect_held scheduleReconnect_fields)
  then show "parts_held s'" using a ses_close_parts[OF p] by (auto simp: reconnectNow_def Let_def split: if_splits)
qed

lemma ses_step_parts:
  assumes "parts_held s" and "neutral d \<Longrightarrow> linked (ws s)" and "ses_step sha1 e d s = (s', ds, out)"
  shows "parts_held s'"
proof -
  have u: "parts_held (s\<lparr>subscriptions := x\<rparr>) = parts_held s" "parts_held (s\<lparr>lastRxMs := n, nextDelayMs := k\<rparr>) = parts_held s"
    "parts_held (s\<lparr>running := b\<rparr>) = parts_held s" "parts_held (s\<lparr>lastRxMs := n\<rparr>) = parts_held s"
    "parts_held (s\<lparr>nextDelayMs := k, lastRxMs := n\<rparr>) = parts_held s" "parts_held (s\<lparr>running := b, nextDelayMs := k\<rparr>) = parts_held s" for x n k b
    by (rule parts_held_cong; simp)+
  have w: "parts_held (s\<lparr>ws := v\<rparr>)" if "tls_inv (ws_stream v)" for v
    using assms(1) that timers_held_cong[of "s\<lparr>ws := v\<rparr>" s] by (simp add: parts_held_def)
  have c: "ws_step sha1 e c (ws s) = (v, cs) \<Longrightarrow> parts_held (s\<lparr>ws := v\<rparr>)" for c v cs
    using ws_step_inv[of "ws s" sha1 e c] assms(1) w[of v] by (simp add: parts_held_def)
  have st: "parts_held (s\<lparr>running := False\<rparr>)" using assms(1) u(3) by simp
  have hb: "parts_held (armHeartbeat e s)" "parts_held (scheduleReconnect e s)"
    using assms(1) armHeartbeat_held[of s e] by (simp_all add: parts_held_def scheduleReconnect_held scheduleReconnect_fields)
      (simp_all add: armHeartbeat_def split: prod.split)
  have sta: "linked (ws s) \<Longrightarrow> parts_held (ses_start e s)"
    using assms(1) ses_connect_parts[of "s\<lparr>running := True, nextDelayMs := reconnectMinDelayMs (ses_options s)\<rparr>" e] u(6) by (simp add: ses_start_def)
  show ?thesis using assms
    by (cases "(sha1, e, d, s)" rule: ses_step.cases)
      (auto simp: u hb sta onWsOpen_def onWsText_def onWsClosed_def ses_disarm_parts ses_stop_def subscribe_def unsubscribe_def
        clearSubscriptions_def simp del: ws_step.simps split: prod.splits if_splits
        dest: c ses_send_parts timer_fires_parts reconnectNow_parts ses_close_parts[OF ses_disarm_parts[OF st]])
qed

lemma calm_timers: "calm cs (s\<lparr>ses_timers := q\<rparr>) = calm cs s"
  by (simp add: calm_def armed_def)

lemma timer_fires_stack_ok:
  assumes "calm cs s" and "beating cs s" and "timers_ok (ses_timers s)" and "ses_timer_fires e i s = (s', ds, out)"
  shows "stack_ok (ds @ cs) s'"
proof (cases "filter (\<lambda>t. fst (snd t) = i) (timers (ses_timers s))")
  case Nil
  then show ?thesis using assms calm_stack_ok[OF assms(1), of "[]"] by (auto simp: ses_timer_fires_def)
next
  case (Cons x xs)
  obtain d j k where x: "x = (d, j, k)" by (cases x)
  show ?thesis using assms(4) Cons x reconnect_fires_stack_ok[OF assms(1,3,2), of e i]
      heartbeat_fires_stack_ok[of cs "s\<lparr>ses_timers := cancelTimer i (ses_timers s)\<rparr>" e s' ds out] assms(1)
    by (cases k) (auto simp: ses_timer_fires_def calm_timers)
qed

text \<open>The calls whose frames are neutral: the owner's, the loop's and the inner ones.\<close>

lemma neutral_stack_ok:
  assumes "stack_ok (d # cs) s" and "neutral d" and "parts_held s" and "ses_step sha1 e d s = (s', ds, out)"
    and "\<And>c. d \<noteq> OnWs c"
  shows "stack_ok (ds @ cs) s'"
proof -
  have c: "calm cs s" and b: "beating (d # cs) s" using stack_ok_calm[OF assms(1,2)] by simp_all
  have t: "timers_ok (ses_timers s)" "timers_ok (ses_timers (ses_disarm s))"
    using assms(3) ses_disarm_parts[OF assms(3)] by (simp_all add: parts_held_def timers_held_def)
  have cs: "calm cs (ses_disarm (s\<lparr>running := False\<rparr>))"
    using c by (simp add: calm_def ses_disarm_fields)
  have same: "beating cs s \<Longrightarrow> s' = s\<lparr>subscriptions := x\<rparr> \<Longrightarrow> list_all neutral ds \<Longrightarrow> stack_ok (ds @ cs) s'" for x
    using calm_stack_ok[of cs "s\<lparr>subscriptions := x\<rparr>" ds] c by (auto simp: calm_def armed_def beating_def)
  have send: "beating cs s \<Longrightarrow> list_all neutral ds' \<Longrightarrow> ses_send e m ds' s = (s', ds, out) \<Longrightarrow> stack_ok (ds @ cs) s'" for m ds'
    using ses_send_stack_ok[OF c, of ds' e m s' ds out] by (auto simp: beating_def)
  have bt: "\<not> beats d \<Longrightarrow> beating cs s" using b by (simp add: beating_def)
  have arm: "stack_ok cs (armHeartbeat e s)"
    using c armHeartbeat_held[of s e] assms(3) calm_stack_ok[of cs "armHeartbeat e s" "[]"]
    by (auto simp: calm_def beating_def parts_held_def armed_def armHeartbeat_def split: prod.splits)
  have keep: "s = s\<lparr>subscriptions := subscriptions s\<rparr>" by simp
  show ?thesis
  proof (cases d)
    case Stop
    then show ?thesis using assms(4) ses_close_stack_ok[OF cs, of "[]"] by (simp add: ses_stop_def ses_disarm_fields)
  next
    case ArmHeartbeat
    then show ?thesis using assms(4) arm by auto
  next
    case NotifyOpen
    then show ?thesis using bt assms(4) listener_stack_ok[OF c] by auto
  next
    case (UnsubscribeEach l)
    then show ?thesis using bt assms(4) send[of "[UnsubscribeEach (tl l)]"] calm_stack_ok[OF c, of "[]"] by (cases l) auto
  next
    case (Resubscribe l)
    then show ?thesis using bt assms(4) send[of "[Resubscribe (tl l)]"] calm_stack_ok[OF c, of "[]"] by (cases l) auto
  next
    case Start
    then show ?thesis using bt assms(4) start_stack_ok[OF c t(1)] by auto
  next
    case (SesTimer i)
    then show ?thesis using bt assms(4) timer_fires_stack_ok[OF c _ t(1)] by auto
  next
    case (ReconnectNow r)
    then show ?thesis using bt assms(4) reconnectNow_stack_ok[OF c t(1) _ _ t(2)] by auto
  next
    case (Subscribe x)
    then show ?thesis using bt assms(4) send[of "[PushSubscription x]"] same[of "subscriptions s"] by (auto simp: subscribe_def split: if_splits)
  next
    case (Unsubscribe x)
    then show ?thesis using bt assms(4) send[of "[EraseSubscription x]"] same[of "subscriptions s"] by (auto simp: unsubscribe_def split: if_splits)
  next
    case ClearSubscriptions
    then show ?thesis using bt assms(4) same[of "[]"] by (auto simp: clearSubscriptions_def split: if_splits)
  next
    case (SendRaw x)
    then show ?thesis using bt assms(4) send[of "[]"] by auto
  next
    case (PushSubscription x)
    then show ?thesis using bt assms(4) same by auto
  next
    case (EraseSubscription x)
    then show ?thesis using bt assms(4) same by auto
  qed (use assms(2,5) in auto)
qed

lemma ws_call_stack_ok:
  assumes "stack_ok (OnWs c # cs) s" and "ses_step sha1 e (OnWs c) s = (s', ds, out)"
  shows "stack_ok (ds @ cs) s'"
proof -
  consider (opened) "c = WsNotify WsOpened" | (msg) m where "c = WsNotify (WsText m)" | (ended) r where "c = WsNotify (WsEnded r)"
    | (rest) "c = WsCloseRest" | (tls) r where "c = OnTls (Callback (TlsClosed r))"
    | (other) "c \<noteq> WsCloseRest" "\<And>ev. c \<noteq> WsNotify ev" "\<And>r. c \<noteq> OnTls (Callback (TlsClosed r))"
    by (metis ws_notice.exhaust)
  then show ?thesis
  proof cases
    case opened
    then have "neutral (OnWs c)" by simp
    from stack_ok_calm[OF assms(1) this] have "calm cs s" "beating (OnWs c # cs) s" by simp_all
    then have k: "calm cs (s\<lparr>nextDelayMs := reconnectMinDelayMs (ses_options s), lastRxMs := we_now e\<rparr>)"
      by (simp add: calm_def armed_def)
    then show ?thesis using assms(2) opened calm_stack_ok[OF k, of "[Resubscribe (subscriptions s), ArmHeartbeat, NotifyOpen]"]
      by (auto simp: onWsOpen_def beating_def)
  next
    case msg
    then have "neutral (OnWs c)" by simp
    from stack_ok_calm[OF assms(1) this] have "calm cs s" "beating (OnWs c # cs) s" by simp_all
    then have "calm cs (s\<lparr>lastRxMs := we_now e\<rparr>)" "beating cs (s\<lparr>lastRxMs := we_now e\<rparr>)"
      using msg by (simp_all add: calm_def armed_def beating_def)
    then show ?thesis using assms(2) msg listener_stack_ok by (auto simp: onWsText_def)
  next
    case ended
    then show ?thesis using assms ended_stack_ok[OF assms(1)] by (auto simp: onWsClosed_def)
  next
    case rest
    then show ?thesis using assms close_rest_stack_ok[of cs s] by auto
  next
    case tls
    then show ?thesis using assms tls_ended_stack_ok[of r cs s sha1 e] by auto
  next
    case other
    obtain w wcs where w: "ws_step sha1 e c (ws s) = (w, wcs)" by fastforce
    have "\<not> ws_urgent c \<and> linked (ws s) \<or> ws_ready c (ws s)"
      using assms(1) other(1) settled_Cons[of "OnWs c" cs] by (auto simp: stack_ok_def in_turn_def)
    then have m: "ws_moves (ws s) (w, wcs)" using ws_step_moves[of c "ws s" sha1 e] other w by simp
    have g1: "\<not> guards (OnWs c)" using other by (cases "OnWs c" rule: guards.cases) auto
    have g2: "\<not> beats (OnWs c)" using other by (cases "OnWs c" rule: beats.cases) auto
    have g3: "settled cs" using assms(1) other(1) settled_Cons[of "OnWs c" cs] by (auto simp: stack_ok_def in_turn_def)
    have k: "covered a b (OnWs c # cs) = covered a b cs" for a b
      using other by (cases "(a, b, OnWs c # cs)" rule: covered.cases) auto
    have "s' = s\<lparr>ws := w\<rparr>" "ds = map OnWs wcs"
      using assms(2) other w by (cases "(sha1, e, OnWs c, s)" rule: ses_step.cases; auto)+
    then show ?thesis using moves_stack_ok[of cs "s\<lparr>ws := w\<rparr>" "ws s" "[]" wcs] m g1 g2 g3 assms(1)
      by (auto simp: stack_ok_def armed_def k)
  qed
qed

definition session_ok :: "ses_call list \<Rightarrow> ws_session \<Rightarrow> bool" where
  "session_ok cs s \<longleftrightarrow> stack_ok cs s \<and> parts_held s"

lemma session_ok_step:
  assumes "session_ok (d # cs) s" and "ses_step sha1 e d s = (s', ds, out)"
  shows "session_ok (ds @ cs) s'"
proof -
  have s: "stack_ok (d # cs) s" and p: "parts_held s" using assms(1) by (simp_all add: session_ok_def)
  have "linked (ws s)" if "neutral d" using stack_ok_calm(1)[OF s that] by (simp add: calm_def)
  then have "parts_held s'" using ses_step_parts[OF p _ assms(2)] by blast
  moreover have "stack_ok (ds @ cs) s'"
  proof (cases "\<exists>c. d = OnWs c")
    case True
    then show ?thesis using ws_call_stack_ok s assms(2) by blast
  next
    case False
    show ?thesis
    proof (cases "neutral d")
      case True
      then show ?thesis using neutral_stack_ok[OF s True p assms(2)] False by blast
    next
      case nn: False
      then consider (ret) "d = SessionReturns" | (sch) "d = ScheduleReconnect" | (ended) r where "d = Ended r"
        using False by (cases d) auto
      then show ?thesis
      proof cases
        case ret
        then show ?thesis using returns_stack_ok s assms(2) by auto
      next
        case sch
        then show ?thesis using scheduled_stack_ok[of cs s e] s p assms(2) by (auto simp: parts_held_def timers_held_def)
      next
        case ended
        then show ?thesis using ended_stack_ok[OF s] assms(2) by (auto simp: onWsClosed_def)
      qed
    qed
  qed
  ultimately show ?thesis by (simp add: session_ok_def)
qed

lemma offered_neutral: "ses_offered d cs s \<Longrightarrow> neutral d \<and> \<not> beats d"
  by (cases "(d, cs, s)" rule: ses_offered.cases) auto

lemma session_ok_call:
  assumes "session_ok cs s" and "cs = [] \<or> hd cs = SessionReturns" and "ses_offered d cs s"
  shows "session_ok (d # cs) s"
proof -
  have n: "neutral d" using offered_neutral[OF assms(3)] by simp
  have "\<not> (\<exists>x xs. cs = x # xs \<and> urgent x)" using assms(2) by auto
  then have "settled cs" "linked (ws s)" using assms(1) by (auto simp: session_ok_def stack_ok_def in_turn_def)
  moreover have "covered True False cs" using assms(2) by (cases cs) auto
  ultimately have "stack_ok ([d] @ cs) s" using assms(1) n
    by (intro calm_stack_ok) (auto simp: session_ok_def stack_ok_def calm_def beating_def)
  then show ?thesis using assms(1) by (simp add: session_ok_def)
qed

lemma new_session_ok: "session_ok [] (new_session seed wall opts)"
  by (simp add: session_ok_def stack_ok_def in_turn_def new_session_def new_ws_client_def linked_def new_tls_def parts_held_def
      timers_held_def held_def new_timers_ok new_tls_inv[unfolded new_tls_def]) (simp add: new_timers_def)

lemma ses_run_ok: "ses_run sha1 opts cs s log \<Longrightarrow> session_ok cs s"
  by (induction rule: ses_run.induct) (auto intro: new_session_ok session_ok_call session_ok_step)

end
