(* ===== verification/HL_SessionRuns.thy ===== *)
theory HL_SessionRuns
  imports HL_Session
begin

text \<open>
  Runs of the session of \<open>HL_Session\<close>: scripted runs, the backoff of the reconnects, the replay of the subscriptions,
  and the properties of every run.
\<close>

section \<open>Scripted runs\<close>

datatype ses_script = Outside ses_call | Run nat ws_env

type_synonym ses_config = "ses_call list \<times> ws_session \<times> ses_output list"

text \<open>The calls of the stack, each in an environment of its own.\<close>

fun ses_exec :: "(string \<Rightarrow> u8 list) \<Rightarrow> ws_env list \<Rightarrow> ses_config \<Rightarrow> ses_config" where
  "ses_exec sha1 (e # es) (d # cs, s, log) =
     (case ses_step sha1 e d s of (s', ds, out) \<Rightarrow> ses_exec sha1 es (ds @ cs, s', log @ out))"
| "ses_exec sha1 es cfg = cfg"

fun ses_play :: "(string \<Rightarrow> u8 list) \<Rightarrow> ses_script list \<Rightarrow> ses_config \<Rightarrow> ses_config option" where
  "ses_play sha1 [] cfg = Some cfg"
| "ses_play sha1 (Outside d # ss) (cs, s, log) =
     (if (cs = [] \<or> hd cs = SessionReturns) \<and> ses_offered d cs s then ses_play sha1 ss (d # cs, s, log) else None)"
| "ses_play sha1 (Run n e # ss) cfg = ses_play sha1 ss (ses_exec sha1 (replicate n e) cfg)"

lemma ses_exec_run:
  "ses_exec sha1 es (cs, s, log) = (cs', s', log') \<Longrightarrow> ses_run sha1 opts cs s log \<Longrightarrow> ses_run sha1 opts cs' s' log'"
proof (induction sha1 es "(cs, s, log)" arbitrary: cs s log rule: ses_exec.induct)
  case (1 sha1 e es d cs s log)
  obtain s1 ds out where st: "ses_step sha1 e d s = (s1, ds, out)" by (cases "ses_step sha1 e d s")
  show ?case using "1.hyps"[OF st[symmetric] refl] "1.prems"(1) ses_run.step[OF "1.prems"(2) st] by (simp add: st)
qed auto

lemma ses_play_run:
  "ses_play sha1 ss (cs, s, log) = Some (cs', s', log') \<Longrightarrow> ses_run sha1 opts cs s log \<Longrightarrow> ses_run sha1 opts cs' s' log'"
proof (induction ss arbitrary: cs s log)
  case (Cons x ss)
  show ?case
  proof (cases x)
    case (Outside d)
    then have "ses_play sha1 ss (d # cs, s, log) = Some (cs', s', log')" "ses_run sha1 opts (d # cs) s log"
      using Cons.prems by (auto split: if_splits intro: ses_run.call)
    then show ?thesis by (rule Cons.IH)
  next
    case (Run n e)
    obtain cs1 s1 log1 where st: "ses_exec sha1 (replicate n e) (cs, s, log) = (cs1, s1, log1)"
      by (cases "ses_exec sha1 (replicate n e) (cs, s, log)")
    show ?thesis using Cons.IH[of cs1 s1 log1] ses_exec_run[OF st Cons.prems(2)] Cons.prems(1) Run by (simp add: st)
  qed
qed simp

definition ex_ws_options :: wsSessionOptions where
  "ex_ws_options = \<lparr>ses_url = ''ws://h/'', ses_ws = \<lparr>ws_tls = \<lparr>connectTimeoutMs = 5000, maxOutboxBytes = 0\<rparr>, maxMessageBytes = 100, extraHeaders = []\<rparr>,
     pingIntervalMs = 20, staleTimeoutMs = 60, reconnectMinDelayMs = 1, reconnectMaxDelayMs = 10\<rparr>"

definition ex_ws_env :: "write_result list \<Rightarrow> u8 read_result \<Rightarrow> ws_env" where
  "ex_ws_env writes r = \<lparr>we_now = 7, we_sys = \<lparr>sys_resolve = Some [16], sys_attempt = (\<lambda>_. Started), sys_error = None, sys_context = None,
     sys_handshake = HsDone, sys_writes = writes, sys_read = r\<rparr>, we_random = Some [1]\<rparr>"

definition ex_sha1 :: "string \<Rightarrow> u8 list" where
  "ex_sha1 s = []"

definition ses_reaches :: "ses_script list \<Rightarrow> (ws_session \<Rightarrow> ses_output list \<Rightarrow> bool) \<Rightarrow> bool" where
  "ses_reaches ss P =
     (case ses_play ex_sha1 ss ([], new_session (Some 1) 0 ex_ws_options, []) of
        None \<Rightarrow> False | Some (cs, s, log) \<Rightarrow> cs = [] \<and> P s log)"

lemma ses_reaches_run:
  assumes "ses_reaches ss P"
  obtains s log where "ses_run ex_sha1 ex_ws_options [] s log" "P s log"
proof (cases "ses_play ex_sha1 ss ([], new_session (Some 1) 0 ex_ws_options, [])")
  case (Some cfg)
  obtain cs s log where "cfg = (cs, s, log)" by (cases cfg)
  then have r: "ses_play ex_sha1 ss ([], new_session (Some 1) 0 ex_ws_options, []) = Some ([], s, log)" "P s log"
    using assms Some by (simp_all add: ses_reaches_def)
  from ses_play_run[OF r(1) ses_run.start] r(2) show thesis by (rule that)
qed (use assms in \<open>simp add: ses_reaches_def\<close>)

definition dial_script :: "ses_script list" where
  "dial_script =
     [Outside Start, Run 1 (ex_ws_env [] ReadAgain), Outside (OnWs (OnTls (IoEvent EPOLLOUT))), Run 9 (ex_ws_env [] ReadAgain)]"

definition ex_upgrade :: string where
  "ex_upgrade = ''HTTP/1.1 101'' @ crlf @ ''Sec-WebSocket-Accept:'' @ crlf @ crlf"

definition broken_script :: "ses_script list" where
  "broken_script = dial_script @
     [Outside (Subscribe ''x''), Run 9 (ex_ws_env [] ReadAgain), Outside (OnWs (OnTls (IoEvent EPOLLIN))), Run 1 (ex_ws_env [] (ReadData (bytes_of ex_upgrade))),
      Run 2 (ex_ws_env [] ReadAgain), Run 30 (ex_ws_env [WriteFails ''broken pipe''] ReadAgain)]"

definition open_script :: "ses_script list" where
  "open_script = dial_script @
     [Outside (Subscribe ''x''), Run 9 (ex_ws_env [] ReadAgain), Outside (OnWs (OnTls (IoEvent EPOLLIN))),
      Run 1 (ex_ws_env [] (ReadData (bytes_of ex_upgrade))), Run 30 (ex_ws_env [Wrote 1000] ReadAgain)]"

lemma open_run: "\<exists>s log. ses_run ex_sha1 ex_ws_options [] s log \<and>
    (running s \<and> ws_state (ws s) = WsOpen \<and> reconnectTimer s = 0 \<and> log = [TextHanded (subscribe_text ''x''), SessionOpen])"
proof -
  have "ses_reaches open_script (\<lambda>s log. running s \<and> ws_state (ws s) = WsOpen \<and> reconnectTimer s = 0 \<and>
    log = [TextHanded (subscribe_text ''x''), SessionOpen])" by code_simp
  then show ?thesis by (rule ses_reaches_run) (intro exI, rule conjI)
qed

section \<open>Backoff\<close>

text \<open>
  The calls that set the delay back: a connection that opens, and the owner's \<open>start\<close> and \<open>reconnectNow\<close>.
\<close>

fun resets :: "ses_call \<Rightarrow> ws_session \<Rightarrow> bool" where
  "resets Start s = (\<not> running s)"
| "resets (ReconnectNow reason) s = running s"
| "resets (OnWs (WsNotify WsOpened)) s = True"
| "resets d s = False"

text \<open>The delay of the reconnect timer that a step has armed.\<close>

definition new_delay :: "ws_env \<Rightarrow> ws_session \<Rightarrow> ws_session \<Rightarrow> int list" where
  "new_delay e s s' =
     (if reconnectTimer s' = 0 \<or> reconnectTimer s' = reconnectTimer s then []
      else map (\<lambda>t. fst t - we_now e) (filter (\<lambda>t. fst (snd t) = reconnectTimer s') (timers (ses_timers s'))))"

text \<open>
  A stretch of a run in which nothing sets the delay back, from one stack and state to another: any calls from outside,
  any failures of the stream at any time, each step in an environment of its own. The list holds the delays of the reconnect
  timers that were armed on the way.
\<close>

inductive failing_run ::
  "(string \<Rightarrow> u8 list) \<Rightarrow> ses_call list \<Rightarrow> ws_session \<Rightarrow> int list \<Rightarrow> ses_call list \<Rightarrow> ws_session \<Rightarrow> bool"
  for sha1 cs0 s0 where
  none: "failing_run sha1 cs0 s0 [] cs0 s0"
| call: "failing_run sha1 cs0 s0 delays cs s \<Longrightarrow> cs = [] \<or> hd cs = SessionReturns \<Longrightarrow> ses_offered d cs s \<Longrightarrow>
    failing_run sha1 cs0 s0 delays (d # cs) s"
| step: "failing_run sha1 cs0 s0 delays (d # cs) s \<Longrightarrow> \<not> resets d s \<Longrightarrow> ses_step sha1 e d s = (s', ds, out) \<Longrightarrow>
    failing_run sha1 cs0 s0 (delays @ new_delay e s s') (ds @ cs) s'"

lemma failing_run_run:
  "failing_run sha1 cs s delays cs' s' \<Longrightarrow> ses_run sha1 opts cs s log \<Longrightarrow> \<exists>log'. ses_run sha1 opts cs' s' log'"
  by (induction rule: failing_run.induct) (blast intro: ses_run.call ses_run.step)+

text \<open>What a step does to the delay: nothing, or it arms the timer with it and doubles it.\<close>

definition same_delay :: "ws_session \<Rightarrow> ws_session \<Rightarrow> bool" where
  "same_delay s s' \<longleftrightarrow> ses_options s' = ses_options s \<and> nextDelayMs s' = nextDelayMs s \<and> (reconnectTimer s' = 0 \<or> reconnectTimer s' = reconnectTimer s)"

definition doubles :: "ws_env \<Rightarrow> ws_session \<Rightarrow> ws_session \<Rightarrow> bool" where
  "doubles e s s' \<longleftrightarrow> ses_options s' = ses_options s \<and> nextDelayMs s' = min (nextDelayMs s * 2) (reconnectMaxDelayMs (ses_options s)) \<and>
     new_delay e s s' = [max 0 (nextDelayMs s)]"

lemma same_delay_refl [simp]: "same_delay s s"
  by (simp add: same_delay_def)

lemma same_delay_none: "same_delay s s' \<Longrightarrow> new_delay e s s' = []"
  by (auto simp: same_delay_def new_delay_def)

lemma same_delay_fields:
  "same_delay s (s\<lparr>ws := w\<rparr>)" "same_delay s (s\<lparr>lastRxMs := x\<rparr>)" "same_delay s (s\<lparr>subscriptions := subs\<rparr>)" "same_delay s (ses_disarm s)"
  "same_delay s (armHeartbeat e s)" "same_delay s ((ses_disarm (s\<lparr>running := False\<rparr>))\<lparr>ws := w\<rparr>)"
  by (simp_all add: same_delay_def ses_disarm_def disarm_heartbeat_def disarm_reconnect_def armHeartbeat_def split: prod.split)

lemma ses_send_delay: "ses_send e m rest s = (s', ds, out) \<Longrightarrow> same_delay s s'"
  by (auto simp: ses_send_def same_delay_fields split: prod.splits)

text \<open>The timer of \<open>scheduleReconnect\<close>, after the one with the id \<open>reconnectTimer s0\<close> was taken from the queue.\<close>

lemma schedule_doubles:
  assumes "timers_ok (ses_timers s)" and "ses_options s = ses_options s0" and "nextDelayMs s = nextDelayMs s0"
    and "reconnectTimer s0 < nextTimerId (ses_timers s)"
  shows "reconnectTimer s = 0 \<or> reconnectTimer s = reconnectTimer s0 \<Longrightarrow> same_delay s0 (scheduleReconnect e s) \<or> doubles e s0 (scheduleReconnect e s)"
proof (cases "\<not> running s \<or> reconnectTimer s \<noteq> 0")
  case True
  then show "reconnectTimer s = 0 \<or> reconnectTimer s = reconnectTimer s0 \<Longrightarrow> ?thesis" using assms(2,3)
    by (auto simp: scheduleReconnect_def same_delay_def)
next
  case False
  let ?i = "nextTimerId (ses_timers s)" and ?due = "we_now e + max 0 (nextDelayMs s)"
  have i: "0 < ?i" "\<forall>t \<in> set (timers (ses_timers s)). fst (snd t) \<noteq> ?i" using assms(1) by (auto simp: timers_ok_def)
  have e: "filter (\<lambda>t. fst (snd t) = ?i) (timer_emplace d x ts) = [(d, x)]"
    if "\<forall>t \<in> set ts. fst (snd t) \<noteq> ?i" "fst x = ?i" for d ts and x :: "nat \<times> ses_timer"
    using that by (induction ts) (auto simp: filter_empty_conv)
  have "scheduleReconnect e s = s\<lparr>nextDelayMs := min (nextDelayMs s * 2) (reconnectMaxDelayMs (ses_options s)),
      ses_timers := (ses_timers s)\<lparr>nextTimerId := ?i + 1, timers := timer_emplace ?due (?i, ReconnectTimer) (timers (ses_timers s))\<rparr>,
      reconnectTimer := ?i\<rparr>"
    using False by (auto simp: scheduleReconnect_def addTimer_def Let_def max_def)
  then have "doubles e s0 (scheduleReconnect e s)"
    using assms(2-4) i e[OF i(2)] by (simp add: doubles_def new_delay_def)
  then show ?thesis by simp
qed

lemma held_id: "timers_held s \<Longrightarrow> reconnectTimer s < nextTimerId (ses_timers s)"
  using timers_heldD(1,2)[of s] by (cases "reconnectTimer s = 0") (auto simp: held_def timers_ok_def)

lemma connect_delay:
  assumes "timers_ok (ses_timers s)" and "ses_options s = ses_options s0" and "nextDelayMs s = nextDelayMs s0" and "reconnectTimer s = 0"
    and "reconnectTimer s0 < nextTimerId (ses_timers s)"
  shows "same_delay s0 (ses_connect e s) \<or> doubles e s0 (ses_connect e s)"
proof (cases "ws_connect e (ses_url (ses_options s)) (ws s)")
  case (Pair w ok)
  have "ses_connect e s = (if ok then s\<lparr>ws := w\<rparr> else scheduleReconnect e (s\<lparr>ws := w\<rparr>))" by (simp add: ses_connect_def Pair)
  moreover have "same_delay s0 (s\<lparr>ws := w\<rparr>)" using assms(2-4) by (simp add: same_delay_def)
  ultimately show ?thesis using assms schedule_doubles[of "s\<lparr>ws := w\<rparr>" s0 e] by (cases ok) simp_all
qed

lemma timer_delay:
  assumes "timers_held s" and "ses_timer_fires e i s = (s', ds, out)"
  shows "same_delay s s' \<or> doubles e s s'"
proof (cases "filter (\<lambda>t. fst (snd t) = i) (timers (ses_timers s))")
  case Nil
  then show ?thesis using assms(2) by (simp add: ses_timer_fires_def)
next
  case (Cons t ts)
  obtain due j k where t: "t = (due, j, k)" by (cases t)
  let ?s = "s\<lparr>ses_timers := cancelTimer i (ses_timers s)\<rparr>"
  have q: "timers_ok (cancelTimer i (ses_timers s))" "nextTimerId (cancelTimer i (ses_timers s)) = nextTimerId (ses_timers s)"
    using timers_heldD(1)[OF assms(1)] by (simp add: cancelTimer_ok) (simp add: cancelTimer_def)
  show ?thesis
  proof (cases k)
    case ReconnectTimer
    have "s' = reconnect_fires e ?s" using assms(2) by (simp add: ses_timer_fires_def Cons t ReconnectTimer)
    moreover have "same_delay s (?s\<lparr>reconnectTimer := 0\<rparr>)" by (simp add: same_delay_def)
    ultimately show ?thesis
      using connect_delay[of "?s\<lparr>reconnectTimer := 0, reconnects := reconnects s + 1\<rparr>" s e] q held_id[OF assms(1)]
      by (simp add: reconnect_fires_def Let_def)
  next
    case HeartbeatTimer
    then have "heartbeat_fires e ?s = (s', ds, out)" using assms(2) by (simp add: ses_timer_fires_def Cons t)
    then have "same_delay ?s s'"
      by (auto simp: heartbeat_fires_def Let_def ses_close_def same_delay_def split: if_splits prod.splits dest!: ses_send_delay)
    then show ?thesis by (simp add: same_delay_def)
  qed
qed

lemma ws_call_delay:
  assumes "\<not> resets (OnWs c) s" and "ses_step sha1 e (OnWs c) s = (s', ds, out)"
  shows "same_delay s s'"
proof (cases "\<exists>n. c = WsNotify n")
  case True
  then obtain n where "c = WsNotify n" by blast
  then show ?thesis using assms by (cases n) (auto simp: onWsText_def onWsClosed_def same_delay_fields)
next
  case False
  then have "ses_step sha1 e (OnWs c) s = (case ws_step sha1 e c (ws s) of (w, cs) \<Rightarrow> (s\<lparr>ws := w\<rparr>, map OnWs cs, []))" by (cases c) auto
  then show ?thesis using assms(2) by (auto simp: same_delay_fields split: prod.splits)
qed

lemma step_delay:
  assumes "timers_held s" and "\<not> resets d s" and "ses_step sha1 e d s = (s', ds, out)"
  shows "same_delay s s' \<or> doubles e s s'"
proof (cases d)
  case (OnWs c)
  then show ?thesis using ws_call_delay assms(2,3) by blast
next
  case (SesTimer i)
  then show ?thesis using timer_delay[OF assms(1)] assms(3) by simp
next
  case ScheduleReconnect
  then show ?thesis using schedule_doubles[OF timers_heldD(1)[OF assms(1)] refl refl held_id[OF assms(1)], of e] assms(3) by auto
next
  case (UnsubscribeEach subs)
  then show ?thesis using assms(3) by (cases subs) (auto dest!: ses_send_delay)
next
  case (Resubscribe subs)
  then show ?thesis using assms(3) by (cases subs) (auto dest!: ses_send_delay)
qed (use assms in \<open>auto simp: ses_start_def ses_stop_def ses_close_def subscribe_def unsubscribe_def clearSubscriptions_def reconnectNow_def
  onWsClosed_def same_delay_fields split: if_splits prod.splits dest!: ses_send_delay\<close>)

lemma failing_run_delays:
  assumes "ses_run sha1 opts cs s log" and "failing_run sha1 cs s delays cs' s'" and "0 \<le> nextDelayMs s" and "0 \<le> reconnectMaxDelayMs (ses_options s)"
  shows "ses_options s' = ses_options s \<and>
    nextDelayMs s' = (if delays = [] then nextDelayMs s else min (nextDelayMs s * 2 ^ length delays) (reconnectMaxDelayMs (ses_options s))) \<and>
    (\<forall>i < length delays. delays ! i = (if i = 0 then nextDelayMs s else min (nextDelayMs s * 2 ^ i) (reconnectMaxDelayMs (ses_options s))))"
  using assms(2)
proof (induction rule: failing_run.induct)
  case (step delays d cs1 s1 e s2 ds out)
  obtain log1 where "ses_run sha1 opts (d # cs1) s1 log1" using failing_run_run[OF step.hyps(1) assms(1)] by blast
  then have "timers_held s1" using ses_run_ok by (auto simp: session_ok_def parts_held_def)
  from step_delay[OF this step.hyps(2,3)] show ?case
  proof
    assume "same_delay s1 s2"
    then show ?thesis using step.IH same_delay_none[of s1 s2 e] by (simp add: same_delay_def)
  next
    assume d: "doubles e s1 s2"
    have n: "nextDelayMs s2 = min (nextDelayMs s * 2 ^ Suc (length delays)) (reconnectMaxDelayMs (ses_options s))"
      using d step.IH assms(3,4) by (cases "delays = []") (auto simp: doubles_def min_def)
    have "0 \<le> nextDelayMs s1" using step.IH assms(3,4) by (cases "delays = []") auto
    then show ?thesis using d step.IH n by (auto simp: doubles_def nth_append less_Suc_eq)
  qed
qed simp_all

section \<open>Scripted stretches of failures\<close>

fun failing_steps ::
  "(string \<Rightarrow> u8 list) \<Rightarrow> ws_env list \<Rightarrow> ses_call list \<times> ws_session \<times> int list \<Rightarrow> (ses_call list \<times> ws_session \<times> int list) option" where
  "failing_steps sha1 (e # es) (d # cs, s, delays) =
     (if resets d s then None
      else case ses_step sha1 e d s of (s', ds, out) \<Rightarrow> failing_steps sha1 es (ds @ cs, s', delays @ new_delay e s s'))"
| "failing_steps sha1 es cfg = Some cfg"

fun failing_play ::
  "(string \<Rightarrow> u8 list) \<Rightarrow> ses_script list \<Rightarrow> ses_call list \<times> ws_session \<times> int list \<Rightarrow> (ses_call list \<times> ws_session \<times> int list) option" where
  "failing_play sha1 [] cfg = Some cfg"
| "failing_play sha1 (Outside d # ss) (cs, s, delays) =
     (if (cs = [] \<or> hd cs = SessionReturns) \<and> ses_offered d cs s then failing_play sha1 ss (d # cs, s, delays) else None)"
| "failing_play sha1 (Run n e # ss) cfg = Option.bind (failing_steps sha1 (replicate n e) cfg) (failing_play sha1 ss)"

lemma failing_steps_run:
  "failing_steps sha1 es (cs, s, delays) = Some (cs', s', delays') \<Longrightarrow> failing_run sha1 cs0 s0 delays cs s \<Longrightarrow>
   failing_run sha1 cs0 s0 delays' cs' s'"
proof (induction sha1 es "(cs, s, delays)" arbitrary: cs s delays rule: failing_steps.induct)
  case (1 sha1 e es d cs s delays)
  obtain s1 ds out where st: "ses_step sha1 e d s = (s1, ds, out)" by (cases "ses_step sha1 e d s")
  have r: "\<not> resets d s" using "1.prems"(1) by auto
  show ?case using "1.hyps"[OF r st[symmetric] refl] "1.prems"(1) failing_run.step[OF "1.prems"(2) r st] r by (simp add: st)
qed auto

lemma failing_play_run:
  "failing_play sha1 ss (cs, s, delays) = Some (cs', s', delays') \<Longrightarrow> failing_run sha1 cs0 s0 delays cs s \<Longrightarrow>
   failing_run sha1 cs0 s0 delays' cs' s'"
proof (induction ss arbitrary: cs s delays)
  case (Cons x ss)
  show ?case
  proof (cases x)
    case (Outside d)
    then have "failing_play sha1 ss (d # cs, s, delays) = Some (cs', s', delays')" "failing_run sha1 cs0 s0 delays (d # cs) s"
      using Cons.prems by (auto split: if_splits intro: failing_run.call)
    then show ?thesis by (rule Cons.IH)
  next
    case (Run n e)
    then obtain cs1 s1 delays1 where st: "failing_steps sha1 (replicate n e) (cs, s, delays) = Some (cs1, s1, delays1)"
      "failing_play sha1 ss (cs1, s1, delays1) = Some (cs', s', delays')"
      using Cons.prems(1) by (auto simp: bind_eq_Some_conv)
    show ?thesis using Cons.IH[OF st(2)] failing_steps_run[OF st(1) Cons.prems(2)] by blast
  qed
qed simp

text \<open>A session that could not resolve its host.\<close>

definition ex_refusing :: ws_env where
  "ex_refusing = (ex_ws_env [] ReadAgain)\<lparr>we_sys := (we_sys (ex_ws_env [] ReadAgain))\<lparr>sys_resolve := None\<rparr>\<rparr>"

definition ex_refused :: ws_session where
  "ex_refused = ses_start ex_refusing (new_session (Some 1) 0 ex_ws_options)"

lemma refused_run: "ses_run ex_sha1 ex_ws_options [] ex_refused []"
proof -
  have "ses_run ex_sha1 ex_ws_options [Start] (new_session (Some 1) 0 ex_ws_options) []" by (rule ses_run.call[OF ses_run.start]) simp_all
  from ses_run.step[OF this, of ex_refusing] show ?thesis by (simp add: ex_refused_def)
qed

text \<open>
  Then the connection is made and broken during the upgrade, the host is not found, the connection attempt times out, and
  the host is not found again.
\<close>

definition failing_script :: "ses_script list" where
  "failing_script =
     [Outside (SesTimer 1), Run 1 (ex_ws_env [] ReadAgain), Outside (OnWs (OnTls (IoEvent EPOLLOUT))), Run 9 (ex_ws_env [] ReadAgain),
      Outside (OnWs (OnTls (IoEvent EPOLLIN))), Run 9 (ex_ws_env [] (ReadFails ''connection reset'')),
      Outside (SesTimer 2), Run 1 ex_refusing,
      Outside (SesTimer 3), Run 1 (ex_ws_env [] ReadAgain), Outside (OnWs (OnTls ConnectTimeout)), Run 9 (ex_ws_env [] ReadAgain),
      Outside (SesTimer 4), Run 1 ex_refusing]"

lemma failing_example:
  "\<exists>s'. failing_run ex_sha1 [] ex_refused [2, 4, 8, 10] [] s'"
proof -
  have "case failing_play ex_sha1 failing_script ([], ex_refused, []) of None \<Rightarrow> False | Some (cs, s, delays) \<Rightarrow> cs = [] \<and> delays = [2, 4, 8, 10]"
    by code_simp
  then show ?thesis by (auto split: option.splits dest!: failing_play_run[OF _ failing_run.none])
qed

section \<open>Replay\<close>

text \<open>The bytes of the frame of a text; the mask does not matter.\<close>

definition frame_bytes :: "string \<Rightarrow> nat" where
  "frame_bytes m = length (encodeWsFrame opText (bytes_of m) 0 [])"

definition replay_bytes :: "string list \<Rightarrow> nat" where
  "replay_bytes subs = sum_list (map (frame_bytes \<circ> subscribe_text) subs)"

text \<open>An open session whose send buffer has room for \<open>n\<close> bytes, and an environment in which no write fails.\<close>

definition accepting :: "nat \<Rightarrow> ws_session \<Rightarrow> bool" where
  "accepting n s \<longleftrightarrow> ws_state (ws s) = WsOpen \<and> t_state (ws_stream (ws s)) = SOpen \<and>
     (maxOutboxBytes (t_opts (ws_stream (ws s))) = 0 \<or> pendingBytes (ws_stream (ws s)) + n \<le> maxOutboxBytes (t_opts (ws_stream (ws s))))"

definition writes_ok :: "ws_env \<Rightarrow> bool" where
  "writes_ok e \<longleftrightarrow> (\<forall>r. WriteFails r \<notin> set (sys_writes (we_sys e)))"

lemma frame_bytes_any: "length (encodeWsFrame opText (bytes_of m) k []) = frame_bytes m"
  by (simp add: frame_bytes_def encodeWsFrame_def mask_loop_unmask)

lemma updateInterest_frame: "t_opts (updateInterest t) = t_opts t" "pendingBytes (updateInterest t) = pendingBytes t"
  by (simp_all add: updateInterest_def pendingBytes_def Let_def)

lemma write_loop_takes:
  "write_loop rs t = (t', f) \<Longrightarrow> (\<forall>r. WriteFails r \<notin> set rs) \<Longrightarrow> f = None \<and> t_opts t' = t_opts t \<and> pendingBytes t' \<le> pendingBytes t"
proof (induction rs t rule: write_loop.induct)
  case (2 w rs t)
  show ?case
  proof (cases "outboxOffset t < length (outbox t)")
    case True
    then show ?thesis using 2 by (cases w) (fastforce simp: Let_def pendingBytes_def)+
  qed (use 2 in simp)
qed simp

lemma doWrite_takes:
  assumes "\<forall>r. WriteFails r \<notin> set (sys_writes e)"
  shows "\<exists>t'. doWrite e t = (t', []) \<and> t_state t' = t_state t \<and> t_opts t' = t_opts t \<and> pendingBytes t' \<le> pendingBytes t"
proof -
  obtain t1 f where w: "write_loop (sys_writes e) (t\<lparr>wantWrite := False\<rparr>) = (t1, f)" by fastforce
  have "f = None" "t_opts t1 = t_opts t" "pendingBytes t1 \<le> pendingBytes t"
    using write_loop_takes[OF w assms] by (simp_all add: pendingBytes_def)
  then show ?thesis using write_loop_state[OF w] by (auto simp: doWrite_def w Let_def updateInterest_frame) (simp_all add: pendingBytes_def)
qed

lemma buffered_send:
  assumes "t_state t = SOpen" and "maxOutboxBytes (t_opts t) = 0 \<or> pendingBytes t + length bytes \<le> maxOutboxBytes (t_opts t)"
    and "\<forall>r. WriteFails r \<notin> set (sys_writes e)"
  shows "\<exists>t'. tls_send e bytes t = ((t', []), True) \<and> t_state t' = SOpen \<and> t_opts t' = t_opts t \<and> pendingBytes t' \<le> pendingBytes t + length bytes"
proof -
  let ?c = "compact_outbox t"
  have c: "t_state ?c = SOpen" "t_opts ?c = t_opts t" "pendingBytes ?c = pendingBytes t"
    using assms(1) by (simp_all add: compact_outbox_def pendingBytes_def)
  have "pendingBytes (?c\<lparr>outbox := outbox ?c @ bytes\<rparr>) \<le> pendingBytes t + length bytes" using c(3) by (simp add: pendingBytes_def)
  then show ?thesis using doWrite_takes[OF assms(3), of "?c\<lparr>outbox := outbox ?c @ bytes\<rparr>"] assms(1,2) c
    by (auto simp: tls_send_def Let_def)
qed

lemma accepting_send:
  assumes "accepting (frame_bytes m + n) s" and "writes_ok e"
  shows "\<exists>w. ses_send e m ds s = (s\<lparr>ws := w\<rparr>, ds, [TextHanded m]) \<and> accepting n (s\<lparr>ws := w\<rparr>)"
proof -
  obtain r k where m: "nextMask (rng (ws s)) = (r, k)" by fastforce
  let ?b = "encodeWsFrame opText (bytes_of m) k []" and ?t = "ws_stream (ws s)"
  obtain t where t: "tls_send (we_sys e) ?b ?t = ((t, []), True)"
    "t_state t = SOpen" "t_opts t = t_opts ?t" "pendingBytes t \<le> pendingBytes ?t + frame_bytes m"
    using buffered_send[of ?t ?b "we_sys e"] assms by (auto simp: accepting_def writes_ok_def frame_bytes_any)
  then show ?thesis using assms(1) m
    by (intro exI[of _ "(ws s)\<lparr>rng := r, ws_stream := t\<rparr>"]) (auto simp: accepting_def ses_send_def sendText_def sendFrame_def)
qed

lemma resubscribes:
  assumes "accepting (replay_bytes subs) s" and "list_all writes_ok es" and "length es = length subs"
  shows "\<exists>w. ses_exec sha1 (es @ e # es') (Resubscribe subs # cs, s, log) =
    ses_exec sha1 es' (cs, s\<lparr>ws := w\<rparr>, log @ map (TextHanded \<circ> subscribe_text) subs)"
  using assms
proof (induction subs arbitrary: s es log)
  case Nil
  then show ?case by (intro exI[of _ "ws s"]) simp
next
  case (Cons x subs)
  obtain e1 es1 where es: "es = e1 # es1" using Cons.prems(3) by (cases es) auto
  obtain w where w: "ses_send e1 (subscribe_text x) [Resubscribe subs] s = (s\<lparr>ws := w\<rparr>, [Resubscribe subs], [TextHanded (subscribe_text x)])"
    "accepting (replay_bytes subs) (s\<lparr>ws := w\<rparr>)"
    using accepting_send[of "subscribe_text x" "replay_bytes subs" s e1] Cons.prems(1,2) by (auto simp: es replay_bytes_def)
  from Cons.IH[OF w(2), of es1 "log @ [TextHanded (subscribe_text x)]"] Cons.prems(2,3) show ?case by (auto simp: w(1) es)
qed

definition ex_open_session :: ws_session where
  "ex_open_session =
     (let s = new_session (Some 1) 0 (ex_ws_options\<lparr>ses_ws := (ses_ws ex_ws_options)\<lparr>ws_tls := \<lparr>connectTimeoutMs = 5000, maxOutboxBytes = 100\<rparr>\<rparr>\<rparr>)
      in s\<lparr>subscriptions := [''x'', ''y''], ws := (ws s)\<lparr>ws_state := WsOpen, ws_stream := (ws_stream (ws s))\<lparr>t_state := SOpen\<rparr>\<rparr>\<rparr>)"

section \<open>Waiting for the upgrade\<close>

text \<open>Timers of the session that fire one after the other, with the calls and the outputs they make.\<close>

fun timers_pass :: "(ws_env \<times> nat) list \<Rightarrow> ws_session \<Rightarrow> ses_result" where
  "timers_pass [] s = (s, [], [])"
| "timers_pass ((e, i) # ts) s =
     (case ses_timer_fires e i s of (s', cs, out) \<Rightarrow> case timers_pass ts s' of (s'', cs', out') \<Rightarrow> (s'', cs @ cs', out @ out'))"

definition upgrading :: "ws_session \<Rightarrow> bool" where
  "upgrading s \<longleftrightarrow> ws_state (ws s) = WsUpgrading \<and> (\<forall>i. \<not> held i ReconnectTimer s)"

lemma timer_while_upgrading:
  assumes "upgrading s"
  shows "\<exists>s'. ses_timer_fires e i s = (s', [], []) \<and> ws s' = ws s \<and> running s' = running s \<and> upgrading s'"
proof (cases "filter (\<lambda>t. fst (snd t) = i) (timers (ses_timers s))")
  case Nil
  then show ?thesis using assms by (simp add: ses_timer_fires_def)
next
  case (Cons t ts)
  obtain due j k where t: "t = (due, j, k)" by (cases t)
  have "t \<in> set (filter (\<lambda>t. fst (snd t) = i) (timers (ses_timers s)))" by (simp add: Cons)
  then have "held i k s" by (auto simp: t held_def)
  then have "k = HeartbeatTimer" using assms by (cases k) (auto simp: upgrading_def)
  moreover have "\<not> ws_isOpen (ws s)" using assms by (simp add: ws_isOpen_def upgrading_def)
  ultimately show ?thesis using assms
    by (simp add: ses_timer_fires_def Cons t heartbeat_fires_def Let_def upgrading_def held_def cancelTimer_def)
qed

lemma timers_while_upgrading:
  "upgrading s \<Longrightarrow> \<exists>s'. timers_pass ts s = (s', [], []) \<and> ws s' = ws s \<and> running s' = running s"
proof (induction ts arbitrary: s)
  case (Cons x ts)
  obtain e i where x: "x = (e, i)" by (cases x)
  from timer_while_upgrading[OF Cons.prems, of e i] Cons.IH show ?case by (fastforce simp: x)
qed simp

section \<open>Properties\<close>

text \<open>
  C5: a running session never waits for nothing, but for one case. Between two turns of the event loop its reconnect timer
  is in the queue; or it connects, and the connect timer of the stream is armed; or it waits on a registered socket for the
  answer to the upgrade; or it is open on a registered socket and its heartbeat is in the queue. The excluded case is a
  stream that closed without a callback while the client was connecting: \<open>nextAddress\<close> closes it in \<open>startAttempt\<close>, so
  that the \<open>fail\<close> that follows reports nothing.
\<close>

theorem session_never_stalls:
  assumes "ses_run sha1 opts [] s log" and "running s" and "\<not> (ws_state (ws s) = WsConnecting \<and> t_state (ws_stream (ws s)) = SClosed)"
  shows "(\<exists>due. (due, reconnectTimer s, ReconnectTimer) \<in> set (timers (ses_timers s))) \<or>
    ws_state (ws s) = WsConnecting \<and> connectTimer (ws_stream (ws s)) \<noteq> None \<and> registered (ws_stream (ws s)) \<noteq> None \<or>
    ws_state (ws s) = WsUpgrading \<and> registered (ws_stream (ws s)) \<noteq> None \<or>
    ws_state (ws s) = WsOpen \<and> registered (ws_stream (ws s)) \<noteq> None \<and>
      (\<exists>due. (due, heartbeatTimer s, HeartbeatTimer) \<in> set (timers (ses_timers s)))"
proof -
  have ok: "linked (ws s)" "ws_live (ws s) \<or> armed s" "ws_state (ws s) = WsOpen \<longrightarrow> heartbeatTimer s \<noteq> 0"
    "tls_inv (ws_stream (ws s))" "timers_held s"
    using ses_run_ok[OF assms(1)] assms(2) by (auto simp: session_ok_def stack_ok_def in_turn_def parts_held_def)
  have "armed s \<Longrightarrow> held (reconnectTimer s) ReconnectTimer s" "heartbeatTimer s \<noteq> 0 \<Longrightarrow> held (heartbeatTimer s) HeartbeatTimer s"
    using timers_heldD(2,3)[OF ok(5)] by (auto simp: armed_def)
  with ok(1-4) assms(3) show ?thesis
    by (cases "ws_state (ws s)") (auto simp: linked_def dials_def tls_inv_def held_def ws_live_def)
qed

theorem session_never_stalls_witness:
  "\<exists>s log due. ses_run ex_sha1 ex_ws_options [] s log \<and> running s \<and> (due, heartbeatTimer s, HeartbeatTimer) \<in> set (timers (ses_timers s))"
proof -
  obtain s log where r: "ses_run ex_sha1 ex_ws_options [] s log" "running s" "ws_state (ws s) = WsOpen" "reconnectTimer s = 0"
    using open_run by auto
  have "\<not> held 0 ReconnectTimer s" using ses_run_ok[OF r(1)] by (auto simp: session_ok_def parts_held_def timers_held_def held_def timers_ok_def)
  then obtain due where "(due, heartbeatTimer s, HeartbeatTimer) \<in> set (timers (ses_timers s))"
    using session_never_stalls[OF r(1,2)] r(3,4) by (auto simp: held_def)
  with r(1,2) show ?thesis by (intro exI[of _ s] exI[of _ log] exI[of _ due] conjI)
qed

text \<open>
  C37: the upgrade has no deadline. In every run, when a session waits for the answer to its upgrade request and has no
  reconnect scheduled, the connect timer of the stream is gone, and whichever timers of the session fire, at whatever times,
  the client stays as it is, with no call and no report; every text is refused meanwhile. Only the server or the owner can
  end the wait.
\<close>

theorem silent_server_stalls_the_upgrade:
  assumes "ses_run sha1 opts [] s log" and "running s" and "ws_state (ws s) = WsUpgrading" and "reconnectTimer s = 0"
  shows "connectTimer (ws_stream (ws s)) = None \<and> sendText e m (ws s) = ((ws s, []), False) \<and>
    (\<exists>s'. timers_pass ts s = (s', [], []) \<and> ws s' = ws s \<and> running s')"
proof -
  have ok: "linked (ws s)" "tls_inv (ws_stream (ws s))" "timers_held s"
    using ses_run_ok[OF assms(1)] by (auto simp: session_ok_def stack_ok_def in_turn_def parts_held_def)
  have "connectTimer (ws_stream (ws s)) = None" using ok(1,2) assms(3) by (auto simp: linked_def tls_inv_def)
  moreover have "\<not> held 0 ReconnectTimer s" using timers_heldD(1)[OF ok(3)] by (auto simp: held_def timers_ok_def)
  then have "\<not> held i ReconnectTimer s" for i using timers_heldD(4)[OF ok(3), of i] assms(4) by auto
  then have "upgrading s" using assms(3) by (simp add: upgrading_def)
  from timers_while_upgrading[OF this, of ts] have "\<exists>s'. timers_pass ts s = (s', [], []) \<and> ws s' = ws s \<and> running s'" using assms(2) by auto
  ultimately show ?thesis using assms(3) by (simp add: sendText_def sendFrame_def)
qed

theorem silent_server_stalls_the_upgrade_witness:
  "\<exists>s log. ses_run ex_sha1 ex_ws_options [] s log \<and> timers (ses_timers s) = [] \<and> connectTimer (ws_stream (ws s)) = None"
proof -
  have "ses_reaches dial_script (\<lambda>s log. running s \<and> ws_state (ws s) = WsUpgrading \<and> reconnectTimer s = 0 \<and> timers (ses_timers s) = [])"
    by code_simp
  then obtain s log where r: "ses_run ex_sha1 ex_ws_options [] s log" "running s" "ws_state (ws s) = WsUpgrading" "reconnectTimer s = 0"
    "timers (ses_timers s) = []" by (rule ses_reaches_run) auto
  from silent_server_stalls_the_upgrade[OF r(1-4)] r(1,5) show ?thesis by blast
qed

text \<open>
  When the stream fails while the subscriptions are replayed, the listener learns of the end first and of the
  opening afterwards, and a heartbeat is left armed for a connection that is gone.
\<close>

lemma open_reported_after_closed:
  "\<exists>s log r. ses_run ex_sha1 ex_ws_options [] s log \<and> log = [TextHanded (subscribe_text ''x''), SessionClosed r, SessionOpen] \<and>
     \<not> ws_isOpen (ws s) \<and> heartbeatTimer s \<noteq> 0"
proof -
  have "ses_reaches broken_script (\<lambda>s log. log = [TextHanded (subscribe_text ''x''), SessionClosed ''broken pipe'', SessionOpen] \<and>
    \<not> ws_isOpen (ws s) \<and> heartbeatTimer s \<noteq> 0)" by code_simp
  then show ?thesis by (rule ses_reaches_run) (intro exI, rule conjI)
qed

text \<open>
  C26: reconnects back off, whatever makes the attempts fail. From any moment of a run on, as long as no connection opens
  and the owner calls neither \<open>start\<close> nor \<open>reconnectNow\<close>, through any failures to resolve, to connect, to shake hands or to
  upgrade, any ends of the connection and any calls from callbacks: the reconnect timers that are armed one after the other
  wait for the current delay, then twice, four times and so on, up to the configured maximum.
\<close>

theorem reconnects_back_off:
  assumes "ses_run sha1 opts cs s log" and "failing_run sha1 cs s delays cs' s'" and "i < length delays"
    and "0 \<le> nextDelayMs s" and "0 \<le> reconnectMaxDelayMs (ses_options s)"
  shows "delays ! i = (if i = 0 then nextDelayMs s else min (nextDelayMs s * 2 ^ i) (reconnectMaxDelayMs (ses_options s)))"
  using failing_run_delays[OF assms(1,2,4,5)] assms(3) by blast

theorem reconnects_back_off_witness:
  "\<exists>s'. failing_run ex_sha1 [] ex_refused [2, 4, 8, 10] [] s' \<and> ([2, 4, 8, 10] :: int list) ! 3 = min (nextDelayMs ex_refused * 2 ^ 3) 10"
proof -
  obtain s' where r: "failing_run ex_sha1 [] ex_refused [2, 4, 8, 10] [] s'" using failing_example by blast
  have d: "nextDelayMs ex_refused = 2" "reconnectMaxDelayMs (ses_options ex_refused) = 10" by code_simp+
  from reconnects_back_off[OF refused_run r, of 3] r d show ?thesis by (intro exI[of _ s']) simp
qed

text \<open>
  C25: an opening connection gets its subscriptions back. When a connection opens, no write to its socket fails and its
  send buffer has room for the frames (\<open>maxOutboxBytes\<close>, if set, minus what is waiting), the session hands over every stored
  subscription, in order, then arms the heartbeat, then reports the opening; the delay of the reconnects is set back.
\<close>

theorem open_replays_subscriptions:
  assumes "accepting (replay_bytes (subscriptions s)) s" and "list_all writes_ok es" and "length es = length (subscriptions s) + 4"
  shows "\<exists>s' i. ses_exec sha1 es (OnWs (WsNotify WsOpened) # cs, s, log) =
      (SessionReturns # cs, s', log @ map (TextHanded \<circ> subscribe_text) (subscriptions s) @ [SessionOpen]) \<and>
    subscriptions s' = subscriptions s \<and> nextDelayMs s' = reconnectMinDelayMs (ses_options s) \<and> heartbeatTimer s' = i \<and>
    (we_now (es ! (length (subscriptions s) + 2)) + max 0 (pingIntervalMs (ses_options s)), i, HeartbeatTimer) \<in> set (timers (ses_timers s'))"
proof -
  let ?n = "length (subscriptions s)"
  obtain e0 rest where 0: "es = e0 # rest" "length rest = ?n + 3" using assms(3) by (cases es) auto
  obtain es1 last3 where 1: "rest = es1 @ last3" "length es1 = ?n" "length last3 = 3"
    using 0(2) append_take_drop_id[of ?n rest] by (metis add_diff_cancel_left' length_append length_drop length_take min.absorb2 le_add1)
  obtain e1 e2 e3 where 3: "last3 = [e1, e2, e3]" using 1(3) by (auto simp: eval_nat_numeral length_Suc_conv)
  have es: "es = e0 # es1 @ e1 # [e2, e3]" "es ! (?n + 2) = e2" using 0(1) 1 3 by (simp_all add: nth_append)
  have w1: "list_all writes_ok es1" "length es1 = ?n" using assms(2) 1(2) by (simp_all add: es(1))
  let ?s = "s\<lparr>nextDelayMs := reconnectMinDelayMs (ses_options s), lastRxMs := we_now e0\<rparr>"
  have "accepting (replay_bytes (subscriptions s)) ?s" using assms(1) by (simp add: accepting_def)
  from resubscribes[OF this w1, of sha1 e1 "[e2, e3]" "[ArmHeartbeat, NotifyOpen] @ cs" log]
  obtain w where w: "ses_exec sha1 (es1 @ e1 # [e2, e3]) (Resubscribe (subscriptions s) # [ArmHeartbeat, NotifyOpen] @ cs, ?s, log) =
      ses_exec sha1 [e2, e3] ([ArmHeartbeat, NotifyOpen] @ cs, ?s\<lparr>ws := w\<rparr>, log @ map (TextHanded \<circ> subscribe_text) (subscriptions s))" by auto
  have "ses_exec sha1 es (OnWs (WsNotify WsOpened) # cs, s, log) =
      (SessionReturns # cs, armHeartbeat e2 (?s\<lparr>ws := w\<rparr>), log @ map (TextHanded \<circ> subscribe_text) (subscriptions s) @ [SessionOpen])"
    using w by (simp add: es(1) onWsOpen_def)
  moreover have "\<exists>i. heartbeatTimer (armHeartbeat e2 (?s\<lparr>ws := w\<rparr>)) = i \<and>
    (we_now e2 + max 0 (pingIntervalMs (ses_options s)), i, HeartbeatTimer) \<in> set (timers (ses_timers (armHeartbeat e2 (?s\<lparr>ws := w\<rparr>))))"
    by (auto simp: armHeartbeat_def addTimer_def Let_def max_def)
  moreover have "subscriptions (armHeartbeat e2 (?s\<lparr>ws := w\<rparr>)) = subscriptions s" "nextDelayMs (armHeartbeat e2 (?s\<lparr>ws := w\<rparr>)) = reconnectMinDelayMs (ses_options s)"
    by (simp_all add: armHeartbeat_def split: prod.split)
  ultimately show ?thesis unfolding es(2) by blast
qed

theorem open_replays_subscriptions_witness:
  "\<exists>s'. ses_exec ex_sha1 (replicate 6 (ex_ws_env [Wrote 7, WriteAgain] ReadAgain)) ([OnWs (WsNotify WsOpened)], ex_open_session, []) =
      ([SessionReturns], s', [TextHanded (subscribe_text ''x''), TextHanded (subscribe_text ''y''), SessionOpen])"
proof -
  let ?es = "replicate 6 (ex_ws_env [Wrote 7, WriteAgain] ReadAgain)"
  have s: "subscriptions ex_open_session = [''x'', ''y'']" by (simp add: ex_open_session_def Let_def)
  have "accepting (replay_bytes (subscriptions ex_open_session)) ex_open_session" by code_simp
  moreover have "list_all writes_ok ?es" by (simp add: writes_ok_def ex_ws_env_def list_all_iff)
  moreover have "length ?es = length (subscriptions ex_open_session) + 4" by (simp add: s)
  ultimately show ?thesis using open_replays_subscriptions[of ex_open_session ?es ex_sha1 "[]" "[]"] by (auto simp: s)
qed

end
