(* ===== verification/HL_Messages.thy ===== *)
theory HL_Messages
  imports HL_Response HL_OrderBook
begin

text \<open>
  Decoding of WebSocket frames (\<open>include/hl/WsMessages.h\<close>, \<open>include/hl/WsMessageParser.h\<close>,
  \<open>src/WsMessageParser.cpp\<close>): one reader per channel, over the documents of simdjson's On-Demand interface.

  \<^item> simdjson is not part of the sources. \<open>iterate\<close> is a parameter that maps a frame to the document the reader then
    walks, and \<open>raw_json\<close> the one that gives back the text of a value. On-Demand finds errors while it walks: an
    object or an array ends in \<open>None\<close> where the walk meets one. A key is its escaped text.
  \<^item> A number carries its token, and what \<open>get_int64\<close> and \<open>get_uint64\<close> return for it. \<open>OdOther\<close> is any other
    token, on which every getter fails.
  \<^item> A callback of the handler is an event in the result, in the order of the calls; a reader that fails returns the
    events it had made.
\<close>

section \<open>Documents\<close>

datatype od =
    OdNull
  | OdBool bool
  | OdNumber string "int option" "u64 option"
  | OdString string
  | OdArray "od option list"
  | OdObject "(string option \<times> od) list"
  | OdOther string

definition get_string :: "od \<Rightarrow> string option" where
  "get_string v = (case v of OdString s \<Rightarrow> Some s | _ \<Rightarrow> None)"

definition get_bool :: "od \<Rightarrow> bool option" where
  "get_bool v = (case v of OdBool b \<Rightarrow> Some b | _ \<Rightarrow> None)"

definition is_null :: "od \<Rightarrow> bool" where
  "is_null v \<longleftrightarrow> v = OdNull"

definition raw_json_token :: "od \<Rightarrow> string" where
  "raw_json_token v =
     (case v of
        OdNull \<Rightarrow> ''null'' | OdBool b \<Rightarrow> (if b then ''true'' else ''false'') | OdNumber tok i u \<Rightarrow> tok
      | OdString s \<Rightarrow> CHR 0x22 # s | OdArray vs \<Rightarrow> ''['' | OdObject fs \<Rightarrow> ''{'' | OdOther tok \<Rightarrow> tok)"

text \<open>The loops over the fields of an object and the elements of an array.\<close>

fun od_fields :: "(string \<Rightarrow> od \<Rightarrow> 'm \<Rightarrow> 'm option) \<Rightarrow> (string option \<times> od) list \<Rightarrow> 'm \<Rightarrow> 'm option" where
  "od_fields f [] m = Some m"
| "od_fields f ((None, v) # fs) m = None"
| "od_fields f ((Some k, v) # fs) m = (case f k v m of None \<Rightarrow> None | Some m \<Rightarrow> od_fields f fs m)"

fun od_elems :: "(od \<Rightarrow> 'm \<Rightarrow> 'm option) \<Rightarrow> od option list \<Rightarrow> 'm \<Rightarrow> 'm option" where
  "od_elems f [] m = Some m"
| "od_elems f (None # vs) m = None"
| "od_elems f (Some v # vs) m = (case f v m of None \<Rightarrow> None | Some m \<Rightarrow> od_elems f vs m)"

definition in_object :: "(string \<Rightarrow> od \<Rightarrow> 'm \<Rightarrow> 'm option) \<Rightarrow> od \<Rightarrow> 'm \<Rightarrow> 'm option" where
  "in_object f v m = (case v of OdObject fs \<Rightarrow> od_fields f fs m | _ \<Rightarrow> None)"

definition in_array :: "(od \<Rightarrow> 'm \<Rightarrow> 'm option) \<Rightarrow> od \<Rightarrow> 'm \<Rightarrow> 'm option" where
  "in_array f v m = (case v of OdArray vs \<Rightarrow> od_elems f vs m | _ \<Rightarrow> None)"

text \<open>
  \<open>operator[]\<close> on an object: the value and what is left behind it. The search meets an error when the walk does.
\<close>

fun find_key :: "string \<Rightarrow> (string option \<times> od) list \<Rightarrow> (od \<times> (string option \<times> od) list) option" where
  "find_key key [] = None"
| "find_key key ((None, v) # fs) = None"
| "find_key key ((Some k, v) # fs) = (if k = key then Some (v, fs) else find_key key fs)"

text \<open>The next search on the document goes on behind the last value and then starts over.\<close>

definition find_next :: "string \<Rightarrow> (string option \<times> od) list \<Rightarrow> (string option \<times> od) list \<Rightarrow> od option" where
  "find_next key rest fs = map_option fst (find_key key (rest @ take (length fs - length rest) fs))"

definition od_field :: "od \<Rightarrow> string \<Rightarrow> od option" where
  "od_field v key = (case v of OdObject fs \<Rightarrow> map_option fst (find_key key fs) | _ \<Rightarrow> None)"

section \<open>Field helpers\<close>

definition strip_token :: "string \<Rightarrow> string" where
  "strip_token s = rev (dropWhile (\<lambda>c. c \<in> set '' ,}]'') (rev s))"

definition readString :: "od \<Rightarrow> (string \<Rightarrow> 'm) \<Rightarrow> 'm option" where
  "readString v put = map_option put (get_string v)"

definition readDecimal :: "od \<Rightarrow> (decimal \<Rightarrow> 'm) \<Rightarrow> 'm option" where
  "readDecimal v put =
     map_option put (case get_string v of None \<Rightarrow> parse (strip_token (raw_json_token v)) | Some s \<Rightarrow> parse s)"

definition readInt :: "od \<Rightarrow> (int \<Rightarrow> 'm) \<Rightarrow> 'm option" where
  "readInt v put = (case v of OdNumber tok i u \<Rightarrow> map_option put i | _ \<Rightarrow> None)"

definition readUint :: "od \<Rightarrow> (u64 \<Rightarrow> 'm) \<Rightarrow> 'm option" where
  "readUint v put = (case v of OdNumber tok i u \<Rightarrow> map_option put u | _ \<Rightarrow> None)"

definition readBool :: "od \<Rightarrow> (bool \<Rightarrow> 'm) \<Rightarrow> 'm option" where
  "readBool v put = map_option put (get_bool v)"

definition readSide :: "od \<Rightarrow> (side \<Rightarrow> 'm) \<Rightarrow> 'm option" where
  "readSide v put =
     (case get_string v of
        None \<Rightarrow> None
      | Some s \<Rightarrow> if s = [] then None else Some (put (if hd s = CHR ''B'' then Buy else Sell)))"

definition readOptionalCloid :: "od \<Rightarrow> cloid option \<Rightarrow> cloid option" where
  "readOptionalCloid v old = (case get_string v of None \<Rightarrow> old | Some s \<Rightarrow> cloid_parse s)"

section \<open>Messages\<close>

record tradeMsg =
  t_coin :: string
  t_side :: side
  t_px :: decimal
  t_sz :: decimal
  t_timeMs :: int
  t_tid :: u64
  t_hash :: string

record assetCtxMsg =
  ac_coin :: string
  ac_isSpot :: bool
  ac_funding :: decimal
  ac_openInterest :: decimal
  ac_oraclePx :: decimal
  ac_premium :: decimal
  ac_markPx :: decimal
  ac_midPx :: decimal
  ac_hasMidPx :: bool
  ac_prevDayPx :: decimal
  ac_dayNtlVlm :: decimal
  ac_dayBaseVlm :: decimal
  ac_circulatingSupply :: decimal

record candleMsg =
  c_coin :: string
  c_interval :: string
  c_openTimeMs :: int
  c_closeTimeMs :: int
  c_open :: decimal
  c_close :: decimal
  c_high :: decimal
  c_low :: decimal
  c_volume :: decimal
  c_trades :: u64

record liquidationMsg =
  lq_lid :: u64
  lq_liquidator :: string
  lq_liquidatedUser :: string
  lq_liquidatedNtlPos :: decimal
  lq_liquidatedAccountValue :: decimal

record nonUserCancelMsg =
  nc_coin :: string
  nc_oid :: u64

record userFundingMsg =
  fu_timeMs :: int
  fu_coin :: string
  fu_usdc :: decimal
  fu_szi :: decimal
  fu_rate :: decimal

record activeAssetDataMsg =
  ad_user :: string
  ad_coin :: string
  ad_leverage :: u32
  ad_isCross :: bool
  ad_maxTradeSzBuy :: decimal
  ad_maxTradeSzSell :: decimal
  ad_availableToTradeBuy :: decimal
  ad_availableToTradeSell :: decimal
  ad_markPx :: decimal

record subscriptionResponseMsg =
  sr_method :: string
  sr_subscriptionType :: string
  sr_coin :: string

datatype ws_message =
    OnL2Book l2BookMsg
  | OnBbo bboMsg
  | OnTrades "tradeMsg list"
  | OnAssetCtx assetCtxMsg
  | OnAllMids "(string \<times> decimal) list"
  | OnOrderUpdates "orderUpdateMsg list"
  | OnUserFills userFillsMsg
  | OnCandle candleMsg
  | OnLiquidation liquidationMsg
  | OnNonUserCancels "nonUserCancelMsg list"
  | OnUserFundings "userFundingMsg list"
  | OnActiveAssetData activeAssetDataMsg
  | OnNotification string
  | OnPostResponse postResponseMsg
  | OnSubscriptionResponse subscriptionResponseMsg
  | OnPong
  | OnVenueError string
  | OnUnhandled string string

section \<open>Books, trades and contexts\<close>

definition level_field :: "string \<Rightarrow> od \<Rightarrow> bookLevel \<Rightarrow> bookLevel option" where
  "level_field key v l =
     (if key = ''px'' then readDecimal v (\<lambda>d. l\<lparr>px := d\<rparr>)
      else if key = ''sz'' then readDecimal v (\<lambda>d. l\<lparr>sz := d\<rparr>)
      else if key = ''n'' then readUint v (\<lambda>n. l\<lparr>n_orders := ucast n\<rparr>)
      else Some l)"

definition readLevel :: "od \<Rightarrow> bookLevel \<Rightarrow> bookLevel option" where
  "readLevel v l = in_object level_field v l"

definition kMaxLevelsPerSide :: nat where
  "kMaxLevelsPerSide = 64"

definition push_level :: "od \<Rightarrow> bookLevel list \<Rightarrow> bookLevel list option" where
  "push_level v dst =
     (case readLevel v empty_level of
        None \<Rightarrow> None
      | Some l \<Rightarrow> Some (if length dst < kMaxLevelsPerSide then dst @ [l] else dst))"

text \<open>The loop over the sides leaves after the second one.\<close>

fun read_sides :: "nat \<Rightarrow> od option list \<Rightarrow> l2BookMsg \<Rightarrow> l2BookMsg option" where
  "read_sides i [] m = Some m"
| "read_sides i (None # vs) m = None"
| "read_sides i (Some v # vs) m =
     (case in_array push_level v (if i = 0 then l2_bids m else l2_asks m) of
        None \<Rightarrow> None
      | Some ls \<Rightarrow>
          let m = (if i = 0 then m\<lparr>l2_bids := ls\<rparr> else m\<lparr>l2_asks := ls\<rparr>)
          in if i + 1 = 2 then Some m else read_sides (i + 1) vs m)"

definition l2_field :: "string \<Rightarrow> od \<Rightarrow> l2BookMsg \<Rightarrow> l2BookMsg option" where
  "l2_field key v m =
     (if key = ''coin'' then readString v (\<lambda>s. m\<lparr>l2_coin := s\<rparr>)
      else if key = ''time'' then readInt v (\<lambda>i. m\<lparr>l2_timeMs := i\<rparr>)
      else if key = ''levels'' then (case v of OdArray vs \<Rightarrow> read_sides 0 vs m | _ \<Rightarrow> None)
      else Some m)"

definition onL2Book :: "od \<Rightarrow> ws_message list option" where
  "onL2Book d =
     map_option (\<lambda>m. [OnL2Book m]) (in_object l2_field d \<lparr>l2_coin = [], l2_timeMs = 0, l2_bids = [], l2_asks = []\<rparr>)"

fun read_bbo :: "nat \<Rightarrow> od option list \<Rightarrow> bboMsg \<Rightarrow> bboMsg option" where
  "read_bbo i [] m = Some m"
| "read_bbo i (None # vs) m = None"
| "read_bbo i (Some v # vs) m =
     (if is_null v then read_bbo (i + 1) vs m
      else if i = 0 then
        case readLevel v (bid m) of None \<Rightarrow> None | Some l \<Rightarrow> read_bbo (i + 1) vs (m\<lparr>bid := l, hasBid := True\<rparr>)
      else if i = 1 then
        case readLevel v (ask m) of None \<Rightarrow> None | Some l \<Rightarrow> read_bbo (i + 1) vs (m\<lparr>ask := l, hasAsk := True\<rparr>)
      else read_bbo (i + 1) vs m)"

definition bbo_field :: "string \<Rightarrow> od \<Rightarrow> bboMsg \<Rightarrow> bboMsg option" where
  "bbo_field key v m =
     (if key = ''coin'' then readString v (\<lambda>s. m\<lparr>bbo_coin := s\<rparr>)
      else if key = ''time'' then readInt v (\<lambda>i. m\<lparr>bbo_timeMs := i\<rparr>)
      else if key = ''bbo'' then (case v of OdArray vs \<Rightarrow> read_bbo 0 vs m | _ \<Rightarrow> None)
      else Some m)"

definition onBbo :: "od \<Rightarrow> ws_message list option" where
  "onBbo d =
     map_option (\<lambda>m. [OnBbo m])
       (in_object bbo_field d \<lparr>bbo_coin = [], bbo_timeMs = 0, hasBid = False, hasAsk = False, bid = empty_level, ask = empty_level\<rparr>)"

definition trade_field :: "string \<Rightarrow> od \<Rightarrow> tradeMsg \<Rightarrow> tradeMsg option" where
  "trade_field key v t =
     (if key = ''coin'' then readString v (\<lambda>s. t\<lparr>t_coin := s\<rparr>)
      else if key = ''side'' then readSide v (\<lambda>s. t\<lparr>t_side := s\<rparr>)
      else if key = ''px'' then readDecimal v (\<lambda>d. t\<lparr>t_px := d\<rparr>)
      else if key = ''sz'' then readDecimal v (\<lambda>d. t\<lparr>t_sz := d\<rparr>)
      else if key = ''time'' then readInt v (\<lambda>i. t\<lparr>t_timeMs := i\<rparr>)
      else if key = ''tid'' then readUint v (\<lambda>i. t\<lparr>t_tid := i\<rparr>)
      else if key = ''hash'' then readString v (\<lambda>s. t\<lparr>t_hash := s\<rparr>)
      else Some t)"

definition no_trade :: tradeMsg where
  "no_trade = \<lparr>t_coin = [], t_side = Buy, t_px = dec_zero, t_sz = dec_zero, t_timeMs = 0, t_tid = 0, t_hash = []\<rparr>"

definition onTrades :: "od \<Rightarrow> ws_message list option" where
  "onTrades d =
     map_option (\<lambda>ts. [OnTrades ts])
       (in_array (\<lambda>v ts. map_option (\<lambda>t. ts @ [t]) (in_object trade_field v no_trade)) d [])"

text \<open>A field of the context goes to its target; \<open>null\<close> leaves the target alone.\<close>

definition ctx_target :: "string \<Rightarrow> (decimal \<Rightarrow> assetCtxMsg \<Rightarrow> assetCtxMsg) option" where
  "ctx_target k =
     (if k = ''funding'' then Some (\<lambda>d m. m\<lparr>ac_funding := d\<rparr>)
      else if k = ''openInterest'' then Some (\<lambda>d m. m\<lparr>ac_openInterest := d\<rparr>)
      else if k = ''oraclePx'' then Some (\<lambda>d m. m\<lparr>ac_oraclePx := d\<rparr>)
      else if k = ''premium'' then Some (\<lambda>d m. m\<lparr>ac_premium := d\<rparr>)
      else if k = ''markPx'' then Some (\<lambda>d m. m\<lparr>ac_markPx := d\<rparr>)
      else if k = ''midPx'' then Some (\<lambda>d m. m\<lparr>ac_midPx := d, ac_hasMidPx := True\<rparr>)
      else if k = ''prevDayPx'' then Some (\<lambda>d m. m\<lparr>ac_prevDayPx := d\<rparr>)
      else if k = ''dayNtlVlm'' then Some (\<lambda>d m. m\<lparr>ac_dayNtlVlm := d\<rparr>)
      else if k = ''dayBaseVlm'' then Some (\<lambda>d m. m\<lparr>ac_dayBaseVlm := d\<rparr>)
      else if k = ''circulatingSupply'' then Some (\<lambda>d m. m\<lparr>ac_circulatingSupply := d\<rparr>)
      else None)"

definition ctx_field :: "string \<Rightarrow> od \<Rightarrow> assetCtxMsg \<Rightarrow> assetCtxMsg option" where
  "ctx_field k v m =
     (case ctx_target k of
        None \<Rightarrow> Some m
      | Some put \<Rightarrow> if is_null v then Some m else readDecimal v (\<lambda>d. put d m))"

definition assetCtx_field :: "string \<Rightarrow> od \<Rightarrow> assetCtxMsg \<Rightarrow> assetCtxMsg option" where
  "assetCtx_field key v m =
     (if key = ''coin'' then readString v (\<lambda>s. m\<lparr>ac_coin := s\<rparr>)
      else if key = ''ctx'' then in_object ctx_field v m
      else Some m)"

definition no_assetCtx :: "bool \<Rightarrow> assetCtxMsg" where
  "no_assetCtx isSpot = \<lparr>ac_coin = [], ac_isSpot = isSpot, ac_funding = dec_zero, ac_openInterest = dec_zero,
     ac_oraclePx = dec_zero, ac_premium = dec_zero, ac_markPx = dec_zero, ac_midPx = dec_zero, ac_hasMidPx = False,
     ac_prevDayPx = dec_zero, ac_dayNtlVlm = dec_zero, ac_dayBaseVlm = dec_zero, ac_circulatingSupply = dec_zero\<rparr>"

definition onAssetCtx :: "bool \<Rightarrow> od \<Rightarrow> ws_message list option" where
  "onAssetCtx isSpot d = map_option (\<lambda>m. [OnAssetCtx m]) (in_object assetCtx_field d (no_assetCtx isSpot))"

definition onAllMids :: "od \<Rightarrow> ws_message list option" where
  "onAllMids d =
     (case od_field d ''mids'' of
        None \<Rightarrow> None
      | Some o' \<Rightarrow>
          map_option (\<lambda>ms. [OnAllMids ms]) (in_object (\<lambda>k v ms. readDecimal v (\<lambda>x. ms @ [(k, x)])) o' []))"

definition candle_field :: "string \<Rightarrow> od \<Rightarrow> candleMsg \<Rightarrow> candleMsg option" where
  "candle_field key v m =
     (if key = ''s'' then readString v (\<lambda>s. m\<lparr>c_coin := s\<rparr>)
      else if key = ''i'' then readString v (\<lambda>s. m\<lparr>c_interval := s\<rparr>)
      else if key = ''t'' then readInt v (\<lambda>i. m\<lparr>c_openTimeMs := i\<rparr>)
      else if key = ''T'' then readInt v (\<lambda>i. m\<lparr>c_closeTimeMs := i\<rparr>)
      else if key = ''o'' then readDecimal v (\<lambda>d. m\<lparr>c_open := d\<rparr>)
      else if key = ''c'' then readDecimal v (\<lambda>d. m\<lparr>c_close := d\<rparr>)
      else if key = ''h'' then readDecimal v (\<lambda>d. m\<lparr>c_high := d\<rparr>)
      else if key = ''l'' then readDecimal v (\<lambda>d. m\<lparr>c_low := d\<rparr>)
      else if key = ''v'' then readDecimal v (\<lambda>d. m\<lparr>c_volume := d\<rparr>)
      else if key = ''n'' then readUint v (\<lambda>i. m\<lparr>c_trades := i\<rparr>)
      else Some m)"

definition onCandle :: "od \<Rightarrow> ws_message list option" where
  "onCandle d =
     map_option (\<lambda>m. [OnCandle m])
       (in_object candle_field d \<lparr>c_coin = [], c_interval = [], c_openTimeMs = 0, c_closeTimeMs = 0, c_open = dec_zero,
          c_close = dec_zero, c_high = dec_zero, c_low = dec_zero, c_volume = dec_zero, c_trades = 0\<rparr>)"

section \<open>Orders and fills\<close>

definition order_field :: "string \<Rightarrow> od \<Rightarrow> orderUpdateMsg \<Rightarrow> orderUpdateMsg option" where
  "order_field k v u =
     (if k = ''coin'' then readString v (\<lambda>s. u\<lparr>u_coin := s\<rparr>)
      else if k = ''side'' then readSide v (\<lambda>s. u\<lparr>u_side := s\<rparr>)
      else if k = ''limitPx'' then readDecimal v (\<lambda>d. u\<lparr>u_limitPx := d\<rparr>)
      else if k = ''sz'' then readDecimal v (\<lambda>d. u\<lparr>u_sz := d\<rparr>)
      else if k = ''origSz'' then readDecimal v (\<lambda>d. u\<lparr>u_origSz := d\<rparr>)
      else if k = ''oid'' then readUint v (\<lambda>i. u\<lparr>u_oid := i\<rparr>)
      else if k = ''timestamp'' then readInt v (\<lambda>i. u\<lparr>u_timestampMs := i\<rparr>)
      else if k = ''cloid'' then Some (u\<lparr>u_cloid := readOptionalCloid v (u_cloid u)\<rparr>)
      else Some u)"

definition update_field :: "string \<Rightarrow> od \<Rightarrow> orderUpdateMsg \<Rightarrow> orderUpdateMsg option" where
  "update_field key v u =
     (if key = ''order'' then in_object order_field v u
      else if key = ''status'' then readString v (\<lambda>s. u\<lparr>u_statusText := s, u_status := parseOrderUpdateStatus s\<rparr>)
      else if key = ''statusTimestamp'' then readInt v (\<lambda>i. u\<lparr>u_statusTimestampMs := i\<rparr>)
      else Some u)"

definition no_update :: orderUpdateMsg where
  "no_update = \<lparr>u_coin = [], u_side = Buy, u_limitPx = dec_zero, u_sz = dec_zero, u_origSz = dec_zero, u_oid = 0,
     u_timestampMs = 0, u_cloid = None, u_status = UUnknown, u_statusText = [], u_statusTimestampMs = 0\<rparr>"

definition ws_onOrderUpdates :: "od \<Rightarrow> ws_message list option" where
  "ws_onOrderUpdates d =
     map_option (\<lambda>us. [OnOrderUpdates us])
       (in_array (\<lambda>v us. map_option (\<lambda>u. us @ [u]) (in_object update_field v no_update)) d [])"

definition fill_field :: "string \<Rightarrow> od \<Rightarrow> fillMsg \<Rightarrow> fillMsg option" where
  "fill_field k v f =
     (if k = ''coin'' then readString v (\<lambda>s. f\<lparr>f_coin := s\<rparr>)
      else if k = ''px'' then readDecimal v (\<lambda>d. f\<lparr>f_px := d\<rparr>)
      else if k = ''sz'' then readDecimal v (\<lambda>d. f\<lparr>f_sz := d\<rparr>)
      else if k = ''side'' then readSide v (\<lambda>s. f\<lparr>f_side := s\<rparr>)
      else if k = ''time'' then readInt v (\<lambda>i. f\<lparr>f_timeMs := i\<rparr>)
      else if k = ''startPosition'' then readDecimal v (\<lambda>d. f\<lparr>f_startPosition := d\<rparr>)
      else if k = ''dir'' then readString v (\<lambda>s. f\<lparr>f_dir := s\<rparr>)
      else if k = ''closedPnl'' then readDecimal v (\<lambda>d. f\<lparr>f_closedPnl := d\<rparr>)
      else if k = ''hash'' then readString v (\<lambda>s. f\<lparr>f_hash := s\<rparr>)
      else if k = ''oid'' then readUint v (\<lambda>i. f\<lparr>f_oid := i\<rparr>)
      else if k = ''crossed'' then readBool v (\<lambda>b. f\<lparr>f_crossed := b\<rparr>)
      else if k = ''fee'' then readDecimal v (\<lambda>d. f\<lparr>f_fee := d\<rparr>)
      else if k = ''feeToken'' then readString v (\<lambda>s. f\<lparr>f_feeToken := s\<rparr>)
      else if k = ''tid'' then readUint v (\<lambda>i. f\<lparr>f_tid := i\<rparr>)
      else if k = ''cloid'' then Some (f\<lparr>f_cloid := readOptionalCloid v (f_cloid f)\<rparr>)
      else Some f)"

definition readFill :: "od \<Rightarrow> fillMsg \<Rightarrow> fillMsg option" where
  "readFill v f = in_object fill_field v f"

definition no_fill :: fillMsg where
  "no_fill = \<lparr>f_coin = [], f_px = dec_zero, f_sz = dec_zero, f_side = Buy, f_timeMs = 0, f_startPosition = dec_zero,
     f_dir = [], f_closedPnl = dec_zero, f_hash = [], f_oid = 0, f_crossed = False, f_fee = dec_zero, f_feeToken = [],
     f_tid = 0, f_cloid = None\<rparr>"

definition push_fill :: "od \<Rightarrow> fillMsg list \<Rightarrow> fillMsg list option" where
  "push_fill v fs = map_option (\<lambda>f. fs @ [f]) (readFill v no_fill)"

definition userFills_field :: "string \<Rightarrow> od \<Rightarrow> userFillsMsg \<Rightarrow> userFillsMsg option" where
  "userFills_field key v m =
     (if key = ''isSnapshot'' then readBool v (\<lambda>b. m\<lparr>uf_isSnapshot := b\<rparr>)
      else if key = ''user'' then readString v (\<lambda>s. m\<lparr>uf_user := s\<rparr>)
      else if key = ''fills'' then map_option (\<lambda>fs. m\<lparr>uf_fills := fs\<rparr>) (in_array push_fill v (uf_fills m))
      else Some m)"

definition no_fills :: userFillsMsg where
  "no_fills = \<lparr>uf_isSnapshot = False, uf_user = [], uf_fills = []\<rparr>"

definition ws_onUserFills :: "od \<Rightarrow> ws_message list option" where
  "ws_onUserFills d = map_option (\<lambda>m. [OnUserFills m]) (in_object userFills_field d no_fills)"

definition funding_field :: "string \<Rightarrow> od \<Rightarrow> userFundingMsg \<Rightarrow> userFundingMsg option" where
  "funding_field key v f =
     (if key = ''time'' then readInt v (\<lambda>i. f\<lparr>fu_timeMs := i\<rparr>)
      else if key = ''coin'' then readString v (\<lambda>s. f\<lparr>fu_coin := s\<rparr>)
      else if key = ''usdc'' then readDecimal v (\<lambda>d. f\<lparr>fu_usdc := d\<rparr>)
      else if key = ''szi'' then readDecimal v (\<lambda>d. f\<lparr>fu_szi := d\<rparr>)
      else if key = ''fundingRate'' then readDecimal v (\<lambda>d. f\<lparr>fu_rate := d\<rparr>)
      else Some f)"

definition readFundingEntry :: "od \<Rightarrow> userFundingMsg option" where
  "readFundingEntry v =
     in_object funding_field v \<lparr>fu_timeMs = 0, fu_coin = [], fu_usdc = dec_zero, fu_szi = dec_zero, fu_rate = dec_zero\<rparr>"

definition readFills :: "bool \<Rightarrow> od \<Rightarrow> ws_message list option" where
  "readFills isSnapshot v =
     map_option (\<lambda>fs. [OnUserFills (no_fills\<lparr>uf_isSnapshot := isSnapshot, uf_fills := fs\<rparr>)]) (in_array push_fill v [])"

definition liquidation_field :: "string \<Rightarrow> od \<Rightarrow> liquidationMsg \<Rightarrow> liquidationMsg option" where
  "liquidation_field k v m =
     (if k = ''lid'' then readUint v (\<lambda>i. m\<lparr>lq_lid := i\<rparr>)
      else if k = ''liquidator'' then readString v (\<lambda>s. m\<lparr>lq_liquidator := s\<rparr>)
      else if k = ''liquidated_user'' then readString v (\<lambda>s. m\<lparr>lq_liquidatedUser := s\<rparr>)
      else if k = ''liquidated_ntl_pos'' then readDecimal v (\<lambda>d. m\<lparr>lq_liquidatedNtlPos := d\<rparr>)
      else if k = ''liquidated_account_value'' then readDecimal v (\<lambda>d. m\<lparr>lq_liquidatedAccountValue := d\<rparr>)
      else Some m)"

definition nonUserCancel_field :: "string \<Rightarrow> od \<Rightarrow> nonUserCancelMsg \<Rightarrow> nonUserCancelMsg option" where
  "nonUserCancel_field k v c =
     (if k = ''coin'' then readString v (\<lambda>s. c\<lparr>nc_coin := s\<rparr>)
      else if k = ''oid'' then readUint v (\<lambda>i. c\<lparr>nc_oid := i\<rparr>)
      else Some c)"

definition userEvent :: "string \<Rightarrow> od \<Rightarrow> ws_message list option" where
  "userEvent key v =
     (if key = ''fills'' then readFills False v
      else if key = ''funding'' then map_option (\<lambda>f. [OnUserFundings [f]]) (readFundingEntry v)
      else if key = ''liquidation'' then
        map_option (\<lambda>m. [OnLiquidation m])
          (in_object liquidation_field v \<lparr>lq_lid = 0, lq_liquidator = [], lq_liquidatedUser = [],
             lq_liquidatedNtlPos = dec_zero, lq_liquidatedAccountValue = dec_zero\<rparr>)
      else if key = ''nonUserCancel'' then
        map_option (\<lambda>cs. [OnNonUserCancels cs])
          (in_array (\<lambda>v cs. map_option (\<lambda>c. cs @ [c]) (in_object nonUserCancel_field v \<lparr>nc_coin = [], nc_oid = 0\<rparr>)) v [])
      else Some [])"

text \<open>This reader calls the handler inside its loop: it returns what it has sent, and whether it reached the end.\<close>

fun userEvents_loop :: "(string option \<times> od) list \<Rightarrow> ws_message list \<Rightarrow> ws_message list \<times> bool" where
  "userEvents_loop [] sent = (sent, True)"
| "userEvents_loop ((None, v) # fs) sent = (sent, False)"
| "userEvents_loop ((Some k, v) # fs) sent =
     (case userEvent k v of None \<Rightarrow> (sent, False) | Some evs \<Rightarrow> userEvents_loop fs (sent @ evs))"

definition onUserEvents :: "od \<Rightarrow> ws_message list \<times> bool" where
  "onUserEvents d = (case d of OdObject fs \<Rightarrow> userEvents_loop fs [] | _ \<Rightarrow> ([], False))"

definition fundings_field :: "string \<Rightarrow> od \<Rightarrow> userFundingMsg list \<Rightarrow> userFundingMsg list option" where
  "fundings_field key v fs =
     (if key = ''fundings'' then in_array (\<lambda>v fs. map_option (\<lambda>f. fs @ [f]) (readFundingEntry v)) v fs else Some fs)"

definition onUserFundings :: "od \<Rightarrow> ws_message list option" where
  "onUserFundings d = map_option (\<lambda>fs. [OnUserFundings fs]) (in_object fundings_field d [])"

section \<open>Limits, answers and the rest\<close>

definition leverage_field :: "string \<Rightarrow> od \<Rightarrow> activeAssetDataMsg \<Rightarrow> activeAssetDataMsg option" where
  "leverage_field k v m =
     (if k = ''type'' then readString v (\<lambda>s. m\<lparr>ad_isCross := s \<noteq> ''isolated''\<rparr>)
      else if k = ''value'' then readUint v (\<lambda>i. m\<lparr>ad_leverage := ucast i\<rparr>)
      else Some m)"

text \<open>Two decimals, one per side.\<close>

fun read_pair :: "(nat \<Rightarrow> decimal \<Rightarrow> 'm \<Rightarrow> 'm) \<Rightarrow> nat \<Rightarrow> od option list \<Rightarrow> 'm \<Rightarrow> 'm option" where
  "read_pair put i [] m = Some m"
| "read_pair put i (None # vs) m = None"
| "read_pair put i (Some v # vs) m =
     (case readDecimal v (\<lambda>d. put i d m) of
        None \<Rightarrow> None
      | Some m \<Rightarrow> if i + 1 = 2 then Some m else read_pair put (i + 1) vs m)"

definition put_maxTradeSz :: "nat \<Rightarrow> decimal \<Rightarrow> activeAssetDataMsg \<Rightarrow> activeAssetDataMsg" where
  "put_maxTradeSz i d m = (if i = 0 then m\<lparr>ad_maxTradeSzBuy := d\<rparr> else m\<lparr>ad_maxTradeSzSell := d\<rparr>)"

definition put_availableToTrade :: "nat \<Rightarrow> decimal \<Rightarrow> activeAssetDataMsg \<Rightarrow> activeAssetDataMsg" where
  "put_availableToTrade i d m = (if i = 0 then m\<lparr>ad_availableToTradeBuy := d\<rparr> else m\<lparr>ad_availableToTradeSell := d\<rparr>)"

definition assetData_field :: "string \<Rightarrow> od \<Rightarrow> activeAssetDataMsg \<Rightarrow> activeAssetDataMsg option" where
  "assetData_field key v m =
     (if key = ''user'' then readString v (\<lambda>s. m\<lparr>ad_user := s\<rparr>)
      else if key = ''coin'' then readString v (\<lambda>s. m\<lparr>ad_coin := s\<rparr>)
      else if key = ''markPx'' then readDecimal v (\<lambda>d. m\<lparr>ad_markPx := d\<rparr>)
      else if key = ''leverage'' then in_object leverage_field v m
      else if key = ''maxTradeSzs'' then (case v of OdArray vs \<Rightarrow> read_pair put_maxTradeSz 0 vs m | _ \<Rightarrow> None)
      else if key = ''availableToTrade'' then (case v of OdArray vs \<Rightarrow> read_pair put_availableToTrade 0 vs m | _ \<Rightarrow> None)
      else Some m)"

definition onActiveAssetData :: "od \<Rightarrow> ws_message list option" where
  "onActiveAssetData d =
     map_option (\<lambda>m. [OnActiveAssetData m])
       (in_object assetData_field d \<lparr>ad_user = [], ad_coin = [], ad_leverage = 0, ad_isCross = True, ad_maxTradeSzBuy = dec_zero,
          ad_maxTradeSzSell = dec_zero, ad_availableToTradeBuy = dec_zero, ad_availableToTradeSell = dec_zero, ad_markPx = dec_zero\<rparr>)"

definition onNotification :: "od \<Rightarrow> ws_message list option" where
  "onNotification d =
     (case od_field d ''notification'' of None \<Rightarrow> None | Some v \<Rightarrow> readString v (\<lambda>s. [OnNotification s]))"

definition post_type :: "string \<Rightarrow> postType" where
  "post_type t = (if t = ''action'' then PostAction else if t = ''info'' then PostInfo else PostError)"

definition response_field :: "(od \<Rightarrow> string option) \<Rightarrow> string \<Rightarrow> od \<Rightarrow> postResponseMsg \<Rightarrow> postResponseMsg option" where
  "response_field raw_json k v m =
     (if k = ''type'' then readString v (\<lambda>s. m\<lparr>pr_type := post_type s\<rparr>)
      else if k = ''payload'' then
        map_option (\<lambda>s. m\<lparr>pr_payload := s\<rparr>) (case get_string v of Some s \<Rightarrow> Some s | None \<Rightarrow> raw_json v)
      else Some m)"

definition post_field :: "(od \<Rightarrow> string option) \<Rightarrow> string \<Rightarrow> od \<Rightarrow> postResponseMsg \<Rightarrow> postResponseMsg option" where
  "post_field raw_json key v m =
     (if key = ''id'' then readUint v (\<lambda>i. m\<lparr>pr_id := i\<rparr>)
      else if key = ''response'' then in_object (response_field raw_json) v m
      else Some m)"

definition onPost :: "(od \<Rightarrow> string option) \<Rightarrow> od \<Rightarrow> ws_message list option" where
  "onPost raw_json d =
     map_option (\<lambda>m. [OnPostResponse m]) (in_object (post_field raw_json) d \<lparr>pr_id = 0, pr_type = PostError, pr_payload = []\<rparr>)"

definition subscription_field :: "string \<Rightarrow> od \<Rightarrow> subscriptionResponseMsg \<Rightarrow> subscriptionResponseMsg option" where
  "subscription_field k v m =
     (if k = ''type'' then readString v (\<lambda>s. m\<lparr>sr_subscriptionType := s\<rparr>)
      else if k = ''coin'' then Some (case get_string v of None \<Rightarrow> m | Some s \<Rightarrow> m\<lparr>sr_coin := s\<rparr>)
      else Some m)"

definition subscriptionResponse_field :: "string \<Rightarrow> od \<Rightarrow> subscriptionResponseMsg \<Rightarrow> subscriptionResponseMsg option" where
  "subscriptionResponse_field key v m =
     (if key = ''method'' then readString v (\<lambda>s. m\<lparr>sr_method := s\<rparr>)
      else if key = ''subscription'' then in_object subscription_field v m
      else Some m)"

definition ws_onSubscriptionResponse :: "od \<Rightarrow> ws_message list option" where
  "ws_onSubscriptionResponse d =
     map_option (\<lambda>m. [OnSubscriptionResponse m])
       (in_object subscriptionResponse_field d \<lparr>sr_method = [], sr_subscriptionType = [], sr_coin = []\<rparr>)"

section \<open>Frames\<close>

record parser_stats =
  messages :: u64
  parseErrors :: u64
  unhandled :: u64

text \<open>The readers that call the handler once, at their end. \<open>d\<close> is the value of \<open>data\<close>.\<close>

definition reader :: "(od \<Rightarrow> string option) \<Rightarrow> string \<Rightarrow> (od \<Rightarrow> ws_message list option) option" where
  "reader raw_json channel =
     (if channel = ''bbo'' then Some onBbo
      else if channel = ''l2Book'' then Some onL2Book
      else if channel = ''trades'' then Some onTrades
      else if channel = ''activeAssetCtx'' then Some (onAssetCtx False)
      else if channel = ''activeSpotAssetCtx'' then Some (onAssetCtx True)
      else if channel = ''orderUpdates'' then Some ws_onOrderUpdates
      else if channel = ''userFills'' then Some ws_onUserFills
      else if channel = ''candle'' then Some onCandle
      else if channel = ''userFundings'' then Some onUserFundings
      else if channel = ''activeAssetData'' then Some onActiveAssetData
      else if channel = ''notification'' then Some onNotification
      else if channel = ''post'' then Some (onPost raw_json)
      else if channel = ''allMids'' then Some onAllMids
      else if channel = ''subscriptionResponse'' then Some ws_onSubscriptionResponse
      else None)"

definition dispatch_frame ::
  "(od \<Rightarrow> string option) \<Rightarrow> string \<Rightarrow> string \<Rightarrow> od option \<Rightarrow> parser_stats \<Rightarrow> bool \<times> ws_message list \<times> parser_stats" where
  "dispatch_frame raw_json frame channel d st =
     (case reader raw_json channel of
        Some rd \<Rightarrow> (case Option.bind d rd of None \<Rightarrow> (False, [], st) | Some evs \<Rightarrow> (True, evs, st))
      | None \<Rightarrow>
          if channel = ''user'' then
            (case d of None \<Rightarrow> (False, [], st) | Some v \<Rightarrow> (case onUserEvents v of (evs, ok) \<Rightarrow> (ok, evs, st)))
          else if channel = ''pong'' then (True, [OnPong], st)
          else if channel = ''error'' then
            (True, [OnVenueError (case Option.bind d get_string of None \<Rightarrow> frame | Some s \<Rightarrow> s)], st)
          else (True, [OnUnhandled channel frame], st\<lparr>unhandled := unhandled st + 1\<rparr>))"

definition parse_frame ::
  "(string \<Rightarrow> od option) \<Rightarrow> (od \<Rightarrow> string option) \<Rightarrow> string \<Rightarrow> parser_stats \<Rightarrow> bool \<times> ws_message list \<times> parser_stats" where
  "parse_frame iterate raw_json frame st =
     (let st = st\<lparr>messages := messages st + 1\<rparr>; failed = (\<lambda>st. st\<lparr>parseErrors := parseErrors st + 1\<rparr>) in
      case iterate frame of
        Some (OdObject fs) \<Rightarrow>
          (case find_key ''channel'' fs of
             None \<Rightarrow> (False, [], failed st)
           | Some (c, rest) \<Rightarrow>
               (case get_string c of
                  None \<Rightarrow> (False, [], failed st)
                | Some channel \<Rightarrow>
                    (case dispatch_frame raw_json frame channel (find_next ''data'' rest fs) st of
                       (ok, evs, st) \<Rightarrow> (ok, evs, if ok then st else failed st))))
      | _ \<Rightarrow> (False, [], failed st))"

end
