(* ===== verification/HL_Decoding.thy ===== *)
theory HL_Decoding
  imports HL_Messages "HOL-Library.Multiset"
begin

text \<open>
  What the frame parser promises: readers whose fields may come in any order (the locale \<open>field_reader\<close>, with the
  readers of levels, orders, updates and fills as its instances), decoding of what the venue sends, the counters of a frame
  and the depth of a snapshot.
\<close>

section \<open>The order of the fields\<close>

definition commutes :: "('v \<Rightarrow> 'm \<Rightarrow> 'm option) \<Rightarrow> ('w \<Rightarrow> 'm \<Rightarrow> 'm option) \<Rightarrow> bool" where
  "commutes g h \<longleftrightarrow> (\<forall>v w m. Option.bind (g v m) (h w) = Option.bind (h w m) (g v))"

definition field_step :: "(string \<Rightarrow> od \<Rightarrow> 'm \<Rightarrow> 'm option) \<Rightarrow> string option \<times> od \<Rightarrow> 'm \<Rightarrow> 'm option" where
  "field_step f x m = (case fst x of None \<Rightarrow> None | Some k \<Rightarrow> f k (snd x) m)"

lemma field_step_key: "fst x = None \<Longrightarrow> field_step f x = (\<lambda>m. None)" "fst x = Some k \<Longrightarrow> field_step f x = f k (snd x)"
  by (auto simp: field_step_def)

lemma od_fields_Cons: "od_fields f (x # fs) m = Option.bind (field_step f x m) (od_fields f fs)"
  by (cases x; cases "fst x") (auto simp: field_step_def split: option.split)

lemma bind_fails: "(\<And>x. g x = None) \<Longrightarrow> Option.bind r g = None"
  by (cases r) auto

text \<open>A reader of fields whose keys are independent of each other.\<close>

locale field_reader =
  fixes f :: "string \<Rightarrow> od \<Rightarrow> 'm \<Rightarrow> 'm option"
  assumes commute: "k \<noteq> k' \<Longrightarrow> commutes (f k) (f k')"
begin

lemma step_commute:
  assumes "fst x \<noteq> fst y"
  shows "Option.bind (field_step f x m) (field_step f y) = Option.bind (field_step f y m) (field_step f x)"
proof (cases "fst x = None \<or> fst y = None")
  case True
  then have "field_step f x = (\<lambda>m. None) \<or> field_step f y = (\<lambda>m. None)" by (auto simp: field_step_def)
  then show ?thesis using bind_fails by fastforce
next
  case False
  then obtain k k' where "fst x = Some k" "fst y = Some k'" by auto
  then have "field_step f x = f k (snd x)" "field_step f y = f k' (snd y)" by (auto simp: field_step_def)
  then show ?thesis using assms commute[of k k'] \<open>fst x = Some k\<close> \<open>fst y = Some k'\<close> by (simp add: commutes_def)
qed

lemma move_front: "fst x \<notin> fst ` set as \<Longrightarrow> od_fields f (as @ x # bs) m = od_fields f (x # as @ bs) m"
proof (induction as arbitrary: m)
  case (Cons a as)
  then have "fst x \<noteq> fst a" and ih: "od_fields f (as @ x # bs) = od_fields f (x # as @ bs)" by auto
  have "od_fields f ((a # as) @ x # bs) m = Option.bind (field_step f a m) (od_fields f (x # as @ bs))"
    by (simp add: od_fields_Cons ih)
  also have "\<dots> = Option.bind (Option.bind (field_step f a m) (field_step f x)) (od_fields f (as @ bs))"
    unfolding Option.bind_assoc by (intro Option.bind_cong refl od_fields_Cons)
  also have "\<dots> = Option.bind (Option.bind (field_step f x m) (field_step f a)) (od_fields f (as @ bs))"
    using step_commute[OF \<open>fst x \<noteq> fst a\<close>, of m] by simp
  also have "\<dots> = od_fields f (x # a # as @ bs) m"
    unfolding Option.bind_assoc od_fields_Cons[of _ x] by (intro Option.bind_cong refl od_fields_Cons[symmetric])
  finally show ?case by simp
qed simp

lemma fields_any_order:
  assumes "mset fs = mset gs" and "distinct (map fst fs)"
  shows "od_fields f fs m = od_fields f gs m"
  using assms
proof (induction fs arbitrary: gs m)
  case (Cons x fs)
  have "x \<in> set gs" using Cons.prems(1) by (metis list.set_intros(1) set_mset_mset)
  then obtain as bs where gs: "gs = as @ x # bs" by (meson split_list)
  have m: "mset fs = mset (as @ bs)" using Cons.prems(1) gs by simp
  have "fst x \<notin> fst ` set (as @ bs)" using Cons.prems(2) mset_eq_setD[OF m] by auto
  then have "od_fields f gs m = od_fields f (x # as @ bs) m" unfolding gs by (intro move_front) auto
  moreover have "od_fields f fs = od_fields f (as @ bs)" using Cons.IH[OF m] Cons.prems(2) by auto
  ultimately show ?case by (simp add: od_fields_Cons)
qed simp

end

section \<open>Readers as tables\<close>

definition select :: "(string \<times> (od \<Rightarrow> 'm \<Rightarrow> 'm option)) list \<Rightarrow> string \<Rightarrow> od \<Rightarrow> 'm \<Rightarrow> 'm option" where
  "select T k v m = (case map_of T k of None \<Rightarrow> Some m | Some h \<Rightarrow> h v m)"

definition setter :: "(od \<Rightarrow> 'x option) \<Rightarrow> ('x \<Rightarrow> 'm \<Rightarrow> 'm) \<Rightarrow> od \<Rightarrow> 'm \<Rightarrow> 'm option" where
  "setter rd put v m = map_option (\<lambda>x. put x m) (rd v)"

lemma commutes_sym: "commutes g h \<Longrightarrow> commutes h g"
  by (simp add: commutes_def)

lemma commutes_setter:
  assumes "\<And>x y m. put x (put' y m) = put' y (put x m)"
  shows "commutes (setter rd put) (setter rd' put')"
proof -
  have "Option.bind (setter rd put v m) (setter rd' put' w) = Option.bind (setter rd' put' w m) (setter rd put v)" for v w m
    by (cases "rd v"; cases "rd' w") (simp_all add: setter_def assms)
  then show ?thesis by (simp add: commutes_def)
qed

lemma commutes_skip: "commutes (\<lambda>v. Some) h"
  by (simp add: commutes_def)

lemma select_key: "select T k = (case map_of T k of None \<Rightarrow> (\<lambda>v. Some) | Some h \<Rightarrow> h)"
  by (intro ext) (simp add: select_def split: option.split)

lemma table_reader:
  assumes "f = select T" and "sorted_wrt (\<lambda>x y. commutes (snd x) (snd y)) T"
  shows "field_reader f"
proof
  have pair: "commutes g h" if "map_of T k = Some g" "map_of T k' = Some h" "k \<noteq> k'" for k k' g h
    using assms(2) that
  proof (induction T)
    case (Cons x T)
    then have "\<And>k h. map_of T k = Some h \<Longrightarrow> commutes (snd x) h" by (fastforce dest: map_of_SomeD)
    then show ?case using Cons by (cases x) (auto split: if_splits intro: commutes_sym)
  qed simp
  show "commutes (f k) (f k')" if "k \<noteq> k'" for k k'
    unfolding assms(1) select_key using pair[OF _ _ that]
    by (auto split: option.split intro: commutes_skip commutes_sym)
qed

lemma commutes_object:
  assumes "f = select T" and "list_all (\<lambda>x. commutes (snd x) h) T"
  shows "commutes (in_object f) h"
proof -
  have "commutes (f k) h" for k
    using assms(2) map_of_SomeD[of T k] unfolding assms(1) select_key
    by (fastforce split: option.split intro: commutes_skip simp: list_all_iff)
  then have s: "Option.bind (f k v m) (h w) = Option.bind (h w m) (f k v)" for k v w m by (simp add: commutes_def)
  have fs: "Option.bind (od_fields f fs m) (h w) = Option.bind (h w m) (od_fields f fs)" for fs m w
  proof (induction fs arbitrary: m)
    case (Cons x fs)
    have "Option.bind (field_step f x m) (h w) = Option.bind (h w m) (field_step f x)"
      by (cases "fst x") (simp_all add: field_step_key s bind_fails)
    then have "Option.bind (Option.bind (field_step f x m) (h w)) (od_fields f fs) = Option.bind (h w m) (od_fields f (x # fs))"
      by (simp add: Option.bind_assoc od_fields_Cons[abs_def])
    then show ?case by (simp add: od_fields_Cons[abs_def] Option.bind_assoc Cons.IH)
  qed (simp add: od_fields.simps(1)[abs_def])
  have "Option.bind (in_object f v m) (h w) = Option.bind (h w m) (in_object f v)" for v w m
    by (cases v) (simp_all add: in_object_def[abs_def] fs bind_fails)
  then show ?thesis by (simp add: commutes_def)
qed

section \<open>The tables of the source\<close>

lemma put_reads [simp]:
  "map_option g (readString v id) = readString v g" "map_option d (readDecimal v id) = readDecimal v d"
  "map_option i (readInt v id) = readInt v i" "map_option u (readUint v id) = readUint v u"
  "map_option b (readBool v id) = readBool v b" "map_option e (readSide v id) = readSide v e"
  by (auto simp: readString_def readDecimal_def readInt_def readUint_def readBool_def readSide_def option.map_comp comp_def
      split: od.split option.split)

abbreviation (input) str :: "(string \<Rightarrow> 'm \<Rightarrow> 'm) \<Rightarrow> od \<Rightarrow> 'm \<Rightarrow> 'm option" where "str \<equiv> setter (\<lambda>v. readString v id)"
abbreviation (input) dec :: "(decimal \<Rightarrow> 'm \<Rightarrow> 'm) \<Rightarrow> od \<Rightarrow> 'm \<Rightarrow> 'm option" where "dec \<equiv> setter (\<lambda>v. readDecimal v id)"
abbreviation (input) int64 :: "(int \<Rightarrow> 'm \<Rightarrow> 'm) \<Rightarrow> od \<Rightarrow> 'm \<Rightarrow> 'm option" where "int64 \<equiv> setter (\<lambda>v. readInt v id)"
abbreviation (input) uint64 :: "(u64 \<Rightarrow> 'm \<Rightarrow> 'm) \<Rightarrow> od \<Rightarrow> 'm \<Rightarrow> 'm option" where "uint64 \<equiv> setter (\<lambda>v. readUint v id)"
abbreviation (input) flag :: "(bool \<Rightarrow> 'm \<Rightarrow> 'm) \<Rightarrow> od \<Rightarrow> 'm \<Rightarrow> 'm option" where "flag \<equiv> setter (\<lambda>v. readBool v id)"
abbreviation (input) sided :: "(side \<Rightarrow> 'm \<Rightarrow> 'm) \<Rightarrow> od \<Rightarrow> 'm \<Rightarrow> 'm option" where "sided \<equiv> setter (\<lambda>v. readSide v id)"

lemma level_table: "level_field = select [(''px'', dec (\<lambda>d l. l\<lparr>px := d\<rparr>)), (''sz'', dec (\<lambda>d l. l\<lparr>sz := d\<rparr>)),
    (''n'', uint64 (\<lambda>n l. l\<lparr>n_orders := ucast n\<rparr>))]"
  by (intro ext) (simp add: level_field_def select_def setter_def)

lemma order_table: "order_field = select [(''coin'', str (\<lambda>s u. u\<lparr>u_coin := s\<rparr>)), (''side'', sided (\<lambda>s u. u\<lparr>u_side := s\<rparr>)),
    (''limitPx'', dec (\<lambda>d u. u\<lparr>u_limitPx := d\<rparr>)), (''sz'', dec (\<lambda>d u. u\<lparr>u_sz := d\<rparr>)), (''origSz'', dec (\<lambda>d u. u\<lparr>u_origSz := d\<rparr>)),
    (''oid'', uint64 (\<lambda>i u. u\<lparr>u_oid := i\<rparr>)), (''timestamp'', int64 (\<lambda>i u. u\<lparr>u_timestampMs := i\<rparr>)),
    (''cloid'', setter Some (\<lambda>v u. u\<lparr>u_cloid := readOptionalCloid v (u_cloid u)\<rparr>))]"
  by (intro ext) (simp add: order_field_def select_def setter_def)

interpretation level_fs: field_reader level_field
  by (rule table_reader[OF level_table]) (simp add: commutes_setter)

interpretation order_fs: field_reader order_field
  by (rule table_reader[OF order_table]) (simp add: commutes_setter)

lemma fill_table: "fill_field = select [(''coin'', str (\<lambda>s f. f\<lparr>f_coin := s\<rparr>)), (''px'', dec (\<lambda>d f. f\<lparr>f_px := d\<rparr>)),
    (''sz'', dec (\<lambda>d f. f\<lparr>f_sz := d\<rparr>)), (''side'', sided (\<lambda>s f. f\<lparr>f_side := s\<rparr>)), (''time'', int64 (\<lambda>i f. f\<lparr>f_timeMs := i\<rparr>)),
    (''startPosition'', dec (\<lambda>d f. f\<lparr>f_startPosition := d\<rparr>)), (''dir'', str (\<lambda>s f. f\<lparr>f_dir := s\<rparr>)),
    (''closedPnl'', dec (\<lambda>d f. f\<lparr>f_closedPnl := d\<rparr>)), (''hash'', str (\<lambda>s f. f\<lparr>f_hash := s\<rparr>)), (''oid'', uint64 (\<lambda>i f. f\<lparr>f_oid := i\<rparr>)),
    (''crossed'', flag (\<lambda>b f. f\<lparr>f_crossed := b\<rparr>)), (''fee'', dec (\<lambda>d f. f\<lparr>f_fee := d\<rparr>)), (''feeToken'', str (\<lambda>s f. f\<lparr>f_feeToken := s\<rparr>)),
    (''tid'', uint64 (\<lambda>i f. f\<lparr>f_tid := i\<rparr>)), (''cloid'', setter Some (\<lambda>v f. f\<lparr>f_cloid := readOptionalCloid v (f_cloid f)\<rparr>))]"
  by (intro ext) (simp add: fill_field_def select_def setter_def)

interpretation fill_fs: field_reader fill_field
  by (rule table_reader[OF fill_table]) (simp add: commutes_setter)

section \<open>Objects with more than the expected fields\<close>

text \<open>
  An object that holds the fields \<open>known\<close>, in any order and among others. The others are of no interest to a reader
  with the given keys, or are the client order id of an order that has none.
\<close>

definition holds :: "string list \<Rightarrow> (string option \<times> od) list \<Rightarrow> (string option \<times> od) list \<Rightarrow> bool" where
  "holds keys known fs \<longleftrightarrow> distinct (map fst fs) \<and> set known \<subseteq> set fs \<and> distinct known \<and>
     (\<forall>x \<in> set fs. x \<in> set known \<or> (\<exists>k. fst x = Some k \<and> (k \<in> set keys \<longrightarrow> k = ''cloid'' \<and> snd x = OdNull)))"

lemma od_fields_append: "od_fields f (xs @ ys) m = Option.bind (od_fields f xs m) (od_fields f ys)"
proof (induction xs arbitrary: m)
  case (Cons x xs)
  then have "od_fields f (xs @ ys) = (\<lambda>m. Option.bind (od_fields f xs m) (od_fields f ys))" by blast
  then show ?case by (simp add: od_fields_Cons Option.bind_assoc)
qed simp

lemma od_fields_skip: "(\<And>x. x \<in> set fs \<Longrightarrow> field_step f x m = Some m) \<Longrightarrow> od_fields f fs m = Some m"
  by (induction fs) (auto simp: od_fields_Cons)

context field_reader
begin

lemma reads_held:
  assumes "holds keys known fs" and "\<And>k v m. k \<notin> set keys \<Longrightarrow> f k v m = Some m" and "\<And>m. f ''cloid'' OdNull m = Some m"
  shows "od_fields f fs m = od_fields f known m"
proof -
  let ?others = "filter (\<lambda>x. x \<notin> set known) fs"
  have d: "distinct fs" "distinct (map fst fs)" using assms(1) by (auto simp: holds_def distinct_map)
  have "set fs = set (known @ ?others)" "distinct (known @ ?others)" using assms(1) d by (auto simp: holds_def)
  then have "mset fs = mset (known @ ?others)" using set_eq_iff_mset_eq_distinct[of fs "known @ ?others"] d(1) by blast
  from fields_any_order[OF this d(2)] have "od_fields f fs m = Option.bind (od_fields f known m) (od_fields f ?others)"
    by (simp add: od_fields_append)
  also have "od_fields f ?others m' = Some m'" for m'
  proof (rule od_fields_skip)
    fix x assume "x \<in> set ?others"
    then obtain k where "fst x = Some k" "k \<in> set keys \<longrightarrow> k = ''cloid'' \<and> snd x = OdNull"
      using assms(1) by (auto simp: holds_def)
    then show "field_step f x m' = Some m'" using assms(2)[of k] assms(3) by (cases "k \<in> set keys") (auto simp: field_step_key)
  qed
  then have "od_fields f ?others = Some" by auto
  finally show ?thesis by simp
qed

end

section \<open>What the venue sends\<close>

definition od_dec :: "decimal \<Rightarrow> od" where
  "od_dec d = OdString (dec_toString d)"

definition od_uint :: "u64 \<Rightarrow> od" where
  "od_uint u = OdNumber (emit_int (unat u) []) (if unat u < 2 ^ 63 then Some (uint u) else None) (Some u)"

definition od_time :: "int \<Rightarrow> od" where
  "od_time i = OdNumber (emit_int (nat i) []) (Some i) (Some (word_of_int i))"

definition od_side :: "side \<Rightarrow> od" where
  "od_side s = OdString (if s = Buy then ''B'' else ''A'')"

definition od_cloid :: "cloid option \<Rightarrow> (string option \<times> od) list" where
  "od_cloid c = (case c of None \<Rightarrow> [] | Some c \<Rightarrow> [(Some ''cloid'', OdString (cloid_toString c))])"

definition ok_decimal :: "decimal \<Rightarrow> bool" where
  "ok_decimal d \<longleftrightarrow> wf_decimal d \<and> d \<noteq> dec_min"

lemma parse_wire: "ok_decimal d \<Longrightarrow> parse (dec_toString d) = Some d"
  using parse_printed by (simp add: ok_decimal_def)

lemma od_reads [simp]:
  "ok_decimal d \<Longrightarrow> readDecimal (od_dec d) pd = Some (pd d)" "readUint (od_uint u) pu = Some (pu u)"
  "readInt (od_time i) pi = Some (pi i)" "readSide (od_side s) ps = Some (ps s)"
  "readString (OdString x) pt = Some (pt x)" "readBool (OdBool b) pb = Some (pb b)"
  by (simp_all add: readDecimal_def od_dec_def get_string_def parse_wire readUint_def od_uint_def readInt_def od_time_def
      readSide_def od_side_def readString_def readBool_def get_bool_def) (cases s; simp)

lemma cloid_reads [simp]:
  "readOptionalCloid (OdString (cloid_toString c)) old = Some c" "readOptionalCloid OdNull old = old"
  by (simp_all add: readOptionalCloid_def get_string_def cloid_parse_toString)

definition order_keys :: "string list" where
  "order_keys = [''coin'', ''side'', ''limitPx'', ''sz'', ''origSz'', ''oid'', ''timestamp'', ''cloid'']"

definition venue_order :: "orderUpdateMsg \<Rightarrow> (string option \<times> od) list" where
  "venue_order u = [(Some ''coin'', OdString (u_coin u)), (Some ''side'', od_side (u_side u)), (Some ''limitPx'', od_dec (u_limitPx u)),
     (Some ''sz'', od_dec (u_sz u)), (Some ''origSz'', od_dec (u_origSz u)), (Some ''oid'', od_uint (u_oid u)),
     (Some ''timestamp'', od_time (u_timestampMs u))] @ od_cloid (u_cloid u)"

definition ok_update :: "orderUpdateMsg \<Rightarrow> bool" where
  "ok_update u \<longleftrightarrow> ok_decimal (u_limitPx u) \<and> ok_decimal (u_sz u) \<and> ok_decimal (u_origSz u) \<and>
     u_status u = parseOrderUpdateStatus (u_statusText u)"

definition sends_update :: "orderUpdateMsg \<Rightarrow> od option \<Rightarrow> bool" where
  "sends_update u v \<longleftrightarrow> ok_update u \<and>
     (\<exists>fs gs. v = Some (OdObject fs) \<and> holds order_keys (venue_order u) gs \<and>
        holds [''order'', ''status'', ''statusTimestamp'']
          [(Some ''order'', OdObject gs), (Some ''status'', OdString (u_statusText u)), (Some ''statusTimestamp'', od_time (u_statusTimestampMs u))] fs)"

lemma update_table: "update_field = select [(''order'', in_object order_field),
    (''status'', str (\<lambda>s u. u\<lparr>u_statusText := s, u_status := parseOrderUpdateStatus s\<rparr>)),
    (''statusTimestamp'', int64 (\<lambda>i u. u\<lparr>u_statusTimestampMs := i\<rparr>))]"
  by (intro ext) (simp add: update_field_def select_def setter_def)

interpretation update_fs: field_reader update_field
  by (rule table_reader[OF update_table])
    (simp add: commutes_setter commutes_object[OF order_table])

lemma order_read:
  assumes "holds order_keys (venue_order u) gs" and "ok_update u"
  shows "od_fields order_field gs no_update = Some (u\<lparr>u_status := UUnknown, u_statusText := [], u_statusTimestampMs := 0\<rparr>)"
proof -
  have "od_fields order_field gs no_update = od_fields order_field (venue_order u) no_update"
    by (rule order_fs.reads_held[OF assms(1)]) (simp_all add: order_keys_def order_field_def)
  then show ?thesis using assms(2)
    by (cases "u_cloid u") (simp_all add: venue_order_def od_cloid_def order_field_def ok_update_def no_update_def)
qed

lemma update_read:
  assumes "sends_update u v"
  shows "Option.bind v (\<lambda>v. in_object update_field v no_update) = Some u"
proof -
  obtain fs gs where v: "v = Some (OdObject fs)" and gs: "holds order_keys (venue_order u) gs" and
    fs: "holds [''order'', ''status'', ''statusTimestamp'']
      [(Some ''order'', OdObject gs), (Some ''status'', OdString (u_statusText u)), (Some ''statusTimestamp'', od_time (u_statusTimestampMs u))] fs"
    and ok: "ok_update u" using assms by (auto simp: sends_update_def)
  have "od_fields update_field fs no_update = od_fields update_field
      [(Some ''order'', OdObject gs), (Some ''status'', OdString (u_statusText u)), (Some ''statusTimestamp'', od_time (u_statusTimestampMs u))] no_update"
    by (rule update_fs.reads_held[OF fs]) (simp_all add: update_field_def)
  then show ?thesis using order_read[OF gs ok] ok
    by (simp add: v in_object_def update_field_def ok_update_def)
qed

lemma elems_read:
  assumes "list_all2 (\<lambda>x v. Option.bind v g = Some x) xs vs"
  shows "od_elems (\<lambda>v acc. map_option (\<lambda>x. acc @ [x]) (g v)) vs acc = Some (acc @ xs)"
  using assms
proof (induction xs vs arbitrary: acc rule: list_all2_induct)
  case (Cons x xs v vs)
  then show ?case by (cases v) (auto split: option.splits)
qed simp

definition fill_keys :: "string list" where
  "fill_keys = [''coin'', ''px'', ''sz'', ''side'', ''time'', ''startPosition'', ''dir'', ''closedPnl'', ''hash'', ''oid'', ''crossed'',
     ''fee'', ''feeToken'', ''tid'', ''cloid'']"

definition venue_fill :: "fillMsg \<Rightarrow> (string option \<times> od) list" where
  "venue_fill f = [(Some ''coin'', OdString (f_coin f)), (Some ''px'', od_dec (f_px f)), (Some ''sz'', od_dec (f_sz f)),
     (Some ''side'', od_side (f_side f)), (Some ''time'', od_time (f_timeMs f)), (Some ''startPosition'', od_dec (f_startPosition f)),
     (Some ''dir'', OdString (f_dir f)), (Some ''closedPnl'', od_dec (f_closedPnl f)), (Some ''hash'', OdString (f_hash f)),
     (Some ''oid'', od_uint (f_oid f)), (Some ''crossed'', OdBool (f_crossed f)), (Some ''fee'', od_dec (f_fee f)),
     (Some ''feeToken'', OdString (f_feeToken f)), (Some ''tid'', od_uint (f_tid f))] @ od_cloid (f_cloid f)"

definition sends_fill :: "fillMsg \<Rightarrow> od option \<Rightarrow> bool" where
  "sends_fill f v \<longleftrightarrow> list_all ok_decimal [f_px f, f_sz f, f_startPosition f, f_closedPnl f, f_fee f] \<and>
     (\<exists>fs. v = Some (OdObject fs) \<and> holds fill_keys (venue_fill f) fs)"

lemma fill_read:
  assumes "sends_fill f v"
  shows "Option.bind v (\<lambda>v. readFill v no_fill) = Some f"
proof -
  obtain fs where v: "v = Some (OdObject fs)" and fs: "holds fill_keys (venue_fill f) fs"
    and ok: "list_all ok_decimal [f_px f, f_sz f, f_startPosition f, f_closedPnl f, f_fee f]" using assms by (auto simp: sends_fill_def)
  have "od_fields fill_field fs no_fill = od_fields fill_field (venue_fill f) no_fill"
    by (rule fill_fs.reads_held[OF fs]) (simp_all add: fill_keys_def fill_field_def)
  then show ?thesis using ok
    by (cases "f_cloid f") (simp_all add: v readFill_def in_object_def venue_fill_def od_cloid_def fill_field_def no_fill_def)
qed

lemma userFills_table: "userFills_field = select [(''isSnapshot'', flag (\<lambda>b m. m\<lparr>uf_isSnapshot := b\<rparr>)),
    (''user'', str (\<lambda>s m. m\<lparr>uf_user := s\<rparr>)),
    (''fills'', (\<lambda>v m. map_option (\<lambda>fs. m\<lparr>uf_fills := fs\<rparr>) (in_array push_fill v (uf_fills m))))]"
  by (intro ext) (simp add: userFills_field_def select_def setter_def)

lemma commutes_part:
  assumes "\<And>x m. get (put x m) = get m" and "\<And>x y m. put x (put' y m) = put' y (put x m)"
  shows "commutes (setter rd put) (\<lambda>v m. map_option (\<lambda>y. put' y m) (g v (get m)))"
proof -
  let ?h = "\<lambda>v m. map_option (\<lambda>y. put' y m) (g v (get m))"
  have "Option.bind (setter rd put v m) (?h w) = Option.bind (?h w m) (setter rd put v)" for v w m
    by (cases "rd v"; cases "g w (get m)") (simp_all add: setter_def assms)
  then show ?thesis by (simp add: commutes_def)
qed

interpretation userFills_fs: field_reader userFills_field
  by (rule table_reader[OF userFills_table])
    (simp add: commutes_setter commutes_part[where get = uf_fills and g = "in_array push_fill"])

section \<open>Frames\<close>

text \<open>A frame with a channel and its data, in any order and among other fields.\<close>

definition sends_frame :: "string \<Rightarrow> od \<Rightarrow> od \<Rightarrow> bool" where
  "sends_frame channel d v \<longleftrightarrow>
     (\<exists>fs. v = OdObject fs \<and> distinct (map fst fs) \<and> None \<notin> fst ` set fs \<and>
        (Some ''channel'', OdString channel) \<in> set fs \<and> (Some ''data'', d) \<in> set fs)"

lemma find_key_split:
  assumes "distinct (map fst fs)" and "None \<notin> fst ` set fs" and "(Some k, v) \<in> set fs"
  shows "\<exists>pre rest. fs = pre @ (Some k, v) # rest \<and> find_key k fs = Some (v, rest)"
  using assms
proof (induction fs)
  case (Cons x fs)
  show ?case
  proof (cases "fst x = Some k")
    case True
    then have "x = (Some k, v)" using Cons.prems by (cases x) (auto simp: rev_image_eqI)
    then show ?thesis by (intro exI[of _ "[]"] exI[of _ fs]) simp
  next
    case False
    then obtain pre rest where "fs = pre @ (Some k, v) # rest" "find_key k fs = Some (v, rest)" using Cons by auto
    moreover obtain k' w where "x = (Some k', w)" using Cons.prems(2) by (cases x; cases "fst x") auto
    ultimately show ?thesis using False by (intro exI[of _ "x # pre"] exI[of _ rest]) simp
  qed
qed simp

lemma frame_dispatch:
  assumes "iterate frame = Some v" and "sends_frame channel d v"
  shows "parse_frame iterate raw_json frame st =
    (case dispatch_frame raw_json frame channel (Some d) (st\<lparr>messages := messages st + 1\<rparr>) of
       (ok, evs, st) \<Rightarrow> (ok, evs, if ok then st else st\<lparr>parseErrors := parseErrors st + 1\<rparr>))"
proof -
  obtain fs where fs: "v = OdObject fs" "distinct (map fst fs)" "None \<notin> fst ` set fs"
    "(Some ''channel'', OdString channel) \<in> set fs" "(Some ''data'', d) \<in> set fs" using assms(2) by (auto simp: sends_frame_def)
  obtain pre rest where c: "fs = pre @ (Some ''channel'', OdString channel) # rest" "find_key ''channel'' fs = Some (OdString channel, rest)"
    using find_key_split[OF fs(2-4)] by blast
  let ?gs = "rest @ take (length fs - length rest) fs"
  have g: "?gs = rest @ pre @ [(Some ''channel'', OdString channel)]" by (simp add: c(1))
  have "distinct (map fst ?gs)" "None \<notin> fst ` set ?gs" "(Some ''data'', d) \<in> set ?gs" using fs(2,3,5) unfolding g by (auto simp: c(1))
  from find_key_split[OF this] have "find_next ''data'' rest fs = Some d" by (auto simp: find_next_def)
  then show ?thesis using assms(1) fs(1) c(2) by (simp add: parse_frame_def Let_def get_string_def)
qed

text \<open>
  A frame with fills is decoded to its fills, with the fields of each object in any order and among others.
\<close>

lemma user_fills_decoded:
  assumes "iterate frame = Some v" and "sends_frame ''userFills'' (OdObject fs) v"
    and "holds [''isSnapshot'', ''user'', ''fills'']
      [(Some ''isSnapshot'', OdBool (uf_isSnapshot m)), (Some ''user'', OdString (uf_user m)), (Some ''fills'', OdArray vs)] fs"
    and "list_all2 sends_fill (uf_fills m) vs"
  shows "parse_frame iterate raw_json frame st = (True, [OnUserFills m], st\<lparr>messages := messages st + 1\<rparr>)"
proof -
  have "list_all2 (\<lambda>f v. Option.bind v (\<lambda>v. readFill v no_fill) = Some f) (uf_fills m) vs"
    using assms(4) fill_read by (rule list_all2_mono)
  from elems_read[OF this, of "[]"] have e: "od_elems push_fill vs [] = Some (uf_fills m)" by (simp add: push_fill_def[abs_def])
  have "od_fields userFills_field fs no_fills = od_fields userFills_field
      [(Some ''isSnapshot'', OdBool (uf_isSnapshot m)), (Some ''user'', OdString (uf_user m)), (Some ''fills'', OdArray vs)] no_fills"
    by (rule userFills_fs.reads_held[OF assms(3)]) (simp_all add: userFills_field_def)
  then show ?thesis using e
    by (simp add: frame_dispatch[of iterate, OF assms(1) assms(2)] dispatch_frame_def reader_def ws_onUserFills_def in_object_def in_array_def userFills_field_def no_fills_def)
qed

lemma updates_decoded:
  assumes "iterate frame = Some v" and "sends_frame ''orderUpdates'' (OdArray vs) v" and "list_all2 sends_update us vs"
  shows "parse_frame iterate raw_json frame st = (True, [OnOrderUpdates us], st\<lparr>messages := messages st + 1\<rparr>)"
proof -
  have "list_all2 (\<lambda>u v. Option.bind v (\<lambda>v. in_object update_field v no_update) = Some u) us vs"
    using assms(3) update_read by (rule list_all2_mono)
  from elems_read[OF this, of "[]"] show ?thesis
    by (simp add: frame_dispatch[of iterate, OF assms(1) assms(2)] dispatch_frame_def reader_def ws_onOrderUpdates_def in_array_def)
qed

section \<open>What a frame gives\<close>

fun user_event :: "ws_message \<Rightarrow> bool" where
  "user_event (OnUserFills m) = True"
| "user_event (OnUserFundings fs) = True"
| "user_event (OnLiquidation m) = True"
| "user_event (OnNonUserCancels cs) = True"
| "user_event m = False"

fun is_unhandled :: "ws_message \<Rightarrow> bool" where
  "is_unhandled (OnUnhandled c f) = True"
| "is_unhandled m = False"

lemma reader_single:
  assumes "reader rj channel = Some rd" and "rd d = Some evs"
  shows "\<exists>m. evs = [m] \<and> \<not> is_unhandled m"
  using assms
  by (auto simp: reader_def onBbo_def onL2Book_def onTrades_def onAssetCtx_def ws_onOrderUpdates_def ws_onUserFills_def onCandle_def onUserFundings_def
      onActiveAssetData_def onNotification_def onPost_def onAllMids_def ws_onSubscriptionResponse_def readString_def split: if_splits option.splits)

lemma userEvent_only: "userEvent k v = Some evs \<Longrightarrow> list_all user_event evs"
  by (auto simp: userEvent_def readFills_def split: if_splits option.splits)

lemma userEvents_only: "list_all user_event sent \<Longrightarrow> list_all user_event (fst (userEvents_loop fs sent))"
  by (induction fs sent rule: userEvents_loop.induct) (auto split: option.splits dest: userEvent_only)

lemma user_not_unhandled: "list_all user_event evs \<Longrightarrow> filter is_unhandled evs = []"
proof (induction evs)
  case (Cons m evs)
  then show ?case by (cases m) auto
qed simp

definition frame_accounted :: "parser_stats \<Rightarrow> bool \<times> ws_message list \<times> parser_stats \<Rightarrow> bool" where
  "frame_accounted st r = (case r of (ok, evs, st') \<Rightarrow>
     messages st' = messages st \<and> parseErrors st' = parseErrors st \<and>
     unhandled st' = unhandled st + of_nat (length (filter is_unhandled evs)) \<and>
     (list_all user_event evs \<or> ok \<and> length evs = 1))"

lemma dispatch_accounted: "frame_accounted st (dispatch_frame rj frame channel d st)"
proof (cases "reader rj channel")
  case (Some rd)
  show ?thesis
  proof (cases "Option.bind d rd")
    case (Some evs)
    then obtain v where "rd v = Some evs" by (auto simp: bind_eq_Some_conv)
    then obtain m where "evs = [m]" "\<not> is_unhandled m" using reader_single[OF \<open>reader rj channel = Some rd\<close>] by blast
    then show ?thesis using Some \<open>reader rj channel = Some rd\<close> by (simp add: dispatch_frame_def frame_accounted_def)
  qed (simp add: dispatch_frame_def frame_accounted_def Some)
next
  case None
  have u: "list_all user_event (fst (onUserEvents v))" for v
    using userEvents_only[of "[]"] by (cases v) (auto simp: onUserEvents_def)
  show ?thesis
  proof (cases "channel = ''user''")
    case True
    show ?thesis
    proof (cases d)
      case (Some v)
      obtain evs ok where "onUserEvents v = (evs, ok)" by (cases "onUserEvents v")
      then show ?thesis using True None Some u[of v] user_not_unhandled[of evs] by (simp add: dispatch_frame_def frame_accounted_def)
    qed (use True None in \<open>simp add: dispatch_frame_def frame_accounted_def\<close>)
  qed (auto simp: dispatch_frame_def frame_accounted_def None)
qed

section \<open>Depth of a snapshot\<close>

definition bounded_levels :: "l2BookMsg \<Rightarrow> bool" where
  "bounded_levels m \<longleftrightarrow> length (l2_bids m) \<le> kMaxLevelsPerSide \<and> length (l2_asks m) \<le> kMaxLevelsPerSide"

lemma push_levels_bounded:
  "od_elems push_level vs ls = Some ls' \<Longrightarrow> length ls \<le> kMaxLevelsPerSide \<Longrightarrow> length ls' \<le> kMaxLevelsPerSide"
proof (induction vs arbitrary: ls)
  case (Cons v vs)
  then show ?case by (cases v) (auto simp: push_level_def split: option.splits if_splits)
qed simp

lemma read_sides_bounded: "read_sides i vs m = Some m' \<Longrightarrow> bounded_levels m \<Longrightarrow> bounded_levels m'"
proof (induction i vs m rule: read_sides.induct)
  case (3 i v vs m)
  then show ?case using push_levels_bounded
    by (auto simp: bounded_levels_def in_array_def Let_def split: option.splits od.splits if_splits)
qed auto

lemma l2_field_bounded: "l2_field k v m = Some m' \<Longrightarrow> bounded_levels m \<Longrightarrow> bounded_levels m'"
  using read_sides_bounded
  by (auto simp: l2_field_def bounded_levels_def readString_def readInt_def split: if_splits od.splits option.splits)

lemma od_fields_inv:
  assumes "\<And>k v m m'. f k v m = Some m' \<Longrightarrow> I m \<Longrightarrow> I m'"
  shows "od_fields f fs m = Some m' \<Longrightarrow> I m \<Longrightarrow> I m'"
proof (induction fs arbitrary: m)
  case (Cons x fs)
  then obtain m1 where "field_step f x m = Some m1" "od_fields f fs m1 = Some m'" by (auto simp: od_fields_Cons bind_eq_Some_conv)
  then show ?case using Cons.IH Cons.prems(2) assms by (auto simp: field_step_def split: option.splits)
qed simp

lemma onL2Book_bounded: "onL2Book d = Some evs \<Longrightarrow> OnL2Book m \<in> set evs \<Longrightarrow> bounded_levels m"
  using od_fields_inv[where f = l2_field and I = bounded_levels, OF l2_field_bounded]
  by (auto simp: onL2Book_def in_object_def bounded_levels_def split: od.splits)

lemma l2_only:
  assumes "reader rj channel = Some rd" and "rd d = Some evs" and "OnL2Book m \<in> set evs"
  shows "rd = onL2Book"
  using assms
  by (auto simp: reader_def onBbo_def onTrades_def onAssetCtx_def ws_onOrderUpdates_def ws_onUserFills_def onCandle_def onUserFundings_def
      onActiveAssetData_def onNotification_def onPost_def onAllMids_def ws_onSubscriptionResponse_def readString_def split: if_splits option.splits)

lemma dispatch_bounded:
  assumes "dispatch_frame rj frame channel d st = (ok, evs, st')" and "OnL2Book m \<in> set evs"
  shows "bounded_levels m"
proof (cases "reader rj channel")
  case (Some rd)
  then obtain v where "rd v = Some evs"
    using assms by (cases "Option.bind d rd") (auto simp: dispatch_frame_def bind_eq_Some_conv)
  then show ?thesis using l2_only[OF Some] onL2Book_bounded assms(2) by blast
next
  case None
  have "list_all user_event (fst (onUserEvents v))" for v
    using userEvents_only[of "[]"] by (cases v) (auto simp: onUserEvents_def)
  then have u: "OnL2Book m \<notin> set (fst (onUserEvents v))" for v by (fastforce simp: list_all_iff)
  show ?thesis
  proof (cases d)
    case (Some v)
    then show ?thesis using assms None u[of v]
      by (cases "onUserEvents v") (auto simp: dispatch_frame_def split: if_splits option.splits)
  qed (use assms None in \<open>auto simp: dispatch_frame_def split: if_splits\<close>)
qed

section \<open>Examples\<close>

definition ex_stats :: parser_stats where
  "ex_stats = \<lparr>messages = 41, parseErrors = 1, unhandled = 0\<rparr>"

definition ex_order_update :: orderUpdateMsg where
  "ex_order_update = \<lparr>u_coin = ''BTC'', u_side = Sell, u_limitPx = Decimal 5000000000, u_sz = Decimal 100000000, u_origSz = Decimal 100000000,
     u_oid = 77, u_timestampMs = 1700000000000, u_cloid = None, u_status = UOpen, u_statusText = ''open'', u_statusTimestampMs = 1700000000001\<rparr>"

definition ex_update_od :: od where
  "ex_update_od = OdObject [(Some ''status'', OdString ''open''), (Some ''statusTimestamp'', od_time 1700000000001),
     (Some ''order'', OdObject (rev (venue_order ex_order_update @ [(Some ''cloid'', OdNull), (Some ''children'', OdArray [])])))]"

definition ex_iterate :: "string \<Rightarrow> od option" where
  "ex_iterate frame = Some (OdObject [(Some ''data'', OdArray [Some ex_update_od]), (Some ''channel'', OdString ''orderUpdates'')])"

definition ex_partial :: "string \<Rightarrow> od option" where
  "ex_partial frame = Some (OdObject [(Some ''channel'', OdString ''user''),
     (Some ''data'', OdObject [(Some ''nonUserCancel'', OdArray []), (None, OdNull)])])"

text \<open>Two frames: a snapshot of one bid and one ask, and a best bid alone.\<close>

definition ex_od_level :: "string \<Rightarrow> od" where
  "ex_od_level p = OdObject [(Some ''px'', OdString p), (Some ''sz'', OdString ''1''), (Some ''n'', OdNumber ''1'' (Some 1) (Some 1))]"

definition ex_frames :: "string \<Rightarrow> od option" where
  "ex_frames frame =
     (if frame = ''l2'' then
        Some (OdObject [(Some ''channel'', OdString ''l2Book''), (Some ''data'', OdObject [(Some ''coin'', OdString ''BTC''),
          (Some ''time'', OdNumber ''5'' (Some 5) (Some 5)),
          (Some ''levels'', OdArray [Some (OdArray [Some (ex_od_level ''10'')]), Some (OdArray [Some (ex_od_level ''11'')])])])])
      else if frame = ''bbo'' then
        Some (OdObject [(Some ''channel'', OdString ''bbo''), (Some ''data'', OdObject [(Some ''coin'', OdString ''BTC''),
          (Some ''time'', OdNumber ''6'' (Some 6) (Some 6)), (Some ''bbo'', OdArray [Some (ex_od_level ''9''), Some OdNull])])])
      else None)"

definition ex_md_level :: "int \<Rightarrow> bookLevel" where
  "ex_md_level p = \<lparr>px = Decimal (p * 100000000), sz = Decimal 100000000, n_orders = 1\<rparr>"

definition ex_md_l2 :: l2BookMsg where
  "ex_md_l2 = \<lparr>l2_coin = ''BTC'', l2_timeMs = 5, l2_bids = [ex_md_level 10], l2_asks = [ex_md_level 11]\<rparr>"

definition ex_md_bbo :: bboMsg where
  "ex_md_bbo = \<lparr>bbo_coin = ''BTC'', bbo_timeMs = 6, hasBid = True, hasAsk = False, bid = ex_md_level 9, ask = empty_level\<rparr>"

lemma ex_parses: "parse ''10'' = Some (Decimal 1000000000)" "parse ''11'' = Some (Decimal 1100000000)" "parse ''9'' = Some (Decimal 900000000)"
  "parse ''1'' = Some (Decimal 100000000)"
  by (simp_all add: parse_def parse_sign_def is_digit_def digit_val_def kMaxRaw_def kDecimals_def Let_def pad_frac.simps)

lemma ex_frames_read:
  "parse_frame ex_frames (\<lambda>_. None) ''l2'' st = (True, [OnL2Book ex_md_l2], st\<lparr>messages := messages st + 1\<rparr>)"
  "parse_frame ex_frames (\<lambda>_. None) ''bbo'' st = (True, [OnBbo ex_md_bbo], st\<lparr>messages := messages st + 1\<rparr>)"
  by (simp_all add: parse_frame_def ex_frames_def get_string_def find_next_def dispatch_frame_def reader_def onL2Book_def onBbo_def in_object_def
      l2_field_def bbo_field_def readString_def readInt_def in_array_def push_level_def readLevel_def ex_od_level_def level_field_def readDecimal_def
      ex_parses readUint_def kMaxLevelsPerSide_def is_null_def ex_md_l2_def ex_md_bbo_def ex_md_level_def empty_level_def)

section \<open>Properties\<close>

text \<open>
  C13: order updates arrive as they were sent: a frame of the channel \<open>orderUpdates\<close> is decoded to exactly the updates that
  the venue wrote (printed decimals, 64-bit ids, optional client ids, states by their names), in order, whatever the order of
  the fields in each object and whatever other fields stand between them.
\<close>

theorem order_updates_decoded:
  assumes "iterate frame = Some v" and "sends_frame ''orderUpdates'' (OdArray vs) v" and "list_all2 sends_update us vs"
  shows "parse_frame iterate raw_json frame st = (True, [OnOrderUpdates us], st\<lparr>messages := messages st + 1\<rparr>)"
  using assms by (rule updates_decoded)

theorem order_updates_decoded_witness:
  "parse_frame ex_iterate (\<lambda>v. None) [] ex_stats = (True, [OnOrderUpdates [ex_order_update]], ex_stats\<lparr>messages := messages ex_stats + 1\<rparr>)"
proof (rule order_updates_decoded[OF _ _ ])
  show "ex_iterate [] = Some (OdObject [(Some ''data'', OdArray [Some ex_update_od]), (Some ''channel'', OdString ''orderUpdates'')])"
    by (simp add: ex_iterate_def)
  show "sends_frame ''orderUpdates'' (OdArray [Some ex_update_od])
      (OdObject [(Some ''data'', OdArray [Some ex_update_od]), (Some ''channel'', OdString ''orderUpdates'')])"
    by (simp add: sends_frame_def)
  show "list_all2 sends_update [ex_order_update] [Some ex_update_od]"
    by (simp add: sends_update_def ex_update_od_def ok_update_def ok_decimal_def wf_decimal_def in_i64_def dec_min_def ex_order_update_def
        parseOrderUpdateStatus_def holds_def order_keys_def venue_order_def od_cloid_def)
qed

text \<open>
  Every frame is counted once; a frame that fails is one parse error and has delivered nothing but whole events of
  the user channel; a frame that succeeds gives exactly one message, or the events of the user channel; a channel that
  is not known is counted as unhandled.
\<close>

lemma frames_accounted:
  assumes "parse_frame iterate raw_json frame st = (ok, evs, st')"
  shows "messages st' = messages st + 1 \<and> parseErrors st' = parseErrors st + (if ok then 0 else 1) \<and>
    unhandled st' = unhandled st + of_nat (length (filter is_unhandled evs)) \<and>
    (list_all user_event evs \<or> ok \<and> length evs = 1)"
proof (cases "iterate frame")
  case (Some v)
  have d: "frame_accounted (st\<lparr>messages := messages st + 1\<rparr>) (ok, evs, st1)"
    if "dispatch_frame raw_json frame c v (st\<lparr>messages := messages st + 1\<rparr>) = (ok, evs, st1)" for c v st1
    using dispatch_accounted[of "st\<lparr>messages := messages st + 1\<rparr>"] that by metis
  show ?thesis using assms Some d
    by (auto simp: parse_frame_def Let_def frame_accounted_def split: option.splits od.splits prod.splits if_splits)
qed (use assms in \<open>auto simp: parse_frame_def\<close>)

text \<open>
  A decoded snapshot has at most 64 levels on each side, however many the frame has, which is what a book holds.
\<close>

lemma snapshots_bounded:
  assumes "parse_frame iterate raw_json frame st = (ok, evs, st')" and "OnL2Book m \<in> set evs"
  shows "length (l2_bids m) \<le> kMaxLevelsPerSide \<and> length (l2_asks m) \<le> kMaxLevelsPerSide"
proof -
  have "bounded_levels m" using assms dispatch_bounded
    by (auto simp: parse_frame_def Let_def split: option.splits od.splits prod.splits if_splits)
  then show ?thesis by (simp add: bounded_levels_def)
qed

end
