(* ===== verification/HL_MarketData.thy ===== *)
theory HL_MarketData
  imports HL_Decoding HL_Session "HOL-Library.Sublist"
begin

text \<open>
  The market-data client (\<open>include/hl/md/MarketDataClient.h\<close>, \<open>src/md/MarketDataClient.cpp\<close>): subscriptions, decoding
  and the books that are maintained from the stream.

  \<^item> A book is an object with an address: the entries hold addresses into a store, since a callback may remove the entry
    of a book that the client still points to.
  \<^item> Calls of the session (\<open>HL_Session\<close>) and of the listener are outputs. Both may come back to the client before they
    return, so the rest of a method stays on a stack of calls.
  \<^item> The parser calls the handlers as it decodes. Here a frame is decoded first and its messages are then handled one by
    one, each with everything its callbacks do. All channels but \<open>user\<close> make one call, at the end of the decoding, so the
    two agree; for the events of \<open>user\<close> the order of the calls is the same, and only the counter of messages of a frame
    that arrives inside a callback is ahead of the code's.
  \<^item> \<open>iterate\<close> and \<open>raw_json\<close> are simdjson, as in \<open>HL_Messages\<close>.
\<close>

section \<open>State\<close>

record marketDataConfig =
  md_network :: network
  urlOverride :: string
  md_session :: wsSessionOptions
  applyBboToBooks :: bool

definition sessionOptions :: "marketDataConfig \<Rightarrow> wsSessionOptions" where
  "sessionOptions c = (md_session c)\<lparr>ses_url := if urlOverride c = [] then wsUrl (md_network c) else urlOverride c\<rparr>"

record l2BookOptions =
  nSigFigs :: "int option"
  mantissa :: "int option"
  fast :: bool

record md_client =
  md_config :: marketDataConfig
  md_stats :: parser_stats
  md_books :: "(nat \<times> string) list"
  md_store :: "nat \<rightharpoonup> orderBook"
  md_fresh :: nat

datatype bookUpdate = SnapshotUpdate | BboUpdate

datatype md_notice =
    Connected
  | Disconnected string
  | Forward ws_message
  | BookChanged orderBook bookUpdate
  | Dangling nat

datatype md_output = ToSession ses_call | ToListener md_notice

datatype md_call =
    MdStart | MdStop
  | SubscribeL2Book string l2BookOptions | SubscribeBbo string | SubscribeBook string l2BookOptions | SubscribeTrades string
  | SubscribeAssetCtx string | SubscribeAllMids | SubscribeCandle string string | SubscribeUserEvents address
  | SubscribeUserFundings address | SubscribeActiveAssetData address string | SubscribeNotifications address
  | SubscribeRaw string | UnsubscribeRaw string
  | OnSessionOpen | OnSessionMessage string | OnSessionClosed string
  | InSession ses_call
  | EraseBooks string
  | Handle ws_message
  | ApplyBbo bboMsg
  | TellBook nat bookUpdate
  | MdReturns

type_synonym md_result = "md_client \<times> md_call list \<times> md_output list"

definition new_md_client :: "marketDataConfig \<Rightarrow> md_client" where
  "new_md_client c = \<lparr>md_config = c, md_stats = \<lparr>messages = 0, parseErrors = 0, unhandled = 0\<rparr>, md_books = [],
     md_store = Map.empty, md_fresh = 0\<rparr>"

section \<open>Subscriptions\<close>

definition dquote :: string where
  "dquote = [CHR 0x22]"

definition subscriptionJson :: "string \<Rightarrow> string \<Rightarrow> string" where
  "subscriptionJson type coin =
     ''{'' @ dquote @ ''type'' @ dquote @ '':'' @ dquote @ type @ dquote @
     (if coin \<noteq> [] then '','' @ dquote @ ''coin'' @ dquote @ '':'' @ dquote @ coin @ dquote else []) @ ''}''"

definition l2BookSubscriptionJson :: "string \<Rightarrow> l2BookOptions \<Rightarrow> string" where
  "l2BookSubscriptionJson coin options =
     (let json = subscriptionJson ''l2Book'' coin in
      if nSigFigs options = None \<and> \<not> fast options then json
      else
        butlast json @
        (case nSigFigs options of
           None \<Rightarrow> []
         | Some n \<Rightarrow> '','' @ dquote @ ''nSigFigs'' @ dquote @ '':'' @ int_to_string n @
             (case mantissa options of None \<Rightarrow> [] | Some m \<Rightarrow> '','' @ dquote @ ''mantissa'' @ dquote @ '':'' @ int_to_string m)) @
        (if fast options then '','' @ dquote @ ''fast'' @ dquote @ '':true'' else []) @ ''}'')"

definition userSubscriptionJson :: "string \<Rightarrow> address \<Rightarrow> string" where
  "userSubscriptionJson type usr =
     ''{'' @ dquote @ ''type'' @ dquote @ '':'' @ dquote @ type @ dquote @ '','' @ dquote @ ''user'' @ dquote @ '':'' @ dquote @
     addr_toHex usr @ dquote @ ''}''"

definition candleSubscriptionJson :: "string \<Rightarrow> string \<Rightarrow> string" where
  "candleSubscriptionJson coin interval =
     ''{'' @ dquote @ ''type'' @ dquote @ '':'' @ dquote @ ''candle'' @ dquote @ '','' @ dquote @ ''coin'' @ dquote @ '':'' @ dquote @ coin @
     dquote @ '','' @ dquote @ ''interval'' @ dquote @ '':'' @ dquote @ interval @ dquote @ ''}''"

definition assetDataSubscriptionJson :: "address \<Rightarrow> string \<Rightarrow> string" where
  "assetDataSubscriptionJson usr coin =
     ''{'' @ dquote @ ''type'' @ dquote @ '':'' @ dquote @ ''activeAssetData'' @ dquote @ '','' @ dquote @ ''user'' @ dquote @ '':'' @ dquote @
     addr_toHex usr @ dquote @ '','' @ dquote @ ''coin'' @ dquote @ '':'' @ dquote @ coin @ dquote @ ''}''"

text \<open>The first entry for a coin.\<close>

definition findBook :: "string \<Rightarrow> md_client \<Rightarrow> nat option" where
  "findBook coin s =
     map_option fst (find (\<lambda>e. case md_store s (fst e) of None \<Rightarrow> False | Some b \<Rightarrow> book_coin b = coin) (md_books s))"

definition subscribeL2Book :: "string \<Rightarrow> l2BookOptions \<Rightarrow> md_client \<Rightarrow> md_result" where
  "subscribeL2Book coin options s =
     (if \<not> isValidCoinName coin then (s, [], [])
      else
        let json = l2BookSubscriptionJson coin options; a = md_fresh s;
            s = (if findBook coin s = None
                 then s\<lparr>md_books := md_books s @ [(a, json)], md_store := (md_store s)(a \<mapsto> new_book coin), md_fresh := a + 1\<rparr> else s)
        in (s, [InSession (Subscribe json)], []))"

definition subscribes :: "string \<Rightarrow> md_client \<Rightarrow> md_result" where
  "subscribes json s = (s, [InSession (Subscribe json)], [])"

definition subscribeCandle :: "string \<Rightarrow> string \<Rightarrow> md_client \<Rightarrow> md_result" where
  "subscribeCandle coin interval s =
     (if \<not> isValidCoinName coin then (s, [], []) else subscribes (candleSubscriptionJson coin interval) s)"

definition subscribeActiveAssetData :: "address \<Rightarrow> string \<Rightarrow> md_client \<Rightarrow> md_result" where
  "subscribeActiveAssetData usr coin s =
     (if \<not> isValidCoinName coin then (s, [], []) else subscribes (assetDataSubscriptionJson usr coin) s)"

definition eraseBooks :: "string \<Rightarrow> md_client \<Rightarrow> md_client" where
  "eraseBooks json s =
     s\<lparr>md_books := filter (\<lambda>e. snd e \<noteq> json) (md_books s),
       md_store := (\<lambda>a. if (a, json) \<in> set (md_books s) then None else md_store s a)\<rparr>"

section \<open>Messages\<close>

definition clear_books :: "md_client \<Rightarrow> md_client" where
  "clear_books s = s\<lparr>md_store := (\<lambda>a. if a \<in> fst ` set (md_books s) then map_option book_clear (md_store s a) else md_store s a)\<rparr>"

definition tell :: "md_notice \<Rightarrow> md_call list \<Rightarrow> md_client \<Rightarrow> md_result" where
  "tell n rest s = (s, MdReturns # rest, [ToListener n])"

definition md_onSessionMessage ::
  "(string \<Rightarrow> od option) \<Rightarrow> (od \<Rightarrow> string option) \<Rightarrow> string \<Rightarrow> md_client \<Rightarrow> md_result" where
  "md_onSessionMessage iterate raw_json msg s =
     (case parse_frame iterate raw_json msg (md_stats s) of (ok, evs, st) \<Rightarrow> (s\<lparr>md_stats := st\<rparr>, map Handle evs, []))"

definition md_onL2Book :: "l2BookMsg \<Rightarrow> md_client \<Rightarrow> md_result" where
  "md_onL2Book msg s =
     (case findBook (l2_coin msg) s of
        None \<Rightarrow> tell (Forward (OnL2Book msg)) [] s
      | Some a \<Rightarrow>
          tell (Forward (OnL2Book msg)) [TellBook a SnapshotUpdate]
            (s\<lparr>md_store := (\<lambda>b. if b = a then map_option (\<lambda>b. applySnapshot b msg) (md_store s a) else md_store s b)\<rparr>))"

definition md_applyBbo :: "bboMsg \<Rightarrow> md_client \<Rightarrow> md_result" where
  "md_applyBbo msg s =
     (if \<not> applyBboToBooks (md_config s) then (s, [], [])
      else case findBook (bbo_coin msg) s of
        None \<Rightarrow> (s, [], [])
      | Some a \<Rightarrow>
          (case md_store s a of
             None \<Rightarrow> (s, [], [])
           | Some b \<Rightarrow>
               if snapshotTimeMs b = 0 then (s, [], [])
               else case applyBbo b msg of
                      (b, changed) \<Rightarrow> (s\<lparr>md_store := (md_store s)(a \<mapsto> b)\<rparr>, if changed then [TellBook a BboUpdate] else [], [])))"

fun md_handle :: "ws_message \<Rightarrow> md_client \<Rightarrow> md_result" where
  "md_handle (OnL2Book m) s = md_onL2Book m s"
| "md_handle (OnBbo m) s = tell (Forward (OnBbo m)) [ApplyBbo m] s"
| "md_handle (OnTrades trades) s = tell (Forward (OnTrades trades)) [] s"
| "md_handle (OnAssetCtx m) s = tell (Forward (OnAssetCtx m)) [] s"
| "md_handle (OnAllMids m) s = tell (Forward (OnAllMids m)) [] s"
| "md_handle (OnOrderUpdates us) s = tell (Forward (OnOrderUpdates us)) [] s"
| "md_handle (OnUserFills m) s = tell (Forward (OnUserFills m)) [] s"
| "md_handle (OnCandle m) s = tell (Forward (OnCandle m)) [] s"
| "md_handle (OnLiquidation m) s = tell (Forward (OnLiquidation m)) [] s"
| "md_handle (OnNonUserCancels c) s = tell (Forward (OnNonUserCancels c)) [] s"
| "md_handle (OnUserFundings f) s = tell (Forward (OnUserFundings f)) [] s"
| "md_handle (OnActiveAssetData m) s = tell (Forward (OnActiveAssetData m)) [] s"
| "md_handle (OnNotification m) s = tell (Forward (OnNotification m)) [] s"
| "md_handle (OnPostResponse m) s = tell (Forward (OnPostResponse m)) [] s"
| "md_handle (OnSubscriptionResponse m) s = tell (Forward (OnSubscriptionResponse m)) [] s"
| "md_handle OnPong s = tell (Forward OnPong) [] s"
| "md_handle (OnVenueError txt) s = tell (Forward (OnVenueError txt)) [] s"
| "md_handle (OnUnhandled channel frame) s = tell (Forward (OnUnhandled channel frame)) [] s"

text \<open>The callback gets a reference to the book; the book may be gone.\<close>

definition tell_book :: "nat \<Rightarrow> bookUpdate \<Rightarrow> md_client \<Rightarrow> md_result" where
  "tell_book a k s = tell (case md_store s a of None \<Rightarrow> Dangling a | Some b \<Rightarrow> BookChanged b k) [] s"

section \<open>Runs\<close>

fun md_step :: "(string \<Rightarrow> od option) \<Rightarrow> (od \<Rightarrow> string option) \<Rightarrow> md_call \<Rightarrow> md_client \<Rightarrow> md_result" where
  "md_step it rj MdStart s = (s, [InSession Start], [])"
| "md_step it rj MdStop s = (s, [InSession Stop], [])"
| "md_step it rj (SubscribeL2Book coin options) s = subscribeL2Book coin options s"
| "md_step it rj (SubscribeBbo coin) s = subscribes (subscriptionJson ''bbo'' coin) s"
| "md_step it rj (SubscribeBook coin options) s = (s, [SubscribeL2Book coin options, SubscribeBbo coin], [])"
| "md_step it rj (SubscribeTrades coin) s = subscribes (subscriptionJson ''trades'' coin) s"
| "md_step it rj (SubscribeAssetCtx coin) s = subscribes (subscriptionJson ''activeAssetCtx'' coin) s"
| "md_step it rj SubscribeAllMids s = subscribes (subscriptionJson ''allMids'' []) s"
| "md_step it rj (SubscribeCandle coin interval) s = subscribeCandle coin interval s"
| "md_step it rj (SubscribeUserEvents usr) s = subscribes (userSubscriptionJson ''userEvents'' usr) s"
| "md_step it rj (SubscribeUserFundings usr) s = subscribes (userSubscriptionJson ''userFundings'' usr) s"
| "md_step it rj (SubscribeActiveAssetData usr coin) s = subscribeActiveAssetData usr coin s"
| "md_step it rj (SubscribeNotifications usr) s = subscribes (userSubscriptionJson ''notification'' usr) s"
| "md_step it rj (SubscribeRaw json) s = subscribes json s"
| "md_step it rj (UnsubscribeRaw json) s = (s, [InSession (Unsubscribe json), EraseBooks json], [])"
| "md_step it rj OnSessionOpen s = tell Connected [] s"
| "md_step it rj (OnSessionMessage msg) s = md_onSessionMessage it rj msg s"
| "md_step it rj (OnSessionClosed reason) s = tell (Disconnected reason) [] (clear_books s)"
| "md_step it rj (InSession c) s = (s, [MdReturns], [ToSession c])"
| "md_step it rj (EraseBooks json) s = (eraseBooks json s, [], [])"
| "md_step it rj (Handle msg) s = md_handle msg s"
| "md_step it rj (ApplyBbo msg) s = md_applyBbo msg s"
| "md_step it rj (TellBook a k) s = tell_book a k s"
| "md_step it rj MdReturns s = (s, [], [])"

text \<open>The calls that come from outside: the owner's, and the session's.\<close>

fun md_offered :: "md_call \<Rightarrow> bool" where
  "md_offered (InSession c) = False"
| "md_offered (EraseBooks json) = False"
| "md_offered (Handle msg) = False"
| "md_offered (ApplyBbo msg) = False"
| "md_offered (TellBook a k) = False"
| "md_offered MdReturns = False"
| "md_offered c = True"

text \<open>The frame that a call brings.\<close>

fun frame_of :: "md_call \<Rightarrow> string list" where
  "frame_of (OnSessionMessage msg) = [msg]"
| "frame_of c = []"

text \<open>
  The runs: between two calls of the stack, and inside every call of the session or of the listener, any offered call
  may arrive. \<open>fs\<close> is the list of the frames received, \<open>log\<close> the outputs.
\<close>

inductive md_run ::
  "(string \<Rightarrow> od option) \<Rightarrow> (od \<Rightarrow> string option) \<Rightarrow> marketDataConfig \<Rightarrow> string list \<Rightarrow> md_call list \<Rightarrow> md_client \<Rightarrow> md_output list \<Rightarrow> bool"
  for it rj c where
  start: "md_run it rj c [] [] (new_md_client c) []"
| call: "md_run it rj c fs cs s log \<Longrightarrow> cs = [] \<or> hd cs = MdReturns \<Longrightarrow> md_offered d \<Longrightarrow> md_run it rj c (fs @ frame_of d) (d # cs) s log"
| step: "md_run it rj c fs (d # cs) s log \<Longrightarrow> md_step it rj d s = (s', ds, out) \<Longrightarrow> md_run it rj c fs (ds @ cs) s' (log @ out)"

section \<open>The books of a run\<close>

text \<open>The books that the store holds and the listener sees are runs of the order book.\<close>

definition books_ok :: "md_client \<Rightarrow> bool" where
  "books_ok s \<longleftrightarrow> (\<forall>a b. md_store s a = Some b \<longrightarrow> book_run (book_coin b) b) \<and> (\<forall>a \<in> dom (md_store s). a < md_fresh s) \<and>
     dom (md_store s) = fst ` set (md_books s) \<and> distinct (map fst (md_books s))"

definition told_ok :: "md_output list \<Rightarrow> bool" where
  "told_ok log \<longleftrightarrow> (\<forall>b k. ToListener (BookChanged b k) \<in> set log \<longrightarrow> book_run (book_coin b) b)"

text \<open>Every snapshot that was handled so far keeps the promise of the venue.\<close>

definition snapshots_ok :: "md_output list \<Rightarrow> bool" where
  "snapshots_ok log \<longleftrightarrow> (\<forall>m. ToListener (Forward (OnL2Book m)) \<in> set log \<longrightarrow> snapshot_ok m)"

lemma book_coin_kept [simp]:
  "book_coin (applySnapshot b m) = book_coin b" "book_coin (fst (applyBbo b m')) = book_coin b" "book_coin (book_clear b) = book_coin b"
  "book_coin (new_book c) = c"
  by (simp_all add: applySnapshot_def applyBbo_def book_clear_def new_book_def Let_def split: prod.split)

lemma findBook_held:
  assumes "findBook coin s = Some a"
  shows "\<exists>b. md_store s a = Some b \<and> book_coin b = coin \<and> a \<in> fst ` set (md_books s)"
proof -
  obtain e where "find (\<lambda>e. case md_store s (fst e) of None \<Rightarrow> False | Some b \<Rightarrow> book_coin b = coin) (md_books s) = Some e" "fst e = a"
    using assms by (auto simp: findBook_def)
  then show ?thesis by (fastforce simp: find_Some_iff split: option.splits)
qed

lemma books_ok_store:
  assumes "books_ok s" and "\<And>a. md_store s' a = map_option (g a) (md_store s a)" and "md_books s' = md_books s" and "md_fresh s' = md_fresh s"
    and "\<And>a b. md_store s a = Some b \<Longrightarrow> book_run (book_coin (g a b)) (g a b)"
  shows "books_ok s'"
proof -
  have "dom (md_store s') = dom (md_store s)" using assms(2) by (auto simp: dom_def)
  then show ?thesis using assms by (auto simp: books_ok_def)
qed

lemma clear_books_ok: "books_ok s \<Longrightarrow> books_ok (clear_books s)"
proof (rule books_ok_store[where g = "\<lambda>a. if a \<in> fst ` set (md_books s) then book_clear else id"])
  assume "books_ok s"
  then show "md_store s a = Some b \<Longrightarrow> book_run (book_coin ((if a \<in> fst ` set (md_books s) then book_clear else id) b))
      ((if a \<in> fst ` set (md_books s) then book_clear else id) b)" for a b
    by (auto simp: books_ok_def intro: book_run.clear)
qed (auto simp: clear_books_def option.map_id)

lemma l2_ok:
  assumes "books_ok s" and "snapshot_ok m"
  shows "books_ok (s\<lparr>md_store := (\<lambda>b. if b = a then map_option (\<lambda>b. applySnapshot b m) (md_store s a) else md_store s b)\<rparr>)"
proof (rule books_ok_store[OF assms(1), where g = "\<lambda>x. if x = a then (\<lambda>b. applySnapshot b m) else id"])
  show "md_store s x = Some b \<Longrightarrow> book_run (book_coin ((if x = a then (\<lambda>b. applySnapshot b m) else id) b))
      ((if x = a then (\<lambda>b. applySnapshot b m) else id) b)" for x b
    using assms by (auto simp: books_ok_def intro: book_run.snapshot)
qed (auto simp: option.map_id)

lemma bbo_ok:
  assumes "books_ok s" and "md_store s a = Some b"
  shows "books_ok (s\<lparr>md_store := (md_store s)(a \<mapsto> fst (applyBbo b m))\<rparr>)"
proof (rule books_ok_store[OF assms(1), where g = "\<lambda>x. if x = a then (\<lambda>_. fst (applyBbo b m)) else id"])
  show "md_store s x = Some c \<Longrightarrow> book_run (book_coin ((if x = a then (\<lambda>_. fst (applyBbo b m)) else id) c))
      ((if x = a then (\<lambda>_. fst (applyBbo b m)) else id) c)" for x c
    using assms by (auto simp: books_ok_def intro: book_run.bbo)
qed (use assms in \<open>auto simp: option.map_id\<close>)

lemma books_okI:
  "(\<And>a b. md_store s a = Some b \<Longrightarrow> book_run (book_coin b) b) \<Longrightarrow> (\<And>a. a \<in> dom (md_store s) \<Longrightarrow> a < md_fresh s) \<Longrightarrow>
   dom (md_store s) = fst ` set (md_books s) \<Longrightarrow> distinct (map fst (md_books s)) \<Longrightarrow> books_ok s"
  unfolding books_ok_def by blast

lemma subscribe_ok:
  assumes "books_ok s"
  shows "books_ok (s\<lparr>md_books := md_books s @ [(md_fresh s, json)], md_store := (md_store s)(md_fresh s \<mapsto> new_book coin), md_fresh := md_fresh s + 1\<rparr>)"
proof -
  have d: "dom (md_store s) = fst ` set (md_books s)" "distinct (map fst (md_books s))" "\<And>a. a \<in> dom (md_store s) \<Longrightarrow> a < md_fresh s"
    "\<And>a b. md_store s a = Some b \<Longrightarrow> book_run (book_coin b) b" using assms unfolding books_ok_def by blast+
  have "md_fresh s \<notin> fst ` set (md_books s)" using d(1) d(3)[of "md_fresh s"] by auto
  then show ?thesis
    by (intro books_okI) (use d book_run.start[of coin] in \<open>auto simp: less_Suc_eq split: if_splits\<close>)
qed

lemma erase_ok:
  assumes "books_ok s"
  shows "books_ok (eraseBooks json s)"
proof -
  have d: "distinct (map fst (md_books s))" "dom (md_store s) = fst ` set (md_books s)" "\<And>a. a \<in> dom (md_store s) \<Longrightarrow> a < md_fresh s"
    "\<And>a b. md_store s a = Some b \<Longrightarrow> book_run (book_coin b) b" using assms unfolding books_ok_def by blast+
  have k: "(a, json) \<in> set (md_books s) \<Longrightarrow> (a, j) \<in> set (md_books s) \<Longrightarrow> j = json" for a j
    using eq_key_imp_eq_value[OF d(1)] by metis
  have "dom (md_store (eraseBooks json s)) = {a. a \<in> fst ` set (md_books s) \<and> (a, json) \<notin> set (md_books s)}"
    using d(2) by (auto simp: eraseBooks_def dom_def)
  also have "\<dots> = fst ` set (md_books (eraseBooks json s))" using k by (force simp: eraseBooks_def)
  finally have "dom (md_store (eraseBooks json s)) = fst ` set (md_books (eraseBooks json s))" .
  moreover have "distinct (map fst (md_books (eraseBooks json s)))" using d(1) by (simp add: eraseBooks_def distinct_map_filter)
  moreover have "md_store (eraseBooks json s) a = Some b \<Longrightarrow> md_store s a = Some b" for a b by (auto simp: eraseBooks_def split: if_splits)
  moreover have "a \<in> dom (md_store (eraseBooks json s)) \<Longrightarrow> a < md_fresh (eraseBooks json s)" for a
    using d(3)[of a] calculation(3)[of a] by (auto simp: eraseBooks_def split: if_splits)
  ultimately show ?thesis using d(4) by (intro books_okI) blast+
qed

lemma snapshots_ok_append [simp]: "snapshots_ok (xs @ ys) \<longleftrightarrow> snapshots_ok xs \<and> snapshots_ok ys"
  by (auto simp: snapshots_ok_def)

lemma told_ok_simps [simp]:
  "told_ok []" "told_ok (xs @ ys) \<longleftrightarrow> told_ok xs \<and> told_ok ys" "told_ok [ToSession c]"
  by (auto simp: told_ok_def)

lemma handle_ok:
  assumes "books_ok s" and "md_handle m s = (s', ds, out)" and "snapshots_ok out"
  shows "books_ok s' \<and> told_ok out"
proof (cases m)
  case (OnL2Book x)
  have "snapshot_ok x" using assms(2,3) by (auto simp: OnL2Book md_onL2Book_def tell_def snapshots_ok_def split: option.splits)
  then show ?thesis using assms(1,2) l2_ok[OF assms(1)]
    by (auto simp: OnL2Book md_onL2Book_def tell_def told_ok_def split: option.splits)
qed (use assms in \<open>auto simp: tell_def told_ok_def\<close>)

lemma md_step_ok:
  assumes "books_ok s" and "md_step it rj d s = (s', ds, out)" and "snapshots_ok out"
  shows "books_ok s' \<and> told_ok out"
proof -
  have st: "books_ok (s\<lparr>md_stats := x\<rparr>) = books_ok s" for x by (simp add: books_ok_def)
  show ?thesis
  proof (cases d)
    case (SubscribeL2Book coin options)
    then show ?thesis using assms subscribe_ok[OF assms(1)] by (auto simp: subscribeL2Book_def Let_def split: if_splits)
  next
    case (OnSessionMessage msg)
    then show ?thesis using assms by (auto simp: md_onSessionMessage_def st split: prod.splits)
  next
    case (OnSessionClosed r)
    then show ?thesis using assms clear_books_ok[OF assms(1)] by (auto simp: tell_def told_ok_def)
  next
    case (EraseBooks json)
    then show ?thesis using assms erase_ok[OF assms(1)] by auto
  next
    case (Handle m)
    then show ?thesis using handle_ok[OF assms(1)] assms(2,3) by auto
  next
    case (ApplyBbo m)
    then show ?thesis using assms bbo_ok[OF assms(1)]
      by (auto simp: md_applyBbo_def split: option.splits prod.splits if_splits) (metis fst_conv)+
  next
    case (TellBook a k)
    then show ?thesis using assms by (auto simp: tell_book_def tell_def told_ok_def books_ok_def split: option.splits)
  qed (use assms in \<open>auto simp: told_ok_def subscribes_def subscribeCandle_def subscribeActiveAssetData_def tell_def split: if_splits\<close>)
qed

lemma md_run_ok:
  assumes "md_run it rj c fs cs s log"
  shows "snapshots_ok log \<Longrightarrow> books_ok s \<and> told_ok log"
  using assms
proof (induction rule: md_run.induct)
  case start
  then show ?case by (simp add: books_ok_def new_md_client_def)
next
  case (step fs d cs s log s' ds out)
  then show ?case using md_step_ok[OF _ step.hyps(2)] by simp
qed

section \<open>Freed books\<close>

text \<open>
  The entries of a subscription are erased after the session was told to unsubscribe. \<open>js\<close> are the subscriptions it was
  told of before the calls of the stack run.
\<close>

fun erases_ok :: "string set \<Rightarrow> md_call list \<Rightarrow> bool" where
  "erases_ok js [] = True"
| "erases_ok js (InSession (Unsubscribe json) # cs) = erases_ok (insert json js) cs"
| "erases_ok js (EraseBooks json # cs) = (json \<in> js \<and> erases_ok js cs)"
| "erases_ok js (c # cs) = erases_ok js cs"

definition unsubscribed :: "md_output list \<Rightarrow> string set" where
  "unsubscribed log = {json. ToSession (Unsubscribe json) \<in> set log}"

definition dangles_late :: "md_output list \<Rightarrow> bool" where
  "dangles_late log \<longleftrightarrow> (\<forall>before a after. log = before @ ToListener (Dangling a) # after \<longrightarrow> unsubscribed before \<noteq> {})"

text \<open>A book that is to be shown is held, unless something was unsubscribed.\<close>

definition shown_held :: "string set \<Rightarrow> md_client \<Rightarrow> md_call list \<Rightarrow> bool" where
  "shown_held js s cs \<longleftrightarrow> js = {} \<longrightarrow> (\<forall>a k. TellBook a k \<in> set cs \<longrightarrow> a \<in> dom (md_store s))"

lemma unsubscribed_simps [simp]:
  "unsubscribed [] = {}" "unsubscribed (xs @ ys) = unsubscribed xs \<union> unsubscribed ys"
  "unsubscribed [ToListener n] = {}" "unsubscribed [ToSession (Unsubscribe json)] = {json}"
  by (auto simp: unsubscribed_def)

lemma erases_ok_mono: "erases_ok js cs \<Longrightarrow> js \<subseteq> ks \<Longrightarrow> erases_ok ks cs"
proof (induction js cs arbitrary: ks rule: erases_ok.induct)
  case (2 js json cs)
  then show ?case using "2.IH"[of "insert json ks"] by auto
qed auto

fun erasing :: "md_call \<Rightarrow> bool" where
  "erasing (EraseBooks json) = True"
| "erasing c = False"

lemma erases_ok_add: "list_all (\<lambda>d. \<not> erasing d) ds \<Longrightarrow> erases_ok js cs \<Longrightarrow> erases_ok js (ds @ cs)"
  by (induction js ds rule: erases_ok.induct) (auto intro: erases_ok_mono)

lemma erases_ok_tl: "erases_ok js (d # cs) \<Longrightarrow> \<not> erasing d \<Longrightarrow> (\<And>json. d \<noteq> InSession (Unsubscribe json)) \<Longrightarrow> erases_ok js cs"
  by (induction js "d # cs" rule: erases_ok.induct) auto

lemma dangles_late_snoc [simp]:
  "dangles_late (log @ [x]) \<longleftrightarrow> dangles_late log \<and> (\<forall>a. x = ToListener (Dangling a) \<longrightarrow> unsubscribed log \<noteq> {})"
proof
  show "dangles_late log \<and> (\<forall>a. x = ToListener (Dangling a) \<longrightarrow> unsubscribed log \<noteq> {}) \<Longrightarrow> dangles_late (log @ [x])"
    unfolding dangles_late_def by (metis (no_types, lifting) append_eq_append_conv2 append_self_conv butlast_append butlast_snoc list.discI list.inject last_snoc last.simps butlast.simps(2) list.distinct(1))
  assume l: "dangles_late (log @ [x])"
  have "unsubscribed b \<noteq> {}" if "log = b @ ToListener (Dangling a) # e" for a b e
    using l that unfolding dangles_late_def by (metis append.assoc append_Cons)
  then show "dangles_late log \<and> (\<forall>a. x = ToListener (Dangling a) \<longrightarrow> unsubscribed log \<noteq> {})"
    using l unfolding dangles_late_def by blast
qed

text \<open>What a step adds to the stack, and which books it keeps.\<close>

lemma md_handle_adds:
  assumes "md_handle m s = (s', ds, out)"
  shows "dom (md_store s') = dom (md_store s) \<and> list_all (\<lambda>d. \<not> erasing d) ds \<and> (\<forall>a k. TellBook a k \<in> set ds \<longrightarrow> a \<in> dom (md_store s')) \<and>
    out = [ToListener (Forward m)]"
proof (cases m)
  case (OnL2Book x)
  then show ?thesis using assms findBook_held[of "l2_coin x" s] by (auto simp: md_onL2Book_def tell_def split: option.splits if_splits)
qed (use assms in \<open>auto simp: tell_def\<close>)

lemma applyBbo_adds:
  assumes "md_applyBbo m s = (s', ds, out)"
  shows "dom (md_store s') = dom (md_store s) \<and> list_all (\<lambda>d. \<not> erasing d) ds \<and> (\<forall>a k. TellBook a k \<in> set ds \<longrightarrow> a \<in> dom (md_store s')) \<and> out = []"
  using assms by (auto simp: md_applyBbo_def split: option.splits prod.splits if_splits)

lemma md_step_adds:
  assumes "md_step it rj d s = (s', ds, out)" and "\<not> erasing d" and "\<And>json. d \<noteq> UnsubscribeRaw json" and "\<And>a k. d \<noteq> TellBook a k"
  shows "dom (md_store s) \<subseteq> dom (md_store s')" "list_all (\<lambda>d. \<not> erasing d) ds"
    "\<forall>a k. TellBook a k \<in> set ds \<longrightarrow> a \<in> dom (md_store s')" "out = [] \<or> (\<exists>x. out = [x] \<and> (\<forall>a. x \<noteq> ToListener (Dangling a)))"
proof -
  have "dom (md_store s) \<subseteq> dom (md_store s') \<and> list_all (\<lambda>d. \<not> erasing d) ds \<and> (\<forall>a k. TellBook a k \<in> set ds \<longrightarrow> a \<in> dom (md_store s')) \<and>
    (out = [] \<or> (\<exists>x. out = [x] \<and> (\<forall>a. x \<noteq> ToListener (Dangling a))))"
  proof (cases d)
    case (Handle m)
    then have "md_handle m s = (s', ds, out)" using assms(1) by simp
    from md_handle_adds[OF this] show ?thesis by (intro conjI) (blast | simp)+
  next
    case (ApplyBbo m)
    then have "md_applyBbo m s = (s', ds, out)" using assms(1) by simp
    from applyBbo_adds[OF this] show ?thesis by (intro conjI) (blast | simp)+
  next
    case (OnSessionMessage frame)
    then show ?thesis using assms(1) by (auto simp: md_onSessionMessage_def list_all_iff split: prod.splits)
  qed (use assms in \<open>auto simp: subscribeL2Book_def Let_def tell_def subscribes_def subscribeCandle_def subscribeActiveAssetData_def
      clear_books_def split: if_splits\<close>)
  then show "dom (md_store s) \<subseteq> dom (md_store s')" "list_all (\<lambda>d. \<not> erasing d) ds"
    "\<forall>a k. TellBook a k \<in> set ds \<longrightarrow> a \<in> dom (md_store s')" "out = [] \<or> (\<exists>x. out = [x] \<and> (\<forall>a. x \<noteq> ToListener (Dangling a)))"
    by blast+
qed

definition frees_inv :: "md_call list \<Rightarrow> md_client \<Rightarrow> md_output list \<Rightarrow> bool" where
  "frees_inv cs s log \<longleftrightarrow> erases_ok (unsubscribed log) cs \<and> shown_held (unsubscribed log) s cs \<and> dangles_late log"

lemma frees_inv_step:
  assumes "frees_inv (d # cs) s log" and "md_step it rj d s = (s', ds, out)"
  shows "frees_inv (ds @ cs) s' (log @ out)"
proof -
  consider (erase) json where "d = EraseBooks json" | (drop) json where "d = UnsubscribeRaw json"
    | (told) json where "d = InSession (Unsubscribe json)" | (book) a k where "d = TellBook a k"
    | (other) "\<not> erasing d" "\<And>json. d \<noteq> UnsubscribeRaw json" "\<And>json. d \<noteq> InSession (Unsubscribe json)" "\<And>a k. d \<noteq> TellBook a k"
    by (cases d) auto
  then show ?thesis
  proof cases
    case book
    then show ?thesis using assms
      by (cases "md_store s a") (auto simp: frees_inv_def shown_held_def tell_book_def tell_def intro: erases_ok_mono)
  next
    case other
    note adds = md_step_adds[OF assms(2) other(1,2,4)]
    have u: "unsubscribed log \<subseteq> unsubscribed (log @ out)" by simp
    have "erases_ok (unsubscribed log) cs" using assms(1) erases_ok_tl[OF _ other(1,3)] unfolding frees_inv_def by blast
    then have "erases_ok (unsubscribed (log @ out)) (ds @ cs)" using erases_ok_add[OF adds(2)] erases_ok_mono[OF _ u] by blast
    moreover have "shown_held (unsubscribed (log @ out)) s' (ds @ cs)"
      using assms(1) adds(1,3) u unfolding frees_inv_def shown_held_def by (auto, blast+)
    moreover have "dangles_late (log @ out)" using assms(1) adds(4) unfolding frees_inv_def by auto
    ultimately show ?thesis unfolding frees_inv_def by blast
  next
    case drop
    have "erases_ok (insert json (unsubscribed log)) cs"
      using assms(1) erases_ok_mono[OF _ subset_insertI] by (simp add: frees_inv_def drop)
    then show ?thesis using assms by (auto simp: frees_inv_def shown_held_def drop)
  qed (use assms in \<open>auto simp: frees_inv_def shown_held_def\<close>)
qed

lemma md_run_frees: "md_run it rj c fs cs s log \<Longrightarrow> frees_inv cs s log"
proof (induction rule: md_run.induct)
  case start
  then show ?case by (simp add: frees_inv_def shown_held_def dangles_late_def)
next
  case (call fs cs s log d)
  then show ?case by (cases d) (auto simp: frees_inv_def shown_held_def)
next
  case (step fs d cs s log s' ds out)
  then show ?case using frees_inv_step by blast
qed

section \<open>Scripted runs\<close>

datatype md_script = MdOutside md_call | MdSteps nat

fun md_exec ::
  "(string \<Rightarrow> od option) \<Rightarrow> (od \<Rightarrow> string option) \<Rightarrow> nat \<Rightarrow> md_call list \<times> md_client \<times> md_output list \<Rightarrow> md_call list \<times> md_client \<times> md_output list" where
  "md_exec it rj (Suc n) (d # cs, s, log) =
     (case md_step it rj d s of (s', ds, out) \<Rightarrow> md_exec it rj n (ds @ cs, s', log @ out))"
| "md_exec it rj n cfg = cfg"

fun md_play ::
  "(string \<Rightarrow> od option) \<Rightarrow> (od \<Rightarrow> string option) \<Rightarrow> md_script list \<Rightarrow> md_call list \<times> md_client \<times> md_output list \<Rightarrow>
   (md_call list \<times> md_client \<times> md_output list) option" where
  "md_play it rj [] cfg = Some cfg"
| "md_play it rj (MdOutside d # ss) (cs, s, log) =
     (if (cs = [] \<or> hd cs = MdReturns) \<and> md_offered d then md_play it rj ss (d # cs, s, log) else None)"
| "md_play it rj (MdSteps n # ss) cfg = md_play it rj ss (md_exec it rj n cfg)"

lemma md_exec_run:
  "md_exec it rj n (cs, s, log) = (cs', s', log') \<Longrightarrow> md_run it rj c fs cs s log \<Longrightarrow> md_run it rj c fs cs' s' log'"
proof (induction it rj n "(cs, s, log)" arbitrary: cs s log rule: md_exec.induct)
  case (1 it rj n d cs s log)
  obtain s1 ds out where st: "md_step it rj d s = (s1, ds, out)" by (cases "md_step it rj d s")
  show ?case using "1.hyps"[OF st[symmetric] refl] "1.prems"(1) md_run.step[OF "1.prems"(2) st] by (simp add: st)
qed auto

fun script_frames :: "md_script list \<Rightarrow> string list" where
  "script_frames [] = []"
| "script_frames (MdOutside d # ss) = frame_of d @ script_frames ss"
| "script_frames (MdSteps n # ss) = script_frames ss"

lemma md_play_run:
  "md_play it rj ss (cs, s, log) = Some (cs', s', log') \<Longrightarrow> md_run it rj c fs cs s log \<Longrightarrow>
   md_run it rj c (fs @ script_frames ss) cs' s' log'"
proof (induction ss arbitrary: fs cs s log)
  case (Cons x ss)
  show ?case
  proof (cases x)
    case (MdOutside d)
    then have "md_play it rj ss (d # cs, s, log) = Some (cs', s', log')" "md_run it rj c (fs @ frame_of d) (d # cs) s log"
      using Cons.prems by (auto split: if_splits intro: md_run.call)
    from Cons.IH[OF this] show ?thesis by (simp add: MdOutside)
  next
    case (MdSteps n)
    obtain cs1 s1 log1 where st: "md_exec it rj n (cs, s, log) = (cs1, s1, log1)" by (cases "md_exec it rj n (cs, s, log)")
    show ?thesis using Cons.IH[of cs1 s1 log1] md_exec_run[OF st Cons.prems(2)] Cons.prems(1) MdSteps by (simp add: st)
  qed
qed simp

definition ex_md_config :: marketDataConfig where
  "ex_md_config = \<lparr>md_network = Testnet, urlOverride = [],
     md_session = \<lparr>ses_url = [], ses_ws = \<lparr>ws_tls = \<lparr>connectTimeoutMs = 5000, maxOutboxBytes = 0\<rparr>, maxMessageBytes = 100, extraHeaders = []\<rparr>,
       pingIntervalMs = 20, staleTimeoutMs = 60, reconnectMinDelayMs = 1, reconnectMaxDelayMs = 10\<rparr>,
     applyBboToBooks = True\<rparr>"

definition plain_l2 :: l2BookOptions where
  "plain_l2 = \<lparr>nSigFigs = None, mantissa = None, fast = False\<rparr>"

definition md_reaches :: "md_script list \<Rightarrow> (md_call list \<Rightarrow> md_client \<Rightarrow> md_output list \<Rightarrow> bool) \<Rightarrow> bool" where
  "md_reaches ss P =
     (case md_play ex_frames (\<lambda>_. None) ss ([], new_md_client ex_md_config, []) of
        None \<Rightarrow> False | Some (cs, s, log) \<Rightarrow> P cs s log)"

lemma md_reaches_run:
  assumes "md_reaches ss P"
  obtains cs s log where "md_run ex_frames (\<lambda>_. None) ex_md_config (script_frames ss) cs s log" "P cs s log"
proof (cases "md_play ex_frames (\<lambda>_. None) ss ([], new_md_client ex_md_config, [])")
  case (Some cfg)
  obtain cs s log where "cfg = (cs, s, log)" by (cases cfg)
  then have r: "md_play ex_frames (\<lambda>_. None) ss ([], new_md_client ex_md_config, []) = Some (cs, s, log)" "P cs s log"
    using assms Some by (simp_all add: md_reaches_def)
  from md_play_run[OF r(1) md_run.start] r(2) show thesis using that by simp
qed (use assms in \<open>simp add: md_reaches_def\<close>)

text \<open>The first snapshot of a book is about to be handled.\<close>

definition snapshot_script :: "md_script list" where
  "snapshot_script = [MdOutside (SubscribeL2Book ''BTC'' plain_l2), MdSteps 3, MdOutside (OnSessionMessage ''l2''), MdSteps 1]"

text \<open>A frame with a best bid is received inside the callback of a snapshot.\<close>

definition nested_script :: "md_script list" where
  "nested_script = [MdOutside (SubscribeBook ''BTC'' plain_l2), MdSteps 9, MdOutside (OnSessionMessage ''l2''), MdSteps 2,
     MdOutside (OnSessionMessage ''bbo''), MdSteps 2]"

text \<open>A best bid arrives after a reconnect, before the snapshot.\<close>

definition early_bbo_script :: "md_script list" where
  "early_bbo_script = [MdOutside (SubscribeBook ''BTC'' plain_l2), MdSteps 9, MdOutside (OnSessionMessage ''l2''), MdSteps 9,
     MdOutside (OnSessionClosed ''gone''), MdSteps 3, MdOutside (OnSessionMessage ''bbo''), MdSteps 9]"

lemmas md_eval = md_reaches_def eval_nat_numeral subscribeL2Book_def findBook_def new_md_client_def md_onSessionMessage_def ex_frames_read
  md_onL2Book_def tell_def tell_book_def eraseBooks_def clear_books_def subscribes_def md_applyBbo_def Let_def

lemma ex_coin: "isValidCoinName ''BTC''"
  by (simp add: isValidCoinName_def coin_char_def)

lemma ex_coins [simp]: "l2_coin ex_md_l2 = ''BTC''" "bbo_coin ex_md_bbo = ''BTC''" "l2_timeMs ex_md_l2 = 5"
  by (simp_all add: ex_md_l2_def ex_md_bbo_def)

lemma ex_snapshot_time [simp]: "snapshotTimeMs (book_clear (applySnapshot b ex_md_l2)) = 5"
  by (simp add: book_clear_def applySnapshot_def Let_def split: prod.split)

lemma ex_applies [simp]: "applyBboToBooks ex_md_config"
  by (simp add: ex_md_config_def)

lemma ex_new_time [simp]: "snapshotTimeMs (applySnapshot b ex_md_l2) = 5"
  by (simp add: applySnapshot_def Let_def split: prod.split)

definition ex_early_book :: orderBook where
  "ex_early_book = fst (applyBbo (book_clear (applySnapshot (new_book ''BTC'') ex_md_l2)) ex_md_bbo)"

lemma early_applied: "applyBbo (book_clear (applySnapshot (new_book ''BTC'') ex_md_l2)) ex_md_bbo = (ex_early_book, True)"
  unfolding ex_early_book_def prod_eq_iff by (intro conjI) (simp, code_simp)

section \<open>Forwarded messages\<close>

fun forwarded :: "md_output list \<Rightarrow> ws_message list" where
  "forwarded [] = []"
| "forwarded (ToListener (Forward m) # log) = m # forwarded log"
| "forwarded (x # log) = forwarded log"

lemma forwarded_append [simp]: "forwarded (xs @ ys) = forwarded xs @ forwarded ys"
  by (induction xs rule: forwarded.induct) auto

text \<open>The messages of a frame; the counters of the parser do not matter.\<close>

definition decoded :: "(string \<Rightarrow> od option) \<Rightarrow> (od \<Rightarrow> string option) \<Rightarrow> string \<Rightarrow> ws_message list" where
  "decoded it rj frame = fst (snd (parse_frame it rj frame \<lparr>messages = 0, parseErrors = 0, unhandled = 0\<rparr>))"

lemma dispatch_events: "fst (snd (dispatch_frame rj f ch d st)) = fst (snd (dispatch_frame rj f ch d st'))"
  by (simp add: dispatch_frame_def split: option.split prod.split)

lemma parse_frame_events: "parse_frame it rj frame st = (ok, evs, st') \<Longrightarrow> decoded it rj frame = evs"
proof -
  have "fst (snd (parse_frame it rj frame st)) = fst (snd (parse_frame it rj frame st''))" for st''
    by (simp add: parse_frame_def Let_def case_prod_beta dispatch_events[of rj frame _ _ "st\<lparr>messages := messages st + 1\<rparr>" "st''\<lparr>messages := messages st'' + 1\<rparr>"]
        split: option.split od.split)
  then show "parse_frame it rj frame st = (ok, evs, st') \<Longrightarrow> decoded it rj frame = evs"
    unfolding decoded_def by (metis fst_conv snd_conv)
qed

text \<open>The messages that the calls of the stack have still to forward.\<close>

fun pends :: "(string \<Rightarrow> od option) \<Rightarrow> (od \<Rightarrow> string option) \<Rightarrow> md_call \<Rightarrow> ws_message list" where
  "pends it rj (Handle m) = [m]"
| "pends it rj (OnSessionMessage frame) = decoded it rj frame"
| "pends it rj c = []"

definition owed :: "(string \<Rightarrow> od option) \<Rightarrow> (od \<Rightarrow> string option) \<Rightarrow> md_call list \<Rightarrow> ws_message list" where
  "owed it rj cs = concat (map (pends it rj) cs)"

lemma owed_simps [simp]:
  "owed it rj [] = []" "owed it rj (c # cs) = pends it rj c @ owed it rj cs" "owed it rj (cs @ ds) = owed it rj cs @ owed it rj ds"
  "owed it rj (map Handle ms) = ms"
  by (simp_all add: owed_def) (induction ms, simp_all)

lemma applyBbo_calls: "\<exists>s' ds. md_applyBbo m s = (s', ds, []) \<and> (ds = [] \<or> (\<exists>a k. ds = [TellBook a k]))"
  by (auto simp: md_applyBbo_def split: option.split prod.split)

lemma handle_calls:
  "\<exists>s' ds. md_handle m s = (s', MdReturns # ds, [ToListener (Forward m)]) \<and>
     (ds = [] \<or> (\<exists>a k. ds = [TellBook a k]) \<or> (\<exists>x. ds = [ApplyBbo x]))"
  by (cases m) (auto simp: md_onL2Book_def tell_def split: option.split)

lemma message_calls: "\<exists>s'. md_onSessionMessage it rj frame s = (s', map Handle (decoded it rj frame), [])"
proof -
  obtain ok evs st where p: "parse_frame it rj frame (md_stats s) = (ok, evs, st)" by (cases "parse_frame it rj frame (md_stats s)")
  from parse_frame_events[OF p] p show ?thesis by (simp add: md_onSessionMessage_def)
qed

text \<open>A step forwards what its call had to forward, and leaves less to do.\<close>

fun work :: "(string \<Rightarrow> od option) \<Rightarrow> (od \<Rightarrow> string option) \<Rightarrow> md_call \<Rightarrow> nat" where
  "work it rj MdReturns = 1"
| "work it rj (EraseBooks json) = 1"
| "work it rj (InSession c) = 2"
| "work it rj (TellBook a k) = 2"
| "work it rj (ApplyBbo m) = 3"
| "work it rj (Handle m) = 5"
| "work it rj (OnSessionMessage frame) = Suc (5 * length (decoded it rj frame))"
| "work it rj (SubscribeBook coin options) = 9"
| "work it rj c = 4"

definition total_work :: "(string \<Rightarrow> od option) \<Rightarrow> (od \<Rightarrow> string option) \<Rightarrow> md_call list \<Rightarrow> nat" where
  "total_work it rj cs = sum_list (map (work it rj) cs)"

lemma handles_work: "sum_list (map (work it rj \<circ> Handle) ms) = 5 * length ms"
  by (induction ms) simp_all

lemma md_step_forwards:
  assumes "md_step it rj d s = (s', ds, out)"
  shows "forwarded out @ owed it rj ds = pends it rj d \<and> total_work it rj ds < work it rj d"
proof (cases d)
  case (Handle m)
  then show ?thesis using assms handle_calls[of m s] by (auto simp: total_work_def)
next
  case (ApplyBbo m)
  then show ?thesis using assms applyBbo_calls[of m s] by (auto simp: total_work_def)
next
  case (OnSessionMessage frame)
  then show ?thesis using assms message_calls[of it rj frame s] by (auto simp: total_work_def handles_work)
qed (use assms in \<open>auto simp: total_work_def tell_book_def tell_def subscribes_def subscribeL2Book_def subscribeCandle_def
  subscribeActiveAssetData_def Let_def split: if_splits option.splits\<close>)

lemma md_exec_ends: "\<exists>n s' log'. md_exec it rj n (cs, s, log) = ([], s', log')"
proof (induction "total_work it rj cs" arbitrary: cs s log rule: less_induct)
  case less
  show ?case
  proof (cases cs)
    case Nil
    then show ?thesis by (metis md_exec.simps(2))
  next
    case (Cons d ds)
    obtain s1 es out where st: "md_step it rj d s = (s1, es, out)" by (cases "md_step it rj d s")
    have "total_work it rj (es @ ds) < total_work it rj cs" using md_step_forwards[OF st] by (simp add: Cons total_work_def)
    from less[OF this, of s1 "log @ out"] obtain n s' log' where "md_exec it rj n (es @ ds, s1, log @ out) = ([], s', log')" by blast
    then have "md_exec it rj (Suc n) (cs, s, log) = ([], s', log')" by (simp add: Cons st)
    then show ?thesis by blast
  qed
qed

definition delivered :: "(string \<Rightarrow> od option) \<Rightarrow> (od \<Rightarrow> string option) \<Rightarrow> string list \<Rightarrow> ws_message list \<Rightarrow> bool" where
  "delivered it rj fs ms \<longleftrightarrow> mset ms = mset (concat (map (decoded it rj) fs)) \<and> (\<forall>frame \<in> set fs. subseq (decoded it rj frame) ms)"

lemma subseq_insert_middle: "subseq xs (ys @ zs) \<Longrightarrow> subseq xs (ys @ ms @ zs)"
  by (meson list_emb_append2 subseq_append' subseq_order.dual_order.refl subseq_order.dual_order.trans)

lemma delivered_more:
  assumes "delivered it rj fs (ys @ zs)"
  shows "delivered it rj (fs @ [frame]) (ys @ decoded it rj frame @ zs)"
proof -
  have "subseq (decoded it rj frame) (ys @ decoded it rj frame @ zs)"
    using list_emb_append2[OF subseq_rev_drop_many[OF subseq_order.order_refl]] by blast
  then show ?thesis using assms subseq_insert_middle[of _ ys zs] by (auto simp: delivered_def)
qed

lemma md_run_delivers: "md_run it rj c fs cs s log \<Longrightarrow> delivered it rj fs (forwarded log @ owed it rj cs)"
proof (induction rule: md_run.induct)
  case start
  then show ?case by (simp add: delivered_def)
next
  case (call fs cs s log d)
  then show ?case using delivered_more[OF call.IH] by (cases d) simp_all
next
  case (step fs d cs s log s' ds out)
  then show ?case using md_step_forwards[OF step.hyps(2)] by (metis append.assoc forwarded_append owed_simps(2,3))
qed

lemma ex_snapshot_ok: "snapshot_ok ex_md_l2"
  by (simp add: snapshot_ok_def ex_md_l2_def best_first_def ex_md_level_def less_decimal_def)

definition listener_part :: "md_output list \<Rightarrow> md_notice list" where
  "listener_part log = concat (map (\<lambda>x. case x of ToListener n \<Rightarrow> [n] | ToSession c \<Rightarrow> []) log)"

definition ex_early_notices :: "md_notice list" where
  "ex_early_notices = [Forward (OnL2Book ex_md_l2), BookChanged (applySnapshot (new_book ''BTC'') ex_md_l2) SnapshotUpdate,
     Disconnected ''gone'', Forward (OnBbo ex_md_bbo), BookChanged ex_early_book BboUpdate]"

lemma early_reaches: "md_reaches early_bbo_script (\<lambda>cs s log. cs = [] \<and> listener_part log = ex_early_notices)"
  by (simp add: early_bbo_script_def md_eval ex_coin early_applied listener_part_def ex_early_notices_def)

lemma listener_part_set: "ToListener n \<in> set log \<longleftrightarrow> n \<in> set (listener_part log)"
  by (force simp: listener_part_def split: md_output.splits)

lemma snapshot_waits:
  "md_reaches snapshot_script (\<lambda>cs s log. cs = [Handle (OnL2Book ex_md_l2)] \<and> findBook ''BTC'' s = Some 0 \<and>
     (0, l2BookSubscriptionJson ''BTC'' plain_l2) \<in> set (md_books s) \<and> log = [ToSession (Subscribe (l2BookSubscriptionJson ''BTC'' plain_l2))])"
  by (simp add: snapshot_script_def md_eval ex_coin)

lemma nested_waits:
  "md_reaches nested_script (\<lambda>cs s log. \<exists>ds. cs = MdReturns # ds \<and> forwarded log = [OnL2Book ex_md_l2, OnBbo ex_md_bbo])"
  by (simp add: nested_script_def md_eval ex_coin)

section \<open>Properties\<close>

text \<open>
  C4: the listener only sees sound books. In every run, with callbacks that call back into the client, subscriptions,
  reconnects and best-bid updates in any order, and provided that each snapshot that was handled in this run is sorted and
  not crossed (the venue's promise, \<open>OrderBook.h\<close>): each book that \<open>onBookUpdate\<close> gets is sorted, not crossed and within its
  capacity, and a book that is freed already is only passed after an \<open>unsubscribeRaw\<close> of the owner.
\<close>

theorem listener_books_sound:
  assumes "md_run it rj c fs cs s log" and "\<forall>m. ToListener (Forward (OnL2Book m)) \<in> set log \<longrightarrow> snapshot_ok m"
  shows "(\<forall>b k. ToListener (BookChanged b k) \<in> set log \<longrightarrow>
      book_sorted b \<and> not_crossed b \<and> length (bids b) \<le> kMaxLevels \<and> length (asks b) \<le> kMaxLevels) \<and>
    (\<forall>before a after. log = before @ ToListener (Dangling a) # after \<longrightarrow> (\<exists>json. ToSession (Unsubscribe json) \<in> set before))"
proof -
  have ok: "told_ok log" using md_run_ok[OF assms(1)] assms(2) by (simp add: snapshots_ok_def)
  have "book_sorted b \<and> not_crossed b \<and> length (bids b) \<le> kMaxLevels \<and> length (asks b) \<le> kMaxLevels"
    if "ToListener (BookChanged b k) \<in> set log" for b k
  proof -
    have "book_run (book_coin b) b" using ok that unfolding told_ok_def by blast
    from book_run_inv[OF this] show ?thesis by (auto simp: book_inv_def bids_def asks_def)
  qed
  moreover have "dangles_late log" using md_run_frees[OF assms(1)] unfolding frees_inv_def by blast
  ultimately show ?thesis unfolding dangles_late_def unsubscribed_def by blast
qed

theorem listener_books_sound_witness:
  "\<exists>fs s log. md_run ex_frames (\<lambda>_. None) ex_md_config fs [] s log \<and> ToListener (BookChanged ex_early_book BboUpdate) \<in> set log \<and>
     not_crossed ex_early_book"
proof -
  obtain s log where r: "md_run ex_frames (\<lambda>_. None) ex_md_config (script_frames early_bbo_script) [] s log" "listener_part log = ex_early_notices"
    using early_reaches by (rule md_reaches_run) blast
  have "ToListener (BookChanged ex_early_book BboUpdate) \<in> set log" by (simp add: listener_part_set r(2) ex_early_notices_def)
  moreover have "\<forall>m. ToListener (Forward (OnL2Book m)) \<in> set log \<longrightarrow> snapshot_ok m"
    by (auto simp: listener_part_set r(2) ex_early_notices_def ex_snapshot_ok)
  ultimately show ?thesis using listener_books_sound[OF r(1)] r(1) by blast
qed

text \<open>
  C27: nothing decoded is lost, repeated or reordered. At any moment of a run in which callbacks call back into the client
  and frames may be received inside callbacks, the calls under way end when no further call comes from outside, and then
  the listener has been handed exactly the messages that were decoded from the frames received, each once, and those of one
  frame in their order.
\<close>

theorem messages_forwarded:
  assumes "md_run it rj c fs cs s log"
  shows "\<exists>n s' log'. md_exec it rj n (cs, s, log) = ([], s', log') \<and>
    mset (forwarded log') = mset (concat (map (decoded it rj) fs)) \<and> (\<forall>frame \<in> set fs. subseq (decoded it rj frame) (forwarded log'))"
proof -
  obtain n s' log' where e: "md_exec it rj n (cs, s, log) = ([], s', log')" using md_exec_ends by blast
  from md_run_delivers[OF md_exec_run[OF e assms]] e show ?thesis by (auto simp: delivered_def)
qed

theorem messages_forwarded_witness:
  "\<exists>cs s log n s' log'. md_run ex_frames (\<lambda>_. None) ex_md_config [''l2'', ''bbo''] (MdReturns # cs) s log \<and>
     md_exec ex_frames (\<lambda>_. None) n (MdReturns # cs, s, log) = ([], s', log') \<and>
     mset (forwarded log') = {#OnL2Book ex_md_l2, OnBbo ex_md_bbo#}"
proof -
  obtain cs s log where r: "md_run ex_frames (\<lambda>_. None) ex_md_config (script_frames nested_script) (MdReturns # cs) s log"
    using nested_waits by (rule md_reaches_run) blast
  have d: "decoded ex_frames (\<lambda>_. None) ''l2'' = [OnL2Book ex_md_l2]" "decoded ex_frames (\<lambda>_. None) ''bbo'' = [OnBbo ex_md_bbo]"
    by (simp_all add: decoded_def ex_frames_read)
  have f: "script_frames nested_script = [''l2'', ''bbo'']" by (simp add: nested_script_def)
  from messages_forwarded[OF r] r show ?thesis by (fastforce simp: f d)
qed

text \<open>
  C39: the snapshot of any maintained book can leave the listener with a freed book. Whenever a run is about to handle a
  snapshot for a book that is held under the subscription \<open>json\<close>, it goes on like this when the listener calls
  \<open>unsubscribeRaw(json)\<close> in its \<open>onL2Book\<close>: \<open>onL2Book\<close>, the \<open>unsubscribe\<close> of the session, and then \<open>onBookUpdate\<close> on the
  book that was freed in between.
\<close>

theorem unsubscribing_listener_gets_freed_book:
  assumes "md_run it rj c fs (Handle (OnL2Book m) # cs) s log" and "findBook (l2_coin m) s = Some a" and "(a, json) \<in> set (md_books s)"
  shows "\<exists>s'. md_run it rj c fs cs s'
    (log @ [ToListener (Forward (OnL2Book m)), ToSession (Unsubscribe json), ToListener (Dangling a)])"
proof -
  let ?s = "s\<lparr>md_store := (\<lambda>b. if b = a then map_option (\<lambda>b. applySnapshot b m) (md_store s a) else md_store s b)\<rparr>"
  let ?rest = "TellBook a SnapshotUpdate # cs" and ?l = "log @ [ToListener (Forward (OnL2Book m))]"
  have "md_run it rj c fs (MdReturns # ?rest) ?s ?l"
    using md_run.step[OF assms(1)] assms(2) by (simp add: md_onL2Book_def tell_def)
  from md_run.call[OF this, of "UnsubscribeRaw json"] have "md_run it rj c fs (UnsubscribeRaw json # MdReturns # ?rest) ?s ?l" by simp
  moreover have "md_exec it rj 7 (UnsubscribeRaw json # MdReturns # ?rest, ?s, ?l)
      = (cs, eraseBooks json ?s, log @ [ToListener (Forward (OnL2Book m)), ToSession (Unsubscribe json), ToListener (Dangling a)])"
    using assms(3) by (simp add: eval_nat_numeral tell_book_def tell_def eraseBooks_def)
  ultimately show ?thesis using md_exec_run by blast
qed

theorem unsubscribing_listener_gets_freed_book_witness:
  "\<exists>fs s log. md_run ex_frames (\<lambda>_. None) ex_md_config fs [] s log \<and> ToListener (Dangling 0) \<in> set log"
proof -
  obtain s log where r: "md_run ex_frames (\<lambda>_. None) ex_md_config (script_frames snapshot_script) [Handle (OnL2Book ex_md_l2)] s log"
    "findBook (l2_coin ex_md_l2) s = Some 0" "(0, l2BookSubscriptionJson ''BTC'' plain_l2) \<in> set (md_books s)"
    using snapshot_waits by (rule md_reaches_run) auto
  from unsubscribing_listener_gets_freed_book[OF r] show ?thesis by fastforce
qed

text \<open>
  After a reconnect a best bid is put into the cleared book before the new snapshot has arrived, and the listener is
  told of a book that holds that level alone.
\<close>

lemma bbo_fills_cleared_book:
  "\<exists>fs s log. md_run ex_frames (\<lambda>_. None) ex_md_config fs [] s log \<and>
     listener_part log = [Forward (OnL2Book ex_md_l2), BookChanged (applySnapshot (new_book ''BTC'') ex_md_l2) SnapshotUpdate,
       Disconnected ''gone'', Forward (OnBbo ex_md_bbo), BookChanged ex_early_book BboUpdate] \<and>
     bids ex_early_book = [bid ex_md_bbo] \<and> asks ex_early_book = []"
proof -
  have b: "bids ex_early_book = [bid ex_md_bbo]" "asks ex_early_book = []"
    unfolding ex_early_book_def by code_simp+
  show ?thesis using early_reaches by (rule md_reaches_run) (unfold ex_early_notices_def, use b in blast)
qed

end
