(* ===== verification/HL_Info.thy ===== *)
theory HL_Info
  imports HL_ExchangeState HL_HttpClient HL_OrderBook
begin

text \<open>
  The client of the read-only endpoint (\<open>include/hl/om/InfoClient.h\<close>, \<open>src/om/InfoClient.cpp\<close>). A method posts its body
  through the HTTP client (\<open>HL_HttpClient\<close>) and decodes the answer in the callback: here a method is the posting, and the
  function with the suffix \<open>_answer\<close> the value that its callback gets, from the error and the response of the HTTP
  client. \<open>parse_json\<close> is simdjson's DOM parser, as in \<open>HL_Json\<close>. \<open>Fill\<close> has the fields of \<open>FillMsg\<close>.
\<close>

section \<open>Requests\<close>

definition kInfoPath :: string where
  "kInfoPath = ''/info''"

definition userRequest :: "string \<Rightarrow> address \<Rightarrow> string" where
  "userRequest type usr = ''{\"type\":\"'' @ type @ ''\",\"user\":\"'' @ addr_toHex usr @ ''\"}''"

definition info_post :: "nat \<Rightarrow> string \<Rightarrow> http_client \<Rightarrow> http_result3" where
  "info_post n body c = postJson n kInfoPath body c"

text \<open>The optional end of a time range.\<close>

definition end_time :: "int \<Rightarrow> string" where
  "end_time endTimeMs = (if endTimeMs > 0 then '',\"endTime\":'' @ int_to_string endTimeMs else [])"

definition user_range_body :: "string \<Rightarrow> address \<Rightarrow> int \<Rightarrow> int \<Rightarrow> string" where
  "user_range_body type usr startTimeMs endTimeMs =
     ''{\"type\":\"'' @ type @ ''\",\"user\":\"'' @ addr_toHex usr @ ''\",\"startTime\":'' @ int_to_string startTimeMs @ end_time endTimeMs @ ''}''"

definition meta_body :: string where "meta_body = ''{\"type\":\"meta\"}''"
definition spotMeta_body :: string where "spotMeta_body = ''{\"type\":\"spotMeta\"}''"

definition orderStatus_cloid_body :: "address \<Rightarrow> cloid \<Rightarrow> string" where
  "orderStatus_cloid_body usr c = ''{\"type\":\"orderStatus\",\"user\":\"'' @ addr_toHex usr @ ''\",\"oid\":\"'' @ cloid_toString c @ ''\"}''"

definition orderStatus_oid_body :: "address \<Rightarrow> u64 \<Rightarrow> string" where
  "orderStatus_oid_body usr i = ''{\"type\":\"orderStatus\",\"user\":\"'' @ addr_toHex usr @ ''\",\"oid\":'' @ emit_int (unat i) [] @ ''}''"

definition l2Book_body :: "string \<Rightarrow> string" where
  "l2Book_body coin = ''{\"type\":\"l2Book\",\"coin\":\"'' @ coin @ ''\"}''"

definition fundingHistory_body :: "string \<Rightarrow> int \<Rightarrow> int \<Rightarrow> string" where
  "fundingHistory_body coin startTimeMs endTimeMs =
     ''{\"type\":\"fundingHistory\",\"coin\":\"'' @ coin @ ''\",\"startTime\":'' @ int_to_string startTimeMs @ end_time endTimeMs @ ''}''"

definition candles_body :: "string \<Rightarrow> string \<Rightarrow> int \<Rightarrow> int \<Rightarrow> string" where
  "candles_body coin interval startTimeMs endTimeMs =
     ''{\"type\":\"candleSnapshot\",\"req\":{\"coin\":\"'' @ coin @ ''\",\"interval\":\"'' @ interval @ ''\",\"startTime\":'' @
     int_to_string startTimeMs @ end_time endTimeMs @ ''}}''"

datatype info_query =
    IAssets
  | ISpotMeta
  | IClearinghouseState address
  | IOpenOrders address
  | IOrderStatusCloid address cloid
  | IOrderStatusOid address u64
  | IUserRole address
  | IUserFills address
  | IL2Book string
  | IAllMids
  | ISpotBalances address
  | IRateLimit address
  | IUserFillsByTime address int int
  | IUserFunding address int int
  | IHistoricalOrders address
  | IPerpContexts
  | IFundingHistory string int int
  | IPredictedFundings
  | ICandles string string int int
  | IRaw string

fun query_body :: "info_query \<Rightarrow> string" where
  "query_body IAssets = meta_body"
| "query_body ISpotMeta = spotMeta_body"
| "query_body (IClearinghouseState usr) = userRequest ''clearinghouseState'' usr"
| "query_body (IOpenOrders usr) = userRequest ''frontendOpenOrders'' usr"
| "query_body (IOrderStatusCloid usr c) = orderStatus_cloid_body usr c"
| "query_body (IOrderStatusOid usr i) = orderStatus_oid_body usr i"
| "query_body (IUserRole usr) = userRequest ''userRole'' usr"
| "query_body (IUserFills usr) = userRequest ''userFills'' usr"
| "query_body (IL2Book coin) = l2Book_body coin"
| "query_body IAllMids = ''{\"type\":\"allMids\"}''"
| "query_body (ISpotBalances usr) = userRequest ''spotClearinghouseState'' usr"
| "query_body (IRateLimit usr) = userRequest ''userRateLimit'' usr"
| "query_body (IUserFillsByTime usr a b) = user_range_body ''userFillsByTime'' usr a b"
| "query_body (IUserFunding usr a b) = user_range_body ''userFunding'' usr a b"
| "query_body (IHistoricalOrders usr) = userRequest ''historicalOrders'' usr"
| "query_body IPerpContexts = ''{\"type\":\"metaAndAssetCtxs\"}''"
| "query_body (IFundingHistory coin a b) = fundingHistory_body coin a b"
| "query_body IPredictedFundings = ''{\"type\":\"predictedFundings\"}''"
| "query_body (ICandles coin interval a b) = candles_body coin interval a b"
| "query_body (IRaw requestJson) = requestJson"

definition info_query_post :: "nat \<Rightarrow> info_query \<Rightarrow> http_client \<Rightarrow> http_result3" where
  "info_query_post n q c = info_post n (query_body q) c"

section \<open>Answers\<close>

definition info_answer :: "(string \<Rightarrow> json option) \<Rightarrow> (value \<Rightarrow> 'a result) \<Rightarrow> error \<Rightarrow> httpResponse \<Rightarrow> 'a result" where
  "info_answer parse_json parse_root err resp =
     (if is_error err then
        Inl (if http_body resp \<noteq> [] then err\<lparr>message := message err @ '': '' @ take 300 (http_body resp)\<rparr> else err)
      else case parse_json (http_body resp) of
             None \<Rightarrow> Inl \<lparr>err_kind = Parse, httpStatus = http_status resp, message = ''info: invalid JSON: '' @ take 300 (http_body resp)\<rparr>
           | Some doc \<Rightarrow> parse_root (Some doc))"

definition info_error :: "string \<Rightarrow> 'a result" where
  "info_error msg = Inl (mk_error Parse msg)"

definition parseSide :: "string \<Rightarrow> side" where
  "parseSide s = (if s \<noteq> [] \<and> hd s = CHR ''B'' then Buy else Sell)"

definition field_cloid :: "value \<Rightarrow> cloid option" where
  "field_cloid v = (if isString (jfield v ''cloid'') then cloid_parse (asString (jfield v ''cloid'')) else None)"

definition parseOrder :: "value \<Rightarrow> openOrder" where
  "parseOrder v =
     \<lparr>oo_coin = asString (jfield v ''coin''), oo_side = parseSide (asString (jfield v ''side'')),
      oo_limitPx = asDecimal (jfield v ''limitPx''), oo_sz = asDecimal (jfield v ''sz''), oo_origSz = asDecimal (jfield v ''origSz''),
      oo_oid = asUint (jfield v ''oid''), oo_timestampMs = asInt (jfield v ''timestamp''), oo_cloid = field_cloid v,
      oo_reduceOnly = asBool (jfield v ''reduceOnly''), oo_isTrigger = asBool (jfield v ''isTrigger''),
      oo_triggerPx = asDecimal (jfield v ''triggerPx''), oo_orderType = asString (jfield v ''orderType''), oo_tif = asString (jfield v ''tif'')\<rparr>"

definition parseFill :: "value \<Rightarrow> fillMsg" where
  "parseFill v =
     \<lparr>f_coin = asString (jfield v ''coin''), f_px = asDecimal (jfield v ''px''), f_sz = asDecimal (jfield v ''sz''),
      f_side = parseSide (asString (jfield v ''side'')), f_timeMs = asInt (jfield v ''time''),
      f_startPosition = asDecimal (jfield v ''startPosition''), f_dir = asString (jfield v ''dir''),
      f_closedPnl = asDecimal (jfield v ''closedPnl''), f_hash = asString (jfield v ''hash''), f_oid = asUint (jfield v ''oid''),
      f_crossed = asBool (jfield v ''crossed''), f_fee = asDecimal (jfield v ''fee''), f_feeToken = asString (jfield v ''feeToken''),
      f_tid = asUint (jfield v ''tid''), f_cloid = field_cloid v\<rparr>"

definition parse_list :: "string \<Rightarrow> (value \<Rightarrow> 'a) \<Rightarrow> value \<Rightarrow> 'a list result" where
  "parse_list msg f answer = (if \<not> isArray answer then info_error msg else Inr (map f (jarray answer)))"

definition openOrders_root :: "value \<Rightarrow> openOrder list result" where
  "openOrders_root = parse_list ''openOrders: expected array'' parseOrder"

definition userFills_root :: "value \<Rightarrow> fillMsg list result" where
  "userFills_root = parse_list ''userFills: expected array'' parseFill"

definition userFillsByTime_root :: "value \<Rightarrow> fillMsg list result" where
  "userFillsByTime_root = parse_list ''userFillsByTime: expected array'' parseFill"

definition parsePosition :: "value \<Rightarrow> position" where
  "parsePosition ap =
     (let p = jfield ap ''position''; lev = jfield p ''leverage'' in
      \<lparr>p_coin = asString (jfield p ''coin''), p_szi = asDecimal (jfield p ''szi''), p_entryPx = asDecimal (jfield p ''entryPx''),
       p_positionValue = asDecimal (jfield p ''positionValue''), p_unrealizedPnl = asDecimal (jfield p ''unrealizedPnl''),
       p_returnOnEquity = asDecimal (jfield p ''returnOnEquity''),
       p_liquidationPx = (if isString (jfield p ''liquidationPx'') then Some (asDecimal (jfield p ''liquidationPx'')) else None),
       p_marginUsed = asDecimal (jfield p ''marginUsed''), p_leverage = ucast (asUint (jfield lev ''value'')),
       p_isCross = (asString (jfield lev ''type'') \<noteq> ''isolated'')\<rparr>)"

definition clearinghouseState_root :: "value \<Rightarrow> accountState result" where
  "clearinghouseState_root answer =
     (if \<not> isObject answer then info_error ''clearinghouseState: unexpected response''
      else
        let summary = jfield answer ''marginSummary'' in
        Inr \<lparr>as_accountValue = asDecimal (jfield summary ''accountValue''), as_totalNtlPos = asDecimal (jfield summary ''totalNtlPos''),
          as_totalRawUsd = asDecimal (jfield summary ''totalRawUsd''), as_totalMarginUsed = asDecimal (jfield summary ''totalMarginUsed''),
          as_withdrawable = asDecimal (jfield answer ''withdrawable''),
          as_positions = map parsePosition (jarray (jfield answer ''assetPositions'')), as_timeMs = asInt (jfield answer ''time'')\<rparr>)"

definition no_order :: openOrder where
  "no_order = \<lparr>oo_coin = [], oo_side = Buy, oo_limitPx = dec_zero, oo_sz = dec_zero, oo_origSz = dec_zero, oo_oid = 0, oo_timestampMs = 0,
     oo_cloid = None, oo_reduceOnly = False, oo_isTrigger = False, oo_triggerPx = dec_zero, oo_orderType = [], oo_tif = []\<rparr>"

text \<open>An order with its status, as \<open>orderStatus\<close> and \<open>historicalOrders\<close> have it.\<close>

definition status_entry :: "value \<Rightarrow> orderStatusInfo" where
  "status_entry w =
     \<lparr>osi_found = True, osi_order = parseOrder (jfield w ''order''), osi_status = parseOrderUpdateStatus (asString (jfield w ''status'')),
      osi_statusText = asString (jfield w ''status''), osi_statusTimestampMs = asInt (jfield w ''statusTimestamp'')\<rparr>"

definition parseOrderStatus :: "value \<Rightarrow> orderStatusInfo result" where
  "parseOrderStatus answer =
     (let status = asString (jfield answer ''status'') in
      if status \<noteq> ''order''
      then Inr \<lparr>osi_found = False, osi_order = no_order, osi_status = UUnknown, osi_statusText = status, osi_statusTimestampMs = 0\<rparr>
      else Inr (status_entry (jfield answer ''order'')))"

definition historicalOrders_root :: "value \<Rightarrow> orderStatusInfo list result" where
  "historicalOrders_root = parse_list ''historicalOrders: expected array'' status_entry"

definition userRole_root :: "value \<Rightarrow> userRole result" where
  "userRole_root answer =
     (if \<not> isObject answer then info_error ''userRole: unexpected response''
      else
        let m = jfield (jfield answer ''data'') ''user'' in
        Inr \<lparr>role = asString (jfield answer ''role''), master = (if isString m then parseAddress (asString m) else None)\<rparr>)"

record l2Snapshot =
  sn_coin :: string
  sn_timeMs :: int
  sn_bids :: "bookLevel list"
  sn_asks :: "bookLevel list"

definition parse_level :: "value \<Rightarrow> bookLevel" where
  "parse_level v = \<lparr>px = asDecimal (jfield v ''px''), sz = asDecimal (jfield v ''sz''), n_orders = ucast (asUint (jfield v ''n''))\<rparr>"

definition readLevels :: "value \<Rightarrow> bookLevel list" where
  "readLevels arr = map parse_level (jarray arr)"

text \<open>The loop over the sides leaves after the second one.\<close>

fun snapshot_sides :: "nat \<Rightarrow> value list \<Rightarrow> l2Snapshot \<Rightarrow> l2Snapshot" where
  "snapshot_sides i [] s = s"
| "snapshot_sides i (lv # lvs) s =
     (let s = (if i = 0 then s\<lparr>sn_bids := sn_bids s @ readLevels lv\<rparr> else s\<lparr>sn_asks := sn_asks s @ readLevels lv\<rparr>)
      in if i + 1 = 2 then s else snapshot_sides (i + 1) lvs s)"

definition l2Book_root :: "value \<Rightarrow> l2Snapshot result" where
  "l2Book_root answer =
     (let levels = jfield answer ''levels'' in
      if \<not> isArray levels then info_error ''l2Book: missing levels''
      else Inr (snapshot_sides 0 (jarray levels)
        \<lparr>sn_coin = asString (jfield answer ''coin''), sn_timeMs = asInt (jfield answer ''time''), sn_bids = [], sn_asks = []\<rparr>))"

definition parse_balance :: "value \<Rightarrow> spotBalance" where
  "parse_balance b =
     \<lparr>sb_coin = asString (jfield b ''coin''), sb_token = ucast (asUint (jfield b ''token'')), sb_total = asDecimal (jfield b ''total''),
      sb_hold = asDecimal (jfield b ''hold''), sb_entryNtl = asDecimal (jfield b ''entryNtl'')\<rparr>"

definition spotBalances_root :: "value \<Rightarrow> spotBalance list result" where
  "spotBalances_root answer = Inr (map parse_balance (jarray (jfield answer ''balances'')))"

definition rateLimit_root :: "value \<Rightarrow> rateLimitStatus result" where
  "rateLimit_root answer =
     (if \<not> isObject answer then info_error ''userRateLimit: unexpected response''
      else Inr \<lparr>cumVlm = asDecimal (jfield answer ''cumVlm''), requestsUsed = asUint (jfield answer ''nRequestsUsed''),
        requestsCap = asUint (jfield answer ''nRequestsCap'')\<rparr>)"

record fundingPayment =
  fp_timeMs :: int
  fp_coin :: string
  fp_usdc :: decimal
  fp_szi :: decimal
  fp_rate :: decimal
  fp_hash :: string

definition parse_payment :: "value \<Rightarrow> fundingPayment" where
  "parse_payment e =
     (let delta = jfield e ''delta'' in
      \<lparr>fp_timeMs = asInt (jfield e ''time''), fp_coin = asString (jfield delta ''coin''), fp_usdc = asDecimal (jfield delta ''usdc''),
       fp_szi = asDecimal (jfield delta ''szi''), fp_rate = asDecimal (jfield delta ''fundingRate''), fp_hash = asString (jfield e ''hash'')\<rparr>)"

definition userFunding_root :: "value \<Rightarrow> fundingPayment list result" where
  "userFunding_root = parse_list ''userFunding: expected array'' parse_payment"

record perpContext =
  pc_coin :: string
  pc_asset :: u32
  pc_szDecimals :: int
  pc_maxLeverage :: u32
  pc_funding :: decimal
  pc_openInterest :: decimal
  pc_premium :: decimal
  pc_oraclePx :: decimal
  pc_markPx :: decimal
  pc_midPx :: decimal
  pc_prevDayPx :: decimal
  pc_dayNtlVlm :: decimal
  pc_dayBaseVlm :: decimal
  pc_impactBid :: decimal
  pc_impactAsk :: decimal

fun impact_loop :: "nat \<Rightarrow> value list \<Rightarrow> perpContext \<Rightarrow> perpContext" where
  "impact_loop i [] p = p"
| "impact_loop i (x # xs) p =
     (let p = (if i = 0 then p\<lparr>pc_impactBid := asDecimal x\<rparr> else p\<lparr>pc_impactAsk := asDecimal x\<rparr>)
      in if i + 1 = 2 then p else impact_loop (i + 1) xs p)"

definition perp_meta :: "u32 \<Rightarrow> value \<Rightarrow> perpContext" where
  "perp_meta index u =
     \<lparr>pc_coin = asString (jfield u ''name''), pc_asset = index, pc_szDecimals = wrap32 (asInt (jfield u ''szDecimals'')),
      pc_maxLeverage = ucast (asUint (jfield u ''maxLeverage'')), pc_funding = dec_zero, pc_openInterest = dec_zero, pc_premium = dec_zero,
      pc_oraclePx = dec_zero, pc_markPx = dec_zero, pc_midPx = dec_zero, pc_prevDayPx = dec_zero, pc_dayNtlVlm = dec_zero,
      pc_dayBaseVlm = dec_zero, pc_impactBid = dec_zero, pc_impactAsk = dec_zero\<rparr>"

definition perp_ctx :: "value \<Rightarrow> perpContext \<Rightarrow> perpContext" where
  "perp_ctx c p =
     impact_loop 0 (jarray (jfield c ''impactPxs''))
       (p\<lparr>pc_funding := asDecimal (jfield c ''funding''), pc_openInterest := asDecimal (jfield c ''openInterest''),
          pc_premium := asDecimal (jfield c ''premium''), pc_oraclePx := asDecimal (jfield c ''oraclePx''),
          pc_markPx := asDecimal (jfield c ''markPx''), pc_midPx := asDecimal (jfield c ''midPx''),
          pc_prevDayPx := asDecimal (jfield c ''prevDayPx''), pc_dayNtlVlm := asDecimal (jfield c ''dayNtlVlm''),
          pc_dayBaseVlm := asDecimal (jfield c ''dayBaseVlm'')\<rparr>)"

fun perp_contexts_loop :: "value list \<Rightarrow> u32 \<Rightarrow> value list \<Rightarrow> perpContext list" where
  "perp_contexts_loop ctxs index [] = []"
| "perp_contexts_loop ctxs index (u # us) =
     (let p = perp_meta index u; p = (if unat index < length ctxs then perp_ctx (ctxs ! unat index) p else p)
      in p # perp_contexts_loop ctxs (index + 1) us)"

definition perpContexts_root :: "value \<Rightarrow> perpContext list result" where
  "perpContexts_root answer =
     (if \<not> isArray answer then info_error ''metaAndAssetCtxs: expected array''
      else case jarray answer of
             [meta, ctxs] \<Rightarrow> Inr (perp_contexts_loop (jarray ctxs) 0 (jarray (jfield meta ''universe'')))
           | _ \<Rightarrow> info_error ''metaAndAssetCtxs: expected two elements'')"

record fundingRate =
  fr_coin :: string
  fr_rate :: decimal
  fr_premium :: decimal
  fr_timeMs :: int

definition parse_rate :: "value \<Rightarrow> fundingRate" where
  "parse_rate e = \<lparr>fr_coin = asString (jfield e ''coin''), fr_rate = asDecimal (jfield e ''fundingRate''),
     fr_premium = asDecimal (jfield e ''premium''), fr_timeMs = asInt (jfield e ''time'')\<rparr>"

definition fundingHistory_root :: "value \<Rightarrow> fundingRate list result" where
  "fundingHistory_root = parse_list ''fundingHistory: expected array'' parse_rate"

record predictedFunding =
  pf_coin :: string
  pf_venue :: string
  pf_rate :: decimal
  pf_nextFundingTimeMs :: int
  pf_intervalHours :: int

fun venue_loop :: "nat \<Rightarrow> value list \<Rightarrow> predictedFunding \<Rightarrow> predictedFunding" where
  "venue_loop inner [] pf = pf"
| "venue_loop inner (x # xs) pf =
     venue_loop (inner + 1) xs
       (if inner = 0 then pf\<lparr>pf_venue := asString x\<rparr>
        else pf\<lparr>pf_rate := asDecimal (jfield x ''fundingRate''), pf_nextFundingTimeMs := asInt (jfield x ''nextFundingTime''),
               pf_intervalHours := wrap32 (asInt (jfield x ''fundingIntervalHours''))\<rparr>)"

definition venue_entry :: "string \<Rightarrow> value \<Rightarrow> predictedFunding list" where
  "venue_entry coin v =
     (let pf = venue_loop 0 (jarray v) \<lparr>pf_coin = coin, pf_venue = [], pf_rate = dec_zero, pf_nextFundingTimeMs = 0, pf_intervalHours = 0\<rparr>
      in if pf_venue pf \<noteq> [] then [pf] else [])"

fun predicted_parts :: "nat \<Rightarrow> string \<Rightarrow> value list \<Rightarrow> predictedFunding list" where
  "predicted_parts i coin [] = []"
| "predicted_parts i coin (part # parts) =
     (if i = 0 then predicted_parts (i + 1) (asString part) parts
      else concat (map (venue_entry coin) (jarray part)) @ predicted_parts (i + 1) coin parts)"

definition predictedFundings_root :: "value \<Rightarrow> predictedFunding list result" where
  "predictedFundings_root answer =
     (if \<not> isArray answer then info_error ''predictedFundings: expected array''
      else Inr (concat (map (\<lambda>entry. predicted_parts 0 [] (jarray entry)) (jarray answer))))"

record candle =
  cd_coin :: string
  cd_interval :: string
  cd_openTimeMs :: int
  cd_closeTimeMs :: int
  cd_open :: decimal
  cd_close :: decimal
  cd_high :: decimal
  cd_low :: decimal
  cd_volume :: decimal
  cd_trades :: u64

definition parse_candle :: "value \<Rightarrow> candle" where
  "parse_candle e =
     \<lparr>cd_coin = asString (jfield e ''s''), cd_interval = asString (jfield e ''i''), cd_openTimeMs = asInt (jfield e ''t''),
      cd_closeTimeMs = asInt (jfield e ''T''), cd_open = asDecimal (jfield e ''o''), cd_close = asDecimal (jfield e ''c''),
      cd_high = asDecimal (jfield e ''h''), cd_low = asDecimal (jfield e ''l''), cd_volume = asDecimal (jfield e ''v''),
      cd_trades = asUint (jfield e ''n'')\<rparr>"

definition candles_root :: "value \<Rightarrow> candle list result" where
  "candles_root = parse_list ''candleSnapshot: expected array'' parse_candle"

text \<open>\<open>allMids\<close>, \<open>raw\<close> and \<open>assets\<close> have callbacks of their own.\<close>

definition allMids_answer :: "(string \<Rightarrow> json option) \<Rightarrow> error \<Rightarrow> httpResponse \<Rightarrow> (string \<times> decimal) list result" where
  "allMids_answer parse_json err resp =
     (if is_error err then Inl err
      else case parse_json (http_body resp) of
             Some (JObject kvs) \<Rightarrow>
               Inr (concat (map (\<lambda>(k, v). case v of JString s \<Rightarrow> [(k, parseOrZero s)] | _ \<Rightarrow> []) kvs))
           | _ \<Rightarrow> info_error ''allMids: expected object'')"

definition raw_answer :: "error \<Rightarrow> httpResponse \<Rightarrow> string result" where
  "raw_answer err resp =
     (if is_error err then Inl (err\<lparr>message := message err @ '': '' @ take 300 (http_body resp)\<rparr>) else Inr (http_body resp))"

datatype assets_next = AssetsDone "registry result" | AskSpotMeta registry

definition assets_answer :: "(string \<Rightarrow> json option) \<Rightarrow> bool \<Rightarrow> error \<Rightarrow> httpResponse \<Rightarrow> assets_next" where
  "assets_answer parse_json includeSpot err resp =
     (if is_error err then AssetsDone (Inl err)
      else case loadPerpMeta parse_json [] (http_body resp) of
             (reg, Inl e) \<Rightarrow> AssetsDone (Inl e)
           | (reg, Inr added) \<Rightarrow> if includeSpot then AskSpotMeta reg else AssetsDone (Inr reg))"

text \<open>\<open>None\<close> where \<open>loadSpotMeta\<close> has no defined behaviour.\<close>

definition spotMeta_answer :: "(string \<Rightarrow> json option) \<Rightarrow> nat \<Rightarrow> registry \<Rightarrow> error \<Rightarrow> httpResponse \<Rightarrow> registry result option" where
  "spotMeta_answer parse_json cap reg err resp =
     (if is_error err then Some (Inl err)
      else map_option (\<lambda>(reg, r). case r of Inl e \<Rightarrow> Inl e | Inr added \<Rightarrow> Inr reg) (loadSpotMeta parse_json cap reg (http_body resp)))"

section \<open>Decoding what the venue sends\<close>

definition json_dec :: "decimal \<Rightarrow> json" where
  "json_dec d = JString (dec_toString d)"

definition json_uint :: "decimal \<Rightarrow> u64 \<Rightarrow> json" where
  "json_uint d u = (if unat u < 2 ^ 63 then JInt (uint u) else JUint (unat u) d)"

definition json_side :: "side \<Rightarrow> json" where
  "json_side s = JString (if s = Buy then ''B'' else ''A'')"

definition printable :: "decimal \<Rightarrow> bool" where
  "printable d \<longleftrightarrow> wf_decimal d \<and> d \<noteq> dec_min"

lemma json_reads [simp]:
  "printable d \<Longrightarrow> asDecimal (Some (json_dec d)) = d" "asUint (Some (json_uint e u)) = u" "parseSide (asString (Some (json_side s))) = s"
  "asString (Some (JString t)) = t" "asInt (Some (JInt i)) = i" "asBool (Some (JBool b)) = b"
  using parse_printed[of d]
  by (simp_all add: asDecimal_def json_dec_def parseOrZero_def printable_def asUint_def json_uint_def asInt_def parseSide_def asString_def
      json_side_def asBool_def) (cases s; simp)

text \<open>An object with the given fields, in any order and among others.\<close>

definition has_fields :: "(string \<times> json) list \<Rightarrow> json \<Rightarrow> bool" where
  "has_fields known j \<longleftrightarrow> (\<exists>kvs. j = JObject kvs \<and> (\<forall>(k, v) \<in> set known. map_of kvs k = Some v))"

lemma jfield_known: "has_fields known j \<Longrightarrow> (k, v) \<in> set known \<Longrightarrow> jfield (Some j) k = Some v"
  by (auto simp: has_fields_def jfield_def)

definition venue_cloid :: "cloid option \<Rightarrow> json" where
  "venue_cloid c = (case c of None \<Rightarrow> JNull | Some c \<Rightarrow> JString (cloid_toString c))"

definition sends_order :: "openOrder \<Rightarrow> json \<Rightarrow> bool" where
  "sends_order o' j \<longleftrightarrow> list_all printable [oo_limitPx o', oo_sz o', oo_origSz o', oo_triggerPx o'] \<and>
     (\<exists>d. has_fields [(''coin'', JString (oo_coin o')), (''side'', json_side (oo_side o')), (''limitPx'', json_dec (oo_limitPx o')),
        (''sz'', json_dec (oo_sz o')), (''origSz'', json_dec (oo_origSz o')), (''oid'', json_uint d (oo_oid o')),
        (''timestamp'', JInt (oo_timestampMs o')), (''cloid'', venue_cloid (oo_cloid o')), (''reduceOnly'', JBool (oo_reduceOnly o')),
        (''isTrigger'', JBool (oo_isTrigger o')), (''triggerPx'', json_dec (oo_triggerPx o')), (''orderType'', JString (oo_orderType o')),
        (''tif'', JString (oo_tif o'))] j)"

lemma field_cloid_known: "jfield v ''cloid'' = Some (venue_cloid c) \<Longrightarrow> field_cloid v = c"
  by (cases c) (simp_all add: field_cloid_def venue_cloid_def isString_def cloid_parse_toString)

lemma parseOrder_sent:
  assumes "sends_order o' j"
  shows "parseOrder (Some j) = o'"
proof -
  obtain d where p: "list_all printable [oo_limitPx o', oo_sz o', oo_origSz o', oo_triggerPx o']"
    and f: "has_fields [(''coin'', JString (oo_coin o')), (''side'', json_side (oo_side o')), (''limitPx'', json_dec (oo_limitPx o')),
        (''sz'', json_dec (oo_sz o')), (''origSz'', json_dec (oo_origSz o')), (''oid'', json_uint d (oo_oid o')),
        (''timestamp'', JInt (oo_timestampMs o')), (''cloid'', venue_cloid (oo_cloid o')), (''reduceOnly'', JBool (oo_reduceOnly o')),
        (''isTrigger'', JBool (oo_isTrigger o')), (''triggerPx'', json_dec (oo_triggerPx o')), (''orderType'', JString (oo_orderType o')),
        (''tif'', JString (oo_tif o'))] j" using assms by (auto simp: sends_order_def)
  note k = jfield_known[OF f]
  have "field_cloid (Some j) = oo_cloid o'" by (rule field_cloid_known) (rule k, simp)
  then show ?thesis using p by (simp add: parseOrder_def k)
qed

definition ex_open_order :: openOrder where
  "ex_open_order = \<lparr>oo_coin = ''ETH'', oo_side = Sell, oo_limitPx = Decimal 250000000000, oo_sz = Decimal 50000000, oo_origSz = Decimal 100000000,
     oo_oid = 91, oo_timestampMs = 1700000000000, oo_cloid = Some (Cloid 1 2), oo_reduceOnly = True, oo_isTrigger = False,
     oo_triggerPx = dec_zero, oo_orderType = ''Limit'', oo_tif = ''Alo''\<rparr>"

definition ex_open_json :: json where
  "ex_open_json = JObject [(''tif'', JString ''Alo''), (''orderType'', JString ''Limit''), (''children'', JArray []), (''triggerPx'', json_dec dec_zero),
     (''isTrigger'', JBool False), (''reduceOnly'', JBool True), (''cloid'', JString (cloid_toString (Cloid 1 2))), (''timestamp'', JInt 1700000000000),
     (''oid'', JInt 91), (''origSz'', json_dec (Decimal 100000000)), (''sz'', json_dec (Decimal 50000000)),
     (''limitPx'', json_dec (Decimal 250000000000)), (''side'', JString ''A''), (''coin'', JString ''ETH'')]"

section \<open>Joined tables\<close>

lemma contexts_loop_nth:
  "i < length us \<Longrightarrow> unat index + length us \<le> 2 ^ 32 \<Longrightarrow>
     perp_contexts_loop ctxs index us ! i =
       (let j = unat index + i; p = perp_meta (index + of_nat i) (us ! i) in if j < length ctxs then perp_ctx (ctxs ! j) p else p)"
proof (induction us arbitrary: i index)
  case (Cons u us)
  show ?case
  proof (cases i)
    case (Suc k)
    then have "us \<noteq> []" using Cons.prems(1) by auto
    then have "unat index + 1 < 2 ^ 32" using Cons.prems(2) by (cases us) auto
    then have n: "unat (index + 1) = unat index + 1" by (simp add: unat_word_ariths)
    then show ?thesis using Cons.IH[of k "index + 1"] Cons.prems Suc by (simp add: Let_def add.assoc)
  qed (simp add: Let_def)
qed simp

lemma contexts_loop_length [simp]: "length (perp_contexts_loop ctxs index us) = length us"
  by (induction us arbitrary: index) (simp_all add: Let_def)

text \<open>
  The entries of \<open>metaAndAssetCtxs\<close> are numbered by their position in the universe and joined with the context at the same
  position.
\<close>

lemma perp_contexts_joined:
  assumes "jarray (jfield (Some meta) ''universe'') = us" and "length us \<le> 2 ^ 32" and "i < length us"
  shows "\<exists>ps. perpContexts_root (Some (JArray [meta, JArray cs])) = Inr ps \<and> length ps = length us \<and> pc_asset (ps ! i) = of_nat i \<and>
    ps ! i = (if i < length cs then perp_ctx (Some (cs ! i)) (perp_meta (of_nat i) (us ! i)) else perp_meta (of_nat i) (us ! i))"
proof -
  have asset: "pc_asset (impact_loop n xs p) = pc_asset p" for n xs p by (induction n xs p rule: impact_loop.induct) (simp_all add: Let_def)
  have "perp_contexts_loop (map Some cs) 0 us ! i =
      (if i < length cs then perp_ctx (Some (cs ! i)) (perp_meta (of_nat i) (us ! i)) else perp_meta (of_nat i) (us ! i))"
    using contexts_loop_nth[of i us 0 "map Some cs"] assms(2,3) by (simp add: Let_def)
  then show ?thesis using assms(1) asset by (simp add: perpContexts_root_def isArray_def perp_ctx_def perp_meta_def)
qed

text \<open>An answer is given only for a request that succeeded with a JSON document.\<close>

lemma info_answer_Inr:
  "info_answer parse_json f err resp = Inr x \<longleftrightarrow> err_kind err = NoError \<and> (\<exists>doc. parse_json (http_body resp) = Some doc \<and> f (Some doc) = Inr x)"
  by (auto simp: info_answer_def is_error_def split: option.split)

text \<open>\<open>spotBalances\<close> takes every document for an answer: one without balances is an empty account.\<close>

lemma spotBalances_total: "spotBalances_root (Some (JString s)) = Inr []"
  by (simp add: spotBalances_root_def jfield_def)

section \<open>Properties\<close>

text \<open>
  A listing of open orders arrives as the venue sent it: for a response without error whose body is an array of orders, in
  the venue's notation with the fields in any order and among others, the callback gets exactly those orders.
\<close>

lemma open_orders_decoded:
  assumes "err_kind err = NoError" and "parse_json (http_body resp) = Some (JArray js)" and "list_all2 sends_order os js"
  shows "info_answer parse_json openOrders_root err resp = Inr os"
proof -
  have "map (\<lambda>j. parseOrder (Some j)) js = os" using assms(3) by (induction rule: list_all2_induct) (simp_all add: parseOrder_sent)
  then show ?thesis using assms(1,2) by (simp add: info_answer_def is_error_def openOrders_root_def parse_list_def isArray_def comp_def)
qed

end
