(* ===== verification/HL_Feed.thy ===== *)
theory HL_Feed
  imports HL_Client HL_Decoding
begin

text \<open>
  The private stream, from the bytes of a frame to the order table: \<open>ExchangeClient::onSessionMessage\<close> hands every frame to the
  parser of \<open>HL_Messages\<close>, whose callbacks are the handlers of \<open>HL_Exchange\<close> and \<open>HL_OrderEntry\<close>.

  \<^item> \<open>iterate\<close> and \<open>raw_json\<close> are simdjson's On-Demand reader, \<open>parse_json\<close> and \<open>minify\<close> its DOM reader, as in the theories
    below. \<open>walk\<close> is the order in which the client's table is walked.
  \<^item> No handler of the client changes the parser, so the callbacks of a frame are applied after it was read.
\<close>

section \<open>Handlers\<close>

definition onLiquidation :: "liquidationMsg \<Rightarrow> client \<Rightarrow> client" where
  "onLiquidation m s =
     log_out (HL_ExchangeState.OnLiquidation (lq_lid m, lq_liquidator m, lq_liquidatedUser m, lq_liquidatedNtlPos m, lq_liquidatedAccountValue m)) s"

definition client_onUserFundings :: "userFundingMsg list \<Rightarrow> client \<Rightarrow> client" where
  "client_onUserFundings fs s =
     fold (\<lambda>f. log_out (OnFunding (fu_timeMs f, fu_coin f, fu_usdc f, fu_szi f, fu_rate f))) fs s"

text \<open>The overrides of \<open>WsMessageHandler\<close>; the other callbacks keep their empty bodies.\<close>

fun client_message ::
  "(string \<Rightarrow> json option) \<Rightarrow> (json \<Rightarrow> string) \<Rightarrow> (client \<Rightarrow> cloid list) \<Rightarrow> ws_message \<Rightarrow> client \<Rightarrow> client" where
  "client_message pj mn walk (OnOrderUpdates us) s = onOrderUpdates us s"
| "client_message pj mn walk (OnUserFills m) s = onUserFills m s"
| "client_message pj mn walk (OnPostResponse m) s = onPostResponse pj mn m s"
| "client_message pj mn walk (HL_Messages.OnLiquidation m) s = onLiquidation m s"
| "client_message pj mn walk (OnNonUserCancels cs) s = onNonUserCancels (map (\<lambda>c. (nc_coin c, nc_oid c)) cs) s"
| "client_message pj mn walk (OnUserFundings fs) s = client_onUserFundings fs s"
| "client_message pj mn walk (OnSubscriptionResponse m) s = onSubscriptionResponse (walk s) (sr_subscriptionType m) s"
| "client_message pj mn walk (OnVenueError txt) s = onVenueError txt s"
| "client_message pj mn walk _ s = s"

definition client_onSessionMessage ::
  "(string \<Rightarrow> od option) \<Rightarrow> (od \<Rightarrow> string option) \<Rightarrow> (string \<Rightarrow> json option) \<Rightarrow> (json \<Rightarrow> string) \<Rightarrow> (client \<Rightarrow> cloid list) \<Rightarrow>
   string \<Rightarrow> client \<times> parser_stats \<Rightarrow> client \<times> parser_stats" where
  "client_onSessionMessage iterate raw_json pj mn walk frame sp =
     (case parse_frame iterate raw_json frame (snd sp) of
        (ok, ms, st) \<Rightarrow> (fold (client_message pj mn walk) ms (fst sp), st))"

section \<open>Any frames\<close>

lemma log_fold_tbl [simp]: "tbl (fold (\<lambda>x. log_out (f x)) xs s) = tbl s"
  by (induction xs arbitrary: s) (simp_all add: tbl_def log_out_def)

lemma client_message_steps: "tbl_steps False False (tbl s) (tbl (client_message pj mn walk m s))"
  by (cases m)
    (simp_all add: onOrderUpdates_steps onUserFills_steps onNonUserCancels_steps completions_steps onLiquidation_def client_onUserFundings_def)

lemma client_messages_steps: "tbl_steps False False (tbl s) (tbl (fold (client_message pj mn walk) ms s))"
proof (induction ms arbitrary: s)
  case (Cons m ms)
  show ?case using tbl_steps_trans[OF client_message_steps Cons.IH] by simp
qed simp

lemma frames_steps:
  "tbl_steps False False (tbl (fst sp)) (tbl (fst (fold (client_onSessionMessage it rj pj mn walk) frames sp)))"
proof (induction frames arbitrary: sp)
  case (Cons f fs)
  have "tbl_steps False False (tbl (fst sp)) (tbl (fst (client_onSessionMessage it rj pj mn walk f sp)))"
    by (simp add: client_onSessionMessage_def client_messages_steps split: prod.split)
  then show ?case using tbl_steps_trans[OF _ Cons.IH] by simp
qed simp

lemma dom_step: "tbl_step False rv T T' \<Longrightarrow> dom (fst T) \<subseteq> dom (fst T')"
  by (induction rule: tbl_step.induct) auto

lemma dom_steps: "tbl_steps False rv T T' \<Longrightarrow> dom (fst T) \<subseteq> dom (fst T')"
  unfolding tbl_steps_def by (induction rule: rtranclp_induct) (use dom_step in fastforce)+

section \<open>A cancel by the venue\<close>

text \<open>News about an exchange id that the order has left behind, or that a modify under way will settle.\<close>

definition superseded :: "orderUpdateMsg \<Rightarrow> tracked \<Rightarrow> bool" where
  "superseded u t \<longleftrightarrow> u_oid u \<noteq> 0 \<and> oid_of t \<noteq> 0 \<and> u_oid u \<noteq> oid_of t \<and>
     (u_oid u < oid_of t \<or> u_oid u \<in> set (retiredOids t) \<or> o_modifyPending (t_order t))"

text \<open>A cancel that names the order whose modify is under way waits for the answer to the modify.\<close>

definition awaits_modify :: "orderUpdateMsg \<Rightarrow> tracked \<Rightarrow> bool" where
  "awaits_modify u t \<longleftrightarrow> o_modifyPending (t_order t) \<and> (u_oid u \<noteq> 0 \<or> oid_of t = 0)"

lemma cancel_generation:
  assumes "\<not> superseded u t" and "u_status u = UCanceled"
  shows "\<exists>t' ix'. update_generation u t ix = Some (t', ix') \<and> state_of t' = state_of t \<and> t_emitted t' = t_emitted t \<and>
    (o_modifyPending (t_order t') \<and> u_oid u = o_oid (t_order t') \<longleftrightarrow> awaits_modify u t)"
proof -
  obtain t1 ix1 where so: "setOid (u_oid u) t ix = (t1, ix1)" by (cases "setOid (u_oid u) t ix")
  have "state_of t1 = state_of t" "t_emitted t1 = t_emitted t" "o_modifyPending (t_order t1) = o_modifyPending (t_order t)"
    "u_oid u \<noteq> 0 \<Longrightarrow> o_oid (t_order t1) = u_oid u"
    using so by (auto simp: setOid_def Let_def state_of_def split: if_splits)
  then show ?thesis using assms so
    by (auto simp: update_generation_def superseded_def awaits_modify_def oid_of_def Let_def)
qed

lemma told_canceled:
  assumes "orders s c = Some t" and "\<not> isTerminal (state_of t)" and "e_state (t_emitted t) \<noteq> Canceled"
  shows "\<exists>t'. orders (emit c (upd c (applyVenueStatus UCanceled txt limit z) s)) c = Some t' \<and> state_of t' = Canceled \<and>
    out (emit c (upd c (applyVenueStatus UCanceled txt limit z) s)) = out s @ [OnOrderUpdate (t_order t')]"
proof -
  define t1 where "t1 = applyVenueStatus UCanceled txt limit z t"
  have t1: "state_of t1 = Canceled" "t_emitted t1 = t_emitted t"
    using assms(2) by (auto simp: t1_def applyVenueStatus_def Let_def set_state_def clear_cancelPending_def set_error_def state_of_def)
  have "t_emitted t1 \<noteq> observe (t_order t1)" using t1 assms(3) by (auto simp: observe_def state_of_def)
  then show ?thesis using assms(1) t1(1)
    by (auto simp: upd_def emit_def t1_def[symmetric] log_out_def Let_def state_of_def)
qed

lemma cancel_update:
  assumes "locate (u_cloid u) (u_oid u) s = Some c" and "orders s c = Some t" and "u_status u = UCanceled" and "\<not> superseded u t"
    and "\<not> isTerminal (state_of t)" and "e_state (t_emitted t) \<noteq> Canceled"
  shows "\<exists>t'. orders (onOrderUpdate u s) c = Some t' \<and>
    (if awaits_modify u t then state_of t' = state_of t \<and> canceledDuringModify t' \<and> out (onOrderUpdate u s) = out s
     else state_of t' = Canceled \<and> out (onOrderUpdate u s) = out s @ [OnOrderUpdate (t_order t')])"
proof -
  obtain t1 ix where g: "update_generation u t (oidIndex s) = Some (t1, ix)" "state_of t1 = state_of t" "t_emitted t1 = t_emitted t"
    "o_modifyPending (t_order t1) \<and> u_oid u = o_oid (t_order t1) \<longleftrightarrow> awaits_modify u t"
    using cancel_generation[OF assms(4,3)] by blast
  let ?s = "s\<lparr>orders := (orders s)(c \<mapsto> t1), oidIndex := ix\<rparr>"
  have u: "onOrderUpdate u s = (if awaits_modify u t then upd c (\<lambda>t. t\<lparr>canceledDuringModify := True\<rparr>) ?s
      else emit c (upd c (applyVenueStatus UCanceled (u_statusText u) (u_limitPx u) (u_origSz u)) ?s))"
    using assms(1-3) g(1,4) by (simp add: onOrderUpdate_def Let_def)
  show ?thesis
  proof (cases "awaits_modify u t")
    case True
    then show ?thesis using g(2) by (simp add: u upd_def state_of_def)
  next
    case False
    then show ?thesis using told_canceled[of ?s c t1] g(2,3) assms(5,6) by (simp add: u)
  qed
qed

section \<open>Examples\<close>

lemma ex_seen_listed:
  "\<exists>t. orders ex_seen (Cloid kExternalCloidHigh 77) = Some t \<and> state_of t = Open \<and> oid_of t = 77 \<and> \<not> o_modifyPending (t_order t) \<and>
     e_state (t_emitted t) = Open \<and> oidIndex ex_seen 77 = Some (Cloid kExternalCloidHigh 77)"
  by (simp add: ex_seen_def ex_eval oid_of_def observe_def)

definition ex_cancel_msg :: orderUpdateMsg where
  "ex_cancel_msg = ex_order_update\<lparr>u_status := UCanceled, u_statusText := ''marginCanceled''\<rparr>"

definition ex_cancel_od :: od where
  "ex_cancel_od = OdObject [(Some ''statusTimestamp'', od_time 1700000000001), (Some ''status'', OdString ''marginCanceled''),
     (Some ''order'', OdObject (venue_order ex_cancel_msg))]"

definition ex_cancel_frame :: od where
  "ex_cancel_frame = OdObject [(Some ''channel'', OdString ''orderUpdates''), (Some ''data'', OdArray [Some ex_cancel_od])]"

lemma ex_cancel_sent: "sends_update ex_cancel_msg (Some ex_cancel_od)"
  by (simp add: sends_update_def ex_cancel_od_def ok_update_def ok_decimal_def wf_decimal_def in_i64_def dec_min_def ex_cancel_msg_def ex_order_update_def
      parseOrderUpdateStatus_def holds_def order_keys_def venue_order_def od_cloid_def ends_with_def)

section \<open>Properties\<close>

text \<open>
  C8: whatever frames arrive on the private stream, malformed ones as well, and whatever the JSON reader makes of them: a consistent
  order table stays consistent, no order is lost, and an order in a final state keeps it or turns out to be filled.
\<close>

theorem frames_keep_orders:
  assumes "table_inv (orders s, oidIndex s)" and "fold (client_onSessionMessage it rj pj mn walk) frames (s, st) = (s', st')"
  shows "table_inv (orders s', oidIndex s') \<and> dom (orders s) \<subseteq> dom (orders s') \<and>
    (\<forall>c t. orders s c = Some t \<longrightarrow> isTerminal (state_of t) \<longrightarrow> (\<exists>t'. orders s' c = Some t' \<and> (state_of t' = state_of t \<or> state_of t' = Filled)))"
proof -
  have st: "tbl_steps False False (tbl s) (tbl s')" using frames_steps[of "(s, st)" it rj pj mn walk frames] assms(2) by simp
  have "\<exists>t'. orders s' c = Some t' \<and> (state_of t' = state_of t \<or> state_of t' = Filled)"
    if "orders s c = Some t" "isTerminal (state_of t)" for c t
    using ended_steps[OF st that(2), of c] that(1) by (simp add: ended_def tbl_def)
  then show ?thesis using table_inv_steps[OF st] assms(1) dom_steps[OF st] by (auto simp: tbl_def)
qed

theorem frames_keep_orders_witness:
  "table_inv (orders ex_seen, oidIndex ex_seen) \<and>
   dom (orders ex_seen) \<subseteq> dom (orders (fst (fold (client_onSessionMessage (\<lambda>_. Some ex_cancel_frame) (\<lambda>_. None) (\<lambda>_. None) (\<lambda>_. []) (\<lambda>_. [])) [[], []] (ex_seen, ex_stats))))"
proof -
  have t: "table_inv (orders ex_seen, oidIndex ex_seen)"
    using table_inv_steps[OF handle_steps[of "EOrderUpdates [ex_update]" ex_client]]
    by (simp add: ex_seen_def tbl_def ex_client_fields table_inv_def)
  obtain s' st' where "fold (client_onSessionMessage (\<lambda>_. Some ex_cancel_frame) (\<lambda>_. None) (\<lambda>_. None) (\<lambda>_. []) (\<lambda>_. [])) [[], []] (ex_seen, ex_stats) = (s', st')"
    by fastforce
  from frames_keep_orders[OF t this] t this show ?thesis by simp
qed

text \<open>
  C14: a cancel by the venue gets through. Let a frame of order updates hold, among others, the cancel of a live tracked order
  that its listener was not told of, and let it not be stale: it does not name an exchange id that the order has left behind,
  or a newer one while a modify is under way. Then, after the updates before it, the order is canceled and the listener is
  told exactly that order, and the updates behind it leave it canceled, or filled. When a modify of the order is under way
  the cancel is remembered instead, with the order unchanged and no call, for the answer to the modify to settle.
\<close>

theorem venue_cancel_gets_through:
  assumes "it frame = Some v" and "sends_frame ''orderUpdates'' (OdArray vs) v" and "list_all2 sends_update (before @ u # after) vs"
    and "u_status u = UCanceled" and "s1 = onOrderUpdates before s"
    and "locate (u_cloid u) (u_oid u) s1 = Some c" and "orders s1 c = Some t" and "\<not> superseded u t"
    and "\<not> isTerminal (state_of t)" and "e_state (t_emitted t) \<noteq> Canceled"
  shows "\<exists>s2 t2. client_onSessionMessage it rj pj mn walk frame (s, st) = (onOrderUpdates after s2, st\<lparr>messages := messages st + 1\<rparr>) \<and>
    orders s2 c = Some t2 \<and>
    (if awaits_modify u t then state_of t2 = state_of t \<and> canceledDuringModify t2 \<and> out s2 = out s1
     else state_of t2 = Canceled \<and> out s2 = out s1 @ [OnOrderUpdate (t_order t2)] \<and>
       (\<exists>t3. orders (onOrderUpdates after s2) c = Some t3 \<and> (state_of t3 = Canceled \<or> state_of t3 = Filled)))"
proof -
  let ?s2 = "onOrderUpdate u s1"
  have "parse_frame it rj frame st = (True, [OnOrderUpdates (before @ u # after)], st\<lparr>messages := messages st + 1\<rparr>)"
    using assms(1-3) by (rule updates_decoded)
  then have f: "client_onSessionMessage it rj pj mn walk frame (s, st) = (onOrderUpdates after ?s2, st\<lparr>messages := messages st + 1\<rparr>)"
    using assms(5) by (simp add: client_onSessionMessage_def onOrderUpdates_def)
  obtain t2 where t2: "orders ?s2 c = Some t2"
    "if awaits_modify u t then state_of t2 = state_of t \<and> canceledDuringModify t2 \<and> out ?s2 = out s1
     else state_of t2 = Canceled \<and> out ?s2 = out s1 @ [OnOrderUpdate (t_order t2)]"
    using cancel_update[OF assms(6,7,4,8-10)] by blast
  have "\<exists>t3. orders (onOrderUpdates after ?s2) c = Some t3 \<and> (state_of t3 = state_of t2 \<or> state_of t3 = Filled)" if "isTerminal (state_of t2)"
    using ended_steps[OF onOrderUpdates_steps[where ev = False and rv = False and us = after and s = ?s2] that, of c] t2(1)
    by (simp add: ended_def tbl_def)
  then show ?thesis using f t2 by (intro exI[of _ ?s2] exI[of _ t2]) (auto simp: isTerminal_def)
qed

theorem venue_cancel_gets_through_witness:
  "\<exists>s' t'. client_onSessionMessage (\<lambda>_. Some ex_cancel_frame) (\<lambda>_. None) (\<lambda>_. None) (\<lambda>_. []) (\<lambda>_. []) [] (ex_seen, ex_stats) =
      (s', ex_stats\<lparr>messages := 42\<rparr>) \<and>
     orders s' (Cloid kExternalCloidHigh 77) = Some t' \<and> state_of t' = Canceled \<and> out s' = out ex_seen @ [OnOrderUpdate (t_order t')]"
proof -
  obtain t where t: "orders ex_seen (Cloid kExternalCloidHigh 77) = Some t" "state_of t = Open" "oid_of t = 77" "\<not> o_modifyPending (t_order t)"
    "e_state (t_emitted t) = Open" "oidIndex ex_seen 77 = Some (Cloid kExternalCloidHigh 77)"
    using ex_seen_listed by blast
  have "\<exists>s2 t2. client_onSessionMessage (\<lambda>_. Some ex_cancel_frame) (\<lambda>_. None) (\<lambda>_. None) (\<lambda>_. []) (\<lambda>_. []) [] (ex_seen, ex_stats) =
      (onOrderUpdates [] s2, ex_stats\<lparr>messages := messages ex_stats + 1\<rparr>) \<and> orders s2 (Cloid kExternalCloidHigh 77) = Some t2 \<and>
     (if awaits_modify ex_cancel_msg t then state_of t2 = state_of t \<and> canceledDuringModify t2 \<and> out s2 = out ex_seen
      else state_of t2 = Canceled \<and> out s2 = out ex_seen @ [OnOrderUpdate (t_order t2)] \<and>
        (\<exists>t3. orders (onOrderUpdates [] s2) (Cloid kExternalCloidHigh 77) = Some t3 \<and> (state_of t3 = Canceled \<or> state_of t3 = Filled)))"
    by (rule venue_cancel_gets_through[where u = ex_cancel_msg and vs = "[Some ex_cancel_od]" and before = "[]", OF refl])
      (use t ex_cancel_sent in \<open>simp_all add: sends_frame_def ex_cancel_frame_def ex_cancel_msg_def ex_order_update_def locate_def findByOid_def
        find_order_def isTerminal_def onOrderUpdates_def superseded_def\<close>)
  then show ?thesis using t(4) by (auto simp: ex_stats_def onOrderUpdates_def awaits_modify_def)
qed
end
