(* ===== verification/HL_Wakeup.thy ===== *)
theory HL_Wakeup
  imports HL_EventLoop
begin

text \<open>
  The part of the event loop that other threads use (\<open>src/net/EventLoop.cpp\<close>: \<open>postThreadSafe\<close>, \<open>stop\<close>, \<open>drainWakeups\<close>,
  \<open>runPosted\<close>, \<open>runOnce\<close> and \<open>run\<close>): the list of posted tasks, the stop flag and the wake-up descriptor.

  \<^item> The threads interleave at the accesses of the shared state: the push under the mutex and the store of the flag, the
    write to the descriptor that follows each, the read of the flag, \<open>epoll_wait\<close>, each \<open>read\<close> of the descriptor, and the swap
    under the mutex. \<open>writers\<close> counts the calls that have not yet reached their \<open>write\<close>.
  \<^item> The descriptor is a counter: \<open>write\<close> adds one, \<open>read\<close> takes all, and \<open>epoll_wait\<close> need not return while it is zero.
    It may return without reporting the descriptor at any time (a timer, another descriptor, a signal).
\<close>

section \<open>The loop and its callers\<close>

datatype 'a loop_phase =
    Checking
  | Waiting
  | Dispatching bool
  | Swapping
  | Running "'a list"
  | Returned

record 'a shared_loop =
  posted :: "'a list"
  stop_flag :: bool
  wakeups :: nat
  writers :: nat
  phase :: "'a loop_phase"
  ran :: "'a list"

definition new_loop :: "'a shared_loop" where
  "new_loop = \<lparr>posted = [], stop_flag = False, wakeups = 0, writers = 0, phase = Returned, ran = []\<rparr>"

definition post_push :: "'a \<Rightarrow> 'a shared_loop \<Rightarrow> 'a shared_loop" where
  "post_push task l = l\<lparr>posted := posted l @ [task], writers := writers l + 1\<rparr>"

definition stop_store :: "'a shared_loop \<Rightarrow> 'a shared_loop" where
  "stop_store l = l\<lparr>stop_flag := True, writers := writers l + 1\<rparr>"

definition wake_write :: "'a shared_loop \<Rightarrow> 'a shared_loop" where
  "wake_write l = l\<lparr>writers := writers l - 1, wakeups := wakeups l + 1\<rparr>"

text \<open>The test at the head of the loop of \<open>run\<close>, and its end, which consumes the request to stop.\<close>

definition run_test :: "'a shared_loop \<Rightarrow> 'a shared_loop" where
  "run_test l = (if stop_flag l then l\<lparr>stop_flag := False, phase := Returned\<rparr> else l\<lparr>phase := Waiting\<rparr>)"

definition epoll_returns :: "bool \<Rightarrow> 'a shared_loop \<Rightarrow> 'a shared_loop" where
  "epoll_returns woken l = l\<lparr>phase := Dispatching woken\<rparr>"

text \<open>One turn of the loop of \<open>drainWakeups\<close>.\<close>

definition drain_read :: "'a shared_loop \<Rightarrow> 'a shared_loop" where
  "drain_read l = (if wakeups l > 0 then l\<lparr>wakeups := 0\<rparr> else l\<lparr>phase := Swapping\<rparr>)"

definition swap_posted :: "'a shared_loop \<Rightarrow> 'a shared_loop" where
  "swap_posted l = l\<lparr>posted := [], phase := Running (posted l)\<rparr>"

text \<open>The loop turns by itself; \<open>None\<close> where it waits or has returned.\<close>

fun loop_turn :: "'a shared_loop \<Rightarrow> 'a shared_loop option" where
  "loop_turn l =
     (case phase l of
        Checking \<Rightarrow> Some (run_test l)
      | Waiting \<Rightarrow> if wakeups l > 0 then Some (epoll_returns True l) else None
      | Dispatching woken \<Rightarrow> Some (if woken then drain_read l else l\<lparr>phase := Swapping\<rparr>)
      | Swapping \<Rightarrow> Some (swap_posted l)
      | Running [] \<Rightarrow> Some (l\<lparr>phase := Checking\<rparr>)
      | Running (t # ts) \<Rightarrow> Some (l\<lparr>ran := ran l @ [t], phase := Running ts\<rparr>)
      | Returned \<Rightarrow> None)"

declare loop_turn.simps [simp del]

text \<open>Runs, with the tasks that were posted, in the order of their pushes.\<close>

inductive loop_run :: "'a list \<Rightarrow> 'a shared_loop \<Rightarrow> bool" where
  created: "loop_run [] new_loop"
| called: "loop_run ts l \<Longrightarrow> phase l = Returned \<Longrightarrow> loop_run ts (l\<lparr>phase := Checking\<rparr>)"
| pushed: "loop_run ts l \<Longrightarrow> loop_run (ts @ [t]) (post_push t l)"
| stopped: "loop_run ts l \<Longrightarrow> loop_run ts (stop_store l)"
| written: "loop_run ts l \<Longrightarrow> writers l > 0 \<Longrightarrow> loop_run ts (wake_write l)"
| turned: "loop_run ts l \<Longrightarrow> loop_turn l = Some l' \<Longrightarrow> loop_run ts l'"
| other: "loop_run ts l \<Longrightarrow> phase l = Waiting \<Longrightarrow> loop_run ts (epoll_returns False l)"

section \<open>Wake-ups\<close>

lemmas loop_defs = new_loop_def post_push_def stop_store_def wake_write_def run_test_def epoll_returns_def drain_read_def swap_posted_def

definition in_hand :: "'a shared_loop \<Rightarrow> 'a list" where
  "in_hand l = (case phase l of Running ts \<Rightarrow> ts | _ \<Rightarrow> [])"

definition awake :: "'a shared_loop \<Rightarrow> bool" where
  "awake l \<longleftrightarrow> 0 < wakeups l \<or> 0 < writers l"

definition loop_ok :: "'a list \<Rightarrow> 'a shared_loop \<Rightarrow> bool" where
  "loop_ok ts l \<longleftrightarrow> ts = ran l @ in_hand l @ posted l \<and>
     (phase l = Waiting \<longrightarrow> stop_flag l \<longrightarrow> awake l) \<and>
     (case phase l of Dispatching woken \<Rightarrow> woken \<or> (posted l \<noteq> [] \<longrightarrow> awake l) | Swapping \<Rightarrow> True | _ \<Rightarrow> posted l \<noteq> [] \<longrightarrow> awake l)"

lemma turn_ok: "loop_ok ts l \<Longrightarrow> loop_turn l = Some l' \<Longrightarrow> loop_ok ts l'"
  by (cases "phase l")
    (auto simp: loop_ok_def loop_turn.simps loop_defs in_hand_def awake_def split: if_splits list.splits loop_phase.splits)

lemma loop_run_ok: "loop_run ts l \<Longrightarrow> loop_ok ts l"
proof (induction rule: loop_run.induct)
  case (turned ts l l')
  then show ?case using turn_ok by blast
qed (auto simp: loop_ok_def loop_defs in_hand_def awake_def split: loop_phase.splits)

section \<open>Running on\<close>

text \<open>The turns that the loop takes by itself.\<close>

fun loop_turns :: "nat \<Rightarrow> 'a shared_loop \<Rightarrow> 'a shared_loop" where
  "loop_turns 0 l = l"
| "loop_turns (Suc n) l = (case loop_turn l of None \<Rightarrow> l | Some l' \<Rightarrow> loop_turns n l')"

lemma loop_turns_add: "loop_turns n l = l' \<Longrightarrow> \<exists>k. loop_turns k l' = l'' \<Longrightarrow> \<exists>k. loop_turns k l = l''"
proof (induction n arbitrary: l)
  case (Suc n)
  show ?case
  proof (cases "loop_turn l")
    case (Some m)
    then obtain k where "loop_turns k m = l''" using Suc.IH[of m] Suc.prems by auto
    then show ?thesis using Some by (intro exI[of _ "Suc k"]) simp
  qed (use Suc.prems in auto)
qed auto

lemma turns_one: "loop_turn l = Some l' \<Longrightarrow> \<exists>k. loop_turns k l' = l'' \<Longrightarrow> \<exists>k. loop_turns k l = l''"
  using loop_turns_add[of 1 l l'] by simp

lemma running_out:
  "phase l = Running ts \<Longrightarrow> \<exists>n. loop_turns n l = l\<lparr>ran := ran l @ ts, phase := Checking\<rparr>"
proof (induction ts arbitrary: l)
  case Nil
  then show ?case by (intro exI[of _ 1]) (simp add: loop_turn.simps)
next
  case (Cons t ts)
  then show ?case using turns_one[of l] Cons.IH[of "l\<lparr>ran := ran l @ [t], phase := Running ts\<rparr>"]
    by (auto simp: loop_turn.simps)
qed

lemma waiting_runs_posted:
  assumes "phase l = Waiting" and "0 < wakeups l"
  shows "\<exists>n. loop_turns n l = l\<lparr>ran := ran l @ posted l, posted := [], wakeups := 0, phase := Checking\<rparr>"
proof -
  let ?d = "l\<lparr>phase := Dispatching True\<rparr>"
  let ?e = "l\<lparr>phase := Dispatching True, wakeups := 0\<rparr>"
  let ?w = "l\<lparr>phase := Swapping, wakeups := 0\<rparr>"
  let ?r = "l\<lparr>phase := Running (posted l), wakeups := 0, posted := []\<rparr>"
  have "loop_turn l = Some ?d" "loop_turn ?d = Some ?e" "loop_turn ?e = Some ?w" "loop_turn ?w = Some ?r"
    using assms by (simp_all add: loop_turn.simps loop_defs)
  moreover obtain n where "loop_turns n ?r = ?r\<lparr>ran := ran ?r @ posted l, phase := Checking\<rparr>" using running_out[of ?r "posted l"] by auto
  ultimately show ?thesis by (intro turns_one[of l ?d] turns_one[of ?d ?e] turns_one[of ?e ?w] turns_one[of ?w ?r]) (auto intro!: exI[of _ n])
qed

section \<open>Properties\<close>

text \<open>
  C19: no posted task is lost, run twice or overtaken, and no wake-up is missed: in every interleaving the tasks that were posted are
  those that ran, those in hand and those still listed, in that order; and when the loop waits although a task is listed or a stop
  was asked for, and every caller has finished, the loop by itself runs all listed tasks and then sees the request to stop.
\<close>

theorem posted_tasks_run:
  assumes "loop_run ts l" and "phase l = Waiting" and "writers l = 0" and "posted l \<noteq> [] \<or> stop_flag l"
  shows "ts = ran l @ posted l \<and>
    (\<exists>n. loop_turns n l = l\<lparr>ran := ts, posted := [], wakeups := 0, phase := Checking\<rparr>) \<and>
    (stop_flag l \<longrightarrow> (\<exists>n. phase (loop_turns n l) = Returned))"
proof -
  have ok: "loop_ok ts l" by (rule loop_run_ok[OF assms(1)])
  then have w: "0 < wakeups l" "ts = ran l @ posted l"
    using assms(2-4) by (auto simp: loop_ok_def awake_def in_hand_def)
  obtain n where n: "loop_turns n l = l\<lparr>ran := ts, posted := [], wakeups := 0, phase := Checking\<rparr>"
    using waiting_runs_posted[OF assms(2) w(1)] w(2) by auto
  have "\<exists>k. loop_turns k l = l\<lparr>ran := ts, posted := [], wakeups := 0, phase := Returned, stop_flag := False\<rparr>" if "stop_flag l"
    by (rule loop_turns_add[OF n], rule exI[of _ 1]) (simp add: loop_turn.simps run_test_def that)
  then have "stop_flag l \<Longrightarrow> \<exists>k. phase (loop_turns k l) = Returned" by (metis shared_loop.select_convs(5) shared_loop.surjective shared_loop.update_convs(5) shared_loop.update_convs(2))
  with n w(2) show ?thesis by blast
qed

theorem posted_tasks_run_witness:
  "\<exists>l. loop_run [''a'', ''b''] l \<and> phase l = Waiting \<and> writers l = 0 \<and> posted l = [''a'', ''b''] \<and>
     (\<exists>n. ran (loop_turns n l) = [''a'', ''b'']) \<and> (\<exists>n. phase (loop_turns n l) = Returned)"
proof -
  let ?w = "new_loop\<lparr>phase := Waiting\<rparr> :: string shared_loop"
  let ?p = "stop_store (post_push ''b'' (post_push ''a'' ?w))"
  let ?l = "wake_write (wake_write (wake_write ?p))"
  have "loop_run [] ?w"
    using loop_run.turned[OF loop_run.called[OF loop_run.created], of ?w] by (simp add: loop_turn.simps loop_defs)
  from loop_run.stopped[OF loop_run.pushed[OF loop_run.pushed[OF this]]] have "loop_run [''a'', ''b''] ?p" by simp
  then have r: "loop_run [''a'', ''b''] ?l" by (rule loop_run.written[OF loop_run.written[OF loop_run.written], simplified]) (simp_all add: loop_defs)
  have l: "phase ?l = Waiting" "writers ?l = 0" "posted ?l = [''a'', ''b'']" "stop_flag ?l" by (simp_all add: loop_defs)
  define l where "l = ?l"
  have p: "loop_run [''a'', ''b''] l" "phase l = Waiting" "writers l = 0" "posted l = [''a'', ''b'']" "stop_flag l"
    unfolding l_def using r l by blast+
  have "posted l \<noteq> [] \<or> stop_flag l" using p(5) by blast
  note q = posted_tasks_run[OF p(1-3) this]
  obtain n where n: "loop_turns n l = l\<lparr>ran := [''a'', ''b''], posted := [], wakeups := 0, phase := Checking\<rparr>" using q by blast
  have "ran (loop_turns n l) = [''a'', ''b'']" unfolding n by simp
  moreover have "\<exists>n. phase (loop_turns n l) = Returned" using q p(5) by blast
  ultimately show ?thesis using p(1-4) by blast
qed

end
