(* ===== verification/Spec2Isabelle.thy ===== *)
theory Spec2Isabelle
  imports HL_OrderBook HL_Client HL_WsCodec HL_HttpRuns HL_Signer HL_SessionRuns HL_MarketData HL_Info HL_Feed HL_Wakeup
begin

text \<open>
  Verification of the Hyperliquid C++ connector (\<open>include/hl\<close> and \<open>src\<close> of the repository): the client library through
  which a trading program receives market data from the venue and sends it signed orders.

  \<^bold>\<open>The program.\<close> One thread runs an event loop with timers. On it live streams (sockets with TLS), and on these an HTTP
  client (one request at a time on a kept-alive connection) and a WebSocket client. A session wraps the WebSocket client:
  it reconnects with backoff, sends heartbeats and replays the subscriptions. The market-data client decodes the frames of
  a session and maintains order books; the exchange client builds actions in two encodings, has them signed, sends them
  through a session or through HTTP, and merges acknowledgements, order updates, fills and queries of the read-only endpoint
  into a table of orders. Callbacks run on the loop and may call the component that called them.

  \<^bold>\<open>Theories and sources.\<close> Each theory opens with what it holds; a definition has the name of the function it translates, with
  a prefix where names clash. A class is a \<open>record\<close>, a method a function on it.
  \<^item> \<open>HL_Prelude\<close>: machine integers, digits, and the shared lemmas and collections.
  \<^item> \<open>HL_Decimal\<close>: \<open>core/Decimal\<close>, fixed-point numbers. \<open>HL_Double\<close>: IEEE \<open>double\<close> and the conversions. \<open>HL_Types\<close>: \<open>core/Types.h\<close>, \<open>core/Hex\<close>, \<open>core/Result.h\<close>.
    \<open>HL_Json\<close>: the accessors of \<open>json/Json.h\<close>.
  \<^item> \<open>HL_OrderBook\<close>: \<open>md/OrderBook\<close>. \<open>HL_Messages\<close>, \<open>HL_Decoding\<close>: \<open>WsMessages.h\<close> and \<open>WsMessageParser\<close>, the readers of
    every channel and what they promise. \<open>HL_MarketData\<close>: \<open>md/MarketDataClient\<close>.
  \<^item> \<open>HL_Assets\<close>: \<open>om/AssetRegistry\<close>, rounding rules and asset tables. \<open>HL_MsgPack\<close>: \<open>om/MsgPack.h\<close>. \<open>HL_Actions\<close>:
    \<open>om/Actions\<close>, the builders, the nonces and the request builder. \<open>HL_Response\<close>: \<open>om/ExchangeResponse\<close>. \<open>HL_Info\<close>:
    \<open>om/InfoClient\<close>.
  \<^item> \<open>om/ExchangeClient\<close>: \<open>HL_Orders\<close> (the state machine of one order), \<open>HL_ExchangeState\<close> (the state and its bookkeeping),
    \<open>HL_Exchange\<close> (updates, fills, reconciliation, transport, readiness), \<open>HL_OrderEntry\<close> (placing, canceling, amending),
    \<open>HL_OrderTable\<close> (what may happen to the order table), \<open>HL_Requests\<close> (requests in flight, fills seen, readiness),
    \<open>HL_Events\<close> (all events of a client), \<open>HL_Client\<close> (its properties), \<open>HL_Feed\<close> (the private stream, from a frame to the table).
  \<^item> \<open>HL_EventLoop\<close>, \<open>HL_Wakeup\<close>: \<open>net/EventLoop\<close>, its timers and descriptors, and what other threads do to it. \<open>HL_Tls\<close>: \<open>net/TlsStream\<close>. \<open>HL_Http\<close>: \<open>net/Url\<close> and \<open>net/HttpCodec\<close>. \<open>HL_HttpClient\<close>,
    \<open>HL_HttpRuns\<close>: \<open>net/HttpClient\<close>. \<open>HL_WsCodec\<close>: \<open>net/WsCodec\<close>. \<open>HL_WsClient\<close>: \<open>net/WebSocketClient\<close>. \<open>HL_Session\<close>,
    \<open>HL_SessionRuns\<close>: \<open>net/WsSession\<close>.
  \<^item> \<open>HL_Scalar\<close>: \<open>crypto/Scalar.h\<close>. \<open>HL_Keccak\<close>: \<open>crypto/Keccak\<close>. \<open>HL_Signer\<close>: \<open>crypto/Signer\<close>.
  \<^item> This theory: what spans the answers of the read-only endpoint and the order table.

  \<^bold>\<open>What is shown.\<close>
  \<^item> Books: in every run of a book, and for every book that the market-data client hands to a listener, the sides are sorted,
    bounded and do not cross, as long as the snapshots of the venue are so; a freed book is handed out only after an
    unsubscribe. A top-of-book update refines the specification on lists of levels. Every decoded message is forwarded once.
  \<^item> Orders: the invariants of the order table in every reachable client, terminal orders stay as they are, replayed fills
    count once, a batch is placed whole or not at all, every action calls back once, and readiness implies loaded state and,
    when it is reached, an open and acknowledged session. No frame, malformed or not, harms the table, and a cancel by the
    venue gets from the frame to the listener, or waits for a modify that is under way.
  \<^item> Encodings: both encodings of every action denote the same value, MessagePack and decimal texts are read back, nonces
    increase strictly, the frames of the private stream and the answers of the read-only endpoint decode to what the venue
    sent, in whatever order the fields come.
  \<^item> Cryptography: the limb arithmetic is arithmetic modulo the group order, the unrolled Keccak is the sponge of its
    specification, a signature from a pooled nonce satisfies the equation of ECDSA, no nonce is handed out twice, the digest is that of EIP-712.
  \<^item> Network: frames and responses decode alike however the bytes are cut (responses with a head of at most 64 KiB), a stream
    keeps the order of its bytes, requests are called back once and in order. Between two turns of the loop a queue of requests
    waits for an armed timer, and a session for a timer or for the socket on which it connects or upgrades; both but for a
    stream that closed without a callback while connecting. The delays between reconnects double whatever fails, and an opening
    connection gets its subscriptions back when the stream takes them. Due timers run once and in order, no task that a
    thread posts is lost, and no wake-up is missed.
  \<^item> Three theorems show where the code falls short of what it means to do: no timer ends the wait of a session for an upgrade
    that the server does not answer; answers that are no order status reject an order; a listener that unsubscribes in
    \<open>onL2Book\<close> gets a freed book.

  \<^bold>\<open>Interfaces.\<close> \<open>keyed_table\<close> (the asset registry), \<open>side_store\<close> (the levels of one side of a book), \<open>field_reader\<close> (readers of
  JSON objects, five instances) and \<open>bounded_queue\<close> (the nonce pool) are locales, interpreted on the definitions of the code.

  \<^bold>\<open>Calls that come back.\<close> A method of the stream, the HTTP client, the WebSocket client, the session or the market-data client
  runs to the next call that may come back to it; the rest of it is an entry on a stack of calls, and a run (\<open>tls_run\<close>,
  \<open>http_run\<close>, \<open>ses_run\<close>, \<open>md_run\<close>) interleaves the entries with any calls of the listener and any events of the loop. Invariants are
  proved by induction on these runs, so they hold inside callbacks as well.

  \<^bold>\<open>Loops.\<close> Loops that need not end are partial functions whose value is \<open>None\<close> then: \<open>runTimers\<close> (a task may add a timer that is
  due), \<open>feed_loop\<close> (a sink may feed more) and \<open>pow2_loop\<close> (the doubling wraps above \<open>2 ^ 63\<close>). The properties about them show that
  they return. The two readers of the specification, \<open>mp_decode\<close> and the reader of JSON texts, have the nesting depth as fuel;
  the round trip has the depth of the value as fuel, and 7 is enough for every action. All other loops are total functions.

  \<^bold>\<open>Parameters.\<close> Code that is not in the repository is an argument: simdjson (\<open>parse_json\<close>, \<open>minify\<close>, \<open>iterate\<close>, \<open>raw_json\<close>),
  libsecp256k1 and OpenSSL (the public key, the deterministic signature, HMAC, SHA1, random bytes), and the results of system
  calls, which are the environment of a step. That the order of the group is prime enters the signature theorem as a hypothesis,
  Fermat's little theorem for the nonce.

  \<^bold>\<open>Not modelled.\<close>
  \<^item> Logging, \<open>Int128\<close> (a type name) and \<open>spreadBps\<close> (for display). A double is a rational here, without infinities and NaN; a JSON
    number that is no integer carries the result of its conversion.
  \<^item> \<open>epoll\<close>, clocks, the SSL context, the refill thread as such: system calls; their effects are inputs.
  \<^item> A listener of the exchange client that calls back while it is notified; the buffers that the parser reuses, and what a
    callback does to a frame that is still being decoded (a frame is decoded before its messages are handled).
  \<^item> Failing allocations, such as the \<open>reserve\<close> of a huge \<open>Content-Length\<close>; the overflow of a reconnect delay near \<open>2 ^ 63\<close>
    milliseconds, which is an unbounded integer here.
  \<^item> The example programs (printing, command lines and a strategy computed in \<open>double\<close>), the benchmarks and the tests.
\<close>

section \<open>Order status answers and tracked orders\<close>

lemma foreign_status:
  "asString (jfield (Some doc) ''status'') \<noteq> ''order'' \<Longrightarrow> \<exists>i. parseOrderStatus (Some doc) = Inr i \<and> \<not> osi_found i"
  by (simp add: parseOrderStatus_def Let_def)

text \<open>
  C38: every JSON document that is not an order status counts as the answer that the venue does not know the order: four
  such answers in a row, an empty array or the description of an error as well, reject an order that waits for its
  acknowledgement.
\<close>

theorem foreign_answers_reject_order:
  assumes "orders s c = Some t" and "state_of t = PendingNew" and "notFoundProbes t = 0"
    and "parse_json (http_body resp) = Some doc" and "asString (jfield (Some doc) ''status'') \<noteq> ''order''"
  shows "\<exists>t'. orders ((onOrderStatus c (info_answer parse_json parseOrderStatus no_error resp) ^^ (kNotFoundProbes + 1)) s) c = Some t' \<and>
    state_of t' = Rejected"
proof -
  obtain i where "parseOrderStatus (Some doc) = Inr i" "\<not> osi_found i" using foreign_status[OF assms(5)] by blast
  moreover have "info_answer parse_json parseOrderStatus no_error resp = parseOrderStatus (Some doc)"
    using assms(4) by (simp add: info_answer_def is_error_def no_error_def mk_error_def)
  ultimately show ?thesis using missing_order_rejected_after_probes[OF assms(1-3), of i] by auto
qed

theorem foreign_answers_reject_order_witness:
  "\<exists>t'. orders ((onOrderStatus (Cloid 7 1) (info_answer (\<lambda>_. Some (JArray [])) parseOrderStatus no_error no_response) ^^ (kNotFoundProbes + 1))
      (track (Cloid 7 1) HL_Client.ex_client)) (Cloid 7 1) = Some t' \<and> state_of t' = Rejected"
proof (rule foreign_answers_reject_order[where doc = "JArray []"])
  show "orders (track (Cloid 7 1) HL_Client.ex_client) (Cloid 7 1) = Some (mod_order (\<lambda>o'. o'\<lparr>o_cloid := Cloid 7 1\<rparr>) default_tracked)"
    by (simp add: track_def ex_client_fields)
qed (simp_all add: default_tracked_def default_order_def state_of_def jfield_def)

end
